(* ===== verification/Prelude.thy ===== *)
theory Prelude
  imports Main "HOL-Library.Word" "HOL-Library.AList" "HOL-Library.Multiset"
begin

text \<open>
  Shared vocabulary of the development: the machine types, Go's run-time failures as values,
  Go maps as association lists, the doubly linked lists of \<^verbatim>\<open>container/list\<close> used as LRU queues,
  loops that may fail, and the sums over finite maps in which all counter invariants are stated.
\<close>

section \<open>Collections of facts\<close>

text \<open>
  Definitions that the proofs of a component unfold together: the places of a buffer that circulates
  through the shared memory, the parts of an agent process, and the step of the coordinator's
  specification for a trigger that an agent reports.
\<close>

named_theorems circulation_defs
named_theorems process_defs
named_theorems sp_report_defs

section \<open>Types\<close>

type_synonym u64 = "64 word"

text \<open>
  Instants, in nanoseconds since Go's zero \<^verbatim>\<open>time.Time\<close>, and durations, in nanoseconds. The difference
  of two instants saturates at the range of \<^verbatim>\<open>time.Duration\<close>, a 64-bit integer.
\<close>

type_synonym time = int

definition time_sub :: "time \<Rightarrow> time \<Rightarrow> time" where
  "time_sub a b = max (- (2 ^ 63)) (min (2 ^ 63 - 1) (a - b))"

text \<open>\<^verbatim>\<open>TriggerID\<close>, which the agent and the coordinator declare alike.\<close>

record TriggerID =
  queue_id :: int
  base_trace_id :: u64

text \<open>\<^verbatim>\<open>memory.Trigger\<close>: one trace of a trigger.\<close>

record mem_Trigger =
  Queue_id :: int
  Base_trace_id :: u64
  Trace_id :: u64

text \<open>Breadcrumbs by trace, \<^verbatim>\<open>map[uint64][]string\<close>.\<close>

type_synonym crumb_map = "(u64 \<times> string list) list"

text \<open>
  The ways a Go call of this program can fail to return: an index past the end of a slice, a nil
  pointer, a pointer to an object that is no longer registered, the exhausted stack of an unbounded
  recursion, a loop that does not end, an integer division by zero, and \<^verbatim>\<open>log.Fatal\<close> with its message.
\<close>

datatype go_error =
    IndexOutOfRange
  | NilDereference
  | DanglingPointer
  | StackOverflow
  | NonTermination
  | DivisionByZero
  | LogFatal string

type_synonym 'a res = "go_error + 'a"

definition bind_res :: "'a res \<Rightarrow> ('a \<Rightarrow> 'b res) \<Rightarrow> 'b res" where
  "bind_res m k = (case m of Inl e \<Rightarrow> Inl e | Inr a \<Rightarrow> k a)"

lemma bind_res_simps [simp]:
  "bind_res (Inl e) k = Inl e"
  "bind_res (Inr a) k = k a"
  by (simp_all add: bind_res_def)

lemma bind_res_eq_Inr [simp]:
  "bind_res m k = Inr b \<longleftrightarrow> (\<exists>a. m = Inr a \<and> k a = Inr b)"
  by (cases m) simp_all

text \<open>\<open>yields m P\<close>: the call returns, and its result satisfies \<open>P\<close>.\<close>

definition yields :: "'a res \<Rightarrow> ('a \<Rightarrow> bool) \<Rightarrow> bool" where
  "yields m P \<longleftrightarrow> (\<exists>a. m = Inr a \<and> P a)"

lemma yields_simps [simp]:
  "yields (Inr a) P \<longleftrightarrow> P a"
  "\<not> yields (Inl e) P"
  by (simp_all add: yields_def)

lemma yieldsE: "yields m P \<Longrightarrow> (\<And>a. m = Inr a \<Longrightarrow> P a \<Longrightarrow> thesis) \<Longrightarrow> thesis"
  by (auto simp: yields_def)

lemma yields_bind: "yields m P \<Longrightarrow> (\<And>a. P a \<Longrightarrow> yields (k a) Q) \<Longrightarrow> yields (bind_res m k) Q"
  by (auto simp: yields_def)

lemma yields_mono: "yields m P \<Longrightarrow> (\<And>a. P a \<Longrightarrow> Q a) \<Longrightarrow> yields m Q"
  by (auto simp: yields_def)

text \<open>Go's integer division truncates towards zero.\<close>

definition go_div :: "int \<Rightarrow> int \<Rightarrow> int" where
  "go_div a b = sgn a * sgn b * (\<bar>a\<bar> div \<bar>b\<bar>)"

lemma go_div_nonneg [simp]: "0 \<le> a \<Longrightarrow> 0 < b \<Longrightarrow> go_div a b = a div b"
  by (cases "a = 0") (simp_all add: go_div_def)

section \<open>Loops over slices and over the keys of maps\<close>

text \<open>\<open>foreach\<close> runs a body for its effect, \<open>collect\<close> also concatenates the slices it returns.\<close>

fun foreach :: "('k \<Rightarrow> 's \<Rightarrow> 's res) \<Rightarrow> 'k list \<Rightarrow> 's \<Rightarrow> 's res" where
  "foreach body [] s = Inr s"
| "foreach body (k # ks) s = bind_res (body k s) (foreach body ks)"

fun collect :: "('k \<Rightarrow> 's \<Rightarrow> ('a list \<times> 's) res) \<Rightarrow> 'k list \<Rightarrow> 's \<Rightarrow> ('a list \<times> 's) res" where
  "collect body [] s = Inr ([], s)"
| "collect body (k # ks) s =
     bind_res (body k s) (\<lambda>(xs, s1).
     bind_res (collect body ks s1) (\<lambda>(ys, s2). Inr (xs @ ys, s2)))"

text \<open>
  The order in which \<^verbatim>\<open>range\<close> visits a Go map is not specified. It is a parameter of the model: a
  function that permutes the keys, about which nothing else is assumed.
\<close>

definition key_order :: "('k list \<Rightarrow> 'k list) \<Rightarrow> bool" where
  "key_order ord \<longleftrightarrow> (\<forall>ks. mset (ord ks) = mset ks)"

lemma key_order_set: "key_order ord \<Longrightarrow> set (ord ks) = set ks"
  by (metis key_order_def mset_eq_setD)

lemma key_order_distinct: "key_order ord \<Longrightarrow> distinct (ord ks) = distinct ks"
  by (metis key_order_def mset_eq_imp_distinct_iff)

lemma key_order_length: "key_order ord \<Longrightarrow> length (ord ks) = length ks"
  by (metis key_order_def size_mset)

lemma key_order_id [simp]: "key_order (\<lambda>ks. ks)"
  by (simp add: key_order_def)

lemma key_order_rev [simp]: "key_order rev"
  by (simp add: key_order_def)

section \<open>Linked lists used as LRU queues\<close>

text \<open>
  A \<^verbatim>\<open>list.List\<close> holds each object at most once, so an element is identified with the object it
  carries: \<open>lru_remove\<close> is \<^verbatim>\<open>Remove\<close>, \<open>lru_move_front\<close> is \<^verbatim>\<open>MoveToFront\<close> (both leave a list alone
  that does not hold the element), \<open>lru_back\<close> is \<^verbatim>\<open>Back().Value\<close>, which fails on an empty list.
\<close>

definition lru_remove :: "'a \<Rightarrow> 'a list \<Rightarrow> 'a list" where
  "lru_remove x l = remove1 x l"

definition lru_move_front :: "'a \<Rightarrow> 'a list \<Rightarrow> 'a list" where
  "lru_move_front x l = (if x \<in> set l then x # remove1 x l else l)"

definition lru_back :: "'a list \<Rightarrow> 'a res" where
  "lru_back l = (if l = [] then Inl NilDereference else Inr (last l))"

lemma set_lru_remove [simp]: "distinct l \<Longrightarrow> set (lru_remove x l) = set l - {x}"
  by (simp add: lru_remove_def)

lemma distinct_lru_remove [simp]: "distinct l \<Longrightarrow> distinct (lru_remove x l)"
  by (simp add: lru_remove_def)

lemma length_lru_remove: "x \<in> set l \<Longrightarrow> Suc (length (lru_remove x l)) = length l"
  using length_pos_if_in_set [of x l] by (simp add: lru_remove_def length_remove1)

lemma lru_remove_last: "distinct l \<Longrightarrow> l \<noteq> [] \<Longrightarrow> lru_remove (last l) l = butlast l"
  by (induction l) (auto simp: lru_remove_def)

lemma set_lru_move_front [simp]: "distinct l \<Longrightarrow> set (lru_move_front x l) = set l"
  by (auto simp: lru_move_front_def)

lemma distinct_lru_move_front [simp]: "distinct l \<Longrightarrow> distinct (lru_move_front x l)"
  by (auto simp: lru_move_front_def)

lemma length_lru_move_front [simp]: "length (lru_move_front x l) = length l"
  using length_pos_if_in_set [of x l] by (simp add: lru_move_front_def length_remove1)

section \<open>Maps\<close>

declare update_conv' [simp] delete_conv' [simp]

text \<open>The sum of a quantity over the entries of a finite map.\<close>

definition msum :: "('k \<Rightarrow> 'v \<Rightarrow> 'c::comm_monoid_add) \<Rightarrow> ('k \<rightharpoonup> 'v) \<Rightarrow> 'c" where
  "msum g m = (\<Sum>k\<in>dom m. g k (the (m k)))"

lemma msum_empty [simp]: "msum g Map.empty = 0"
  by (simp add: msum_def)

lemma msum_new:
  assumes "finite (dom m)" and "m x = None"
  shows "msum g (m(x \<mapsto> v)) = g x v + msum g m"
proof -
  have "x \<notin> dom m" using assms by auto
  then have "msum g (m(x \<mapsto> v)) = g x v + (\<Sum>k\<in>dom m. g k (the ((m(x \<mapsto> v)) k)))"
    using assms by (simp add: msum_def)
  also have "(\<Sum>k\<in>dom m. g k (the ((m(x \<mapsto> v)) k))) = msum g m"
    unfolding msum_def using \<open>x \<notin> dom m\<close> by (intro sum.cong) auto
  finally show ?thesis .
qed

lemma msum_del:
  assumes "finite (dom m)" and "m x = Some u"
  shows "msum g m = g x u + msum g (m(x := None))"
proof -
  have "m(x \<mapsto> u) = m" using assms(2) by auto
  then show ?thesis using msum_new [of "m(x := None)" x g u] assms(1) by simp
qed

lemma msum_upd:
  assumes "finite (dom m)" and "m x = Some u"
  shows "msum g (m(x \<mapsto> v)) + g x u = msum g m + g x v"
proof -
  have "msum g (m(x \<mapsto> v)) = g x v + msum g (m(x := None))"
    using msum_new [of "m(x := None)" x g v] assms by simp
  then show ?thesis using msum_del [OF assms, of g] by (simp add: ac_simps)
qed

text \<open>A map changes at one key, in whatever way.\<close>

lemma msum_point:
  assumes "finite (dom m)"
  shows "msum (\<lambda>_. g) (m(x := u)) + (case m x of None \<Rightarrow> 0 | Some v \<Rightarrow> g v)
       = msum (\<lambda>_. g) m + (case u of None \<Rightarrow> 0 | Some v \<Rightarrow> g v)"
proof (cases u)
  case None
  then show ?thesis
    using msum_del [OF assms, of x _ "\<lambda>_. g"] by (cases "m x") (auto simp: fun_upd_idem ac_simps)
next
  case (Some v)
  then show ?thesis
    using msum_new [OF assms, of x "\<lambda>_. g" v] msum_upd [OF assms, of x _ "\<lambda>_. g" v]
    by (cases "m x") (auto simp: ac_simps)
qed

lemma msum_cong: "(\<And>k v. m k = Some v \<Longrightarrow> g k v = h k v) \<Longrightarrow> msum g m = msum h m"
  unfolding msum_def by (rule sum.cong) auto

lemma msum_nonneg:
  "(\<And>k v. m k = Some v \<Longrightarrow> 0 \<le> g k v) \<Longrightarrow> (0::int) \<le> msum g m"
  unfolding msum_def by (rule sum_nonneg) auto

lemma msum_member_le:
  assumes "finite (dom m)" and "m x = Some u" and "\<And>k v. m k = Some v \<Longrightarrow> 0 \<le> g k v"
  shows "g x u \<le> (msum g m :: int)"
proof -
  have "0 \<le> msum g (m(x := None))"
    using assms(3) by (intro msum_nonneg) (auto split: if_splits)
  then show ?thesis using msum_del [OF assms(1,2), of g] by simp
qed

text \<open>A sum over a finite set when the summand changes at one point.\<close>

lemma sum_point_upd:
  fixes h :: "'a \<Rightarrow> int"
  assumes "finite A" and "\<And>k. k \<in> A \<Longrightarrow> k \<noteq> x \<Longrightarrow> h' k = h k"
  shows "(\<Sum>k\<in>A. h' k) = (\<Sum>k\<in>A. h k) + (if x \<in> A then h' x - h x else 0)"
proof (cases "x \<in> A")
  case True
  have "(\<Sum>k\<in>A - {x}. h' k) = (\<Sum>k\<in>A - {x}. h k)"
    using assms(2) by (intro sum.cong) auto
  then show ?thesis using True assms(1) by (simp add: sum.remove [of A x])
next
  case False
  then have "(\<Sum>k\<in>A. h' k) = (\<Sum>k\<in>A. h k)"
    using assms(2) by (intro sum.cong) auto
  then show ?thesis using False by simp
qed

end
