(* ===== verification/Coordination.thy ===== *)
theory Coordination
  imports Prelude
begin

text \<open>
  The coordinator's knowledge of traces and triggers, \<^verbatim>\<open>agent/pkg/coordinator/coordinator.go\<close>: which
  agents know a trace or a trigger, which triggers a trace belongs to, and what has to be sent where
  when an agent reports a trigger or a breadcrumb. Traces and triggers expire in least-recently-used
  order.

  As in the data manager of the agent, a pointer is the key of the object in its map, following a key
  that is gone is \<open>DanglingPointer\<close>, a map whose values are such pointers is the list of its keys, and
  a set of addresses (\<^verbatim>\<open>map[string]struct{}\<close>) is the list of its elements. The parameter \<open>co\<close> holds
  the orders in which \<^verbatim>\<open>range\<close> visits the maps.
\<close>

section \<open>Data\<close>

record Trigger =
  trigger_id :: TriggerID
  trace_ids :: "u64 list"

record FinishedTrigger =
  fin_queue_id :: int
  total_agents :: int
  dissemination_time :: time

record ctracestate =
  ct_known_at :: "string list"
  ct_triggers :: "TriggerID list"
  ct_created :: time
  ct_last_modified :: time
  ct_last_breadcrumb :: time

record triggerstate =
  cg_known_at :: "string list"
  cg_traces :: "u64 list"
  cg_created :: time
  cg_last_modified :: time
  cg_last_breadcrumb :: time

record Coordinator =
  c_now :: time
  c_traces :: "(u64 \<times> ctracestate) list"
  c_triggers :: "(TriggerID \<times> triggerstate) list"
  trigger_lru :: "TriggerID list"
  trace_lru :: "u64 list"

record coord_orders =
  co_addr :: "string list \<Rightarrow> string list"
  co_trigger :: "TriggerID list \<Rightarrow> TriggerID list"
  co_trace :: "u64 list \<Rightarrow> u64 list"

definition coord_orders_ok :: "coord_orders \<Rightarrow> bool" where
  "coord_orders_ok co \<longleftrightarrow> key_order (co_addr co) \<and> key_order (co_trigger co) \<and> key_order (co_trace co)"

text \<open>\<^verbatim>\<open>m[k] = struct{}{}\<close> on a set, and \<^verbatim>\<open>m[k] = v\<close> on a map of pointers.\<close>

definition set_add :: "'a \<Rightarrow> 'a list \<Rightarrow> 'a list" where
  "set_add x l = (if x \<in> set l then l else l @ [x])"

definition ctrace_of :: "Coordinator \<Rightarrow> u64 \<rightharpoonup> ctracestate" where
  "ctrace_of c = map_of (c_traces c)"

definition trig_of :: "Coordinator \<Rightarrow> TriggerID \<rightharpoonup> triggerstate" where
  "trig_of c = map_of (c_triggers c)"

definition put_ctrace :: "u64 \<Rightarrow> ctracestate \<Rightarrow> Coordinator \<Rightarrow> Coordinator" where
  "put_ctrace i r c = c\<lparr>c_traces := AList.update i r (c_traces c)\<rparr>"

definition put_trig :: "TriggerID \<Rightarrow> triggerstate \<Rightarrow> Coordinator \<Rightarrow> Coordinator" where
  "put_trig t g c = c\<lparr>c_triggers := AList.update t g (c_triggers c)\<rparr>"

definition deref_ctrace :: "Coordinator \<Rightarrow> u64 \<Rightarrow> ctracestate res" where
  "deref_ctrace c i = (case ctrace_of c i of None \<Rightarrow> Inl DanglingPointer | Some r \<Rightarrow> Inr r)"

definition deref_trig :: "Coordinator \<Rightarrow> TriggerID \<Rightarrow> triggerstate res" where
  "deref_trig c t = (case trig_of c t of None \<Rightarrow> Inl DanglingPointer | Some g \<Rightarrow> Inr g)"

section \<open>Operations\<close>

definition coord_Init :: "time \<Rightarrow> Coordinator" where
  "coord_Init t = \<lparr>c_now = t, c_traces = [], c_triggers = [], trigger_lru = [], trace_lru = []\<rparr>"

text \<open>\<^verbatim>\<open>triggerstate.Trigger\<close>\<close>

definition triggerstate_Trigger :: "coord_orders \<Rightarrow> TriggerID \<Rightarrow> triggerstate \<Rightarrow> Trigger" where
  "triggerstate_Trigger co t g = \<lparr>trigger_id = t, trace_ids = co_trace co (cg_traces g)\<rparr>"

definition getTrigger :: "TriggerID \<Rightarrow> Coordinator \<Rightarrow> Coordinator" where
  "getTrigger t c =
     (case trig_of c t of
        Some _ \<Rightarrow> c
      | None \<Rightarrow> (put_trig t \<lparr>cg_known_at = [], cg_traces = [], cg_created = c_now c,
                             cg_last_modified = c_now c, cg_last_breadcrumb = 0\<rparr> c)
                \<lparr>trigger_lru := t # trigger_lru c\<rparr>)"

definition getTrace :: "u64 \<Rightarrow> Coordinator \<Rightarrow> Coordinator" where
  "getTrace i c =
     (case ctrace_of c i of
        Some _ \<Rightarrow> c
      | None \<Rightarrow> (put_ctrace i \<lparr>ct_known_at = [], ct_triggers = [], ct_created = c_now c,
                               ct_last_modified = c_now c, ct_last_breadcrumb = 0\<rparr> c)
                \<lparr>trace_lru := i # trace_lru c\<rparr>)"

text \<open>
  The loop of \<^verbatim>\<open>checkTriggerExpiration\<close>; every turn takes a trigger out of the LRU list, whose length
  the caller passes as fuel.
\<close>

fun expire_triggers ::
  "nat \<Rightarrow> coord_orders \<Rightarrow> time \<Rightarrow> FinishedTrigger list \<Rightarrow> Coordinator \<Rightarrow> (FinishedTrigger list \<times> Coordinator) res" where
  "expire_triggers fuel co cutoff finished c =
     (if trigger_lru c = [] then Inr (finished, c)
      else case fuel of
             0 \<Rightarrow> Inl NonTermination
           | Suc fuel1 \<Rightarrow>
               bind_res (lru_back (trigger_lru c)) (\<lambda>t.
               bind_res (deref_trig c t) (\<lambda>g.
                 if cutoff < cg_last_modified g then Inr (finished, c)
                 else
                   bind_res (foreach (\<lambda>i c1. bind_res (deref_ctrace c1 i) (\<lambda>r.
                               Inr (put_ctrace i (r\<lparr>ct_triggers := removeAll t (ct_triggers r)\<rparr>) c1)))
                             (co_trace co (cg_traces g)) c) (\<lambda>c1.
                   let c2 = c1\<lparr>c_triggers := AList.delete t (c_triggers c1),
                               trigger_lru := lru_remove t (trigger_lru c1)\<rparr>;
                       ft = \<lparr>fin_queue_id = queue_id t, total_agents = int (length (cg_known_at g)),
                             dissemination_time = time_sub (cg_last_modified g) (cg_created g)\<rparr>
                   in expire_triggers fuel1 co cutoff (finished @ [ft]) c2))))"

definition checkTriggerExpiration ::
  "coord_orders \<Rightarrow> time \<Rightarrow> Coordinator \<Rightarrow> (FinishedTrigger list \<times> Coordinator) res" where
  "checkTriggerExpiration co cutoff c = expire_triggers (length (trigger_lru c)) co cutoff [] c"

fun expire_traces :: "nat \<Rightarrow> coord_orders \<Rightarrow> time \<Rightarrow> Coordinator \<Rightarrow> Coordinator res" where
  "expire_traces fuel co cutoff c =
     (if trace_lru c = [] then Inr c
      else case fuel of
             0 \<Rightarrow> Inl NonTermination
           | Suc fuel1 \<Rightarrow>
               bind_res (lru_back (trace_lru c)) (\<lambda>i.
               bind_res (deref_ctrace c i) (\<lambda>r.
                 if cutoff < ct_last_modified r then Inr c
                 else
                   bind_res (foreach (\<lambda>t c1. bind_res (deref_trig c1 t) (\<lambda>g.
                               Inr (put_trig t (g\<lparr>cg_traces := removeAll i (cg_traces g)\<rparr>) c1)))
                             (co_trigger co (ct_triggers r)) c) (\<lambda>c1.
                   expire_traces fuel1 co cutoff
                     (c1\<lparr>c_traces := AList.delete i (c_traces c1),
                         trace_lru := lru_remove i (trace_lru c1)\<rparr>)))))"

declare expire_triggers.simps [simp del] expire_traces.simps [simp del]

definition checkTraceExpiration :: "coord_orders \<Rightarrow> time \<Rightarrow> Coordinator \<Rightarrow> Coordinator res" where
  "checkTraceExpiration co cutoff c = expire_traces (length (trace_lru c)) co cutoff c"

text \<open>The body of the loop of \<^verbatim>\<open>AddTrigger\<close> for a trace that is not attached yet.\<close>

definition link_trace :: "string \<Rightarrow> TriggerID \<Rightarrow> u64 \<Rightarrow> Coordinator \<Rightarrow> Coordinator res" where
  "link_trace src t i c0 =
     (let c = getTrace i c0 in
      bind_res (deref_trig c t) (\<lambda>g.
      bind_res (deref_ctrace c i) (\<lambda>r.
        let g1 = g\<lparr>cg_traces := set_add i (cg_traces g),
                   cg_known_at := fold set_add (ct_known_at r) (cg_known_at g)\<rparr>;
            r1 = r\<lparr>ct_triggers := set_add t (ct_triggers r), ct_known_at := set_add src (ct_known_at r),
                   ct_last_modified := c_now c\<rparr>
        in Inr ((put_trig t g1 (put_ctrace i r1 c))\<lparr>trace_lru := lru_move_front i (trace_lru c)\<rparr>))))"

fun link_traces :: "string \<Rightarrow> TriggerID \<Rightarrow> u64 list \<Rightarrow> bool \<Rightarrow> Coordinator \<Rightarrow> (bool \<times> Coordinator) res" where
  "link_traces src t [] needs c = Inr (needs, c)"
| "link_traces src t (i # is) needs c =
     bind_res (deref_trig c t) (\<lambda>g.
       if i \<in> set (cg_traces g) then link_traces src t is needs c
       else bind_res (link_trace src t i c) (\<lambda>c1. link_traces src t is True c1))"

definition AddTrigger :: "coord_orders \<Rightarrow> string \<Rightarrow> Trigger \<Rightarrow> Coordinator \<Rightarrow> (string list \<times> Coordinator) res" where
  "AddTrigger co src t c0 =
     (let id = trigger_id t; c = getTrigger id c0 in
      bind_res (deref_trig c id) (\<lambda>g.
      let g1 = g\<lparr>cg_known_at := set_add src (cg_known_at g), cg_last_modified := c_now c\<rparr>;
          c1 = (put_trig id g1 c)\<lparr>trigger_lru := lru_move_front id (trigger_lru c)\<rparr>
      in bind_res (link_traces src id (trace_ids t) False c1) (\<lambda>(needs_rebroadcasting, c2).
         bind_res (deref_trig c2 id) (\<lambda>g2.
           Inr (if needs_rebroadcasting then filter (\<lambda>addr. addr \<noteq> src) (co_addr co (cg_known_at g2)) else [],
                c2)))))"

text \<open>The inner loop of \<^verbatim>\<open>AddBreadcrumb\<close>: tell \<open>addr\<close> of the triggers it does not know.\<close>

fun tell_triggers ::
  "coord_orders \<Rightarrow> string \<Rightarrow> TriggerID list \<Rightarrow> Trigger list \<Rightarrow> Coordinator \<Rightarrow> (Trigger list \<times> Coordinator) res" where
  "tell_triggers co addr [] acc c = Inr (acc, c)"
| "tell_triggers co addr (t # ts) acc c =
     bind_res (deref_trig c t) (\<lambda>g.
       if addr \<in> set (cg_known_at g) then tell_triggers co addr ts acc c
       else tell_triggers co addr ts (acc @ [triggerstate_Trigger co t g])
              (put_trig t (g\<lparr>cg_known_at := set_add addr (cg_known_at g), cg_last_breadcrumb := c_now c\<rparr>) c))"

fun tell_addrs ::
  "coord_orders \<Rightarrow> u64 \<Rightarrow> string list \<Rightarrow> (string \<times> Trigger list) list \<Rightarrow> Coordinator
     \<Rightarrow> ((string \<times> Trigger list) list \<times> Coordinator) res" where
  "tell_addrs co i [] m c = Inr (m, c)"
| "tell_addrs co i (addr # addrs) m c =
     bind_res (deref_ctrace c i) (\<lambda>r.
       if addr \<in> set (ct_known_at r) then tell_addrs co i addrs m c
       else bind_res (tell_triggers co addr (co_trigger co (ct_triggers r)) [] c) (\<lambda>(ts, c1).
              tell_addrs co i addrs (if ts \<noteq> [] then AList.update addr ts m else m)
                (put_ctrace i (r\<lparr>ct_known_at := set_add addr (ct_known_at r),
                                 ct_last_breadcrumb := c_now c1\<rparr>) c1)))"

text \<open>The last loop of \<^verbatim>\<open>AddBreadcrumb\<close>: touch the triggers of the trace.\<close>

definition touch_trigger :: "TriggerID \<Rightarrow> Coordinator \<Rightarrow> Coordinator res" where
  "touch_trigger t c =
     bind_res (deref_trig c t) (\<lambda>g.
       Inr ((put_trig t (g\<lparr>cg_last_modified := c_now c\<rparr>) c)\<lparr>trigger_lru := lru_move_front t (trigger_lru c)\<rparr>))"

definition AddBreadcrumb ::
  "coord_orders \<Rightarrow> string \<Rightarrow> u64 \<Rightarrow> string list \<Rightarrow> Coordinator
     \<Rightarrow> ((string \<times> Trigger list) list \<times> Coordinator) res" where
  "AddBreadcrumb co src i addrs c =
     bind_res (tell_addrs co i (addrs @ [src]) [] (getTrace i c)) (\<lambda>(to_disseminate, c1).
     bind_res (deref_ctrace c1 i) (\<lambda>r.
     bind_res (foreach touch_trigger (co_trigger co (ct_triggers r)) c1) (\<lambda>c2.
     bind_res (deref_ctrace c2 i) (\<lambda>r2.
       Inr (to_disseminate,
            (put_ctrace i (r2\<lparr>ct_last_modified := c_now c2\<rparr>) c2)\<lparr>trace_lru := lru_move_front i (trace_lru c2)\<rparr>)))))"

end
