(* ===== verification/Rpc.thy ===== *)
theory Rpc
  imports Coordination
begin

text \<open>
  What the agents and the coordinator share: the messages of \<^verbatim>\<open>agent/proto/datapb.proto\<close> as the
  generated Go types have them, buffered channels, and the loop by which both sides collect what is
  pending in a channel into one request.
\<close>

section \<open>Messages\<close>

record pb_Trigger =
  QueueId :: "32 word"
  BaseTraceId :: u64
  TraceIds :: "u64 list"

record TriggerRequest =
  tr_Src :: string
  tr_Triggers :: "pb_Trigger list"

record BreadcrumbAddress =
  ba_Id :: "32 word"
  ba_Addr :: string

record pb_Breadcrumbs =
  bc_TraceId :: u64
  bc_Addrs :: "32 word list"

record BreadcrumbsRequest =
  br_Src :: string
  br_Addresses :: "BreadcrumbAddress list"
  br_Breadcrumbs :: "pb_Breadcrumbs list"

text \<open>\<^verbatim>\<open>int(x)\<close> of an \<^verbatim>\<open>int32\<close> reads it as a signed number, \<^verbatim>\<open>int32(x)\<close> of an \<^verbatim>\<open>int\<close> keeps the low 32 bits.\<close>

definition int32_of :: "int \<Rightarrow> 32 word" where
  "int32_of x = word_of_int x"

definition is_int32 :: "int \<Rightarrow> bool" where
  "is_int32 x \<longleftrightarrow> - (2 ^ 31) \<le> x \<and> x < 2 ^ 31"

lemma sint_int32_of: "is_int32 x \<Longrightarrow> sint (int32_of x) = x"
  by (simp add: int32_of_def is_int32_def sint_sbintrunc' signed_take_bit_int_eq_self)

section \<open>Channels\<close>

text \<open>A send with a \<^verbatim>\<open>default\<close> branch on a channel that holds at most \<open>cap\<close> messages: \<open>None\<close> when it is full.\<close>

definition try_send :: "nat \<Rightarrow> 'a \<Rightarrow> 'a list \<Rightarrow> 'a list option" where
  "try_send cap x ch = (if length ch < cap then Some (ch @ [x]) else None)"

text \<open>
  \<open>await len ch\<close>: receive, blocking, until something has been accumulated; messages of length zero
  are skipped. \<open>None\<close>: the channel runs empty and the receiver blocks. \<open>fill len n acc ch\<close>: receive
  without blocking while fewer than \<open>n\<close> items are accumulated. Messages that arrive while the loops
  run count as pending.
\<close>

fun await :: "('m \<Rightarrow> 'a list) \<Rightarrow> 'm list \<Rightarrow> ('a list \<times> 'm list) option" where
  "await items [] = None"
| "await items (m # ch) = (if items m = [] then await items ch else Some (items m, ch))"

fun fill :: "('m \<Rightarrow> 'a list) \<Rightarrow> nat \<Rightarrow> 'a list \<Rightarrow> 'm list \<Rightarrow> 'a list \<times> 'm list" where
  "fill items n acc [] = (acc, [])"
| "fill items n acc (m # ch) =
     (if length acc < n then fill items n (acc @ items m) ch else (acc, m # ch))"

definition accumulate :: "('m \<Rightarrow> 'a list) \<Rightarrow> nat \<Rightarrow> 'm list \<Rightarrow> ('a list \<times> 'm list) option" where
  "accumulate items n ch = (case await items ch of None \<Rightarrow> None | Some (acc, ch1) \<Rightarrow> Some (fill items n acc ch1))"

lemma await_split:
  "await items ch = Some (acc, rest) \<Longrightarrow> \<exists>m. acc = items m \<and> m \<in> set ch \<and> acc \<noteq> [] \<and>
     acc @ concat (map items rest) = concat (map items ch)"
  by (induction items ch rule: await.induct) (auto split: if_splits)

lemma await_None: "await items ch = None \<longleftrightarrow> concat (map items ch) = []"
  by (induction items ch rule: await.induct) auto

lemma fill_split:
  "fill items n acc ch = (out, rest) \<Longrightarrow> out @ concat (map items rest) = acc @ concat (map items ch) \<and>
     length acc \<le> length out \<and> (n \<le> length out \<or> rest = [])"
  by (induction items n acc ch rule: fill.induct) (fastforce split: if_splits)+

lemma fill_bound:
  "fill items n acc ch = (out, rest) \<Longrightarrow> (\<And>m. m \<in> set ch \<Longrightarrow> length (items m) \<le> k) \<Longrightarrow> length acc \<le> n - 1 + k
     \<Longrightarrow> length out \<le> n - 1 + k"
proof (induction items n acc ch rule: fill.induct)
  case (2 items n acc m ch)
  show ?case
  proof (cases "length acc < n")
    case True
    have "length (acc @ items m) \<le> n - 1 + k" using True 2(3) [of m] by simp
    then show ?thesis using 2(1) [OF True] 2(2,3) True by simp
  qed (use 2 in auto)
qed simp

text \<open>
  A request carries, in order, the items of the oldest messages: at least one item, at least \<open>n\<close> or
  all that are pending, and fewer than \<open>n\<close> plus one message.
\<close>

lemma accumulate_ok:
  assumes "accumulate items n ch = Some (out, rest)" and "0 < n"
    and "\<And>m. m \<in> set ch \<Longrightarrow> length (items m) \<le> k"
  shows "out @ concat (map items rest) = concat (map items ch)" and "out \<noteq> []"
    and "n \<le> length out \<or> rest = []" and "length out \<le> n - 1 + k"
proof -
  obtain acc ch1 where a: "await items ch = Some (acc, ch1)" "fill items n acc ch1 = (out, rest)"
    using assms(1) by (auto simp: accumulate_def split: option.splits)
  obtain m where m: "acc = items m" "m \<in> set ch" "acc \<noteq> []" "acc @ concat (map items ch1) = concat (map items ch)"
    using await_split [OF a(1)] by auto
  note f = fill_split [OF a(2)]
  show "out @ concat (map items rest) = concat (map items ch)" using f m(4) by simp
  show "out \<noteq> []" using f m(3) by auto
  show "n \<le> length out \<or> rest = []" using f by blast
  have "set ch1 \<subseteq> set ch" using a(1) by (induction items ch rule: await.induct) (auto split: if_splits)
  then show "length out \<le> n - 1 + k" using fill_bound [OF a(2), of k] assms(3) m(1,2) by (force simp: le_diff_conv)
qed

lemma accumulate_rest:
  assumes "accumulate items n ch = Some (out, rest)"
  shows "set rest \<subseteq> set ch" and "length rest \<le> length ch"
proof -
  obtain acc ch1 where a: "await items ch = Some (acc, ch1)" "fill items n acc ch1 = (out, rest)"
    using assms by (auto simp: accumulate_def split: option.splits)
  have "set ch1 \<subseteq> set ch \<and> length ch1 \<le> length ch"
    using a(1) by (induction items ch rule: await.induct) (auto split: if_splits)
  moreover have "set rest \<subseteq> set ch1 \<and> length rest \<le> length ch1"
    using a(2) by (induction items n acc ch1 rule: fill.induct) (auto split: if_splits)
  ultimately show "set rest \<subseteq> set ch" "length rest \<le> length ch" by auto
qed

lemma accumulate_blocks: "accumulate items n ch = None \<longleftrightarrow> concat (map items ch) = []"
  using await_None [of items ch] by (cases "await items ch") (auto simp: accumulate_def)

end
