(* ===== verification/AgentClient.thy ===== *)
theory AgentClient
  imports Rpc
begin

text \<open>
  The agent's side of the coordination, \<^verbatim>\<open>agent/pkg/agent/coordinator.go\<close>: local triggers and
  breadcrumbs are collected from channels into requests, with addresses replaced by small numbers,
  and remote triggers are unpacked into a channel. A turn of a reporting loop is a function of what
  is pending in the channel; the request is what the RPC is called with.
\<close>

section \<open>Operations\<close>

record AgentCoordinator =
  ac_enabled :: bool
  local_addr :: string
  local_port :: string
  remote_addr :: string
  ac_localtriggers :: "mem_Trigger list list"
  ac_breadcrumbs :: "crumb_map list"
  ac_remotetriggers :: "mem_Trigger list list"

definition InitCoordinator :: "bool \<Rightarrow> string \<Rightarrow> string \<Rightarrow> string \<Rightarrow> AgentCoordinator" where
  "InitCoordinator enabled hostname port remote =
     \<lparr>ac_enabled = enabled, local_addr = hostname @ '':'' @ port, local_port = port, remote_addr = remote,
      ac_localtriggers = [], ac_breadcrumbs = [], ac_remotetriggers = []\<rparr>"

text \<open>\<^verbatim>\<open>sendTriggers\<close>: the request, or \<open>None\<close> when reporting is switched off.\<close>

definition pb_of_mem :: "mem_Trigger \<Rightarrow> pb_Trigger" where
  "pb_of_mem t = \<lparr>QueueId = int32_of (Queue_id t), BaseTraceId = Base_trace_id t, TraceIds = [Trace_id t]\<rparr>"

definition sendTriggers :: "mem_Trigger list \<Rightarrow> AgentCoordinator \<Rightarrow> TriggerRequest option" where
  "sendTriggers triggers r =
     (if ac_enabled r then Some \<lparr>tr_Src = local_addr r, tr_Triggers = map pb_of_mem triggers\<rparr> else None)"

definition client_ReportTriggers :: "AgentCoordinator \<Rightarrow> (TriggerRequest option \<times> AgentCoordinator) option" where
  "client_ReportTriggers r =
     (case accumulate (\<lambda>ts. ts) 100 (ac_localtriggers r) of
        None \<Rightarrow> None
      | Some (ts, ch) \<Rightarrow> Some (sendTriggers ts r, r\<lparr>ac_localtriggers := ch\<rparr>))"

text \<open>\<^verbatim>\<open>RemoteTrigger\<close>: a trigger for each trace, dropped when the channel is full.\<close>

definition unpack_trigger :: "pb_Trigger \<Rightarrow> mem_Trigger list" where
  "unpack_trigger t =
     map (\<lambda>i. \<lparr>Queue_id = sint (QueueId t), Base_trace_id = BaseTraceId t, Trace_id = i\<rparr>) (TraceIds t)"

definition RemoteTrigger :: "TriggerRequest \<Rightarrow> AgentCoordinator \<Rightarrow> AgentCoordinator" where
  "RemoteTrigger req r =
     (let triggers = concat (map unpack_trigger (tr_Triggers req)) in
      if triggers = [] then r
      else case try_send 500 triggers (ac_remotetriggers r) of
             Some ch \<Rightarrow> r\<lparr>ac_remotetriggers := ch\<rparr>
           | None \<Rightarrow> r)"

text \<open>
  \<^verbatim>\<open>ReportBreadcrumbs\<close>. The table \<^verbatim>\<open>addr_to_id\<close> and the next identifier \<^verbatim>\<open>seed\<close>, both local to a
  connection, are \<open>enc\<close>.
\<close>

record encoder =
  addr_to_id :: "(string \<times> 32 word) list"
  seed :: "32 word"

definition encoder_Init :: encoder where
  "encoder_Init = \<lparr>addr_to_id = [], seed = 0\<rparr>"

fun encode_addrs :: "string list \<Rightarrow> 32 word list \<Rightarrow> BreadcrumbAddress list \<times> encoder
     \<Rightarrow> 32 word list \<times> BreadcrumbAddress list \<times> encoder" where
  "encode_addrs [] ids (new, enc) = (ids, new, enc)"
| "encode_addrs (addr # addrs) ids (new, enc) =
     (case map_of (addr_to_id enc) addr of
        Some addr_id \<Rightarrow> encode_addrs addrs (ids @ [addr_id]) (new, enc)
      | None \<Rightarrow>
          encode_addrs addrs (ids @ [seed enc])
            (new @ [\<lparr>ba_Id = seed enc, ba_Addr = addr\<rparr>],
             \<lparr>addr_to_id = AList.update addr (seed enc) (addr_to_id enc), seed = seed enc + 1\<rparr>))"

fun encode_crumbs :: "crumb_map \<Rightarrow> pb_Breadcrumbs list \<Rightarrow> BreadcrumbAddress list \<times> encoder
     \<Rightarrow> pb_Breadcrumbs list \<times> BreadcrumbAddress list \<times> encoder" where
  "encode_crumbs [] bcs (new, enc) = (bcs, new, enc)"
| "encode_crumbs ((trace_id, addrs) # m) bcs (new, enc) =
     (let (ids, new1, enc1) = encode_addrs addrs [] (new, enc)
      in encode_crumbs m (bcs @ [\<lparr>bc_TraceId = trace_id, bc_Addrs = ids\<rparr>]) (new1, enc1))"

text \<open>The request for the accumulated maps, each visited in an order \<open>ord\<close> of its entries.\<close>

definition encode_request :: "(crumb_map \<Rightarrow> crumb_map) \<Rightarrow> string \<Rightarrow> crumb_map list \<Rightarrow> encoder \<Rightarrow> BreadcrumbsRequest \<times> encoder" where
  "encode_request ord src ms enc =
     (let (bcs, new, enc1) = encode_crumbs (concat (map ord ms)) [] ([], enc)
      in (\<lparr>br_Src = src, br_Addresses = new, br_Breadcrumbs = bcs\<rparr>, enc1))"

definition ReportBreadcrumbs ::
  "(crumb_map \<Rightarrow> crumb_map) \<Rightarrow> AgentCoordinator \<times> encoder \<Rightarrow> (BreadcrumbsRequest option \<times> AgentCoordinator \<times> encoder) option" where
  "ReportBreadcrumbs ord re =
     (let (r, enc) = re in
      case accumulate (\<lambda>m. if m = [] then [] else [m]) 100 (ac_breadcrumbs r) of
        None \<Rightarrow> None
      | Some (ms, ch) \<Rightarrow>
          let (req, enc1) = encode_request ord (local_addr r) ms enc
          in Some (if ac_enabled r then Some req else None, r\<lparr>ac_breadcrumbs := ch\<rparr>, enc1))"

section \<open>The encoding\<close>

text \<open>
  Identifiers are handed out in sequence, so they are distinct as long as there are no more than
  \<open>2 ^ 32\<close> addresses.
\<close>

definition enc_ok :: "encoder \<Rightarrow> bool" where
  "enc_ok enc \<longleftrightarrow> distinct (map fst (addr_to_id enc)) \<and> seed enc = of_nat (length (addr_to_id enc)) \<and>
     map snd (addr_to_id enc) = map of_nat [0..<length (addr_to_id enc)]"

text \<open>How a table grows: by exactly the addresses that are announced.\<close>

definition extends :: "encoder \<Rightarrow> BreadcrumbAddress list \<Rightarrow> encoder \<Rightarrow> bool" where
  "extends enc new enc' \<longleftrightarrow> enc_ok enc' \<and> addr_to_id enc' = addr_to_id enc @ map (\<lambda>b. (ba_Addr b, ba_Id b)) new"

lemma enc_ok_Init: "enc_ok encoder_Init"
  by (simp add: enc_ok_def encoder_Init_def)

lemma update_new: "map_of m k = None \<Longrightarrow> AList.update k v m = m @ [(k, v)]"
  by (induction m) (auto split: if_splits)

lemma extends_refl: "enc_ok enc \<Longrightarrow> extends enc [] enc"
  by (simp add: extends_def)

lemma extends_lookup:
  "extends enc new enc' \<Longrightarrow> map_of (addr_to_id enc) a = Some k \<Longrightarrow> map_of (addr_to_id enc') a = Some k"
  by (auto simp: extends_def map_add_Some_iff enc_ok_def distinct_map)

lemma encode_addrs_ok:
  assumes "enc_ok enc"
  shows "\<exists>ids1 new1 enc1. encode_addrs addrs ids (new, enc) = (ids @ ids1, new @ new1, enc1) \<and> extends enc new1 enc1 \<and>
     map Some ids1 = map (map_of (addr_to_id enc1)) addrs"
  using assms
proof (induction addrs arbitrary: ids new enc)
  case (Cons a addrs)
  show ?case
  proof (cases "map_of (addr_to_id enc) a")
    case (Some k)
    obtain ids1 new1 enc1 where r: "encode_addrs addrs (ids @ [k]) (new, enc) = ((ids @ [k]) @ ids1, new @ new1, enc1)"
        "extends enc new1 enc1" "map Some ids1 = map (map_of (addr_to_id enc1)) addrs"
      using Cons.IH [OF Cons.prems] by blast
    then show ?thesis using Some extends_lookup [OF r(2) Some] by auto
  next
    case None
    let ?b = "\<lparr>ba_Id = seed enc, ba_Addr = a\<rparr>"
    let ?enc = "\<lparr>addr_to_id = AList.update a (seed enc) (addr_to_id enc), seed = seed enc + 1\<rparr>"
    have t: "addr_to_id ?enc = addr_to_id enc @ [(a, seed enc)]" by (simp add: update_new None)
    have "a \<notin> set (map fst (addr_to_id enc))" using None by (simp add: map_of_eq_None_iff)
    then have ok: "enc_ok ?enc" using Cons.prems t unfolding enc_ok_def by (simp add: update_new None)
    obtain ids1 new1 enc1 where r: "encode_addrs addrs (ids @ [seed enc]) (new @ [?b], ?enc) = ((ids @ [seed enc]) @ ids1, (new @ [?b]) @ new1, enc1)"
        "extends ?enc new1 enc1" "map Some ids1 = map (map_of (addr_to_id enc1)) addrs"
      using Cons.IH [OF ok] by blast
    have "extends enc (?b # new1) enc1" using r(2) t by (simp add: extends_def)
    moreover have "map_of (addr_to_id enc1) a = Some (seed enc)" by (rule extends_lookup [OF r(2)]) simp
    ultimately show ?thesis using None r by (intro exI [of _ "seed enc # ids1"] exI [of _ "?b # new1"] exI [of _ enc1]) simp
  qed
qed (auto simp: extends_refl)

lemma extends_trans: "extends enc new enc' \<Longrightarrow> extends enc' new' enc'' \<Longrightarrow> extends enc (new @ new') enc''"
  by (simp add: extends_def)

lemma encode_crumbs_ok:
  assumes "enc_ok enc"
  shows "\<exists>bcs1 new1 enc1. encode_crumbs m bcs (new, enc) = (bcs @ bcs1, new @ new1, enc1) \<and> extends enc new1 enc1 \<and>
     map bc_TraceId bcs1 = map fst m \<and> map (\<lambda>b. map Some (bc_Addrs b)) bcs1 = map (\<lambda>e. map (map_of (addr_to_id enc1)) (snd e)) m"
  using assms
proof (induction m arbitrary: bcs new enc)
  case (Cons x m)
  obtain i addrs where x: "x = (i, addrs)" by fastforce
  obtain ids new0 enc0 where a: "encode_addrs addrs [] (new, enc) = (ids, new @ new0, enc0)" "extends enc new0 enc0"
      "map Some ids = map (map_of (addr_to_id enc0)) addrs"
    using encode_addrs_ok [OF Cons.prems, of addrs "[]" new] by auto
  let ?b = "\<lparr>bc_TraceId = i, bc_Addrs = ids\<rparr>"
  obtain bcs1 new1 enc1 where r: "encode_crumbs m (bcs @ [?b]) (new @ new0, enc0) = ((bcs @ [?b]) @ bcs1, (new @ new0) @ new1, enc1)"
      "extends enc0 new1 enc1" "map bc_TraceId bcs1 = map fst m"
      "map (\<lambda>b. map Some (bc_Addrs b)) bcs1 = map (\<lambda>e. map (map_of (addr_to_id enc1)) (snd e)) m"
    using Cons.IH [of enc0] a(2) unfolding extends_def by blast
  have "map_of (addr_to_id enc1) b = map_of (addr_to_id enc0) b" if "b \<in> set addrs" for b
  proof -
    have "map_of (addr_to_id enc0) b \<in> Some ` set ids" using a(3) that by (metis imageI list.set_map)
    then show ?thesis using extends_lookup [OF r(2), of b] by auto
  qed
  then have "map Some ids = map (map_of (addr_to_id enc1)) addrs" using a(3) by (simp cong: map_cong)
  then show ?case using a(1) r extends_trans [OF a(2) r(2)]
    by (intro exI [of _ "?b # bcs1"] exI [of _ "new0 @ new1"] exI [of _ enc1]) (simp add: x)
qed (auto simp: extends_refl)

text \<open>A table of the receiver agrees with the encoder when it maps its identifiers back.\<close>

definition agrees :: "encoder \<Rightarrow> (32 word \<rightharpoonup> string) \<Rightarrow> bool" where
  "agrees enc f \<longleftrightarrow> (\<forall>a k. map_of (addr_to_id enc) a = Some k \<longrightarrow> f k = Some a)"

lemma agrees_Init: "agrees encoder_Init f"
  by (simp add: agrees_def encoder_Init_def)

lemma fold_learn_other:
  "k \<notin> ba_Id ` set new \<Longrightarrow> fold (\<lambda>b f. f(ba_Id b \<mapsto> ba_Addr b)) new f k = f k"
  by (induction new arbitrary: f) auto

lemma fold_learn_new:
  "distinct (map ba_Id new) \<Longrightarrow> b \<in> set new \<Longrightarrow> fold (\<lambda>b f. f(ba_Id b \<mapsto> ba_Addr b)) new f (ba_Id b) = Some (ba_Addr b)"
  by (induction new arbitrary: f) (auto simp: fold_learn_other)

lemma enc_ok_inj:
  assumes "enc_ok enc" and "length (addr_to_id enc) \<le> 2 ^ 32"
  shows "distinct (map snd (addr_to_id enc))"
proof -
  have "inj_on (of_nat :: nat \<Rightarrow> 32 word) {0..<length (addr_to_id enc)}"
  proof (rule inj_onI)
    fix x y assume "x \<in> {0..<length (addr_to_id enc)}" "y \<in> {0..<length (addr_to_id enc)}"
      and e: "(of_nat x :: 32 word) = of_nat y"
    then have "x < 2 ^ 32" "y < 2 ^ 32" using assms(2) by auto
    then show "x = y" using arg_cong [OF e, of unat] by (simp add: unat_of_nat)
  qed
  then show ?thesis using assms(1) unfolding enc_ok_def by (simp add: distinct_map)
qed

lemma agrees_learn:
  assumes g: "extends enc new enc'" and a: "agrees enc f" and n: "length (addr_to_id enc') \<le> 2 ^ 32"
  shows "agrees enc' (fold (\<lambda>b f. f(ba_Id b \<mapsto> ba_Addr b)) new f)"
  unfolding agrees_def
proof (intro allI impI)
  fix x k assume "map_of (addr_to_id enc') x = Some k"
  then have "(x, k) \<in> set (addr_to_id enc')" by (rule map_of_SomeD)
  then have x: "(x, k) \<in> set (addr_to_id enc) \<or> (\<exists>b\<in>set new. x = ba_Addr b \<and> k = ba_Id b)"
    using g by (auto simp: extends_def)
  have "distinct (map snd (addr_to_id enc'))" "distinct (map fst (addr_to_id enc'))"
    using enc_ok_inj [OF _ n] g unfolding extends_def enc_ok_def by blast+
  then have d: "distinct (map snd (addr_to_id enc) @ map ba_Id new)" "distinct (map fst (addr_to_id enc))"
    using g by (simp_all add: extends_def comp_def)
  show "fold (\<lambda>b f. f(ba_Id b \<mapsto> ba_Addr b)) new f k = Some x"
  proof (cases "(x, k) \<in> set (addr_to_id enc)")
    case True
    then have "k \<notin> ba_Id ` set new" using d(1) by force
    then show ?thesis using a True d(2) by (simp add: fold_learn_other agrees_def map_of_eq_Some_iff)
  qed (use x d(1) fold_learn_new [of new] in auto)
qed

end
