(* ===== verification/CoordSpec.thy ===== *)
theory CoordSpec
  imports Coordination
begin

text \<open>
  What the coordinator promises, as operations on relations between triggers, traces and addresses,
  and the proof that the operations of \<^verbatim>\<open>coordinator.go\<close> implement it: every operation keeps the
  invariant that links of triggers and traces are symmetric and that both LRU lists are in order of
  last modification, never follows a stale pointer, and changes the relations as specified.
\<close>

section \<open>Lists in the order of last use\<close>

text \<open>\<open>timed l M n\<close>: the list holds each key of \<open>M\<close> once, latest first by the times \<open>M\<close>, none after \<open>n\<close>.\<close>

definition timed :: "'k list \<Rightarrow> ('k \<rightharpoonup> time) \<Rightarrow> time \<Rightarrow> bool" where
  "timed l M n \<longleftrightarrow> distinct l \<and> set l = dom M \<and> sorted_wrt (\<lambda>a b. the (M b) \<le> the (M a)) l \<and>
     (\<forall>v\<in>ran M. v \<le> n)"

lemma sorted_wrt_times_upd:
  "x \<notin> set l \<Longrightarrow> sorted_wrt (\<lambda>a b. the ((M(x := u)) b) \<le> (the ((M(x := u)) a) :: time)) l
     = sorted_wrt (\<lambda>a b. the (M b) \<le> the (M a)) l"
  by (induction l) auto

lemma sorted_wrt_remove1: "sorted_wrt P l \<Longrightarrow> sorted_wrt P (remove1 x l)"
proof (induction l)
  case (Cons a l)
  have "set (remove1 x l) \<subseteq> set l" by (rule set_remove1_subset)
  then show ?case using Cons by auto
qed simp

lemma timed_later: "timed l M n \<Longrightarrow> n \<le> n' \<Longrightarrow> timed l M n'"
  by (fastforce simp: timed_def)

lemma timed_bound: "timed l M n \<Longrightarrow> M x = Some v \<Longrightarrow> v \<le> n"
  by (auto simp: timed_def ran_def)

lemma timed_push:
  assumes "timed l M n" and "M x = None"
  shows "timed (x # l) (M(x \<mapsto> n)) n"
proof -
  have x: "x \<notin> set l" using assms by (auto simp: timed_def)
  have "sorted_wrt (\<lambda>a b. the ((M(x \<mapsto> n)) b) \<le> the ((M(x \<mapsto> n)) a)) l"
    using assms(1) unfolding timed_def sorted_wrt_times_upd [OF x] by blast
  moreover have "the (M y) \<le> n" if "y \<in> set l" for y using that assms(1) by (auto simp: timed_def ran_def)
  then have "\<forall>y\<in>set l. the ((M(x \<mapsto> n)) y) \<le> the ((M(x \<mapsto> n)) x)" using x by auto
  moreover have "\<forall>v\<in>ran (M(x \<mapsto> n)). v \<le> n" using assms by (auto simp: timed_def ran_def)
  ultimately show ?thesis using assms x by (simp add: timed_def del: fun_upd_apply)
qed

lemma timed_drop:
  assumes "timed l M n"
  shows "timed (lru_remove x l) (M(x := None)) n"
proof -
  have "sorted_wrt (\<lambda>a b. the (M b) \<le> the (M a)) (remove1 x l)"
    using assms by (intro sorted_wrt_remove1) (simp add: timed_def)
  moreover have "x \<notin> set (remove1 x l)" using assms by (simp add: timed_def)
  ultimately have "sorted_wrt (\<lambda>a b. the ((M(x := None)) b) \<le> the ((M(x := None)) a)) (remove1 x l)"
    by (simp only: sorted_wrt_times_upd not_False_eq_True)
  moreover have "ran (M(x := None)) \<subseteq> ran M" by (auto simp: ran_def)
  ultimately show ?thesis using assms by (auto simp add: timed_def lru_remove_def simp del: fun_upd_apply)
qed

lemma timed_touch:
  assumes "timed l M n" and "M x = Some v"
  shows "timed (lru_move_front x l) (M(x \<mapsto> n)) n"
proof -
  have "x \<in> set l" using assms by (auto simp: timed_def)
  then have "lru_move_front x l = x # lru_remove x l" by (simp add: lru_move_front_def lru_remove_def)
  then show ?thesis using timed_push [OF timed_drop [OF assms(1)], of x x] by simp
qed

lemma timed_back_least:
  assumes t: "timed l M n" and "l \<noteq> []"
  shows "\<exists>v. M (last l) = Some v" and "M x = Some w \<Longrightarrow> the (M (last l)) \<le> w"
proof -
  have "last l \<in> dom M" using t last_in_set [OF assms(2)] by (simp add: timed_def)
  then show "\<exists>v. M (last l) = Some v" by auto
  have "sorted_wrt (\<lambda>a b. the (M b) \<le> the (M a)) (butlast l @ [last l])"
    using t assms(2) by (simp add: timed_def)
  then have b: "\<forall>y\<in>set (butlast l). the (M (last l)) \<le> the (M y)" by (simp add: sorted_wrt_append)
  assume x: "M x = Some w"
  then have "x \<in> set (butlast l @ [last l])" using t assms(2) by (auto simp: timed_def)
  then show "the (M (last l)) \<le> w" using b x by auto
qed

section \<open>Relations and times held in a map\<close>

definition rel :: "('v \<Rightarrow> 'b list) \<Rightarrow> ('a \<rightharpoonup> 'v) \<Rightarrow> ('a \<times> 'b) set" where
  "rel f T = {(a, b). \<exists>v. T a = Some v \<and> b \<in> set (f v)}"

definition stamps :: "('v \<Rightarrow> time) \<Rightarrow> ('a \<rightharpoonup> 'v) \<Rightarrow> ('a \<rightharpoonup> time)" where
  "stamps f T = (\<lambda>a. map_option f (T a))"

lemma rel_upd: "rel f (T(a \<mapsto> v)) = rel f T - {a} \<times> UNIV \<union> {a} \<times> set (f v)"
  unfolding rel_def by (rule set_eqI) (simp add: mem_Times_iff split_beta)

lemma rel_del: "rel f (T(a := None)) = rel f T - {a} \<times> UNIV"
  unfolding rel_def by (rule set_eqI) (simp add: mem_Times_iff split_beta)

lemma rel_Image: "T a = Some v \<Longrightarrow> rel f T `` {a} = set (f v)"
  by (auto simp: rel_def)

lemma rel_None: "T a = None \<Longrightarrow> rel f T `` {a} = {}"
  by (auto simp: rel_def)

lemma rel_add:
  assumes "T a = Some v" and "set (f v') = set (f v) \<union> X"
  shows "rel f (T(a \<mapsto> v')) = rel f T \<union> {a} \<times> X"
proof -
  have "{a} \<times> set (f v) \<subseteq> rel f T" using assms(1) by (auto simp: rel_def)
  moreover have "rel f T \<inter> {a} \<times> UNIV \<subseteq> {a} \<times> set (f v)" using assms(1) by (auto simp: rel_def)
  ultimately show ?thesis unfolding rel_upd using assms(2) by blast
qed

lemma rel_same: "T a = Some v \<Longrightarrow> set (f v') = set (f v) \<Longrightarrow> rel f (T(a \<mapsto> v')) = rel f T"
  using rel_add [of T a v f v' "{}"] by simp

lemma rel_new: "T a = None \<Longrightarrow> rel f (T(a \<mapsto> v)) = rel f T \<union> {a} \<times> set (f v)"
  unfolding rel_upd by (auto simp: rel_def)

lemma stamps_upd [simp]: "stamps f (T(a \<mapsto> v)) = (stamps f T)(a \<mapsto> f v)"
  by (auto simp: stamps_def)

lemma stamps_del [simp]: "stamps f (T(a := None)) = (stamps f T)(a := None)"
  by (auto simp: stamps_def)

lemma stamps_Some: "T a = Some v \<Longrightarrow> stamps f T a = Some (f v)"
  by (simp add: stamps_def)

lemma stamps_None [simp]: "stamps f T a = None \<longleftrightarrow> T a = None"
  by (simp add: stamps_def)

lemma stamps_same: "T a = Some v \<Longrightarrow> (stamps f T)(a \<mapsto> f v) = stamps f T"
  by (auto simp: stamps_def)

lemma dom_stamps [simp]: "dom (stamps f T) = dom T"
  by (auto simp: stamps_def dom_def)

section \<open>The specification\<close>

text \<open>
  The abstract state: the live triggers and traces with the times of their last modification, when
  the triggers were created, which traces belong to a trigger, and which addresses are known to hold
  a trigger or a trace.
\<close>

record coord_spec =
  sp_now :: time
  sp_trigger_time :: "TriggerID \<rightharpoonup> time"
  sp_trigger_created :: "TriggerID \<rightharpoonup> time"
  sp_trace_time :: "u64 \<rightharpoonup> time"
  sp_member :: "(TriggerID \<times> u64) set"
  sp_trigger_at :: "(TriggerID \<times> string) set"
  sp_trace_at :: "(u64 \<times> string) set"

definition sp_touch :: "'a set \<Rightarrow> time \<Rightarrow> ('a \<rightharpoonup> time) \<Rightarrow> ('a \<rightharpoonup> time)" where
  "sp_touch A n M = (\<lambda>a. if a \<in> A then Some n else M a)"

definition sp_link :: "string \<Rightarrow> TriggerID \<Rightarrow> u64 set \<Rightarrow> coord_spec \<Rightarrow> coord_spec" where
  "sp_link src t I s = (let new = I - sp_member s `` {t} in
     s\<lparr>sp_trace_time := sp_touch new (sp_now s) (sp_trace_time s),
       sp_member := sp_member s \<union> {t} \<times> new,
       sp_trigger_at := sp_trigger_at s \<union> {t} \<times> (sp_trace_at s `` new),
       sp_trace_at := sp_trace_at s \<union> new \<times> {src}\<rparr>)"

definition sp_mention :: "string \<Rightarrow> TriggerID \<Rightarrow> coord_spec \<Rightarrow> coord_spec" where
  "sp_mention src t s =
     s\<lparr>sp_trigger_time := (sp_trigger_time s)(t \<mapsto> sp_now s),
       sp_trigger_created := (if t \<in> dom (sp_trigger_time s) then sp_trigger_created s
                              else (sp_trigger_created s)(t \<mapsto> sp_now s)),
       sp_trigger_at := insert (t, src) (sp_trigger_at s)\<rparr>"

definition sp_AddTrigger :: "string \<Rightarrow> TriggerID \<Rightarrow> u64 set \<Rightarrow> coord_spec \<Rightarrow> coord_spec" where
  "sp_AddTrigger src t I s = sp_link src t I (sp_mention src t s)"

definition sp_AddBreadcrumb :: "u64 \<Rightarrow> string set \<Rightarrow> coord_spec \<Rightarrow> coord_spec" where
  "sp_AddBreadcrumb i A s = (let ts = (sp_member s)\<inverse> `` {i}; new = A - sp_trace_at s `` {i} in
     s\<lparr>sp_trigger_time := sp_touch ts (sp_now s) (sp_trigger_time s),
       sp_trace_time := sp_touch {i} (sp_now s) (sp_trace_time s),
       sp_trigger_at := sp_trigger_at s \<union> ts \<times> new,
       sp_trace_at := sp_trace_at s \<union> {i} \<times> new\<rparr>)"

definition sp_drop_triggers :: "TriggerID set \<Rightarrow> coord_spec \<Rightarrow> coord_spec" where
  "sp_drop_triggers D s =
     s\<lparr>sp_trigger_time := sp_trigger_time s |` (- D), sp_trigger_created := sp_trigger_created s |` (- D),
       sp_member := sp_member s - D \<times> UNIV, sp_trigger_at := sp_trigger_at s - D \<times> UNIV\<rparr>"

definition sp_drop_traces :: "u64 set \<Rightarrow> coord_spec \<Rightarrow> coord_spec" where
  "sp_drop_traces D s =
     s\<lparr>sp_trace_time := sp_trace_time s |` (- D),
       sp_member := sp_member s - UNIV \<times> D, sp_trace_at := sp_trace_at s - D \<times> UNIV\<rparr>"

definition expired :: "time \<Rightarrow> ('a \<rightharpoonup> time) \<Rightarrow> 'a set" where
  "expired cutoff M = {a. \<exists>v. M a = Some v \<and> v \<le> cutoff}"

text \<open>The abstract state of a coordinator, and its invariant.\<close>

definition spec_of :: "Coordinator \<Rightarrow> coord_spec" where
  "spec_of c =
     \<lparr>sp_now = c_now c,
      sp_trigger_time = stamps cg_last_modified (trig_of c),
      sp_trigger_created = stamps cg_created (trig_of c),
      sp_trace_time = stamps ct_last_modified (ctrace_of c),
      sp_member = rel cg_traces (trig_of c),
      sp_trigger_at = rel cg_known_at (trig_of c),
      sp_trace_at = rel ct_known_at (ctrace_of c)\<rparr>"

definition all_ran :: "('v \<Rightarrow> bool) \<Rightarrow> ('k \<rightharpoonup> 'v) \<Rightarrow> bool" where
  "all_ran P T \<longleftrightarrow> (\<forall>v\<in>ran T. P v)"

definition trig_shape :: "triggerstate \<Rightarrow> bool" where
  "trig_shape g \<longleftrightarrow> distinct (cg_traces g) \<and> distinct (cg_known_at g)"

definition trace_shape :: "ctracestate \<Rightarrow> bool" where
  "trace_shape r \<longleftrightarrow> distinct (ct_triggers r) \<and> distinct (ct_known_at r)"

definition co_ok :: "Coordinator \<Rightarrow> bool" where
  "co_ok c \<longleftrightarrow> (rel ct_triggers (ctrace_of c))\<inverse> = rel cg_traces (trig_of c) \<and>
     timed (trigger_lru c) (stamps cg_last_modified (trig_of c)) (c_now c) \<and>
     timed (trace_lru c) (stamps ct_last_modified (ctrace_of c)) (c_now c) \<and>
     all_ran trig_shape (trig_of c) \<and>
     all_ran trace_shape (ctrace_of c)"


section \<open>Simplification\<close>

lemma set_set_add [simp]: "set (set_add x l) = insert x (set l)"
  by (auto simp: set_add_def)

lemma distinct_set_add [simp]: "distinct (set_add x l) = distinct l"
  by (simp add: set_add_def)

lemma set_fold_set_add [simp]: "set (fold set_add xs l) = set xs \<union> set l"
  by (induction xs arbitrary: l) auto

lemma distinct_fold_set_add [simp]: "distinct (fold set_add xs l) = distinct l"
  by (induction xs arbitrary: l) auto

lemma coord_views [simp]:
  "trig_of (put_trig t g c) = (trig_of c)(t \<mapsto> g)" "trig_of (put_ctrace i r c) = trig_of c"
  "ctrace_of (put_ctrace i r c) = (ctrace_of c)(i \<mapsto> r)" "ctrace_of (put_trig t g c) = ctrace_of c"
  "trig_of (c\<lparr>trigger_lru := l\<rparr>) = trig_of c" "ctrace_of (c\<lparr>trigger_lru := l\<rparr>) = ctrace_of c"
  "trig_of (c\<lparr>trace_lru := l'\<rparr>) = trig_of c" "ctrace_of (c\<lparr>trace_lru := l'\<rparr>) = ctrace_of c"
  "trig_of (c\<lparr>c_now := n\<rparr>) = trig_of c" "ctrace_of (c\<lparr>c_now := n\<rparr>) = ctrace_of c"
  by (simp_all add: trig_of_def ctrace_of_def put_trig_def put_ctrace_def)

lemma coord_sel [simp]:
  "trigger_lru (put_trig t g c) = trigger_lru c" "trigger_lru (put_ctrace i r c) = trigger_lru c"
  "trace_lru (put_trig t g c) = trace_lru c" "trace_lru (put_ctrace i r c) = trace_lru c"
  "c_now (put_trig t g c) = c_now c" "c_now (put_ctrace i r c) = c_now c"
  by (simp_all add: put_trig_def put_ctrace_def)

lemma deref_coord [simp]:
  "trig_of c t = Some g \<Longrightarrow> deref_trig c t = Inr g" "ctrace_of c i = Some r \<Longrightarrow> deref_ctrace c i = Inr r"
  by (simp_all add: deref_trig_def deref_ctrace_def)

lemma in_rel: "(a, b) \<in> rel f T \<longleftrightarrow> (\<exists>v. T a = Some v \<and> b \<in> set (f v))"
  by (simp add: rel_def)

lemma co_ok_sym: "co_ok c \<Longrightarrow> (i, t) \<in> rel ct_triggers (ctrace_of c) \<longleftrightarrow> (t, i) \<in> rel cg_traces (trig_of c)"
  unfolding co_ok_def by (metis converse_iff)

lemma co_ok_trace_trigger:
  "co_ok c \<Longrightarrow> ctrace_of c i = Some r \<Longrightarrow> t \<in> set (ct_triggers r) \<Longrightarrow> \<exists>g. trig_of c t = Some g \<and> i \<in> set (cg_traces g)"
  using co_ok_sym [of c i t] by (simp add: in_rel)

lemma co_ok_trigger_trace:
  "co_ok c \<Longrightarrow> trig_of c t = Some g \<Longrightarrow> i \<in> set (cg_traces g) \<Longrightarrow> \<exists>r. ctrace_of c i = Some r \<and> t \<in> set (ct_triggers r)"
  using co_ok_sym [of c i t] by (simp add: in_rel)

lemma co_ok_distinct:
  "co_ok c \<Longrightarrow> trig_of c t = Some g \<Longrightarrow> distinct (cg_traces g) \<and> distinct (cg_known_at g)"
  "co_ok c \<Longrightarrow> ctrace_of c i = Some r \<Longrightarrow> distinct (ct_triggers r) \<and> distinct (ct_known_at r)"
  by (auto simp: co_ok_def all_ran_def ran_def trig_shape_def trace_shape_def)

lemma all_ran_upd: "all_ran P T \<Longrightarrow> P v \<Longrightarrow> all_ran P (T(a \<mapsto> v))"
  by (auto simp: all_ran_def ran_def)

lemma all_ran_del: "all_ran P T \<Longrightarrow> all_ran P (T(a := None))"
  by (auto simp: all_ran_def ran_def)

lemma co_okD:
  assumes "co_ok c"
  shows "timed (trigger_lru c) (stamps cg_last_modified (trig_of c)) (c_now c)"
    and "timed (trace_lru c) (stamps ct_last_modified (ctrace_of c)) (c_now c)"
  using assms by (simp_all only: co_ok_def)

section \<open>Looking up and creating\<close>

lemma coord_Init_ok: "co_ok (coord_Init t)"
  by (simp add: co_ok_def all_ran_def timed_def coord_Init_def trig_of_def ctrace_of_def rel_def stamps_def)

lemma co_ok_now: "co_ok c \<Longrightarrow> c_now c \<le> n \<Longrightarrow> co_ok (c\<lparr>c_now := n\<rparr>)"
  by (auto simp: co_ok_def intro: timed_later)

text \<open>A trigger is created with no traces and no addresses.\<close>

lemma getTrigger_ok:
  assumes c: "co_ok c"
  shows "co_ok (getTrigger t c)" "\<exists>g. trig_of (getTrigger t c) t = Some g"
    "ctrace_of (getTrigger t c) = ctrace_of c" "c_now (getTrigger t c) = c_now c"
    "trace_lru (getTrigger t c) = trace_lru c"
    "rel cg_traces (trig_of (getTrigger t c)) = rel cg_traces (trig_of c)"
    "rel cg_known_at (trig_of (getTrigger t c)) = rel cg_known_at (trig_of c)"
    "stamps cg_last_modified (trig_of (getTrigger t c)) = (if trig_of c t = None
       then (stamps cg_last_modified (trig_of c))(t \<mapsto> c_now c) else stamps cg_last_modified (trig_of c))"
    "stamps cg_created (trig_of (getTrigger t c)) = (if trig_of c t = None
       then (stamps cg_created (trig_of c))(t \<mapsto> c_now c) else stamps cg_created (trig_of c))"
proof -
  show "co_ok (getTrigger t c)"
  proof (cases "trig_of c t")
    case None
    then have "timed (t # trigger_lru c) ((stamps cg_last_modified (trig_of c))(t \<mapsto> c_now c)) (c_now c)"
      using timed_push [OF co_okD(1) [OF c]] by simp
    then show ?thesis
      using c None unfolding co_ok_def getTrigger_def by (simp add: rel_new all_ran_upd trig_shape_def trace_shape_def del: fun_upd_apply)
  qed (use c in \<open>simp add: getTrigger_def\<close>)
qed (auto simp: getTrigger_def rel_new fun_upd_same simp del: fun_upd_apply split: option.splits)

lemma getTrace_ok:
  assumes c: "co_ok c"
  shows "co_ok (getTrace i c)" "\<exists>r. ctrace_of (getTrace i c) i = Some r"
    "trig_of (getTrace i c) = trig_of c" "c_now (getTrace i c) = c_now c"
    "rel ct_triggers (ctrace_of (getTrace i c)) = rel ct_triggers (ctrace_of c)"
    "rel ct_known_at (ctrace_of (getTrace i c)) = rel ct_known_at (ctrace_of c)"
    "stamps ct_last_modified (ctrace_of (getTrace i c)) = (if ctrace_of c i = None
       then (stamps ct_last_modified (ctrace_of c))(i \<mapsto> c_now c) else stamps ct_last_modified (ctrace_of c))"
proof -
  show "co_ok (getTrace i c)"
  proof (cases "ctrace_of c i")
    case None
    then have "timed (i # trace_lru c) ((stamps ct_last_modified (ctrace_of c))(i \<mapsto> c_now c)) (c_now c)"
      using timed_push [OF co_okD(2) [OF c]] by simp
    then show ?thesis
      using c None unfolding co_ok_def getTrace_def by (simp add: rel_new all_ran_upd trig_shape_def trace_shape_def del: fun_upd_apply)
  qed (use c in \<open>simp add: getTrace_def\<close>)
qed (auto simp: getTrace_def rel_new fun_upd_same simp del: fun_upd_apply split: option.splits)

section \<open>Updates that keep the invariant\<close>

lemmas on_trigs =
  stamps_Some [where T = "trig_of c" for c] stamps_same [where T = "trig_of c" for c]
  rel_same [where T = "trig_of c" for c] rel_add [where T = "trig_of c" for c]

lemmas on_traces =
  stamps_Some [where T = "ctrace_of c" for c] stamps_same [where T = "ctrace_of c" for c]
  rel_same [where T = "ctrace_of c" for c] rel_add [where T = "ctrace_of c" for c]

lemma touch_trig_ok:
  assumes c: "co_ok c" and g: "trig_of c t = Some g"
    and g': "set (cg_traces g') = set (cg_traces g)" "trig_shape g'" "cg_last_modified g' = c_now c"
  shows "co_ok ((put_trig t g' c)\<lparr>trigger_lru := lru_move_front t (trigger_lru c)\<rparr>)"
proof -
  have "timed (lru_move_front t (trigger_lru c)) ((stamps cg_last_modified (trig_of c))(t \<mapsto> c_now c)) (c_now c)"
    using timed_touch [OF co_okD(1) [OF c] on_trigs(1) [OF g]] .
  then show ?thesis
    using c g' unfolding co_ok_def by (simp add: on_trigs(3) [OF g g'(1)] all_ran_upd del: fun_upd_apply)
qed

lemma put_trig_ok:
  assumes c: "co_ok c" and g: "trig_of c t = Some g"
    and g': "set (cg_traces g') = set (cg_traces g)" "trig_shape g'" "cg_last_modified g' = cg_last_modified g"
  shows "co_ok (put_trig t g' c)"
  using c g' unfolding co_ok_def
  by (simp add: on_trigs(3) [OF g g'(1)] all_ran_upd on_trigs(2) [where f = cg_last_modified, OF g] del: fun_upd_apply)

lemma touch_trace_ok:
  assumes c: "co_ok c" and r: "ctrace_of c i = Some r"
    and r': "set (ct_triggers r') = set (ct_triggers r)" "trace_shape r'" "ct_last_modified r' = c_now c"
  shows "co_ok ((put_ctrace i r' c)\<lparr>trace_lru := lru_move_front i (trace_lru c)\<rparr>)"
proof -
  have "timed (lru_move_front i (trace_lru c)) ((stamps ct_last_modified (ctrace_of c))(i \<mapsto> c_now c)) (c_now c)"
    using timed_touch [OF co_okD(2) [OF c] on_traces(1) [OF r]] .
  then show ?thesis
    using c r' unfolding co_ok_def by (simp add: on_traces(3) [OF r r'(1)] all_ran_upd del: fun_upd_apply)
qed

lemma put_trace_ok:
  assumes c: "co_ok c" and r: "ctrace_of c i = Some r"
    and r': "set (ct_triggers r') = set (ct_triggers r)" "trace_shape r'" "ct_last_modified r' = ct_last_modified r"
  shows "co_ok (put_ctrace i r' c)"
  using c r' unfolding co_ok_def
  by (simp add: on_traces(3) [OF r r'(1)] all_ran_upd on_traces(2) [where f = ct_last_modified, OF r] del: fun_upd_apply)

text \<open>Linking a trigger and a trace, and touching the trace.\<close>

lemma link_pair_ok:
  assumes c: "co_ok c" and g: "trig_of c t = Some g" and r: "ctrace_of c i = Some r"
    and g': "set (cg_traces g') = insert i (set (cg_traces g))" "trig_shape g'" "cg_last_modified g' = cg_last_modified g"
    and r': "set (ct_triggers r') = insert t (set (ct_triggers r))" "trace_shape r'" "ct_last_modified r' = c_now c"
  shows "co_ok ((put_trig t g' (put_ctrace i r' c))\<lparr>trace_lru := lru_move_front i (trace_lru c)\<rparr>)"
proof -
  have l: "timed (lru_move_front i (trace_lru c)) ((stamps ct_last_modified (ctrace_of c))(i \<mapsto> c_now c)) (c_now c)"
    using timed_touch [OF co_okD(2) [OF c] on_traces(1) [OF r]] .
  have "rel ct_triggers ((ctrace_of c)(i \<mapsto> r')) = rel ct_triggers (ctrace_of c) \<union> {i} \<times> {t}"
    using r'(1) by (intro on_traces(4) [OF r]) simp
  moreover have "rel cg_traces ((trig_of c)(t \<mapsto> g')) = rel cg_traces (trig_of c) \<union> {t} \<times> {i}"
    using g'(1) by (intro on_trigs(4) [OF g]) simp
  moreover have "(rel ct_triggers (ctrace_of c))\<inverse> = rel cg_traces (trig_of c)" using c by (simp only: co_ok_def)
  ultimately have "(rel ct_triggers ((ctrace_of c)(i \<mapsto> r')))\<inverse> = rel cg_traces ((trig_of c)(t \<mapsto> g'))"
    by (simp only: converse_Un converse_Times)
  then show ?thesis
    using c l g' r' unfolding co_ok_def
    by (simp add: all_ran_upd on_trigs(2) [where f = cg_last_modified, OF g] del: fun_upd_apply)
qed

section \<open>\<open>AddTrigger\<close>\<close>

text \<open>A trace that is new to the trigger is linked to it.\<close>

lemma link_trace_ok:
  assumes c: "co_ok c" and g: "trig_of c t = Some g" and i: "i \<notin> set (cg_traces g)"
  shows "yields (link_trace src t i c) (\<lambda>c'. co_ok c' \<and> trig_of c' t \<noteq> None \<and> spec_of c' = sp_link src t {i} (spec_of c))"
proof -
  let ?c = "getTrace i c"
  note gt = getTrace_ok [OF c, of i]
  obtain r where r: "ctrace_of ?c i = Some r" using gt(2) by blast
  have g1: "trig_of ?c t = Some g" using gt(3) g by simp
  define g' where "g' = g\<lparr>cg_traces := set_add i (cg_traces g), cg_known_at := fold set_add (ct_known_at r) (cg_known_at g)\<rparr>"
  define r' where "r' = r\<lparr>ct_triggers := set_add t (ct_triggers r), ct_known_at := set_add src (ct_known_at r),
     ct_last_modified := c_now ?c\<rparr>"
  let ?c' = "(put_trig t g' (put_ctrace i r' ?c))\<lparr>trace_lru := lru_move_front i (trace_lru ?c)\<rparr>"
  have e: "link_trace src t i c = Inr ?c'"
    using r g1 by (simp add: link_trace_def Let_def g'_def r'_def)
  have sh: "trig_shape g'" "trace_shape r'"
    using co_ok_distinct(1) [OF gt(1) g1] co_ok_distinct(2) [OF gt(1) r]
    by (simp_all add: trig_shape_def trace_shape_def g'_def r'_def)
  have ok: "co_ok ?c'"
    by (rule link_pair_ok [OF gt(1) g1 r _ sh(1) _ _ sh(2)]) (simp_all add: g'_def r'_def)
  have n: "sp_member (spec_of c) `` {t} = set (cg_traces g)" by (simp add: spec_of_def rel_Image g)
  have new: "{i} - set (cg_traces g) = {i}" using i by auto
  have "rel cg_traces ((trig_of c)(t \<mapsto> g')) = rel cg_traces (trig_of c) \<union> {t} \<times> {i}"
    by (intro on_trigs(4) [OF g]) (simp add: g'_def)
  moreover have "rel cg_known_at ((trig_of c)(t \<mapsto> g')) = rel cg_known_at (trig_of c) \<union> {t} \<times> (rel ct_known_at (ctrace_of c) `` {i})"
    using rel_Image [of "ctrace_of ?c" i r ct_known_at, OF r] gt(6) by (intro on_trigs(4) [OF g]) (auto simp: g'_def)
  moreover have "rel ct_known_at ((ctrace_of ?c)(i \<mapsto> r')) = rel ct_known_at (ctrace_of c) \<union> {i} \<times> {src}"
    using on_traces(4) [OF r, of ct_known_at r' "{src}"] gt(6) by (simp add: r'_def)
  moreover have "(stamps ct_last_modified (ctrace_of ?c))(i \<mapsto> c_now c) = sp_touch {i} (c_now c) (stamps ct_last_modified (ctrace_of c))"
    unfolding gt(7) by (simp add: sp_touch_def fun_eq_iff)
  moreover have "stamps f ((trig_of c)(t \<mapsto> g')) = stamps f (trig_of c)" if "f g' = f g" for f
    using on_trigs(2) [where f = f, OF g] that by simp
  moreover have "ct_last_modified r' = c_now c" "cg_last_modified g' = cg_last_modified g" "cg_created g' = cg_created g"
    using gt(4) by (simp_all add: r'_def g'_def)
  ultimately have "spec_of ?c' = sp_link src t {i} (spec_of c)"
    using gt(3,4) unfolding sp_link_def n Let_def new
    by (simp add: spec_of_def del: fun_upd_apply stamps_upd) (simp del: fun_upd_apply)
  then show ?thesis using e ok by simp
qed

lemma sp_link_insert:
  assumes "i \<notin> sp_member s `` {t}"
  shows "sp_link src t I (sp_link src t {i} s) = sp_link src t (insert i I) s"
proof (rule coord_spec.equality)
  have n: "{i} - sp_member s `` {t} = {i}" using assms by auto
  note d = sp_link_def Let_def n
  show "sp_trace_time (sp_link src t I (sp_link src t {i} s)) = sp_trace_time (sp_link src t (insert i I) s)"
    using assms by (auto simp: d sp_touch_def fun_eq_iff)
  show "sp_member (sp_link src t I (sp_link src t {i} s)) = sp_member (sp_link src t (insert i I) s)"
    using assms by (auto simp: d)
  show "sp_trigger_at (sp_link src t I (sp_link src t {i} s)) = sp_trigger_at (sp_link src t (insert i I) s)"
    using assms by (auto simp: d)
  show "sp_trace_at (sp_link src t I (sp_link src t {i} s)) = sp_trace_at (sp_link src t (insert i I) s)"
    using assms by (auto simp: d)
qed (simp_all add: sp_link_def Let_def)

lemma sp_link_step:
  "i \<in> sp_member s `` {t} \<Longrightarrow> sp_link src t (insert i I) s = sp_link src t I s"
  "sp_link src t {} s = s"
  by (auto simp: sp_link_def Let_def sp_touch_def fun_eq_iff)

lemma link_traces_ok:
  assumes "co_ok c" and "trig_of c t \<noteq> None"
  shows "yields (link_traces src t is needs c) (\<lambda>(needs', c'). co_ok c' \<and> trig_of c' t \<noteq> None \<and>
     spec_of c' = sp_link src t (set is) (spec_of c) \<and>
     (needs' \<longleftrightarrow> needs \<or> \<not> set is \<subseteq> sp_member (spec_of c) `` {t}))"
  using assms
proof (induction "is" arbitrary: needs c)
  case (Cons i "is")
  obtain g where g: "trig_of c t = Some g" using Cons.prems(2) by auto
  have m: "sp_member (spec_of c) `` {t} = set (cg_traces g)" by (simp add: spec_of_def rel_Image g)
  show ?case
  proof (cases "i \<in> set (cg_traces g)")
    case True
    then show ?thesis using Cons.IH [OF Cons.prems, of needs] g m by (auto simp: sp_link_step(1) elim!: yieldsE)
  next
    case False
    obtain c1 where c1: "link_trace src t i c = Inr c1" "co_ok c1" "trig_of c1 t \<noteq> None"
        "spec_of c1 = sp_link src t {i} (spec_of c)"
      using link_trace_ok [OF Cons.prems(1) g False, of src] by (elim yieldsE) auto
    show ?thesis using Cons.IH [OF c1(2,3), of True] False g m c1(1) sp_link_insert [of i "spec_of c" t src "set is"]
      by (auto simp: c1(4) elim!: yieldsE)
  qed
qed (simp add: sp_link_step(2))

lemma mention_ok:
  fixes t src
  assumes c: "co_ok c"
  defines "c0 \<equiv> getTrigger t c"
  assumes g: "trig_of c0 t = Some g"
  defines "g1 \<equiv> g\<lparr>cg_known_at := set_add src (cg_known_at g), cg_last_modified := c_now c0\<rparr>"
  defines "c1 \<equiv> (put_trig t g1 c0)\<lparr>trigger_lru := lru_move_front t (trigger_lru c0)\<rparr>"
  shows "co_ok c1 \<and> trig_of c1 t = Some g1 \<and> spec_of c1 = sp_mention src t (spec_of c)"
proof -
  note gt = getTrigger_ok [OF c, of t, folded c0_def]
  have "co_ok c1" unfolding c1_def
    using co_ok_distinct(1) [OF gt(1) g] by (intro touch_trig_ok [OF gt(1) g]) (simp_all add: g1_def trig_shape_def)
  moreover have "rel cg_traces (trig_of c1) = rel cg_traces (trig_of c)"
    unfolding c1_def using gt(6) on_trigs(3) [OF g, of cg_traces g1] by (simp add: g1_def)
  moreover have "rel cg_known_at (trig_of c1) = rel cg_known_at (trig_of c) \<union> {t} \<times> {src}"
    unfolding c1_def using gt(7) on_trigs(4) [OF g, of cg_known_at g1 "{src}"] by (simp add: g1_def)
  moreover have "stamps cg_last_modified (trig_of c1) = (stamps cg_last_modified (trig_of c))(t \<mapsto> c_now c)"
    unfolding c1_def using gt(4,8) by (simp add: g1_def)
  moreover have "stamps cg_created (trig_of c1) = stamps cg_created (trig_of c0)"
    unfolding c1_def using on_trigs(2) [where f = cg_created, OF g] by (simp add: g1_def del: fun_upd_apply)
  ultimately show ?thesis
    using gt(3,4,9) by (auto simp: spec_of_def sp_mention_def c1_def)
qed

lemma AddTrigger_ok:
  assumes c: "co_ok c" and co: "coord_orders_ok co"
  shows "yields (AddTrigger co src t c) (\<lambda>(send_to, c'). co_ok c' \<and>
     spec_of c' = sp_AddTrigger src (trigger_id t) (set (trace_ids t)) (spec_of c) \<and> distinct send_to \<and>
     set send_to = (if set (trace_ids t) \<subseteq> sp_member (spec_of c) `` {trigger_id t} then {}
                    else sp_trigger_at (spec_of c') `` {trigger_id t} - {src}))"
proof -
  let ?t = "trigger_id t" and ?c0 = "getTrigger (trigger_id t) c"
  obtain g where g: "trig_of ?c0 ?t = Some g" using getTrigger_ok(2) [OF c] by blast
  define c1 where "c1 = (put_trig ?t (g\<lparr>cg_known_at := set_add src (cg_known_at g), cg_last_modified := c_now ?c0\<rparr>) ?c0)
     \<lparr>trigger_lru := lru_move_front ?t (trigger_lru ?c0)\<rparr>"
  have c1: "co_ok c1" "trig_of c1 ?t \<noteq> None" "spec_of c1 = sp_mention src ?t (spec_of c)"
    using mention_ok [OF c g, of src] by (simp_all add: c1_def)
  obtain n c2 where c2: "link_traces src ?t (trace_ids t) False c1 = Inr (n, c2)" "co_ok c2" "trig_of c2 ?t \<noteq> None"
      "spec_of c2 = sp_AddTrigger src ?t (set (trace_ids t)) (spec_of c)"
      "n \<longleftrightarrow> \<not> set (trace_ids t) \<subseteq> sp_member (spec_of c) `` {?t}"
    using link_traces_ok [OF c1(1,2), of src "trace_ids t" False] c1(3)
    by (elim yieldsE) (auto simp: sp_AddTrigger_def sp_mention_def)
  obtain g2 where g2: "trig_of c2 ?t = Some g2" using c2(3) by auto
  have k: "key_order (co_addr co)" using co by (simp add: coord_orders_ok_def)
  have e: "AddTrigger co src t c = Inr (if n then filter (\<lambda>addr. addr \<noteq> src) (co_addr co (cg_known_at g2)) else [], c2)"
    using g c2(1) g2 by (simp add: AddTrigger_def Let_def c1_def)
  have "sp_trigger_at (spec_of c2) `` {?t} = set (cg_known_at g2)" by (simp add: spec_of_def rel_Image g2)
  then show ?thesis
    using c2 e co_ok_distinct(1) [OF c2(2) g2] by (auto simp: key_order_set [OF k] key_order_distinct [OF k])
qed

section \<open>\<open>AddBreadcrumb\<close>\<close>

text \<open>
  The triggers of a trace that an address does not know, and a message that brings them to it: each
  once, with all the traces it covers.
\<close>

definition untold :: "coord_spec \<Rightarrow> u64 \<Rightarrow> string \<Rightarrow> TriggerID set" where
  "untold s i a = {t. (t, i) \<in> sp_member s \<and> (t, a) \<notin> sp_trigger_at s}"

definition delivers :: "coord_spec \<Rightarrow> Trigger list \<Rightarrow> TriggerID set \<Rightarrow> bool" where
  "delivers s ts T \<longleftrightarrow> distinct (map trigger_id ts) \<and> trigger_id ` set ts = T \<and>
     (\<forall>u\<in>set ts. set (trace_ids u) = sp_member s `` {trigger_id u})"

lemma spec_simps:
  "sp_member (spec_of c) = rel cg_traces (trig_of c)" "sp_trigger_at (spec_of c) = rel cg_known_at (trig_of c)"
  "sp_trace_at (spec_of c) = rel ct_known_at (ctrace_of c)" "sp_now (spec_of c) = c_now c"
  "dom (sp_trigger_time (spec_of c)) = dom (trig_of c)" "dom (sp_trace_time (spec_of c)) = dom (ctrace_of c)"
  by (simp_all add: spec_of_def)

lemma tell_one:
  fixes addr n
  assumes c: "co_ok c" and g: "trig_of c t = Some g"
  defines "c1 \<equiv> put_trig t (g\<lparr>cg_known_at := set_add addr (cg_known_at g), cg_last_breadcrumb := n\<rparr>) c"
  shows "co_ok c1" and "ctrace_of c1 = ctrace_of c"
    and "spec_of c1 = (spec_of c)\<lparr>sp_trigger_at := sp_trigger_at (spec_of c) \<union> {t} \<times> {addr}\<rparr>"
proof -
  define g1 where "g1 = g\<lparr>cg_known_at := set_add addr (cg_known_at g), cg_last_breadcrumb := n\<rparr>"
  show "co_ok c1" unfolding c1_def
    using co_ok_distinct(1) [OF c g] by (intro put_trig_ok [OF c g]) (simp_all add: trig_shape_def)
  show "ctrace_of c1 = ctrace_of c" by (simp add: c1_def)
  have "rel cg_traces (trig_of c1) = rel cg_traces (trig_of c)"
    using on_trigs(3) [OF g, of cg_traces g1] by (simp add: c1_def g1_def)
  moreover have "rel cg_known_at (trig_of c1) = rel cg_known_at (trig_of c) \<union> {t} \<times> {addr}"
    using on_trigs(4) [OF g, of cg_known_at g1 "{addr}"] by (simp add: c1_def g1_def)
  moreover have "stamps f (trig_of c1) = stamps f (trig_of c)" if "f g1 = f g" for f
    using on_trigs(2) [where f = f, OF g] that by (simp add: c1_def g1_def del: fun_upd_apply)
  ultimately show "spec_of c1 = (spec_of c)\<lparr>sp_trigger_at := sp_trigger_at (spec_of c) \<union> {t} \<times> {addr}\<rparr>"
    by (simp add: spec_of_def g1_def c1_def del: stamps_upd)
qed

lemma tell_triggers_ok:
  assumes "co_ok c" and "coord_orders_ok co" and "set ts \<subseteq> dom (trig_of c)" and "distinct ts"
  shows "yields (tell_triggers co addr ts acc c) (\<lambda>(out, c'). co_ok c' \<and> ctrace_of c' = ctrace_of c \<and>
     spec_of c' = (spec_of c)\<lparr>sp_trigger_at := sp_trigger_at (spec_of c) \<union> set ts \<times> {addr}\<rparr> \<and>
     (\<exists>new. out = acc @ new \<and> map trigger_id new = filter (\<lambda>t. (t, addr) \<notin> sp_trigger_at (spec_of c)) ts \<and>
        (\<forall>u\<in>set new. set (trace_ids u) = sp_member (spec_of c) `` {trigger_id u})))"
  using assms(1,3,4)
proof (induction ts arbitrary: acc c)
  case (Cons t ts)
  obtain g where g: "trig_of c t = Some g" using Cons.prems(2) by auto
  have k: "addr \<in> set (cg_known_at g) \<longleftrightarrow> (t, addr) \<in> sp_trigger_at (spec_of c)" by (simp add: spec_simps in_rel g)
  show ?case
  proof (cases "addr \<in> set (cg_known_at g)")
    case True
    then have "sp_trigger_at (spec_of c) \<union> set (t # ts) \<times> {addr} = sp_trigger_at (spec_of c) \<union> set ts \<times> {addr}"
      using k by auto
    moreover have "set ts \<subseteq> dom (trig_of c)" using Cons.prems(2) by simp
    ultimately show ?thesis using Cons.IH [OF Cons.prems(1), of acc] Cons.prems(3) True k g by (simp del: set_simps)
  next
    case False
    define c1 where "c1 = put_trig t (g\<lparr>cg_known_at := set_add addr (cg_known_at g), cg_last_breadcrumb := c_now c\<rparr>) c"
    note c1 = tell_one [OF Cons.prems(1) g, where addr = addr and n = "c_now c", folded c1_def]
    have d: "set ts \<subseteq> dom (trig_of c1)" using Cons.prems(2) by (auto simp: c1_def)
    have dts: "distinct ts" using Cons.prems(3) by simp
    obtain out c' new where o: "tell_triggers co addr ts (acc @ [triggerstate_Trigger co t g]) c1 = Inr (out, c')"
        "co_ok c'" "ctrace_of c' = ctrace_of c"
        "spec_of c' = (spec_of c1)\<lparr>sp_trigger_at := sp_trigger_at (spec_of c1) \<union> set ts \<times> {addr}\<rparr>"
        "out = (acc @ [triggerstate_Trigger co t g]) @ new"
        "map trigger_id new = filter (\<lambda>t. (t, addr) \<notin> sp_trigger_at (spec_of c1)) ts"
        "\<forall>u\<in>set new. set (trace_ids u) = sp_member (spec_of c1) `` {trigger_id u}"
      using Cons.IH [OF c1(1) d dts, of "acc @ [triggerstate_Trigger co t g]"] c1(2) by (elim yieldsE) auto
    have "set (trace_ids (triggerstate_Trigger co t g)) = sp_member (spec_of c) `` {t}"
      using assms(2) by (simp add: triggerstate_Trigger_def spec_simps rel_Image [of "trig_of c" t g, OF g] key_order_set coord_orders_ok_def)
    moreover have "filter (\<lambda>u. (u, addr) \<notin> sp_trigger_at (spec_of c1)) ts = filter (\<lambda>u. (u, addr) \<notin> sp_trigger_at (spec_of c)) ts"
      using Cons.prems(3) by (intro filter_cong) (auto simp: c1(3))
    moreover have "spec_of c' = (spec_of c)\<lparr>sp_trigger_at := sp_trigger_at (spec_of c) \<union> set (t # ts) \<times> {addr}\<rparr>"
      unfolding o(4) c1(3) by (simp add: Un_assoc) 
    ultimately show ?thesis using o False k g c1(3) unfolding c1_def
      by (simp add: triggerstate_Trigger_def)
  qed
qed simp

lemma getTrace_spec:
  "co_ok c \<Longrightarrow> spec_of (getTrace i c) = (spec_of c)\<lparr>sp_trace_time := (if ctrace_of c i = None
     then (sp_trace_time (spec_of c))(i \<mapsto> c_now c) else sp_trace_time (spec_of c))\<rparr>"
  using getTrace_ok [of c i] by (auto simp: spec_of_def)

lemma members_of_trace:
  "co_ok c \<Longrightarrow> ctrace_of c i = Some r \<Longrightarrow> (sp_member (spec_of c))\<inverse> `` {i} = set (ct_triggers r)"
  using co_ok_sym [of c i] by (auto simp: spec_simps in_rel)

text \<open>One turn of the loop over the addresses of a breadcrumb, for an address that is new to the trace.\<close>

lemma tell_addr_ok:
  assumes c: "co_ok c" and co: "coord_orders_ok co" and r: "ctrace_of c i = Some r"
  shows "yields (tell_triggers co a (co_trigger co (ct_triggers r)) [] c) (\<lambda>(ts, c1).
     delivers (spec_of c) ts (untold (spec_of c) i a) \<and> ctrace_of c1 = ctrace_of c \<and> c_now c1 = c_now c \<and>
     co_ok (put_ctrace i (r\<lparr>ct_known_at := set_add a (ct_known_at r), ct_last_breadcrumb := n\<rparr>) c1) \<and>
     spec_of (put_ctrace i (r\<lparr>ct_known_at := set_add a (ct_known_at r), ct_last_breadcrumb := n\<rparr>) c1) =
       (spec_of c)\<lparr>sp_trigger_at := sp_trigger_at (spec_of c) \<union> (sp_member (spec_of c))\<inverse> `` {i} \<times> {a},
                   sp_trace_at := sp_trace_at (spec_of c) \<union> {i} \<times> {a}\<rparr>)"
proof -
  let ?ts = "co_trigger co (ct_triggers r)"
  have k: "key_order (co_trigger co)" using co by (simp add: coord_orders_ok_def)
  have ts: "set ?ts = (sp_member (spec_of c))\<inverse> `` {i}" "distinct ?ts"
    using members_of_trace [OF c r] co_ok_distinct(2) [OF c r] by (simp_all add: key_order_set [OF k] key_order_distinct [OF k])
  have d: "set ?ts \<subseteq> dom (trig_of c)" unfolding ts(1) by (auto simp: spec_simps in_rel)
  obtain new c1 where o: "tell_triggers co a ?ts [] c = Inr (new, c1)" "co_ok c1" "ctrace_of c1 = ctrace_of c"
      "spec_of c1 = (spec_of c)\<lparr>sp_trigger_at := sp_trigger_at (spec_of c) \<union> set ?ts \<times> {a}\<rparr>"
      "map trigger_id new = filter (\<lambda>t. (t, a) \<notin> sp_trigger_at (spec_of c)) ?ts"
      "\<forall>u\<in>set new. set (trace_ids u) = sp_member (spec_of c) `` {trigger_id u}"
    using tell_triggers_ok [OF c co d ts(2), of a "[]"] by (elim yieldsE) auto
  have "trigger_id ` set new = untold (spec_of c) i a"
    unfolding set_map [symmetric] o(5) using ts(1) by (auto simp: untold_def)
  then have dl: "delivers (spec_of c) new (untold (spec_of c) i a)" using o(5,6) ts(2) by (simp add: delivers_def)
  define r1 where "r1 = r\<lparr>ct_known_at := set_add a (ct_known_at r), ct_last_breadcrumb := n\<rparr>"
  have r': "ctrace_of c1 i = Some r" using o(3) r by simp
  have ok: "co_ok (put_ctrace i r1 c1)"
    using co_ok_distinct(2) [OF c r] by (intro put_trace_ok [OF o(2) r']) (simp_all add: trace_shape_def r1_def)
  have "rel ct_known_at ((ctrace_of c)(i \<mapsto> r1)) = rel ct_known_at (ctrace_of c) \<union> {i} \<times> {a}"
    using on_traces(4) [OF r, of ct_known_at r1 "{a}"] by (simp add: r1_def)
  moreover have "stamps ct_last_modified ((ctrace_of c)(i \<mapsto> r1)) = stamps ct_last_modified (ctrace_of c)"
    using on_traces(2) [where f = ct_last_modified, OF r] by (simp add: r1_def del: fun_upd_apply)
  ultimately have "spec_of (put_ctrace i r1 c1) = (spec_of c1)\<lparr>sp_trace_at := sp_trace_at (spec_of c1) \<union> {i} \<times> {a}\<rparr>"
    using o(3) by (simp add: spec_of_def del: stamps_upd)
  moreover have "c_now c1 = c_now c" using arg_cong [OF o(4), of sp_now] by (simp add: spec_of_def)
  ultimately show ?thesis using o(1,3,4) ok dl ts(1) unfolding r1_def by simp
qed

text \<open>
  The message for each address after the loop: new addresses of the trace get what they did not know,
  the others what they had before.
\<close>

definition messages :: "coord_spec \<Rightarrow> u64 \<Rightarrow> string set \<Rightarrow> (string \<rightharpoonup> Trigger list) \<Rightarrow> (string \<rightharpoonup> Trigger list) \<Rightarrow> bool" where
  "messages s i A m m' \<longleftrightarrow> (\<forall>a.
     if a \<in> A \<and> (i, a) \<notin> sp_trace_at s \<and> untold s i a \<noteq> {}
     then \<exists>ts. m' a = Some ts \<and> delivers s ts (untold s i a) else m' a = m a)"

lemma messagesD:
  assumes "messages s i A m m'"
  shows "a \<in> A \<Longrightarrow> (i, a) \<notin> sp_trace_at s \<Longrightarrow> t \<in> untold s i a \<Longrightarrow> \<exists>ts. m' a = Some ts \<and> delivers s ts (untold s i a)"
    and "(i, a) \<in> sp_trace_at s \<Longrightarrow> m' a = m a"
  using assms unfolding messages_def by (metis empty_iff)+

lemma messages_step:
  assumes a: "(i, a) \<notin> sp_trace_at s" and d: "delivers s ts (untold s i a)"
    and s2: "s2 = s\<lparr>sp_trigger_at := sp_trigger_at s \<union> (sp_member s)\<inverse> `` {i} \<times> {a}, sp_trace_at := sp_trace_at s \<union> {i} \<times> {a}\<rparr>"
    and m: "messages s2 i A (map_of (if ts \<noteq> [] then AList.update a ts m else m)) m'"
  shows "messages s i (insert a A) (map_of m) m'"
  unfolding messages_def
proof (rule allI)
  fix b
  have mb: "if b \<in> A \<and> (i, b) \<notin> sp_trace_at s2 \<and> untold s2 i b \<noteq> {}
     then \<exists>ts. m' b = Some ts \<and> delivers s2 ts (untold s2 i b) else m' b = map_of (if ts \<noteq> [] then AList.update a ts m else m) b"
    using m unfolding messages_def by blast
  show "if b \<in> insert a A \<and> (i, b) \<notin> sp_trace_at s \<and> untold s i b \<noteq> {}
     then \<exists>ts. m' b = Some ts \<and> delivers s ts (untold s i b) else m' b = map_of m b"
  proof (cases "b = a")
    case True
    then show ?thesis using mb a d by (auto simp: s2 delivers_def split: if_splits)
  next
    case False
    then have "untold s2 i b = untold s i b" "(i, b) \<in> sp_trace_at s2 \<longleftrightarrow> (i, b) \<in> sp_trace_at s"
      by (auto simp: s2 untold_def)
    moreover have "delivers s2 = delivers s" by (auto simp: s2 delivers_def fun_eq_iff)
    ultimately show ?thesis using mb False by (auto split: if_splits)
  qed
qed

lemma tell_addrs_ok:
  assumes "co_ok c" and co: "coord_orders_ok co" and "ctrace_of c i \<noteq> None"
  shows "yields (tell_addrs co i addrs m c) (\<lambda>(m', c'). co_ok c' \<and> ctrace_of c' i \<noteq> None \<and>
     spec_of c' = (let new = set addrs - sp_trace_at (spec_of c) `` {i} in
       (spec_of c)\<lparr>sp_trigger_at := sp_trigger_at (spec_of c) \<union> (sp_member (spec_of c))\<inverse> `` {i} \<times> new,
                   sp_trace_at := sp_trace_at (spec_of c) \<union> {i} \<times> new\<rparr>) \<and>
     messages (spec_of c) i (set addrs) (map_of m) (map_of m'))"
  using assms(1,3)
proof (induction addrs arbitrary: m c)
  case (Cons a addrs)
  obtain r where r: "ctrace_of c i = Some r" using Cons.prems(2) by auto
  have k: "a \<in> set (ct_known_at r) \<longleftrightarrow> (i, a) \<in> sp_trace_at (spec_of c)" by (simp add: spec_simps in_rel r)
  show ?case
  proof (cases "a \<in> set (ct_known_at r)")
    case True
    then have "set (a # addrs) - sp_trace_at (spec_of c) `` {i} = set addrs - sp_trace_at (spec_of c) `` {i}"
      using k by auto
    moreover have "messages (spec_of c) i (set (a # addrs)) m1 m2 = messages (spec_of c) i (set addrs) m1 m2" for m1 m2
      using True k unfolding messages_def by (intro all_cong1) auto
    ultimately show ?thesis using Cons.IH [OF Cons.prems, of m] True r by (simp del: set_simps)
  next
    case False
    define r1 where "r1 = r\<lparr>ct_known_at := set_add a (ct_known_at r), ct_last_breadcrumb := c_now c\<rparr>"
    obtain ts c1 where o: "tell_triggers co a (co_trigger co (ct_triggers r)) [] c = Inr (ts, c1)"
        "delivers (spec_of c) ts (untold (spec_of c) i a)" "c_now c1 = c_now c" "co_ok (put_ctrace i r1 c1)"
        "spec_of (put_ctrace i r1 c1) =
           (spec_of c)\<lparr>sp_trigger_at := sp_trigger_at (spec_of c) \<union> (sp_member (spec_of c))\<inverse> `` {i} \<times> {a},
                       sp_trace_at := sp_trace_at (spec_of c) \<union> {i} \<times> {a}\<rparr>"
      using tell_addr_ok [OF Cons.prems(1) co r, of a "c_now c"] unfolding r1_def by (elim yieldsE) auto
    let ?m1 = "if ts \<noteq> [] then AList.update a ts m else m" and ?c2 = "put_ctrace i r1 c1"
    obtain m' c' where l: "tell_addrs co i addrs ?m1 ?c2 = Inr (m', c')" "co_ok c'" "ctrace_of c' i \<noteq> None"
        "spec_of c' = (let new = set addrs - sp_trace_at (spec_of ?c2) `` {i} in
           (spec_of ?c2)\<lparr>sp_trigger_at := sp_trigger_at (spec_of ?c2) \<union> (sp_member (spec_of ?c2))\<inverse> `` {i} \<times> new,
                   sp_trace_at := sp_trace_at (spec_of ?c2) \<union> {i} \<times> new\<rparr>)"
        "messages (spec_of ?c2) i (set addrs) (map_of ?m1) (map_of m')"
      using Cons.IH [OF o(4), of ?m1] by (simp, elim yieldsE) auto
    have e: "tell_addrs co i (a # addrs) m c = Inr (m', c')"
      using False r o(1,3) l(1) by (simp add: r1_def)
    have new: "set (a # addrs) - sp_trace_at (spec_of c) `` {i} = insert a (set addrs - insert a (sp_trace_at (spec_of c) `` {i}))"
      using False k by auto
    have "spec_of c' = (let new = set (a # addrs) - sp_trace_at (spec_of c) `` {i} in
       (spec_of c)\<lparr>sp_trigger_at := sp_trigger_at (spec_of c) \<union> (sp_member (spec_of c))\<inverse> `` {i} \<times> new,
                   sp_trace_at := sp_trace_at (spec_of c) \<union> {i} \<times> new\<rparr>)"
      unfolding l(4) o(5) new Let_def by (rule coord_spec.equality) (auto simp: Image_Un)
    moreover have "messages (spec_of c) i (set (a # addrs)) (map_of m) (map_of m')"
      using messages_step [OF _ o(2,5) l(5)] False k by simp
    ultimately show ?thesis unfolding e using l(2,3) by simp
  qed
qed (simp add: messages_def)

text \<open>The triggers of the trace are touched.\<close>

lemma touch_trigger_ok:
  assumes c: "co_ok c" and "t \<in> dom (trig_of c)"
  shows "yields (touch_trigger t c) (\<lambda>c'. co_ok c' \<and> ctrace_of c' = ctrace_of c \<and>
     spec_of c' = (spec_of c)\<lparr>sp_trigger_time := sp_touch {t} (c_now c) (sp_trigger_time (spec_of c))\<rparr>)"
proof -
  obtain g where g: "trig_of c t = Some g" using assms(2) by auto
  define g1 where "g1 = g\<lparr>cg_last_modified := c_now c\<rparr>"
  let ?c1 = "(put_trig t g1 c)\<lparr>trigger_lru := lru_move_front t (trigger_lru c)\<rparr>"
  have "co_ok ?c1"
    using co_ok_distinct(1) [OF c g] by (intro touch_trig_ok [OF c g]) (simp_all add: g1_def trig_shape_def)
  moreover have "rel f ((trig_of c)(t \<mapsto> g1)) = rel f (trig_of c)" if "f g1 = f g" for f :: "triggerstate \<Rightarrow> 'a list"
    using on_trigs(3) [OF g, of f g1] that by simp
  moreover have "rel f ((trig_of c)(t \<mapsto> g1)) = rel f (trig_of c)" if "f g1 = f g" for f :: "triggerstate \<Rightarrow> string list"
    using on_trigs(3) [OF g, of f g1] that by simp
  moreover have "stamps cg_created ((trig_of c)(t \<mapsto> g1)) = stamps cg_created (trig_of c)"
    using on_trigs(2) [where f = cg_created, OF g] by (simp add: g1_def del: fun_upd_apply)
  moreover have "rel cg_traces ((trig_of c)(t \<mapsto> g1)) = rel cg_traces (trig_of c)"
    using on_trigs(3) [OF g, of cg_traces g1] by (simp add: g1_def)
  moreover have "stamps cg_last_modified ((trig_of c)(t \<mapsto> g1)) = sp_touch {t} (c_now c) (stamps cg_last_modified (trig_of c))"
    by (simp add: g1_def sp_touch_def fun_eq_iff)
  ultimately have "co_ok ?c1 \<and> spec_of ?c1 = (spec_of c)\<lparr>sp_trigger_time := sp_touch {t} (c_now c) (sp_trigger_time (spec_of c))\<rparr>"
    by (simp add: spec_of_def g1_def del: stamps_upd)
  then show ?thesis using g by (simp add: touch_trigger_def g1_def)
qed

lemma touch_triggers_ok:
  assumes "co_ok c" and "set ts \<subseteq> dom (trig_of c)"
  shows "yields (foreach touch_trigger ts c) (\<lambda>c'. co_ok c' \<and> ctrace_of c' = ctrace_of c \<and>
     spec_of c' = (spec_of c)\<lparr>sp_trigger_time := sp_touch (set ts) (c_now c) (sp_trigger_time (spec_of c))\<rparr>)"
  using assms
proof (induction ts arbitrary: c)
  case (Cons t ts)
  obtain c1 where c1: "touch_trigger t c = Inr c1" "co_ok c1" "ctrace_of c1 = ctrace_of c"
      "spec_of c1 = (spec_of c)\<lparr>sp_trigger_time := sp_touch {t} (c_now c) (sp_trigger_time (spec_of c))\<rparr>"
    using touch_trigger_ok [OF Cons.prems(1), of t] Cons.prems(2) by (simp, elim yieldsE) auto
  have n: "c_now c1 = c_now c" using arg_cong [OF c1(4), of sp_now] by (simp add: spec_simps)
  have "dom (trig_of c) \<subseteq> dom (trig_of c1)"
    unfolding spec_simps(5) [symmetric] c1(4) by (auto simp: sp_touch_def dom_def)
  then have d: "set ts \<subseteq> dom (trig_of c1)" using Cons.prems(2) by (simp, meson subset_trans)
  have "sp_touch (set ts) n (sp_touch {t} n M) = sp_touch (set (t # ts)) n M" for n and M :: "TriggerID \<rightharpoonup> time"
    by (auto simp: sp_touch_def)
  then show ?case using Cons.IH [OF c1(2) d] c1(1,3) n unfolding c1(4) by simp
qed (simp add: sp_touch_def)

lemma AddBreadcrumb_ok:
  assumes c: "co_ok c" and co: "coord_orders_ok co"
  shows "yields (AddBreadcrumb co src i addrs c) (\<lambda>(out, c'). co_ok c' \<and>
     spec_of c' = sp_AddBreadcrumb i (insert src (set addrs)) (spec_of c) \<and>
     messages (spec_of c) i (insert src (set addrs)) Map.empty (map_of out))"
proof -
  let ?c = "getTrace i c" and ?A = "insert src (set addrs)"
  note gt = getTrace_ok [OF c, of i]
  have s0: "sp_member (spec_of ?c) = sp_member (spec_of c)" "sp_trigger_at (spec_of ?c) = sp_trigger_at (spec_of c)"
      "sp_trace_at (spec_of ?c) = sp_trace_at (spec_of c)"
    unfolding getTrace_spec [OF c] by simp_all
  have m0: "messages (spec_of ?c) i ?A m m' = messages (spec_of c) i ?A m m'" for m m'
    by (simp add: messages_def untold_def delivers_def s0)
  obtain out c1 where t: "tell_addrs co i (addrs @ [src]) [] ?c = Inr (out, c1)" "co_ok c1" "ctrace_of c1 i \<noteq> None"
      "spec_of c1 = (let new = ?A - sp_trace_at (spec_of ?c) `` {i} in
        (spec_of ?c)\<lparr>sp_trigger_at := sp_trigger_at (spec_of ?c) \<union> (sp_member (spec_of ?c))\<inverse> `` {i} \<times> new,
                     sp_trace_at := sp_trace_at (spec_of ?c) \<union> {i} \<times> new\<rparr>)"
      "messages (spec_of c) i ?A Map.empty (map_of out)"
    using tell_addrs_ok [OF gt(1) co, of i "addrs @ [src]" "[]"] gt(2) m0 by (simp, elim yieldsE) auto
  obtain r where r: "ctrace_of c1 i = Some r" using t(3) by auto
  let ?ts = "co_trigger co (ct_triggers r)"
  have ts: "set ?ts = (sp_member (spec_of c))\<inverse> `` {i}"
    using members_of_trace [OF t(2) r] co by (simp add: coord_orders_ok_def key_order_set t(4) Let_def s0)
  have d: "set ?ts \<subseteq> dom (trig_of c1)"
  proof -
    have "sp_member (spec_of c1) = sp_member (spec_of c)" by (simp add: t(4) Let_def s0)
    then show ?thesis unfolding ts by (auto simp: spec_simps in_rel) (metis (mono_tags) in_rel)
  qed
  obtain c2 where c2: "foreach touch_trigger ?ts c1 = Inr c2" "co_ok c2" "ctrace_of c2 = ctrace_of c1"
      "spec_of c2 = (spec_of c1)\<lparr>sp_trigger_time := sp_touch (set ?ts) (c_now c1) (sp_trigger_time (spec_of c1))\<rparr>"
    using touch_triggers_ok [OF t(2) d] by (elim yieldsE) auto
  have r2: "ctrace_of c2 i = Some r" using r c2(3) by simp
  define r1 where "r1 = r\<lparr>ct_last_modified := c_now c2\<rparr>"
  let ?c3 = "(put_ctrace i r1 c2)\<lparr>trace_lru := lru_move_front i (trace_lru c2)\<rparr>"
  have ok: "co_ok ?c3"
    using co_ok_distinct(2) [OF c2(2) r2] by (intro touch_trace_ok [OF c2(2) r2]) (simp_all add: r1_def trace_shape_def)
  have now: "c_now c2 = c_now c" "c_now c1 = c_now c"
    using arg_cong [OF c2(4), of sp_now] arg_cong [OF t(4), of sp_now] gt(4) by (simp_all add: spec_simps Let_def)
  have "rel ct_known_at ((ctrace_of c2)(i \<mapsto> r1)) = rel ct_known_at (ctrace_of c2)"
    using on_traces(3) [OF r2, of ct_known_at r1] by (simp add: r1_def)
  then have s3: "spec_of ?c3 = (spec_of c2)\<lparr>sp_trace_time := (sp_trace_time (spec_of c2))(i \<mapsto> c_now c)\<rparr>"
    using now by (simp add: spec_of_def r1_def)
  have "spec_of ?c3 = sp_AddBreadcrumb i ?A (spec_of c)"
    unfolding s3 c2(4) t(4) getTrace_spec [OF c] ts
    by (rule coord_spec.equality) (auto simp: Let_def sp_AddBreadcrumb_def sp_touch_def fun_eq_iff now spec_simps(4))
  then show ?thesis using t(1,5) r c2(1) r2 ok by (simp add: AddBreadcrumb_def r1_def)
qed

text \<open>A message per address.\<close>

lemma tell_addrs_distinct:
  "tell_addrs co i addrs m c = Inr (m', c') \<Longrightarrow> distinct (map fst m) \<Longrightarrow> distinct (map fst m')"
proof (induction addrs arbitrary: m c)
  case (Cons a addrs)
  then show ?case by (auto split: if_splits prod.splits simp: distinct_update)
qed simp

lemma AddBreadcrumb_distinct: "AddBreadcrumb co src i addrs c = Inr (out, c') \<Longrightarrow> distinct (map fst out)"
  by (auto simp: AddBreadcrumb_def dest: tell_addrs_distinct)

section \<open>Expiration\<close>

lemma unlink_traces:
  assumes "set is \<subseteq> dom (ctrace_of c)" and "distinct is"
  shows "yields (foreach (\<lambda>i c1. bind_res (deref_ctrace c1 i) (\<lambda>r.
       Inr (put_ctrace i (r\<lparr>ct_triggers := removeAll t (ct_triggers r)\<rparr>) c1))) is c) (\<lambda>c1.
     c_triggers c1 = c_triggers c \<and> trigger_lru c1 = trigger_lru c \<and> trace_lru c1 = trace_lru c \<and> c_now c1 = c_now c \<and>
     ctrace_of c1 = (\<lambda>i. if i \<in> set is then map_option (\<lambda>r. r\<lparr>ct_triggers := removeAll t (ct_triggers r)\<rparr>) (ctrace_of c i)
                         else ctrace_of c i))"
  using assms
proof (induction "is" arbitrary: c)
  case (Cons i "is")
  obtain r where r: "ctrace_of c i = Some r" using Cons.prems(1) by auto
  let ?c = "put_ctrace i (r\<lparr>ct_triggers := removeAll t (ct_triggers r)\<rparr>) c"
  have "set is \<subseteq> dom (ctrace_of ?c)" "distinct is" using Cons.prems by auto
  from Cons.IH [OF this] show ?case
    using Cons.prems(2) r by (auto simp: put_ctrace_def elim!: yieldsE) (auto simp: put_ctrace_def [symmetric] fun_eq_iff)
qed simp

lemma unlink_triggers:
  assumes "set ts \<subseteq> dom (trig_of c)" and "distinct ts"
  shows "yields (foreach (\<lambda>t c1. bind_res (deref_trig c1 t) (\<lambda>g.
       Inr (put_trig t (g\<lparr>cg_traces := removeAll i (cg_traces g)\<rparr>) c1))) ts c) (\<lambda>c1.
     c_traces c1 = c_traces c \<and> trigger_lru c1 = trigger_lru c \<and> trace_lru c1 = trace_lru c \<and> c_now c1 = c_now c \<and>
     trig_of c1 = (\<lambda>t. if t \<in> set ts then map_option (\<lambda>g. g\<lparr>cg_traces := removeAll i (cg_traces g)\<rparr>) (trig_of c t)
                       else trig_of c t))"
  using assms
proof (induction ts arbitrary: c)
  case (Cons t ts)
  obtain g where g: "trig_of c t = Some g" using Cons.prems(1) by auto
  let ?c = "put_trig t (g\<lparr>cg_traces := removeAll i (cg_traces g)\<rparr>) c"
  have "set ts \<subseteq> dom (trig_of ?c)" "distinct ts" using Cons.prems by auto
  from Cons.IH [OF this] show ?case
    using Cons.prems(2) g by (auto simp: put_trig_def elim!: yieldsE) (auto simp: put_trig_def [symmetric] fun_eq_iff)
qed simp

text \<open>A map whose entries are changed by \<open>f\<close> inside a set of keys and kept outside.\<close>

lemma rel_modify: "(\<And>v. f (h v) = f v) \<Longrightarrow> rel f (\<lambda>a. if a \<in> S then map_option h (T a) else T a) = rel f T"
  by (auto simp: rel_def split: if_splits)

lemma rel_shrink:
  assumes "\<And>v. set (f (h v)) = set (f v) - {b}" and "\<And>a v. T a = Some v \<Longrightarrow> b \<in> set (f v) \<Longrightarrow> a \<in> S"
  shows "rel f (\<lambda>a. if a \<in> S then map_option h (T a) else T a) = rel f T - UNIV \<times> {b}"
proof (rule set_eqI)
  fix x :: "'c \<times> 'b"
  obtain a c where x: "x = (a, c)" by fastforce
  show "x \<in> rel f (\<lambda>a. if a \<in> S then map_option h (T a) else T a) \<longleftrightarrow> x \<in> rel f T - UNIV \<times> {b}"
    using assms by (cases "T a") (auto simp: x in_rel)
qed

lemma stamps_modify: "(\<And>v. f (h v) = f v) \<Longrightarrow> stamps f (\<lambda>a. if a \<in> S then map_option h (T a) else T a) = stamps f T"
  by (auto simp: stamps_def fun_eq_iff option.map_comp comp_def)

lemma all_ran_modify: "all_ran P T \<Longrightarrow> (\<And>v. P v \<Longrightarrow> P (h v)) \<Longrightarrow> all_ran P (\<lambda>a. if a \<in> S then map_option h (T a) else T a)"
  by (auto simp: all_ran_def ran_def split: if_splits)

text \<open>One turn of each loop.\<close>

lemma drop_trigger_ok:
  assumes c: "co_ok c" and co: "coord_orders_ok co" and g: "trig_of c t = Some g"
  shows "yields (foreach (\<lambda>i c1. bind_res (deref_ctrace c1 i) (\<lambda>r.
       Inr (put_ctrace i (r\<lparr>ct_triggers := removeAll t (ct_triggers r)\<rparr>) c1))) (co_trace co (cg_traces g)) c) (\<lambda>c1.
     let c2 = c1\<lparr>c_triggers := AList.delete t (c_triggers c1), trigger_lru := lru_remove t (trigger_lru c1)\<rparr>
     in co_ok c2 \<and> spec_of c2 = sp_drop_triggers {t} (spec_of c) \<and> trigger_lru c2 = lru_remove t (trigger_lru c))"
proof -
  let ?is = "co_trace co (cg_traces g)"
  have k: "set ?is = set (cg_traces g)" "distinct ?is"
    using co co_ok_distinct(1) [OF c g] by (simp_all add: coord_orders_ok_def key_order_set key_order_distinct)
  have d: "set ?is \<subseteq> dom (ctrace_of c)" using co_ok_trigger_trace [OF c g] k(1) by blast
  obtain c1 where c1: "foreach (\<lambda>i c1. bind_res (deref_ctrace c1 i) (\<lambda>r.
       Inr (put_ctrace i (r\<lparr>ct_triggers := removeAll t (ct_triggers r)\<rparr>) c1))) ?is c = Inr c1"
      "c_triggers c1 = c_triggers c" "trigger_lru c1 = trigger_lru c" "trace_lru c1 = trace_lru c" "c_now c1 = c_now c"
      "ctrace_of c1 = (\<lambda>i. if i \<in> set ?is then map_option (\<lambda>r. r\<lparr>ct_triggers := removeAll t (ct_triggers r)\<rparr>) (ctrace_of c i)
                         else ctrace_of c i)"
    using unlink_traces [OF d k(2), of t] by (elim yieldsE) auto
  define c2 where "c2 = c1\<lparr>c_triggers := AList.delete t (c_triggers c1), trigger_lru := lru_remove t (trigger_lru c1)\<rparr>"
  have v: "trig_of c2 = (trig_of c)(t := None)" "ctrace_of c2 = ctrace_of c1" "trigger_lru c2 = lru_remove t (trigger_lru c)"
      "trace_lru c2 = trace_lru c" "c_now c2 = c_now c"
    using c1(2-5) by (simp_all add: c2_def trig_of_def ctrace_of_def)
  have rt: "rel ct_triggers (ctrace_of c2) = rel ct_triggers (ctrace_of c) - UNIV \<times> {t}"
  proof -
    have "i \<in> set ?is" if "ctrace_of c i = Some r" "t \<in> set (ct_triggers r)" for i r
      using co_ok_trace_trigger [OF c that] g k(1) by auto
    then show ?thesis unfolding v(2) c1(6) by (intro rel_shrink) auto
  qed
  have rk: "rel ct_known_at (ctrace_of c2) = rel ct_known_at (ctrace_of c)"
    unfolding v(2) c1(6) by (rule rel_modify) simp
  have st: "stamps ct_last_modified (ctrace_of c2) = stamps ct_last_modified (ctrace_of c)"
    unfolding v(2) c1(6) by (rule stamps_modify) simp
  have "all_ran trace_shape (ctrace_of c2)"
    unfolding v(2) c1(6) using c by (intro all_ran_modify) (auto simp: co_ok_def trace_shape_def distinct_removeAll)
  moreover have "timed (lru_remove t (trigger_lru c)) ((stamps cg_last_modified (trig_of c))(t := None)) (c_now c)"
    using timed_drop [OF co_okD(1) [OF c]] .
  moreover have "(rel ct_triggers (ctrace_of c) - UNIV \<times> {t})\<inverse> = rel cg_traces (trig_of c) - {t} \<times> UNIV"
  proof -
    have "(rel ct_triggers (ctrace_of c))\<inverse> = rel cg_traces (trig_of c)" using c by (simp only: co_ok_def)
    then show ?thesis by auto
  qed
  ultimately have "co_ok c2"
    using c rt st unfolding co_ok_def by (simp add: v rel_del all_ran_del del: fun_upd_apply)
  moreover have "spec_of c2 = sp_drop_triggers {t} (spec_of c)"
    using rk st by (simp add: spec_of_def sp_drop_triggers_def v rel_del) (auto simp: restrict_map_def fun_eq_iff)
  ultimately show ?thesis using c1(1) v(3) by (simp add: Let_def) (simp add: c2_def)
qed

lemma drop_trace_ok:
  assumes c: "co_ok c" and co: "coord_orders_ok co" and r: "ctrace_of c i = Some r"
  shows "yields (foreach (\<lambda>t c1. bind_res (deref_trig c1 t) (\<lambda>g.
       Inr (put_trig t (g\<lparr>cg_traces := removeAll i (cg_traces g)\<rparr>) c1))) (co_trigger co (ct_triggers r)) c) (\<lambda>c1.
     let c2 = c1\<lparr>c_traces := AList.delete i (c_traces c1), trace_lru := lru_remove i (trace_lru c1)\<rparr>
     in co_ok c2 \<and> spec_of c2 = sp_drop_traces {i} (spec_of c) \<and> trace_lru c2 = lru_remove i (trace_lru c))"
proof -
  let ?ts = "co_trigger co (ct_triggers r)"
  have k: "set ?ts = set (ct_triggers r)" "distinct ?ts"
    using co co_ok_distinct(2) [OF c r] by (simp_all add: coord_orders_ok_def key_order_set key_order_distinct)
  have d: "set ?ts \<subseteq> dom (trig_of c)" using co_ok_trace_trigger [OF c r] k(1) by blast
  obtain c1 where c1: "foreach (\<lambda>t c1. bind_res (deref_trig c1 t) (\<lambda>g.
       Inr (put_trig t (g\<lparr>cg_traces := removeAll i (cg_traces g)\<rparr>) c1))) ?ts c = Inr c1"
      "c_traces c1 = c_traces c" "trigger_lru c1 = trigger_lru c" "trace_lru c1 = trace_lru c" "c_now c1 = c_now c"
      "trig_of c1 = (\<lambda>t. if t \<in> set ?ts then map_option (\<lambda>g. g\<lparr>cg_traces := removeAll i (cg_traces g)\<rparr>) (trig_of c t)
                       else trig_of c t)"
    using unlink_triggers [OF d k(2), of i] by (elim yieldsE) auto
  define c2 where "c2 = c1\<lparr>c_traces := AList.delete i (c_traces c1), trace_lru := lru_remove i (trace_lru c1)\<rparr>"
  have v: "ctrace_of c2 = (ctrace_of c)(i := None)" "trig_of c2 = trig_of c1" "trace_lru c2 = lru_remove i (trace_lru c)"
      "trigger_lru c2 = trigger_lru c" "c_now c2 = c_now c"
    using c1(2-5) by (simp_all add: c2_def trig_of_def ctrace_of_def)
  have rt: "rel cg_traces (trig_of c2) = rel cg_traces (trig_of c) - UNIV \<times> {i}"
  proof -
    have "t \<in> set ?ts" if "trig_of c t = Some g" "i \<in> set (cg_traces g)" for t g
      using co_ok_trigger_trace [OF c that] r k(1) by auto
    then show ?thesis unfolding v(2) c1(6) by (intro rel_shrink) auto
  qed
  have rk: "rel cg_known_at (trig_of c2) = rel cg_known_at (trig_of c)"
    unfolding v(2) c1(6) by (rule rel_modify) simp
  have st: "stamps cg_last_modified (trig_of c2) = stamps cg_last_modified (trig_of c)"
      "stamps cg_created (trig_of c2) = stamps cg_created (trig_of c)"
    unfolding v(2) c1(6) by (rule stamps_modify, simp)+
  have "all_ran trig_shape (trig_of c2)"
    unfolding v(2) c1(6) using c by (intro all_ran_modify) (auto simp: co_ok_def trig_shape_def distinct_removeAll)
  moreover have "timed (lru_remove i (trace_lru c)) ((stamps ct_last_modified (ctrace_of c))(i := None)) (c_now c)"
    using timed_drop [OF co_okD(2) [OF c]] .
  moreover have "(rel ct_triggers (ctrace_of c) - {i} \<times> UNIV)\<inverse> = rel cg_traces (trig_of c) - UNIV \<times> {i}"
  proof -
    have "(rel ct_triggers (ctrace_of c))\<inverse> = rel cg_traces (trig_of c)" using c by (simp only: co_ok_def)
    then show ?thesis by auto
  qed
  ultimately have "co_ok c2"
    using c rt st unfolding co_ok_def by (simp add: v(1,3,4,5) rel_del all_ran_del del: fun_upd_apply)
  moreover have "spec_of c2 = sp_drop_traces {i} (spec_of c)"
    using rt rk st by (simp add: spec_of_def sp_drop_traces_def v(1,5) rel_del) (auto simp: restrict_map_def fun_eq_iff)
  ultimately show ?thesis using c1(1) v(3) by (simp add: Let_def) (simp add: c2_def)
qed

text \<open>The oldest entry of a list decides whether anything has expired.\<close>

lemma expired_none:
  assumes "timed l M n" and "l = [] \<or> cutoff < the (M (last l))"
  shows "expired cutoff M = {}"
proof -
  have "\<not> w \<le> cutoff" if "M x = Some w" for x w
  proof (cases "l = []")
    case True
    then show ?thesis using assms(1) that by (auto simp: timed_def)
  next
    case False
    then show ?thesis using timed_back_least(2) [OF assms(1) False that] assms(2) by auto
  qed
  then show ?thesis by (auto simp: expired_def)
qed

lemma sp_drop_simps:
  "sp_drop_triggers {} s = s" "sp_drop_traces {} s = s"
  "sp_drop_triggers D (sp_drop_triggers {t} s) = sp_drop_triggers (insert t D) s"
  "sp_drop_traces E (sp_drop_traces {i} s) = sp_drop_traces (insert i E) s"
  by (auto simp: sp_drop_triggers_def sp_drop_traces_def restrict_map_def fun_eq_iff intro!: coord_spec.equality)

lemma expired_step:
  "M a = Some v \<Longrightarrow> v \<le> cutoff \<Longrightarrow> insert a (expired cutoff (M |` (- {a}))) = expired cutoff M"
  "a \<notin> expired cutoff (M |` (- {a}))"
  by (auto simp: expired_def restrict_map_def split: if_splits)

text \<open>What is reported of a trigger that has expired.\<close>

definition finished_of :: "coord_spec \<Rightarrow> TriggerID \<Rightarrow> FinishedTrigger" where
  "finished_of s t = \<lparr>fin_queue_id = queue_id t, total_agents = int (card (sp_trigger_at s `` {t})),
     dissemination_time = time_sub (the (sp_trigger_time s t)) (the (sp_trigger_created s t))\<rparr>"

lemma finished_of_drop: "u \<noteq> t \<Longrightarrow> finished_of (sp_drop_triggers {t} s) u = finished_of s u"
proof -
  assume u: "u \<noteq> t"
  then have "(sp_trigger_at s - {t} \<times> UNIV) `` {u} = sp_trigger_at s `` {u}" by auto
  then show ?thesis using u by (simp add: finished_of_def sp_drop_triggers_def)
qed

text \<open>
  A turn of the loop over the triggers: nothing has expired and it stops, or the oldest trigger goes.
\<close>

lemma expire_triggers_cases:
  assumes c: "co_ok c" and co: "coord_orders_ok co" and fuel: "length (trigger_lru c) \<le> fuel"
  shows "(expired cutoff (sp_trigger_time (spec_of c)) = {} \<and> expire_triggers fuel co cutoff fin c = Inr (fin, c)) \<or>
     (\<exists>t v fuel1 c2. sp_trigger_time (spec_of c) t = Some v \<and> v \<le> cutoff \<and> fuel = Suc fuel1 \<and>
        co_ok c2 \<and> spec_of c2 = sp_drop_triggers {t} (spec_of c) \<and> length (trigger_lru c2) \<le> fuel1 \<and>
        expire_triggers fuel co cutoff fin c = expire_triggers fuel1 co cutoff (fin @ [finished_of (spec_of c) t]) c2)"
proof (cases "trigger_lru c = []")
  case True
  then show ?thesis using expired_none [OF co_okD(1) [OF c]] by (simp add: expire_triggers.simps spec_of_def)
next
  case False
  let ?t = "last (trigger_lru c)"
  obtain g where g: "trig_of c ?t = Some g"
    using timed_back_least(1) [OF co_okD(1) [OF c] False] by (auto simp: stamps_def)
  obtain fuel1 where f: "fuel = Suc fuel1" using fuel False by (cases fuel) auto
  show ?thesis
  proof (cases "cutoff < cg_last_modified g")
    case True
    then show ?thesis using expired_none [OF co_okD(1) [OF c]] on_trigs(1) [OF g] False g
      by (subst expire_triggers.simps) (simp add: lru_back_def spec_of_def f)
  next
    case old: False
    obtain c1 c2 where c1: "foreach (\<lambda>i c1. bind_res (deref_ctrace c1 i) (\<lambda>r.
         Inr (put_ctrace i (r\<lparr>ct_triggers := removeAll ?t (ct_triggers r)\<rparr>) c1))) (co_trace co (cg_traces g)) c = Inr c1"
        "c2 = c1\<lparr>c_triggers := AList.delete ?t (c_triggers c1), trigger_lru := lru_remove ?t (trigger_lru c1)\<rparr>"
        "co_ok c2" "spec_of c2 = sp_drop_triggers {?t} (spec_of c)" "trigger_lru c2 = lru_remove ?t (trigger_lru c)"
      using drop_trigger_ok [OF c co g] by (elim yieldsE) (auto simp: Let_def)
    have "\<lparr>fin_queue_id = queue_id ?t, total_agents = int (length (cg_known_at g)),
             dissemination_time = time_sub (cg_last_modified g) (cg_created g)\<rparr> = finished_of (spec_of c) ?t"
      using co_ok_distinct(1) [OF c g] g by (simp add: finished_of_def spec_of_def rel_Image distinct_card stamps_Some)
    then have "expire_triggers fuel co cutoff fin c = expire_triggers fuel1 co cutoff (fin @ [finished_of (spec_of c) ?t]) c2"
      using False old g c1(1,2) by (subst expire_triggers.simps) (simp add: lru_back_def Let_def f)
    moreover have "length (trigger_lru c2) \<le> fuel1"
      using fuel length_lru_remove [OF last_in_set [OF False]] c1(5) f by simp
    moreover have "sp_trigger_time (spec_of c) ?t = Some (cg_last_modified g)" using g by (simp add: spec_of_def stamps_Some)
    ultimately show ?thesis using c1(3,4) old f by (intro disjI2 exI conjI) (assumption | simp)+
  qed
qed

lemma expire_triggers_ok:
  assumes "co_ok c" and co: "coord_orders_ok co" and "length (trigger_lru c) \<le> fuel"
  shows "yields (expire_triggers fuel co cutoff fin c) (\<lambda>(out, c'). co_ok c' \<and>
     spec_of c' = sp_drop_triggers (expired cutoff (sp_trigger_time (spec_of c))) (spec_of c) \<and>
     (\<exists>ts. distinct ts \<and> set ts = expired cutoff (sp_trigger_time (spec_of c)) \<and>
        out = fin @ map (finished_of (spec_of c)) ts))"
  using assms(1,3)
proof (induction fuel arbitrary: fin c rule: less_induct)
  case (less fuel)
  let ?E = "expired cutoff (sp_trigger_time (spec_of c))" and ?s = "spec_of c"
  consider (stop) "?E = {}" "expire_triggers fuel co cutoff fin c = Inr (fin, c)"
    | (turn) t v fuel1 c2 where "sp_trigger_time ?s t = Some v" "v \<le> cutoff" "fuel = Suc fuel1"
        "co_ok c2" "spec_of c2 = sp_drop_triggers {t} ?s" "length (trigger_lru c2) \<le> fuel1"
        "expire_triggers fuel co cutoff fin c = expire_triggers fuel1 co cutoff (fin @ [finished_of ?s t]) c2"
    using expire_triggers_cases [OF less.prems(1) co less.prems(2), of cutoff fin] by blast
  then show ?case
  proof cases
    case stop
    then show ?thesis using less.prems(1) by (simp add: sp_drop_simps)
  next
    case turn
    have lt: "fuel1 < fuel" using turn(3) by simp
    have E: "insert t (expired cutoff (sp_trigger_time (spec_of c2))) = ?E" "t \<notin> expired cutoff (sp_trigger_time (spec_of c2))"
      unfolding turn(5) using expired_step(1) [of "sp_trigger_time ?s" t v cutoff] turn(1,2) expired_step(2) by (simp_all add: sp_drop_triggers_def)
    obtain out c' ts where o: "expire_triggers fuel1 co cutoff (fin @ [finished_of ?s t]) c2 = Inr (out, c')" "co_ok c'"
        "spec_of c' = sp_drop_triggers (expired cutoff (sp_trigger_time (spec_of c2))) (spec_of c2)"
        "distinct ts" "set ts = expired cutoff (sp_trigger_time (spec_of c2))"
        "out = (fin @ [finished_of ?s t]) @ map (finished_of (spec_of c2)) ts"
      using less.IH [OF lt turn(4,6), of "fin @ [finished_of ?s t]"] by (elim yieldsE) auto
    have "map (finished_of (spec_of c2)) ts = map (finished_of ?s) ts"
      using E(2) o(5) unfolding turn(5) by (intro map_cong refl finished_of_drop) auto
    then have "out = fin @ map (finished_of ?s) (t # ts)" using o(6) by simp
    moreover have "distinct (t # ts)" "set (t # ts) = ?E" using o(4,5) E by auto
    moreover have "spec_of c' = sp_drop_triggers ?E ?s"
      unfolding o(3) E(1) [symmetric] unfolding turn(5) sp_drop_simps ..
    ultimately show ?thesis unfolding turn(7) o(1) yields_simps prod.case using o(2) by blast
  qed
qed

text \<open>The loop over the traces.\<close>

lemma expire_traces_cases:
  assumes c: "co_ok c" and co: "coord_orders_ok co" and fuel: "length (trace_lru c) \<le> fuel"
  shows "(expired cutoff (sp_trace_time (spec_of c)) = {} \<and> expire_traces fuel co cutoff c = Inr c) \<or>
     (\<exists>i v fuel1 c2. sp_trace_time (spec_of c) i = Some v \<and> v \<le> cutoff \<and> fuel = Suc fuel1 \<and>
        co_ok c2 \<and> spec_of c2 = sp_drop_traces {i} (spec_of c) \<and> length (trace_lru c2) \<le> fuel1 \<and>
        expire_traces fuel co cutoff c = expire_traces fuel1 co cutoff c2)"
proof (cases "trace_lru c = []")
  case True
  then show ?thesis using expired_none [OF co_okD(2) [OF c]] by (simp add: expire_traces.simps spec_of_def)
next
  case False
  let ?i = "last (trace_lru c)"
  obtain r where r: "ctrace_of c ?i = Some r"
    using timed_back_least(1) [OF co_okD(2) [OF c] False] by (auto simp: stamps_def)
  obtain fuel1 where f: "fuel = Suc fuel1" using fuel False by (cases fuel) auto
  show ?thesis
  proof (cases "cutoff < ct_last_modified r")
    case True
    then show ?thesis using expired_none [OF co_okD(2) [OF c]] on_traces(1) [OF r] False r
      by (subst expire_traces.simps) (simp add: lru_back_def spec_of_def f)
  next
    case old: False
    obtain c1 c2 where c1: "foreach (\<lambda>t c1. bind_res (deref_trig c1 t) (\<lambda>g.
         Inr (put_trig t (g\<lparr>cg_traces := removeAll ?i (cg_traces g)\<rparr>) c1))) (co_trigger co (ct_triggers r)) c = Inr c1"
        "c2 = c1\<lparr>c_traces := AList.delete ?i (c_traces c1), trace_lru := lru_remove ?i (trace_lru c1)\<rparr>"
        "co_ok c2" "spec_of c2 = sp_drop_traces {?i} (spec_of c)" "trace_lru c2 = lru_remove ?i (trace_lru c)"
      using drop_trace_ok [OF c co r] by (elim yieldsE) (auto simp: Let_def)
    have "expire_traces fuel co cutoff c = expire_traces fuel1 co cutoff c2"
      using False old r c1(1,2) by (subst expire_traces.simps) (simp add: lru_back_def Let_def f)
    moreover have "length (trace_lru c2) \<le> fuel1"
      using fuel length_lru_remove [OF last_in_set [OF False]] c1(5) f by simp
    moreover have "sp_trace_time (spec_of c) ?i = Some (ct_last_modified r)" using r by (simp add: spec_of_def stamps_Some)
    ultimately show ?thesis using c1(3,4) old f by (intro disjI2 exI conjI) (assumption | simp)+
  qed
qed

lemma expire_traces_ok:
  assumes "co_ok c" and co: "coord_orders_ok co" and "length (trace_lru c) \<le> fuel"
  shows "yields (expire_traces fuel co cutoff c) (\<lambda>c'. co_ok c' \<and>
     spec_of c' = sp_drop_traces (expired cutoff (sp_trace_time (spec_of c))) (spec_of c))"
  using assms(1,3)
proof (induction fuel arbitrary: c rule: less_induct)
  case (less fuel)
  consider (stop) "expired cutoff (sp_trace_time (spec_of c)) = {}" "expire_traces fuel co cutoff c = Inr c"
    | (turn) i v fuel1 c2 where "sp_trace_time (spec_of c) i = Some v" "v \<le> cutoff" "fuel = Suc fuel1"
        "co_ok c2" "spec_of c2 = sp_drop_traces {i} (spec_of c)" "length (trace_lru c2) \<le> fuel1"
        "expire_traces fuel co cutoff c = expire_traces fuel1 co cutoff c2"
    using expire_traces_cases [OF less.prems(1) co less.prems(2), of cutoff] by blast
  then show ?case
  proof cases
    case stop
    then show ?thesis using less.prems(1) by (simp add: sp_drop_simps)
  next
    case turn
    have "insert i (expired cutoff (sp_trace_time (spec_of c2))) = expired cutoff (sp_trace_time (spec_of c))"
      unfolding turn(5) using expired_step(1) [of "sp_trace_time (spec_of c)" i v cutoff] turn(1,2) by (simp add: sp_drop_traces_def)
    then show ?thesis
      using less.IH [of fuel1 c2] turn(3,4,6) unfolding turn(5,7) sp_drop_simps by simp
  qed
qed

section \<open>Runs of the coordinator\<close>

text \<open>
  The coordinator handles one request at a time: the clock advances, an agent reports a trigger or
  breadcrumbs, or old triggers and traces are dropped.
\<close>

datatype coord_event =
    Clock time
  | Report string Trigger
  | Crumbs string u64 "string list"
  | Expire time time

fun coord_step :: "coord_orders \<Rightarrow> coord_event \<Rightarrow> Coordinator \<Rightarrow> Coordinator res" where
  "coord_step co (Clock n) c = Inr (c\<lparr>c_now := n\<rparr>)"
| "coord_step co (Report src t) c = bind_res (AddTrigger co src t c) (\<lambda>(_, c1). Inr c1)"
| "coord_step co (Crumbs src i addrs) c = bind_res (AddBreadcrumb co src i addrs c) (\<lambda>(_, c1). Inr c1)"
| "coord_step co (Expire trigger_cutoff trace_cutoff) c =
     bind_res (checkTriggerExpiration co trigger_cutoff c) (\<lambda>(_, c1). checkTraceExpiration co trace_cutoff c1)"

text \<open>Events in an order in which the clock does not go back.\<close>

fun clock_forward :: "time \<Rightarrow> coord_event list \<Rightarrow> bool" where
  "clock_forward n [] \<longleftrightarrow> True"
| "clock_forward n (Clock m # es) \<longleftrightarrow> n \<le> m \<and> clock_forward m es"
| "clock_forward n (_ # es) \<longleftrightarrow> clock_forward n es"

text \<open>
  Every trigger of a trace is known wherever the trace is known: what the coordinator takes for
  granted when it skips an address at which the trace is known already.
\<close>

definition closed :: "coord_spec \<Rightarrow> bool" where
  "closed s \<longleftrightarrow> (\<forall>t i a. (t, i) \<in> sp_member s \<longrightarrow> (i, a) \<in> sp_trace_at s \<longrightarrow> (t, a) \<in> sp_trigger_at s)"

end
