(* ===== verification/CoordServer.thy ===== *)
theory CoordServer
  imports Rpc CoordSpec
begin

text \<open>
  The coordinator's server, \<^verbatim>\<open>agent/pkg/coordinator/server.go\<close> and the channel of \<^verbatim>\<open>logger.go\<close>: requests
  of the agents are queued or dropped, handled one at a time on the coordinator's state, and the
  triggers they call for are queued for the agents concerned.

  A channel is the list of its pending messages. The result of a request, which the handler sends
  back on the request's channel, is the value the handler returns: \<open>Inl\<close> the error or \<open>Inr ()\<close>. The
  instants at which a handler reads the clock are a parameter \<open>ck\<close>.
\<close>

section \<open>Data\<close>

text \<open>The connection to an agent, \<^verbatim>\<open>Agent\<close>, without its address, which is its key.\<close>

record AgentConn =
  id_to_addr :: "(32 word \<times> string) list"
  outgoing_triggers :: "Trigger list list"
  sa_dropped_triggers :: int
  sa_last_warn :: time

record CsvLogger =
  Finished :: "FinishedTrigger list list"
  dropped_finished :: int

record CoordinatorServer =
  cs_timeout :: time
  cs_c :: Coordinator
  cs_agents :: "(string \<times> AgentConn) list"
  incoming_triggers :: "TriggerRequest list"
  incoming_breadcrumbs :: "BreadcrumbsRequest list"
  dropped_incoming_triggers :: u64
  dropped_incoming_breadcrumbs :: u64
  last_trigger_warning :: time
  last_breadcrumb_warning :: time
  logger :: "CsvLogger option"

record server_clock =
  ck_start :: time
  ck_conn :: "string \<Rightarrow> time"
  ck_send :: "string \<Rightarrow> time"
  ck_expire :: time

definition second :: time where
  "second = 1000000000"

datatype server_error = UnmappedAddrId "32 word" string

section \<open>Connections to agents\<close>

text \<open>\<^verbatim>\<open>Init\<close>; \<open>with_log\<close>: a log file is configured.\<close>

definition server_Init :: "time \<Rightarrow> bool \<Rightarrow> CoordinatorServer" where
  "server_Init t with_log =
     \<lparr>cs_timeout = - (60 * second), cs_c = coord_Init 0, cs_agents = [], incoming_triggers = [],
      incoming_breadcrumbs = [], dropped_incoming_triggers = 0, dropped_incoming_breadcrumbs = 0,
      last_trigger_warning = t, last_breadcrumb_warning = t,
      logger = (if with_log then Some \<lparr>Finished = [], dropped_finished = 0\<rparr> else None)\<rparr>"

definition agent_Init :: "time \<Rightarrow> AgentConn" where
  "agent_Init t = \<lparr>id_to_addr = [], outgoing_triggers = [], sa_dropped_triggers = 0, sa_last_warn = t\<rparr>"

definition conn_of :: "CoordinatorServer \<Rightarrow> string \<rightharpoonup> AgentConn" where
  "conn_of cs = map_of (cs_agents cs)"

definition put_conn :: "string \<Rightarrow> AgentConn \<Rightarrow> CoordinatorServer \<Rightarrow> CoordinatorServer" where
  "put_conn addr a cs = cs\<lparr>cs_agents := AList.update addr a (cs_agents cs)\<rparr>"

definition GetAgent :: "time \<Rightarrow> string \<Rightarrow> CoordinatorServer \<Rightarrow> AgentConn \<times> CoordinatorServer" where
  "GetAgent t addr cs =
     (case conn_of cs addr of
        Some a \<Rightarrow> (a, cs)
      | None \<Rightarrow> (agent_Init t, put_conn addr (agent_Init t) cs))"

definition SendTriggers :: "time \<Rightarrow> Trigger list \<Rightarrow> AgentConn \<Rightarrow> AgentConn" where
  "SendTriggers t triggers a =
     (case try_send 10000 triggers (outgoing_triggers a) of
        Some ch \<Rightarrow> a\<lparr>outgoing_triggers := ch\<rparr>
      | None \<Rightarrow>
          let a1 = a\<lparr>sa_dropped_triggers := sa_dropped_triggers a + int (length triggers)\<rparr>
          in if sa_last_warn a1 + second < t then a1\<lparr>sa_dropped_triggers := 0, sa_last_warn := t\<rparr> else a1)"

definition forward_to :: "server_clock \<Rightarrow> (string \<times> Trigger list) list \<Rightarrow> string \<Rightarrow> CoordinatorServer \<Rightarrow> CoordinatorServer res" where
  "forward_to ck m addr cs =
     (case map_of m addr of
        None \<Rightarrow> Inl DanglingPointer
      | Some triggers \<Rightarrow>
          let (a, cs1) = GetAgent (ck_conn ck addr) addr cs
          in Inr (put_conn addr (SendTriggers (ck_send ck addr) triggers a) cs1))"

text \<open>\<^verbatim>\<open>m[addr] = append(m[addr], ts...)\<close> on a map from addresses to triggers.\<close>

definition append_at :: "string \<Rightarrow> Trigger list \<Rightarrow> (string \<times> Trigger list) list \<Rightarrow> (string \<times> Trigger list) list" where
  "append_at addr ts m = AList.update addr ((case map_of m addr of None \<Rightarrow> [] | Some l \<Rightarrow> l) @ ts) m"

section \<open>Handling of requests\<close>

definition log_finished :: "FinishedTrigger list \<Rightarrow> CoordinatorServer \<Rightarrow> CoordinatorServer" where
  "log_finished finished cs =
     (case logger cs of
        None \<Rightarrow> cs
      | Some l \<Rightarrow>
          (case try_send 1000 finished (Finished l) of
             Some ch \<Rightarrow> cs\<lparr>logger := Some (l\<lparr>Finished := ch\<rparr>)\<rparr>
           | None \<Rightarrow> cs\<lparr>logger := Some (l\<lparr>dropped_finished := dropped_finished l + int (length finished)\<rparr>)\<rparr>))"

definition checkExpirations :: "coord_orders \<Rightarrow> time \<Rightarrow> CoordinatorServer \<Rightarrow> CoordinatorServer res" where
  "checkExpirations co t cs =
     (let c = (cs_c cs)\<lparr>c_now := t\<rparr>; cutoff = t + cs_timeout cs in
      bind_res (checkTraceExpiration co cutoff c) (\<lambda>c1.
      bind_res (checkTriggerExpiration co cutoff c1) (\<lambda>(finished, c2).
        let cs1 = cs\<lparr>cs_c := c2\<rparr>
        in Inr (if finished \<noteq> [] then log_finished finished cs1 else cs1))))"

definition trigger_of_pb :: "pb_Trigger \<Rightarrow> Trigger" where
  "trigger_of_pb t =
     \<lparr>trigger_id = \<lparr>queue_id = sint (QueueId t), base_trace_id = BaseTraceId t\<rparr>, trace_ids = TraceIds t\<rparr>"

fun store_triggers ::
  "coord_orders \<Rightarrow> string \<Rightarrow> pb_Trigger list \<Rightarrow> (string \<times> Trigger list) list \<Rightarrow> Coordinator
     \<Rightarrow> ((string \<times> Trigger list) list \<times> Coordinator) res" where
  "store_triggers co src [] m c = Inr (m, c)"
| "store_triggers co src (t # ts) m c =
     bind_res (AddTrigger co src (trigger_of_pb t) c) (\<lambda>(forwarding_addrs, c1).
       store_triggers co src ts (fold (\<lambda>addr. append_at addr [trigger_of_pb t]) forwarding_addrs m) c1)"

definition processTriggersRequest ::
  "coord_orders \<Rightarrow> server_clock \<Rightarrow> TriggerRequest \<Rightarrow> CoordinatorServer \<Rightarrow> CoordinatorServer res" where
  "processTriggersRequest co ck req cs =
     bind_res (store_triggers co (tr_Src req) (tr_Triggers req) [] ((cs_c cs)\<lparr>c_now := ck_start ck\<rparr>)) (\<lambda>(m, c1).
     bind_res (foreach (forward_to ck m) (co_addr co (map fst m)) (cs\<lparr>cs_c := c1\<rparr>)) (\<lambda>cs1.
       checkExpirations co (ck_expire ck) cs1))"

text \<open>\<^verbatim>\<open>origin.id_to_addr[a.Id] = a.Addr\<close> for the addresses of a request.\<close>

definition learn_addrs :: "BreadcrumbAddress list \<Rightarrow> AgentConn \<Rightarrow> AgentConn" where
  "learn_addrs as a = a\<lparr>id_to_addr := fold (\<lambda>b. AList.update (ba_Id b) (ba_Addr b)) as (id_to_addr a)\<rparr>"

text \<open>The addresses of the breadcrumbs, by trace, or the first identifier that has no address.\<close>

fun decode_addrs ::
  "(32 word \<times> string) list \<Rightarrow> u64 \<Rightarrow> 32 word list \<Rightarrow> (u64 \<times> string list) list
     \<Rightarrow> 32 word + (u64 \<times> string list) list" where
  "decode_addrs tbl i [] m = Inr m"
| "decode_addrs tbl i (k # ks) m =
     (case map_of tbl k of
        None \<Rightarrow> Inl k
      | Some addr \<Rightarrow>
          decode_addrs tbl i ks (AList.update i ((case map_of m i of None \<Rightarrow> [] | Some l \<Rightarrow> l) @ [addr]) m))"

fun decode_crumbs ::
  "(32 word \<times> string) list \<Rightarrow> pb_Breadcrumbs list \<Rightarrow> (u64 \<times> string list) list
     \<Rightarrow> 32 word + (u64 \<times> string list) list" where
  "decode_crumbs tbl [] m = Inr m"
| "decode_crumbs tbl (b # bs) m =
     (case decode_addrs tbl (bc_TraceId b) (bc_Addrs b) m of
        Inl k \<Rightarrow> Inl k
      | Inr m1 \<Rightarrow> decode_crumbs tbl bs m1)"

fun append_all :: "(string \<times> Trigger list) list \<Rightarrow> string list \<Rightarrow> (string \<times> Trigger list) list \<Rightarrow> (string \<times> Trigger list) list" where
  "append_all out [] m = m"
| "append_all out (addr # addrs) m =
     append_all out addrs
       (case map_of out addr of None \<Rightarrow> m | Some ts \<Rightarrow> if ts \<noteq> [] then append_at addr ts m else m)"

fun store_crumbs ::
  "coord_orders \<Rightarrow> string \<Rightarrow> (u64 \<times> string list) list \<Rightarrow> u64 list \<Rightarrow> (string \<times> Trigger list) list \<Rightarrow> Coordinator
     \<Rightarrow> ((string \<times> Trigger list) list \<times> Coordinator) res" where
  "store_crumbs co src bs [] m c = Inr (m, c)"
| "store_crumbs co src bs (i # is) m c =
     (case map_of bs i of
        None \<Rightarrow> Inl DanglingPointer
      | Some addrs \<Rightarrow>
          bind_res (AddBreadcrumb co src i addrs c) (\<lambda>(out, c1).
            store_crumbs co src bs is (append_all out (co_addr co (map fst out)) m) c1))"

definition processBreadcrumbRequest ::
  "coord_orders \<Rightarrow> server_clock \<Rightarrow> BreadcrumbsRequest \<Rightarrow> CoordinatorServer
     \<Rightarrow> ((server_error + unit) \<times> CoordinatorServer) res" where
  "processBreadcrumbRequest co ck req cs0 =
     (let src = br_Src req;
          (origin, cs1) = GetAgent (ck_conn ck src) src (cs0\<lparr>cs_c := (cs_c cs0)\<lparr>c_now := ck_start ck\<rparr>\<rparr>);
          origin1 = learn_addrs (br_Addresses req) origin;
          cs = put_conn src origin1 cs1
      in case decode_crumbs (id_to_addr origin1) (br_Breadcrumbs req) [] of
           Inl k \<Rightarrow> Inr (Inl (UnmappedAddrId k src), cs)
         | Inr bs \<Rightarrow>
             bind_res (store_crumbs co src bs (co_trace co (map fst bs)) [] (cs_c cs)) (\<lambda>(m, c1).
             bind_res (foreach (forward_to ck m) (co_addr co (map fst m)) (cs\<lparr>cs_c := c1\<rparr>)) (\<lambda>cs2.
             bind_res (checkExpirations co (ck_expire ck) cs2) (\<lambda>cs3. Inr (Inr (), cs3)))))"

section \<open>Receiving and sending\<close>

text \<open>
  The RPC handlers queue a request or drop it; \<open>lock\<close>: the warning lock is free, \<open>t\<close> and \<open>t'\<close> the
  instants read in the drop branch. The result: whether the request was queued.
\<close>

definition LocalTrigger :: "bool \<Rightarrow> time \<Rightarrow> time \<Rightarrow> TriggerRequest \<Rightarrow> CoordinatorServer \<Rightarrow> bool \<times> CoordinatorServer" where
  "LocalTrigger lock t t' req s =
     (case try_send 10000 req (incoming_triggers s) of
        Some ch \<Rightarrow> (True, s\<lparr>incoming_triggers := ch\<rparr>)
      | None \<Rightarrow>
          let s1 = s\<lparr>dropped_incoming_triggers := dropped_incoming_triggers s + of_nat (length (tr_Triggers req))\<rparr>
          in (False, if lock \<and> last_trigger_warning s1 + second < t
                     then s1\<lparr>dropped_incoming_triggers := dropped_incoming_triggers s1 + (- dropped_incoming_triggers s1),
                             last_trigger_warning := t'\<rparr>
                     else s1))"

definition Breadcrumbs :: "bool \<Rightarrow> time \<Rightarrow> time \<Rightarrow> BreadcrumbsRequest \<Rightarrow> CoordinatorServer \<Rightarrow> bool \<times> CoordinatorServer" where
  "Breadcrumbs lock t t' req s =
     (case try_send 10000 req (incoming_breadcrumbs s) of
        Some ch \<Rightarrow> (True, s\<lparr>incoming_breadcrumbs := ch\<rparr>)
      | None \<Rightarrow>
          let s1 = s\<lparr>dropped_incoming_breadcrumbs := dropped_incoming_breadcrumbs s + of_nat (length (br_Breadcrumbs req))\<rparr>
          in (False, if lock \<and> last_breadcrumb_warning s1 + second < t
                     then s1\<lparr>dropped_incoming_breadcrumbs := dropped_incoming_breadcrumbs s1 + (- dropped_incoming_breadcrumbs s1),
                             last_breadcrumb_warning := t'\<rparr>
                     else s1))"

text \<open>
  A turn of \<^verbatim>\<open>runCoordinator\<close>, for each case of its \<^verbatim>\<open>select\<close>; \<open>None\<close>: the case is not enabled. On
  shutdown, at the instant \<open>ck_start\<close>, the remaining triggers are flushed to the log.
\<close>

datatype server_event = ShutDown | TakeTriggers | TakeBreadcrumbs

fun runCoordinator_turn ::
  "coord_orders \<Rightarrow> server_clock \<Rightarrow> server_event \<Rightarrow> CoordinatorServer \<Rightarrow> CoordinatorServer res option" where
  "runCoordinator_turn co ck ShutDown cs =
     Some (if logger cs = None then Inr cs
           else bind_res (checkTriggerExpiration co (ck_start ck + second) (cs_c cs)) (\<lambda>(finished, c1).
                  Inr (log_finished finished (cs\<lparr>cs_c := c1\<rparr>))))"
| "runCoordinator_turn co ck TakeTriggers cs =
     (case incoming_triggers cs of
        [] \<Rightarrow> None
      | req # ch \<Rightarrow> Some (processTriggersRequest co ck req (cs\<lparr>incoming_triggers := ch\<rparr>)))"
| "runCoordinator_turn co ck TakeBreadcrumbs cs =
     (case incoming_breadcrumbs cs of
        [] \<Rightarrow> None
      | req # ch \<Rightarrow>
          Some (bind_res (processBreadcrumbRequest co ck req (cs\<lparr>incoming_breadcrumbs := ch\<rparr>)) (\<lambda>(_, cs1). Inr cs1)))"

text \<open>\<^verbatim>\<open>doSend\<close>: the request that brings triggers to an agent, whose source is left empty.\<close>

definition pb_of_trigger :: "Trigger \<Rightarrow> pb_Trigger" where
  "pb_of_trigger t = \<lparr>QueueId = int32_of (queue_id (trigger_id t)), BaseTraceId = base_trace_id (trigger_id t),
     TraceIds = trace_ids t\<rparr>"

definition doSend :: "Trigger list \<Rightarrow> TriggerRequest" where
  "doSend triggers = \<lparr>tr_Src = [], tr_Triggers = map pb_of_trigger triggers\<rparr>"

text \<open>
  A turn of \<^verbatim>\<open>ReportTriggers\<close>: the next request for an agent and the channel without what it carries.
\<close>

definition conn_ReportTriggers :: "AgentConn \<Rightarrow> (TriggerRequest \<times> AgentConn) option" where
  "conn_ReportTriggers a =
     (case accumulate (\<lambda>ts. ts) 100 (outgoing_triggers a) of
        None \<Rightarrow> None
      | Some (ts, ch) \<Rightarrow> Some (doSend ts, a\<lparr>outgoing_triggers := ch\<rparr>))"

end
