(* ===== verification/Framing.thy ===== *)
theory Framing
  imports Prelude
begin

text \<open>
  Byte streams and the length-prefixed frames that carry trace data: the writing half of
  \<^verbatim>\<open>agent/pkg/agent/reporting.go\<close>, the reading half of \<^verbatim>\<open>agent/pkg/collector/collector.go\<close>, the files of
  \<^verbatim>\<open>agent/pkg/collector/fileio.go\<close> and the conversions of \<^verbatim>\<open>agent/pkg/util/util.go\<close>.

  A connection or file accepts and delivers data in pieces of arbitrary size and may fail at any
  call. The sizes and failures are a plan, consumed call by call; after the plan a call transfers as
  much as it can.
\<close>

section \<open>Little-endian integers\<close>

type_synonym byte = "8 word"

fun le_put :: "nat \<Rightarrow> nat \<Rightarrow> byte list" where
  "le_put 0 x = []"
| "le_put (Suc n) x = of_nat (x mod 256) # le_put n (x div 256)"

fun le_get :: "byte list \<Rightarrow> nat" where
  "le_get [] = 0"
| "le_get (b # bs) = unat b + 256 * le_get bs"

lemma length_le_put [simp]: "length (le_put n x) = n"
  by (induction n arbitrary: x) simp_all

lemma le_get_put: "le_get (le_put n x) = x mod 256 ^ n"
proof (induction n arbitrary: x)
  case (Suc n)
  have "unat (of_nat (x mod 256) :: byte) = x mod 256" by (simp add: unat_of_nat)
  then show ?case using Suc by (simp add: mod_mult2_eq)
qed simp

lemma le_put_get: "le_put (length bs) (le_get bs) = bs"
proof (induction bs)
  case (Cons b bs)
  have b: "unat b < 256" using unsigned_less [of b, where 'a = nat] by simp
  then have "(unat b + 256 * le_get bs) mod 256 = unat b" "(unat b + 256 * le_get bs) div 256 = le_get bs" by simp_all
  then show ?case using Cons by simp
qed simp

text \<open>\<^verbatim>\<open>binary.LittleEndian\<close> on unsigned 32-bit and 64-bit integers, and the conversions of \<^verbatim>\<open>util.go\<close>.\<close>

definition PutUint32 :: "32 word \<Rightarrow> byte list" where
  "PutUint32 x = le_put 4 (unat x)"

definition Uint32 :: "byte list \<Rightarrow> 32 word" where
  "Uint32 bs = of_nat (le_get (take 4 bs))"

definition Int32ToBytes :: "32 word \<Rightarrow> byte list" where
  "Int32ToBytes data = PutUint32 data"

definition BytesToInt32 :: "byte list \<Rightarrow> 32 word res" where
  "BytesToInt32 bys = (if length bys < 4 then Inl IndexOutOfRange else Inr (Uint32 bys))"

definition Int64ToBytes :: "64 word \<Rightarrow> byte list" where
  "Int64ToBytes data = le_put 8 (unat data)"

definition BytesToInt64 :: "byte list \<Rightarrow> 64 word res" where
  "BytesToInt64 bys = (if length bys < 8 then Inl IndexOutOfRange else Inr (of_nat (le_get (take 8 bys))))"

lemma length_PutUint32 [simp]: "length (PutUint32 x) = 4"
  by (simp add: PutUint32_def)

lemma Uint32_PutUint32 [simp]: "Uint32 (PutUint32 x @ rest) = x"
proof -
  have "unat x < 256 ^ 4" using unsigned_less [of x, where 'a = nat] by simp
  then show ?thesis by (simp add: Uint32_def PutUint32_def le_get_put)
qed

text \<open>Strings and byte slices convert into each other byte by byte.\<close>

definition bytes_of :: "string \<Rightarrow> byte list" where
  "bytes_of s = map (\<lambda>c. of_nat (of_char c)) s"

definition string_of :: "byte list \<Rightarrow> string" where
  "string_of bs = map (\<lambda>b. char_of (unat b)) bs"

lemma string_of_bytes_of [simp]: "string_of (bytes_of s) = s"
proof -
  have "char_of (unat (of_nat (of_char c) :: byte)) = c" for c :: char
    by (simp add: unat_of_nat)
  then show ?thesis by (simp add: string_of_def bytes_of_def comp_def)
qed

lemma length_bytes_of [simp]: "length (bytes_of s) = length s"
  by (simp add: bytes_of_def)

section \<open>Streams\<close>

datatype io_error = WriteError | ReadError | EndOfFile | FileEnded nat | InvalidRead nat

datatype write_outcome = Writes nat | WriteFails nat

record wconn =
  w_out :: "byte list"
  w_plan :: "write_outcome list"

definition conn_Write :: "byte list \<Rightarrow> wconn \<Rightarrow> nat option \<times> wconn" where
  "conn_Write src c =
     (case w_plan c of
        [] \<Rightarrow> (Some (length src), c\<lparr>w_out := w_out c @ src\<rparr>)
      | Writes n # p \<Rightarrow> (Some (min n (length src)), \<lparr>w_out = w_out c @ take n src, w_plan = p\<rparr>)
      | WriteFails n # p \<Rightarrow> (None, \<lparr>w_out = w_out c @ take n src, w_plan = p\<rparr>))"

datatype read_outcome = Reads nat | ReadFails

record rconn =
  r_in :: "byte list"
  r_plan :: "read_outcome list"

text \<open>\<^verbatim>\<open>Read\<close> into a slice of length \<open>n\<close>: at the end of the stream it fails.\<close>

definition conn_Read :: "nat \<Rightarrow> rconn \<Rightarrow> (io_error + byte list) \<times> rconn" where
  "conn_Read n c =
     (case r_plan c of
        [] \<Rightarrow> if r_in c = [] then (Inl EndOfFile, c)
              else (Inr (take n (r_in c)), c\<lparr>r_in := drop n (r_in c)\<rparr>)
      | ReadFails # p \<Rightarrow> (Inl ReadError, c\<lparr>r_plan := p\<rparr>)
      | Reads m # p \<Rightarrow>
          if r_in c = [] then (Inl EndOfFile, c\<lparr>r_plan := p\<rparr>)
          else (Inr (take (min m n) (r_in c)), \<lparr>r_in = drop (min m n) (r_in c), r_plan = p\<rparr>))"

section \<open>Writing\<close>

function doWrite :: "byte list \<Rightarrow> wconn \<Rightarrow> io_error option \<times> wconn" where
  "doWrite src c =
     (if src = [] then (None, c)
      else case conn_Write src c of
             (None, c1) \<Rightarrow> (Some WriteError, c1)
           | (Some written, c1) \<Rightarrow> doWrite (drop written src) c1)"
  by pat_completeness auto
termination
  by (relation "measure (\<lambda>(src, c). length src + length (w_plan c))")
     (auto simp: conn_Write_def split: list.splits write_outcome.splits)

declare doWrite.simps [simp del]

definition writeLengthPrefixed :: "byte list \<Rightarrow> wconn \<Rightarrow> io_error option \<times> wconn" where
  "writeLengthPrefixed buf c =
     (case doWrite (PutUint32 (of_nat (length buf))) c of
        (Some err, c1) \<Rightarrow> (Some err, c1)
      | (None, c1) \<Rightarrow> doWrite buf c1)"

section \<open>Reading\<close>

function doRead :: "nat \<Rightarrow> rconn \<Rightarrow> (io_error + byte list) \<times> rconn" where
  "doRead n c =
     (if n = 0 then (Inr [], c)
      else case conn_Read n c of
             (Inl err, c1) \<Rightarrow> (Inl err, c1)
           | (Inr bs, c1) \<Rightarrow>
               (case doRead (n - length bs) c1 of
                  (Inl err, c2) \<Rightarrow> (Inl err, c2)
                | (Inr rest, c2) \<Rightarrow> (Inr (bs @ rest), c2)))"
  by pat_completeness auto
termination
  by (relation "measure (\<lambda>(n, c). n + length (r_plan c))")
     (auto simp: conn_Read_def split: list.splits read_outcome.splits if_splits)

declare doRead.simps [simp del]

definition readLengthPrefixed :: "rconn \<Rightarrow> (io_error + byte list) \<times> rconn" where
  "readLengthPrefixed c =
     (case doRead 4 c of
        (Inl err, c1) \<Rightarrow> (Inl err, c1)
      | (Inr szbuf, c1) \<Rightarrow> doRead (unat (Uint32 szbuf)) c1)"

text \<open>Files: a read of no bytes is an error, and so is a frame of more than 100 MB.\<close>

function doFileRead :: "nat \<Rightarrow> rconn \<Rightarrow> (io_error + byte list) \<times> rconn" where
  "doFileRead n f =
     (if n = 0 then (Inr [], f)
      else case conn_Read n f of
             (Inl err, f1) \<Rightarrow> (Inl err, f1)
           | (Inr bs, f1) \<Rightarrow>
               if bs = [] then (Inl (FileEnded n), f1)
               else (case doFileRead (n - length bs) f1 of
                       (Inl err, f2) \<Rightarrow> (Inl err, f2)
                     | (Inr rest, f2) \<Rightarrow> (Inr (bs @ rest), f2)))"
  by pat_completeness auto
termination
  by (relation "measure (\<lambda>(n, f). n)") auto

declare doFileRead.simps [simp del]

definition readFileLengthPrefixed :: "rconn \<Rightarrow> (io_error + byte list) \<times> rconn" where
  "readFileLengthPrefixed f =
     (case doFileRead 4 f of
        (Inl err, f1) \<Rightarrow> (Inl err, f1)
      | (Inr szbuf, f1) \<Rightarrow>
          let sz = unat (Uint32 szbuf)
          in if 1024 * 1024 * 100 < sz then (Inl (InvalidRead sz), f1) else doFileRead sz f1)"

definition doFileWrite :: "byte list \<Rightarrow> wconn \<Rightarrow> io_error option \<times> wconn" where
  "doFileWrite = doWrite"

definition writeFileLengthPrefixed :: "byte list \<Rightarrow> wconn \<Rightarrow> io_error option \<times> wconn" where
  "writeFileLengthPrefixed buf f =
     (case doFileWrite (PutUint32 (of_nat (length buf))) f of
        (Some err, f1) \<Rightarrow> (Some err, f1)
      | (None, f1) \<Rightarrow> doFileWrite buf f1)"

section \<open>Frames\<close>

text \<open>What a frame looks like on the stream, and streams that do not fail.\<close>

definition frame :: "byte list \<Rightarrow> byte list" where
  "frame buf = PutUint32 (of_nat (length buf)) @ buf"

definition w_good :: "wconn \<Rightarrow> bool" where
  "w_good c \<longleftrightarrow> (\<forall>x\<in>set (w_plan c). \<exists>n. x = Writes n)"

definition r_good :: "rconn \<Rightarrow> bool" where
  "r_good c \<longleftrightarrow> (\<forall>x\<in>set (r_plan c). \<exists>n. x = Reads n)"

text \<open>A stream that moreover delivers something at each call, as files do.\<close>

definition f_good :: "rconn \<Rightarrow> bool" where
  "f_good c \<longleftrightarrow> (\<forall>x\<in>set (r_plan c). \<exists>n. x = Reads (Suc n))"

lemma take_min_length: "take (min n (length xs)) xs = take n xs"
  by (simp add: min_def)

lemma conn_Write_good:
  "w_good c \<Longrightarrow> \<exists>n c1. conn_Write src c = (Some n, c1) \<and> w_good c1 \<and> w_out c1 = w_out c @ take n src"
  by (cases "w_plan c") (auto simp: conn_Write_def w_good_def take_min_length)

lemma conn_Read_good:
  "r_good c \<Longrightarrow> r_in c \<noteq> [] \<Longrightarrow>
     \<exists>k c1. conn_Read n c = (Inr (take k (r_in c)), c1) \<and> r_good c1 \<and> r_in c1 = drop k (r_in c) \<and> k \<le> n"
  by (cases "r_plan c") (fastforce simp: conn_Read_def r_good_def)+

lemma conn_Read_file:
  "f_good c \<Longrightarrow> r_in c \<noteq> [] \<Longrightarrow> 0 < n \<Longrightarrow>
     \<exists>k c1. conn_Read n c = (Inr (take k (r_in c)), c1) \<and> f_good c1 \<and> r_in c1 = drop k (r_in c) \<and> k \<le> n \<and> 0 < k"
proof (cases "r_plan c")
  case (Cons x p)
  assume "f_good c" "r_in c \<noteq> []" "0 < n"
  then obtain m where "x = Reads (Suc m)" using Cons by (auto simp: f_good_def)
  then show ?thesis using Cons \<open>f_good c\<close> \<open>r_in c \<noteq> []\<close> \<open>0 < n\<close>
    by (intro exI [of _ "min (Suc m) n"]) (simp add: conn_Read_def f_good_def)
qed (auto simp: conn_Read_def f_good_def)

lemma doWrite_good:
  "w_good c \<Longrightarrow> \<exists>c'. doWrite src c = (None, c') \<and> w_out c' = w_out c @ src \<and> w_good c'"
proof (induction src c rule: doWrite.induct)
  case (1 src c)
  show ?case
  proof (cases "src = []")
    case False
    obtain n c1 where w: "conn_Write src c = (Some n, c1)" "w_good c1" "w_out c1 = w_out c @ take n src"
      using conn_Write_good [OF 1(2)] by blast
    then show ?thesis using 1(1) [OF False w(1) [symmetric] refl] False by (subst doWrite.simps) (auto)
  qed (use 1(2) in \<open>simp add: doWrite.simps\<close>)
qed

text \<open>Even when a write fails, what was written is a prefix of what should have been.\<close>

lemma doWrite_prefix:
  "doWrite src c = (e, c') \<Longrightarrow> \<exists>n. w_out c' = w_out c @ take n src \<and> (e = None \<longrightarrow> length src \<le> n)"
proof (induction src c arbitrary: e c' rule: doWrite.induct)
  case (1 src c)
  show ?case
  proof (cases "src = []")
    case True
    then show ?thesis using 1(2) by (auto simp: doWrite.simps)
  next
    case False
    obtain r c1 where w: "conn_Write src c = (r, c1)" by fastforce
    show ?thesis
    proof (cases r)
      case None
      then show ?thesis using 1(2) w False
        by (subst (asm) doWrite.simps) (auto simp: conn_Write_def split: list.splits write_outcome.splits)
    next
      case (Some k)
      have k: "w_out c1 = w_out c @ take k src" "k \<le> length src"
        using w Some by (auto simp: conn_Write_def take_min_length split: list.splits write_outcome.splits)
      obtain n where n: "w_out c' = w_out c1 @ take n (drop k src)" "e = None \<longrightarrow> length (drop k src) \<le> n"
        using 1(1) [OF False w [symmetric] Some] 1(2) w Some False by (subst (asm) doWrite.simps) auto
      have "take k src @ take n (drop k src) = take (k + n) src" by (simp add: take_add)
      then show ?thesis using n k by (intro exI [of _ "k + n"]) auto
    qed
  qed
qed

lemma doRead_good:
  "r_good c \<Longrightarrow> n \<le> length (r_in c) \<Longrightarrow> \<exists>c'. doRead n c = (Inr (take n (r_in c)), c') \<and> r_in c' = drop n (r_in c) \<and> r_good c'"
proof (induction n c rule: doRead.induct)
  case (1 n c)
  show ?case
  proof (cases "n = 0")
    case False
    then have ne: "r_in c \<noteq> []" using 1(3) by auto
    obtain k c1 where r: "conn_Read n c = (Inr (take k (r_in c)), c1)" "r_good c1" "r_in c1 = drop k (r_in c)" "k \<le> n"
      using conn_Read_good [OF 1(2) ne] by blast
    have l: "length (take k (r_in c)) = k" using r(4) 1(3) by simp
    have "n - k \<le> length (r_in c1)" using r(3,4) 1(3) by simp
    then obtain c' where c': "doRead (n - k) c1 = (Inr (take (n - k) (r_in c1)), c')" "r_in c' = drop (n - k) (r_in c1)" "r_good c'"
      using 1(1) [OF False r(1) [symmetric] refl] r(2) l by auto
    have "take k (r_in c) @ take (n - k) (drop k (r_in c)) = take n (r_in c)"
      using r(4) by (simp flip: take_add)
    then show ?thesis using False r c' l by (subst doRead.simps) auto
  qed (use 1(2) in \<open>simp add: doRead.simps\<close>)
qed

lemma doFileRead_good:
  "f_good c \<Longrightarrow> n \<le> length (r_in c) \<Longrightarrow> \<exists>c'. doFileRead n c = (Inr (take n (r_in c)), c') \<and> r_in c' = drop n (r_in c) \<and> f_good c'"
proof (induction n c rule: doFileRead.induct)
  case (1 n c)
  show ?case
  proof (cases "n = 0")
    case False
    then have ne: "r_in c \<noteq> []" using 1(3) by auto
    obtain k c1 where r: "conn_Read n c = (Inr (take k (r_in c)), c1)" "f_good c1" "r_in c1 = drop k (r_in c)" "k \<le> n" "0 < k"
      using conn_Read_file [OF 1(2) ne] False by blast
    have l: "length (take k (r_in c)) = k" "take k (r_in c) \<noteq> []" using r(4,5) 1(3) ne by auto
    have "n - k \<le> length (r_in c1)" using r(3,4) 1(3) by simp
    then obtain c' where c': "doFileRead (n - k) c1 = (Inr (take (n - k) (r_in c1)), c')" "r_in c' = drop (n - k) (r_in c1)" "f_good c'"
      using 1(1) [OF False r(1) [symmetric] refl l(2)] r(2) l(1) by auto
    have "take k (r_in c) @ take (n - k) (drop k (r_in c)) = take n (r_in c)"
      using r(4) by (simp flip: take_add)
    then show ?thesis using False r c' l by (subst doFileRead.simps) auto
  qed (use 1(2) in \<open>simp add: doFileRead.simps\<close>)
qed

lemma writeLengthPrefixed_good:
  assumes "w_good c"
  shows "\<exists>c'. writeLengthPrefixed buf c = (None, c') \<and> w_out c' = w_out c @ frame buf \<and> w_good c'"
proof -
  obtain c1 where c1: "doWrite (PutUint32 (of_nat (length buf))) c = (None, c1)"
      "w_out c1 = w_out c @ PutUint32 (of_nat (length buf))" "w_good c1"
    using doWrite_good [OF assms] by blast
  then show ?thesis using doWrite_good [OF c1(3), of buf] by (auto simp: writeLengthPrefixed_def frame_def)
qed

lemma readLengthPrefixed_good:
  assumes "r_good c" and "r_in c = frame buf @ rest" and "length buf < 2 ^ 32"
  shows "\<exists>c'. readLengthPrefixed c = (Inr buf, c') \<and> r_in c' = rest \<and> r_good c'"
proof -
  obtain c1 where c1: "doRead 4 c = (Inr (PutUint32 (of_nat (length buf))), c1)" "r_in c1 = buf @ rest" "r_good c1"
    using doRead_good [OF assms(1), of 4] assms(2) by (auto simp: frame_def)
  have "unat (Uint32 (PutUint32 (of_nat (length buf)))) = length buf"
    using Uint32_PutUint32 [of "of_nat (length buf)" "[]"] assms(3) by (simp add: unat_of_nat)
  then show ?thesis using doRead_good [OF c1(3), of "length buf"] c1(1,2) by (auto simp: readLengthPrefixed_def)
qed

lemma readFileLengthPrefixed_good:
  assumes "f_good c" and "r_in c = frame buf @ rest" and "length buf < 2 ^ 32"
  shows "\<exists>c'. readFileLengthPrefixed c = (if length buf \<le> 1024 * 1024 * 100 then Inr buf else Inl (InvalidRead (length buf)), c') \<and>
     (length buf \<le> 1024 * 1024 * 100 \<longrightarrow> r_in c' = rest \<and> f_good c')"
proof -
  obtain c1 where c1: "doFileRead 4 c = (Inr (PutUint32 (of_nat (length buf))), c1)" "r_in c1 = buf @ rest" "f_good c1"
    using doFileRead_good [OF assms(1), of 4] assms(2) by (auto simp: frame_def)
  have "unat (Uint32 (PutUint32 (of_nat (length buf)))) = length buf"
    using Uint32_PutUint32 [of "of_nat (length buf)" "[]"] assms(3) by (simp add: unat_of_nat)
  then show ?thesis using doFileRead_good [OF c1(3), of "length buf"] c1(1,2) by (auto simp: readFileLengthPrefixed_def Let_def)
qed

lemma writeFileLengthPrefixed_good:
  assumes "w_good c"
  shows "\<exists>c'. writeFileLengthPrefixed buf c = (None, c') \<and> w_out c' = w_out c @ frame buf \<and> w_good c'"
  using writeLengthPrefixed_good [OF assms, of buf]
  unfolding writeFileLengthPrefixed_def writeLengthPrefixed_def doFileWrite_def .

end
