(* ===== verification/Memory.thy ===== *)
theory Memory
  imports Framing "HOL-Library.Multiset"
begin

text \<open>
  The agent's view of the shared memory, \<^verbatim>\<open>agent/pkg/memory/memory.go\<close>: batches are taken from the
  shared queues, grouped by trace and put into channels by polling loops with a backoff; buffers go
  back in batches; the header of a buffer is read from the pool.

  A shared queue is the list of its elements; the C calls take or append up to \<^verbatim>\<open>BATCHSIZE\<close> of them
  (\<^verbatim>\<open>client/src/agentapi.c\<close>). Elements that arrive while a loop runs count as present.
\<close>

section \<open>Queues\<close>

definition BATCHSIZE :: nat where
  "BATCHSIZE = 100"

text \<open>\<^verbatim>\<open>m[k] = append(m[k], v)\<close> for the elements of a batch, in order.\<close>

fun group_by :: "('k \<times> 'v) list \<Rightarrow> ('k \<times> 'v list) list \<Rightarrow> ('k \<times> 'v list) list" where
  "group_by [] m = m"
| "group_by ((k, v) # xs) m =
     group_by xs (AList.update k ((case map_of m k of None \<Rightarrow> [] | Some l \<Rightarrow> l) @ [v]) m)"

definition GetComplete :: "(u64 \<times> int) list \<Rightarrow> (u64 \<times> int) list \<times> (u64 \<times> int) list" where
  "GetComplete q = (take BATCHSIZE q, drop BATCHSIZE q)"

definition GetCompleteBatches :: "(u64 \<times> int) list \<Rightarrow> (nat \<times> (u64 \<times> int list) list) \<times> (u64 \<times> int) list" where
  "GetCompleteBatches q = (let cb = take BATCHSIZE q in ((length cb, group_by cb []), drop BATCHSIZE q))"

definition GetTriggers :: "mem_Trigger list \<Rightarrow> (nat \<times> mem_Trigger list) \<times> mem_Trigger list" where
  "GetTriggers q = (let tb = take BATCHSIZE q in ((length tb, tb), drop BATCHSIZE q))"

definition GetBreadcrumbs :: "(u64 \<times> string) list \<Rightarrow> (u64 \<times> string) list \<times> (u64 \<times> string) list" where
  "GetBreadcrumbs q = (take BATCHSIZE q, drop BATCHSIZE q)"

definition GetBreadcrumbBatches :: "(u64 \<times> string) list \<Rightarrow> (nat \<times> crumb_map) \<times> (u64 \<times> string) list" where
  "GetBreadcrumbBatches q = (let bb = take BATCHSIZE q in ((length bb, group_by bb []), drop BATCHSIZE q))"

text \<open>\<^verbatim>\<open>PutAvailable\<close>: the batches handed to the C call; a buffer id is a C \<^verbatim>\<open>int\<close> there.\<close>

definition c_int :: "int \<Rightarrow> int" where
  "c_int x = sint (word_of_int x :: 32 word)"

function PutAvailable :: "int list \<Rightarrow> int list list" where
  "PutAvailable ids =
     (if ids = [] then []
      else let size = (if BATCHSIZE < length ids then BATCHSIZE else length ids)
           in map c_int (take size ids) # PutAvailable (drop size ids))"
  by pat_completeness auto
termination
  by (relation "measure length") (auto simp: BATCHSIZE_def)

declare PutAvailable.simps [simp del]

section \<open>Polling\<close>

text \<open>
  The loops \<^verbatim>\<open>drainBatches\<close>, \<^verbatim>\<open>drainTriggers\<close> and \<^verbatim>\<open>drainBreadcrumbs\<close> differ in what they get; \<open>fuel\<close> is
  a bound on the number of turns.
\<close>

fun drain :: "('q \<Rightarrow> (nat \<times> 'm) \<times> 'q) \<Rightarrow> nat \<Rightarrow> nat \<Rightarrow> nat \<Rightarrow> 'q \<Rightarrow> 'm list \<Rightarrow> (nat \<times> 'q \<times> 'm list) res" where
  "drain get min_bs 0 drained q ch = Inl NonTermination"
| "drain get min_bs (Suc fuel) drained q ch =
     (let ((count, m), q1) = get q;
          ch1 = (if 0 < count then ch @ [m] else ch)
      in if count < min_bs then Inr (drained + count, q1, ch1)
         else drain get min_bs fuel (drained + count) q1 ch1)"

definition drainBatches where
  "drainBatches min_bs q ch = drain GetCompleteBatches min_bs (Suc (length q)) 0 q ch"

definition drainTriggers where
  "drainTriggers min_bs q ch = drain GetTriggers min_bs (Suc (length q)) 0 q ch"

definition drainBreadcrumbs where
  "drainBreadcrumbs min_bs q ch = drain GetBreadcrumbBatches min_bs (Suc (length q)) 0 q ch"

text \<open>The backoff, in microseconds, after a turn that drained \<open>drained\<close> elements.\<close>

definition next_backoff :: "int \<Rightarrow> int \<Rightarrow> int" where
  "next_backoff drained backoff =
     (let b = (if drained > 100 then 10
               else if drained > 40 then go_div backoff 2
               else if drained < 10 then backoff * 2
               else backoff)
      in if b > 100000 then 100000 else b)"

text \<open>A turn of \<^verbatim>\<open>completeLoop\<close>, \<^verbatim>\<open>triggerLoop\<close> and \<^verbatim>\<open>breadcrumbsLoop\<close>: drain, then wait for the backoff.\<close>

definition completeLoop_turn where
  "completeLoop_turn q ch backoff =
     bind_res (drainBatches 20 q ch) (\<lambda>(drained, q1, ch1). Inr (q1, ch1, next_backoff (int drained) backoff))"

definition triggerLoop_turn where
  "triggerLoop_turn q ch backoff =
     bind_res (drainTriggers 20 q ch) (\<lambda>(drained, q1, ch1). Inr (q1, ch1, next_backoff (int drained) backoff))"

definition breadcrumbsLoop_turn where
  "breadcrumbsLoop_turn q ch backoff =
     bind_res (drainBreadcrumbs 20 q ch) (\<lambda>(drained, q1, ch1). Inr (q1, ch1, next_backoff (int drained) backoff))"

section \<open>Buffers\<close>

text \<open>The buffer pool and the size of a buffer.\<close>

record shm_pool =
  pool :: "byte list"
  buffer_size :: int

record BufferHeader =
  hd_Trace_id :: u64
  hd_Acquired :: u64
  hd_Buffer_id :: "32 word"
  hd_Prev_buffer_id :: "32 word"
  hd_Size :: "32 word"
  hd_Buffer_number :: "16 word"
  hd_Null_buffer_count :: "16 word"

text \<open>The bytes \<open>from ..< to\<close> of the pool; outside of it there is no memory to read.\<close>

definition pool_bytes :: "shm_pool \<Rightarrow> int \<Rightarrow> int \<Rightarrow> byte list res" where
  "pool_bytes p from to =
     (if 0 \<le> from \<and> from \<le> to \<and> to \<le> int (length (pool p))
      then Inr (take (nat (to - from)) (drop (nat from) (pool p)))
      else Inl DanglingPointer)"

text \<open>
  \<^verbatim>\<open>GetBuffer\<close>: a slice \<open>(start, end)\<close> of an array of \<open>2 ^ 30\<close> bytes over the pool, whose capacity
  extends to the end of that array.
\<close>

definition GetBuffer :: "shm_pool \<Rightarrow> int \<Rightarrow> (int \<times> int) res" where
  "GetBuffer p buffer_id =
     (let start = buffer_id * buffer_size p; end1 = start + buffer_size p in
      if 0 \<le> start \<and> start \<le> end1 \<and> end1 \<le> 2 ^ 30 then Inr (start, end1) else Inl IndexOutOfRange)"

text \<open>\<^verbatim>\<open>ExtractBufferHeader\<close>: the 32 bytes of the C header are read from the start of the slice.\<close>

definition parse_header :: "byte list \<Rightarrow> BufferHeader" where
  "parse_header bs =
     \<lparr>hd_Trace_id = of_nat (le_get (take 8 bs)), hd_Acquired = of_nat (le_get (take 8 (drop 8 bs))),
      hd_Buffer_id = of_nat (le_get (take 4 (drop 16 bs))), hd_Prev_buffer_id = of_nat (le_get (take 4 (drop 20 bs))),
      hd_Size = of_nat (le_get (take 4 (drop 24 bs))), hd_Buffer_number = of_nat (le_get (take 2 (drop 28 bs))),
      hd_Null_buffer_count = of_nat (le_get (take 2 (drop 30 bs)))\<rparr>"

definition ExtractBufferHeader :: "byte list \<Rightarrow> BufferHeader res" where
  "ExtractBufferHeader buffer =
     (if buffer = [] then Inl IndexOutOfRange
      else if length buffer < 32 then Inl DanglingPointer
      else Inr (parse_header buffer))"

definition ExtractBuffer :: "shm_pool \<Rightarrow> int \<Rightarrow> (BufferHeader \<times> int \<times> int) res" where
  "ExtractBuffer p buffer_id =
     bind_res (GetBuffer p buffer_id) (\<lambda>(start, end1).
       if start = end1 then Inl IndexOutOfRange
       else bind_res (pool_bytes p start (start + 32)) (\<lambda>bs. Inr (parse_header bs, start, end1)))"

section \<open>Grouping and draining\<close>

definition group_of :: "('k \<times> 'v list) list \<Rightarrow> 'k \<Rightarrow> 'v list" where
  "group_of m k = (case map_of m k of None \<Rightarrow> [] | Some l \<Rightarrow> l)"

lemma group_by_ok:
  "group_of (group_by xs m) k = group_of m k @ map snd (filter (\<lambda>x. fst x = k) xs)"
  by (induction xs m rule: group_by.induct) (auto simp: group_of_def)

lemma distinct_group_by: "distinct (map fst m) \<Longrightarrow> distinct (map fst (group_by xs m))"
  by (induction xs m rule: group_by.induct) (auto simp: distinct_update)

lemma mset_update:
  assumes "distinct (map fst m)"
  shows "mset (concat (map snd (AList.update k (group_of m k @ [v]) m))) = add_mset v (mset (concat (map snd m)))"
  using assms
proof (induction m)
  case (Cons x m)
  then show ?case by (cases x) (auto simp: group_of_def map_of_eq_None_iff [THEN iffD2])
qed (simp add: group_of_def)

lemma mset_group_by:
  "distinct (map fst m) \<Longrightarrow> mset (concat (map snd (group_by xs m))) = mset (concat (map snd m)) + mset (map snd xs)"
proof (induction xs m rule: group_by.induct)
  case (2 k v xs m)
  let ?m = "AList.update k ((case map_of m k of None \<Rightarrow> [] | Some l \<Rightarrow> l) @ [v]) m"
  have "distinct (map fst ?m)" using 2(2) by (simp add: distinct_update)
  from 2(1) [OF this] show ?case using mset_update [OF 2(2), of k v] by (simp add: group_of_def)
qed simp

lemma PutAvailable_ok:
  "concat (PutAvailable ids) = map c_int ids" "\<forall>b\<in>set (PutAvailable ids). 0 < length b \<and> length b \<le> BATCHSIZE"
proof (induction ids rule: PutAvailable.induct)
  case (1 ids)
  let ?size = "if BATCHSIZE < length ids then BATCHSIZE else length ids"
  have s: "0 < ?size" "?size \<le> BATCHSIZE" "?size \<le> length ids" if "ids \<noteq> []" using that by (auto simp: BATCHSIZE_def)
  show "concat (PutAvailable ids) = map c_int ids"
    using 1(1) [of ?size] by (subst PutAvailable.simps) (simp add: Let_def flip: map_append)
  show "\<forall>b\<in>set (PutAvailable ids). 0 < length b \<and> length b \<le> BATCHSIZE"
    using 1(2) [of ?size] s by (subst PutAvailable.simps) (simp add: Let_def)
qed

text \<open>
  Draining with any of the three calls: it ends, takes everything that was there up to a last batch
  of fewer than \<open>min_bs\<close> elements, and puts the batches in the channel in order.
\<close>

definition gets :: "('a list \<Rightarrow> (nat \<times> 'm) \<times> 'a list) \<Rightarrow> ('a list \<Rightarrow> 'm) \<Rightarrow> bool" where
  "gets get f \<longleftrightarrow> (\<forall>q. get q = ((length (take BATCHSIZE q), f (take BATCHSIZE q)), drop BATCHSIZE q))"

lemma drain_ok:
  assumes g: "gets get f" and m: "0 < min_bs" "min_bs \<le> BATCHSIZE"
  shows "length q < fuel \<Longrightarrow> yields (drain get min_bs fuel drained q ch) (\<lambda>(drained', q', ch'). q' = [] \<and> drained' = drained + length q \<and>
     (\<exists>bs. ch' = ch @ map f bs \<and> concat bs = q \<and> [] \<notin> set bs))"
proof (induction fuel arbitrary: drained q ch)
  case (Suc fuel)
  have e: "get q = ((length (take BATCHSIZE q), f (take BATCHSIZE q)), drop BATCHSIZE q)" using g by (simp add: gets_def)
  show ?case
  proof (cases "length q < min_bs")
    case True
    then have "drop BATCHSIZE q = []" "take BATCHSIZE q = q" using m(2) by simp_all
    then show ?thesis using True e by (auto intro!: exI [of _ "if q = [] then [] else [q]"])
  next
    case False
    have n: "\<not> length (take BATCHSIZE q) < min_bs" "take BATCHSIZE q \<noteq> []" using False m by (auto simp: BATCHSIZE_def)
    have l: "length (drop BATCHSIZE q) < fuel" using Suc.prems False m by (simp add: BATCHSIZE_def)
    obtain t' q' ch' bs where r: "drain get min_bs fuel (drained + length (take BATCHSIZE q)) (drop BATCHSIZE q) (ch @ [f (take BATCHSIZE q)]) = Inr (t', q', ch')"
        "q' = []" "t' = drained + length (take BATCHSIZE q) + length (drop BATCHSIZE q)"
        "ch' = (ch @ [f (take BATCHSIZE q)]) @ map f bs" "concat bs = drop BATCHSIZE q" "[] \<notin> set bs"
      using Suc.IH [OF l, of "drained + length (take BATCHSIZE q)" "ch @ [f (take BATCHSIZE q)]"] by (elim yieldsE) auto
    have "drained + length (take BATCHSIZE q) + length (drop BATCHSIZE q) = drained + length q"
      by (metis append_take_drop_id length_append add.assoc)
    moreover have "ch' = ch @ map f (take BATCHSIZE q # bs)" "concat (take BATCHSIZE q # bs) = q" "[] \<notin> set (take BATCHSIZE q # bs)"
      using r(4-6) n(2) by simp_all
    moreover have "drain get min_bs (Suc fuel) drained q ch = Inr (t', q', ch')"
      using r(1) e n by (simp add: Let_def)
    ultimately show ?thesis using r(2,3) unfolding yields_def by (metis (mono_tags, lifting) case_prodI)
  qed
qed simp

lemma gets_calls:
  "gets GetCompleteBatches (\<lambda>b. group_by b [])" "gets GetTriggers (\<lambda>b. b)" "gets GetBreadcrumbBatches (\<lambda>b. group_by b [])"
  by (simp_all add: gets_def GetCompleteBatches_def GetTriggers_def GetBreadcrumbBatches_def Let_def)

end
