(* ===== verification/PriorityTree.thy ===== *)
theory PriorityTree
  imports Prelude
begin

text \<open>
  The partial priority tree of \<^verbatim>\<open>agent/pkg/util/partialprioritytree.go\<close>: a tree over ranges of
  unsigned 64-bit keys that is split lazily, with \<^verbatim>\<open>PopMin\<close> for reporting and \<^verbatim>\<open>PopNearMax\<close> for
  eviction. The theory defines the operations, the representation invariant \<open>ppt_ok\<close> and the
  multiset \<open>elems\<close> a tree stands for, proves that the operations keep the one and act on the other
  as a priority queue should, and closes with the contract \<open>unique_priority_queue\<close> that the trigger
  queues rely on.
\<close>

section \<open>Data\<close>

text \<open>
  \<^verbatim>\<open>type TreeNode struct\<close>: the scalar fields are the record \<open>node_hdr\<close>, the two child pointers are
  options, \<open>None\<close> for nil.
\<close>

record node_hdr =
  tn_expand :: int
  tn_collapse :: int
  tn_low :: u64
  tn_mid :: u64
  tn_high :: u64
  tn_elements :: "u64 list"
  tn_sorted :: bool
  tn_isleaf :: bool
  tn_size :: int

datatype TreeNode =
  TreeNode (tn_hdr: node_hdr) (tn_left: "TreeNode option") (tn_right: "TreeNode option")

section \<open>Operations\<close>

definition initTreeNode :: "u64 \<Rightarrow> u64 \<Rightarrow> TreeNode" where
  "initTreeNode low high =
     TreeNode \<lparr>tn_expand = 20, tn_collapse = 6, tn_low = low,
               tn_mid = low + (high - low) div 2 + 1, tn_high = high,
               tn_elements = [], tn_sorted = True, tn_isleaf = True, tn_size = 0\<rparr> None None"

definition InitPartialPriorityTree :: TreeNode where
  "InitPartialPriorityTree = initTreeNode 0 (- 1)"

definition Insert :: "u64 \<Rightarrow> TreeNode \<Rightarrow> TreeNode" where
  "Insert elem n = (let h = tn_hdr n in
     TreeNode (h\<lparr>tn_elements := tn_elements h @ [elem], tn_sorted := False,
                 tn_size := tn_size h + 1\<rparr>) (tn_left n) (tn_right n))"

definition Size :: "TreeNode \<Rightarrow> int" where
  "Size n = tn_size (tn_hdr n)"

text \<open>\<^verbatim>\<open>Remove\<close> has an empty body.\<close>

definition Remove :: "u64 \<Rightarrow> TreeNode \<Rightarrow> TreeNode" where
  "Remove elem n = n"

text \<open>The loop of \<^verbatim>\<open>distributeElementsToLeaves\<close>; a missing child is a nil dereference.\<close>

fun distribute_loop ::
  "u64 \<Rightarrow> u64 list \<Rightarrow> TreeNode option \<Rightarrow> TreeNode option \<Rightarrow> (TreeNode option \<times> TreeNode option) res"
where
  "distribute_loop mid [] l r = Inr (l, r)"
| "distribute_loop mid (e # es) l r =
     (if e < mid
      then case l of None \<Rightarrow> Inl NilDereference
                   | Some n \<Rightarrow> distribute_loop mid es (Some (Insert e n)) r
      else case r of None \<Rightarrow> Inl NilDereference
                   | Some n \<Rightarrow> distribute_loop mid es l (Some (Insert e n)))"

definition distributeElementsToLeaves :: "TreeNode \<Rightarrow> TreeNode res" where
  "distributeElementsToLeaves n = (let h = tn_hdr n in
     bind_res (distribute_loop (tn_mid h) (tn_elements h) (tn_left n) (tn_right n))
       (\<lambda>(l, r). Inr (TreeNode (h\<lparr>tn_elements := [], tn_sorted := True\<rparr>) l r)))"

definition collapseIfEmpty :: "TreeNode \<Rightarrow> TreeNode" where
  "collapseIfEmpty n =
     (if Size n = 0
      then TreeNode ((tn_hdr n)\<lparr>tn_isleaf := True, tn_sorted := True\<rparr>) None None
      else n)"

text \<open>The leaf branch of \<^verbatim>\<open>PopMin\<close>: sort if needed, take the first element.\<close>

definition popMinLeaf :: "TreeNode \<Rightarrow> (u64 \<times> TreeNode) res" where
  "popMinLeaf n =
     (let h = tn_hdr n;
          es = (if tn_sorted h then tn_elements h else sort (tn_elements h))
      in case es of
           [] \<Rightarrow> Inl IndexOutOfRange
         | v # vs \<Rightarrow> Inr (v, TreeNode (h\<lparr>tn_elements := vs, tn_sorted := True,
                                       tn_size := tn_size h - 1\<rparr>) (tn_left n) (tn_right n)))"

text \<open>\<open>Expand the node\<close>: a leaf with ten elements or more gets two empty children.\<close>

definition expandNode :: "TreeNode \<Rightarrow> TreeNode" where
  "expandNode n =
     (let h = tn_hdr n in
      if tn_isleaf h
      then TreeNode (h\<lparr>tn_isleaf := False\<rparr>)
             (Some (initTreeNode (tn_low h) (tn_mid h - 1)))
             (Some (initTreeNode (tn_mid h) (tn_high h)))
      else n)"

text \<open>The common tail of the pops: put the child back, count down, drop empty children.\<close>

definition afterPop :: "TreeNode \<Rightarrow> TreeNode option \<Rightarrow> TreeNode option \<Rightarrow> TreeNode" where
  "afterPop n l r =
     collapseIfEmpty (TreeNode ((tn_hdr n)\<lparr>tn_size := Size n - 1\<rparr>) l r)"

text \<open>
  \<^verbatim>\<open>PopMin\<close> recurses into a child that it may just have created, so nothing bounds the recursion a
  priori: \<open>None\<close> is a call that does not return.
\<close>

partial_function (option) popMinRec :: "TreeNode \<Rightarrow> (u64 \<times> TreeNode) res option" where
  "popMinRec n =
     (if tn_isleaf (tn_hdr n) \<and> Size n < 10 then Some (popMinLeaf n)
      else case distributeElementsToLeaves (expandNode n) of
             Inl e \<Rightarrow> Some (Inl e)
           | Inr n1 \<Rightarrow>
               (case tn_left n1 of
                  None \<Rightarrow> Some (Inl NilDereference)
                | Some l \<Rightarrow>
                    if 0 < Size l
                    then Option.bind (popMinRec l) (\<lambda>res.
                           Some (bind_res res (\<lambda>(v, l').
                             Inr (v, afterPop n1 (Some l') (tn_right n1)))))
                    else (case tn_right n1 of
                            None \<Rightarrow> Some (Inl NilDereference)
                          | Some r \<Rightarrow>
                              Option.bind (popMinRec r) (\<lambda>res.
                                Some (bind_res res (\<lambda>(v, r').
                                  Inr (v, afterPop n1 (tn_left n1) (Some r'))))))))"

declare popMinRec.simps [code]

definition PopMin :: "TreeNode \<Rightarrow> (u64 \<times> TreeNode) res" where
  "PopMin n = (case popMinRec n of None \<Rightarrow> Inl StackOverflow | Some res \<Rightarrow> res)"

fun nodes :: "TreeNode \<Rightarrow> nat" where
  "nodes (TreeNode h l r) =
     Suc ((case l of None \<Rightarrow> 0 | Some a \<Rightarrow> nodes a) + (case r of None \<Rightarrow> 0 | Some b \<Rightarrow> nodes b))"

lemma nodes_Insert [simp]: "nodes (Insert e n) = nodes n"
  by (cases n) (simp add: Insert_def Let_def)

lemma nodes_left: "tn_left n = Some l \<Longrightarrow> nodes l < nodes n"
  by (cases n) simp

lemma nodes_right: "tn_right n = Some r \<Longrightarrow> nodes r < nodes n"
  by (cases n) simp

lemma distribute_loop_nodes:
  "distribute_loop mid es l r = Inr (l', r') \<Longrightarrow>
     map_option nodes l' = map_option nodes l \<and> map_option nodes r' = map_option nodes r"
  by (induction mid es l r rule: distribute_loop.induct)
     (auto split: if_splits option.splits)

lemma distribute_nodes:
  assumes "distributeElementsToLeaves n = Inr n1"
  shows "map_option nodes (tn_left n1) = map_option nodes (tn_left n)"
    and "map_option nodes (tn_right n1) = map_option nodes (tn_right n)"
  using assms by (auto simp: distributeElementsToLeaves_def Let_def dest!: distribute_loop_nodes)

lemma distribute_nodes_left:
  "distributeElementsToLeaves n = Inr n1 \<Longrightarrow> tn_left n1 = Some l \<Longrightarrow> nodes l < nodes n"
  using distribute_nodes(1) [of n n1] nodes_left [of n]
  by (cases "tn_left n") auto

lemma distribute_nodes_right:
  "distributeElementsToLeaves n = Inr n1 \<Longrightarrow> tn_right n1 = Some r \<Longrightarrow> nodes r < nodes n"
  using distribute_nodes(2) [of n n1] nodes_right [of n]
  by (cases "tn_right n") auto

text \<open>\<^verbatim>\<open>PopNearMax\<close> never creates nodes, so its recursion ends on every tree.\<close>

definition popFirst :: "TreeNode \<Rightarrow> (u64 \<times> TreeNode) res" where
  "popFirst n =
     (let h = tn_hdr n in
      case tn_elements h of
        [] \<Rightarrow> Inl IndexOutOfRange
      | v # vs \<Rightarrow> Inr (v, TreeNode (h\<lparr>tn_elements := vs, tn_size := tn_size h - 1\<rparr>)
                            (tn_left n) (tn_right n)))"

function PopNearMax :: "TreeNode \<Rightarrow> (u64 \<times> TreeNode) res" where
  "PopNearMax n =
     (if tn_isleaf (tn_hdr n) then popFirst n
      else case tn_right n of
             None \<Rightarrow> Inl NilDereference
           | Some r \<Rightarrow>
               (if 0 < Size r
                then bind_res (PopNearMax r) (\<lambda>(v, r'). Inr (v, afterPop n (tn_left n) (Some r')))
                else case distributeElementsToLeaves n of
                       Inl e \<Rightarrow> Inl e
                     | Inr n1 \<Rightarrow>
                         (case tn_right n1 of
                            None \<Rightarrow> Inl NilDereference
                          | Some r1 \<Rightarrow>
                              if 0 < Size r1
                              then bind_res (PopNearMax r1)
                                     (\<lambda>(v, r'). Inr (v, afterPop n1 (tn_left n1) (Some r')))
                              else (case tn_left n1 of
                                      None \<Rightarrow> Inl NilDereference
                                    | Some l1 \<Rightarrow>
                                        bind_res (PopNearMax l1)
                                          (\<lambda>(v, l'). Inr (v, afterPop n1 (Some l') (tn_right n1)))))))"
  by pat_completeness auto
termination
  by (relation "measure nodes")
     (auto intro: nodes_right distribute_nodes_right distribute_nodes_left)

declare PopNearMax.simps [simp del]

fun NodeCount :: "TreeNode \<Rightarrow> int res" where
  "NodeCount (TreeNode h l r) =
     (if tn_isleaf h then Inr 1
      else case l of
             None \<Rightarrow> Inl NilDereference
           | Some a \<Rightarrow> bind_res (NodeCount a) (\<lambda>x.
               case r of
                 None \<Rightarrow> Inl NilDereference
               | Some b \<Rightarrow> bind_res (NodeCount b) (\<lambda>y. Inr (x + y + 1))))"

section \<open>Representation invariant\<close>

text \<open>
  \<open>elems n\<close> is the multiset of keys in the tree. \<open>ppt_ok lo hi n\<close> says that \<open>n\<close> covers the range
  \<open>[lo, hi]\<close>: its bounds and midpoint are those of the range, \<^verbatim>\<open>size\<close> counts its keys, every key lies
  in the range, the \<^verbatim>\<open>sorted\<close> flag of a leaf is honest, and the children of an inner node cover the
  two halves.
\<close>

fun elems :: "TreeNode \<Rightarrow> u64 multiset" where
  "elems (TreeNode h l r) =
     mset (tn_elements h)
     + (case l of None \<Rightarrow> {#} | Some a \<Rightarrow> elems a)
     + (case r of None \<Rightarrow> {#} | Some b \<Rightarrow> elems b)"

definition mid_of :: "u64 \<Rightarrow> u64 \<Rightarrow> u64" where
  "mid_of lo hi = lo + (hi - lo) div 2 + 1"

fun ppt_ok :: "u64 \<Rightarrow> u64 \<Rightarrow> TreeNode \<Rightarrow> bool" where
  "ppt_ok lo hi (TreeNode h l r) \<longleftrightarrow>
     tn_low h = lo \<and> tn_high h = hi \<and> tn_mid h = mid_of lo hi \<and> lo \<le> hi \<and>
     (\<forall>e\<in>set (tn_elements h). lo \<le> e \<and> e \<le> hi) \<and>
     (case l of
        None \<Rightarrow> r = None \<and> tn_isleaf h \<and> tn_size h = int (length (tn_elements h)) \<and>
                (tn_sorted h \<longrightarrow> sorted (tn_elements h))
      | Some a \<Rightarrow>
          (case r of
             None \<Rightarrow> False
           | Some b \<Rightarrow> \<not> tn_isleaf h \<and> lo < hi \<and>
               tn_size h = int (length (tn_elements h)) + Size a + Size b \<and>
               ppt_ok lo (mid_of lo hi - 1) a \<and> ppt_ok (mid_of lo hi) hi b))"

subsection \<open>The midpoint never wraps around\<close>

lemma unat_mid_of:
  assumes "lo < hi"
  shows "unat (mid_of lo hi) = unat lo + (unat hi - unat lo) div 2 + 1"
proof -
  have d: "unat (hi - lo) = unat hi - unat lo"
    using assms by (simp add: unat_sub less_imp_le)
  have lt: "unat lo < unat hi" using assms by (simp add: word_less_nat_alt)
  have "unat ((hi - lo) div 2) = (unat hi - unat lo) div 2"
    by (simp add: unat_div d)
  moreover have "unat lo + (unat hi - unat lo) div 2 + 1 < 2 ^ 64"
    using lt unsigned_less [of hi, where ?'a = nat] by simp
  ultimately show ?thesis
    unfolding mid_of_def by (simp add: unat_word_ariths)
qed

lemma mid_of_bounds:
  assumes "lo < hi"
  shows "lo < mid_of lo hi" and "mid_of lo hi \<le> hi" and "lo \<le> mid_of lo hi - 1"
    and "unat (mid_of lo hi - 1) = unat (mid_of lo hi) - 1"
proof -
  have lt: "unat lo < unat hi" using assms by (simp add: word_less_nat_alt)
  show a: "lo < mid_of lo hi" and "mid_of lo hi \<le> hi"
    using lt by (auto simp: word_less_nat_alt word_le_nat_alt unat_mid_of [OF assms])
  have "mid_of lo hi \<noteq> 0" using a by auto
  then show b: "unat (mid_of lo hi - 1) = unat (mid_of lo hi) - 1"
    by (rule unat_minus_one)
  show "lo \<le> mid_of lo hi - 1"
    using a by (simp add: word_le_nat_alt word_less_nat_alt b)
qed

lemma less_mid_iff: "lo < hi \<Longrightarrow> e < mid_of lo hi \<longleftrightarrow> e \<le> mid_of lo hi - 1"
  using mid_of_bounds [of lo hi]
  by (auto simp: word_le_nat_alt word_less_nat_alt)

subsection \<open>Size, bounds and insertion\<close>

lemma ppt_ok_size: "ppt_ok lo hi n \<Longrightarrow> Size n = int (size (elems n))"
  by (induction lo hi n rule: ppt_ok.induct) (auto simp: Size_def split: option.splits)

lemma ppt_ok_range: "ppt_ok lo hi n \<Longrightarrow> e \<in># elems n \<Longrightarrow> lo \<le> e \<and> e \<le> hi"
proof (induction lo hi n rule: ppt_ok.induct)
  case (1 lo hi h l r)
  show ?case
  proof (cases l)
    case None
    then show ?thesis using 1 by (auto split: option.splits)
  next
    case (Some a)
    with 1 obtain b where b: "r = Some b" by (auto split: option.splits)
    with Some 1 have lt: "lo < hi"
      and ih: "e \<in># elems a \<Longrightarrow> lo \<le> e \<and> e \<le> mid_of lo hi - 1"
        "e \<in># elems b \<Longrightarrow> mid_of lo hi \<le> e \<and> e \<le> hi" by auto
    have "mid_of lo hi - 1 \<le> hi" and "lo \<le> mid_of lo hi"
      using mid_of_bounds [OF lt] by (auto simp: word_le_nat_alt word_less_nat_alt)
    with ih Some b 1(3,4) show ?thesis by (auto dest: order_trans)
  qed
qed

lemma ppt_ok_init: "lo \<le> hi \<Longrightarrow> ppt_ok lo hi (initTreeNode lo hi)"
  by (simp add: initTreeNode_def mid_of_def)

lemma elems_init [simp]: "elems (initTreeNode lo hi) = {#}"
  by (simp add: initTreeNode_def)

lemma elems_Insert [simp]: "elems (Insert e n) = add_mset e (elems n)"
  by (cases n) (simp add: Insert_def Let_def)

lemma Size_Insert [simp]: "Size (Insert e n) = Size n + 1"
  by (simp add: Insert_def Let_def Size_def)

lemma ppt_ok_Insert: "ppt_ok lo hi n \<Longrightarrow> lo \<le> e \<Longrightarrow> e \<le> hi \<Longrightarrow> ppt_ok lo hi (Insert e n)"
  by (cases n) (auto simp: Insert_def Let_def split: option.splits)

lemma hdr_Insert [simp]:
  "tn_left (Insert e n) = tn_left n" "tn_right (Insert e n) = tn_right n"
  by (simp_all add: Insert_def Let_def)

subsection \<open>Distributing elements to the children\<close>

lemma distribute_loop_ok:
  assumes "lo < hi" and "ppt_ok lo (mid_of lo hi - 1) a" and "ppt_ok (mid_of lo hi) hi b"
    and "\<forall>e\<in>set es. lo \<le> e \<and> e \<le> hi"
  shows "\<exists>a' b'. distribute_loop (mid_of lo hi) es (Some a) (Some b) = Inr (Some a', Some b') \<and>
           ppt_ok lo (mid_of lo hi - 1) a' \<and> ppt_ok (mid_of lo hi) hi b' \<and>
           elems a' + elems b' = mset es + elems a + elems b"
  using assms(2-)
proof (induction es arbitrary: a b)
  case Nil
  then show ?case by simp
next
  case (Cons e es)
  show ?case
  proof (cases "e < mid_of lo hi")
    case True
    with Cons.prems have "ppt_ok lo (mid_of lo hi - 1) (Insert e a)"
      by (intro ppt_ok_Insert) (auto simp: less_mid_iff [OF assms(1)])
    from Cons.IH [OF this Cons.prems(2)] Cons.prems(3) True show ?thesis by auto
  next
    case False
    with Cons.prems have "ppt_ok (mid_of lo hi) hi (Insert e b)"
      by (intro ppt_ok_Insert) auto
    from Cons.IH [OF Cons.prems(1) this] Cons.prems(3) False show ?thesis by auto
  qed
qed

text \<open>An inner node that covers its range, with its children named.\<close>

definition inner_ok :: "u64 \<Rightarrow> u64 \<Rightarrow> TreeNode \<Rightarrow> TreeNode \<Rightarrow> TreeNode \<Rightarrow> bool" where
  "inner_ok lo hi n a b \<longleftrightarrow>
     ppt_ok lo hi n \<and> tn_left n = Some a \<and> tn_right n = Some b \<and>
     lo < hi \<and> ppt_ok lo (mid_of lo hi - 1) a \<and> ppt_ok (mid_of lo hi) hi b"

lemma inner_okI:
  assumes "ppt_ok lo hi n" and "\<not> tn_isleaf (tn_hdr n)"
  obtains a b where "inner_ok lo hi n a b"
  using assms by (cases n) (auto simp: inner_ok_def split: option.splits)

lemma distribute_ok:
  assumes "inner_ok lo hi n a b"
  shows "\<exists>n1 a1 b1. distributeElementsToLeaves n = Inr n1 \<and> inner_ok lo hi n1 a1 b1 \<and>
           elems n1 = elems n \<and> tn_elements (tn_hdr n1) = [] \<and> elems a1 + elems b1 = elems n"
proof -
  obtain h where n: "n = TreeNode h (Some a) (Some b)"
    using assms by (cases n) (auto simp: inner_ok_def)
  have lt: "lo < hi" and ok: "ppt_ok lo (mid_of lo hi - 1) a" "ppt_ok (mid_of lo hi) hi b"
    and es: "\<forall>e\<in>set (tn_elements h). lo \<le> e \<and> e \<le> hi"
    and h: "tn_low h = lo" "tn_high h = hi" "tn_mid h = mid_of lo hi" "\<not> tn_isleaf h"
      "tn_size h = int (length (tn_elements h)) + Size a + Size b"
    using assms by (auto simp: inner_ok_def n)
  obtain a1 b1 where d: "distribute_loop (mid_of lo hi) (tn_elements h) (Some a) (Some b)
        = Inr (Some a1, Some b1)"
    and ok1: "ppt_ok lo (mid_of lo hi - 1) a1" "ppt_ok (mid_of lo hi) hi b1"
    and el: "elems a1 + elems b1 = mset (tn_elements h) + elems a + elems b"
    using distribute_loop_ok [OF lt ok es] by blast
  have "size (elems a1) + size (elems b1) = length (tn_elements h) + size (elems a) + size (elems b)"
    using arg_cong [OF el, of size] by simp
  then have "tn_size h = Size a1 + Size b1"
    using h(5) ok ok1 by (simp add: ppt_ok_size)
  then have "inner_ok lo hi (TreeNode (h\<lparr>tn_elements := [], tn_sorted := True\<rparr>) (Some a1) (Some b1)) a1 b1"
    using lt ok1 h by (simp add: inner_ok_def)
  then show ?thesis
    using d el h by (auto simp: distributeElementsToLeaves_def Let_def n)
qed

subsection \<open>The end of a pop\<close>

lemma afterPop_ok:
  assumes "inner_ok lo hi n a b"
    and "ppt_ok lo (mid_of lo hi - 1) a'" and "ppt_ok (mid_of lo hi) hi b'"
    and "add_mset v (elems a' + elems b') = elems a + elems b"
  shows "ppt_ok lo hi (afterPop n (Some a') (Some b'))"
    and "add_mset v (elems (afterPop n (Some a') (Some b'))) = elems n"
    and "Size (afterPop n (Some a') (Some b')) = Size n - 1"
proof -
  obtain h where n: "n = TreeNode h (Some a) (Some b)"
    using assms(1) by (cases n) (auto simp: inner_ok_def)
  have sz: "Size a' + Size b' + 1 = Size a + Size b"
    using assms(1-3) arg_cong [OF assms(4), of size]
    by (auto simp: inner_ok_def dest!: ppt_ok_size)
  have h: "ppt_ok lo hi n" "lo < hi"
    "tn_size h = int (length (tn_elements h)) + Size a + Size b"
    using assms(1) by (auto simp: inner_ok_def n)
  let ?n = "TreeNode (h\<lparr>tn_size := tn_size h - 1\<rparr>) (Some a') (Some b')"
  have ok: "ppt_ok lo hi ?n" using h sz assms(2,3) by (simp add: n)
  have el: "add_mset v (elems ?n) = elems n" using assms(4) by (simp add: n)
  have empty: "elems ?n = {#}" if "Size ?n = 0"
    using ppt_ok_size [OF ok] that by (simp del: elems.simps)
  then have "tn_elements h = []" if "Size ?n = 0" using that by simp
  then show "ppt_ok lo hi (afterPop n (Some a') (Some b'))"
    using ok by (auto simp: afterPop_def collapseIfEmpty_def n Size_def)
  show "add_mset v (elems (afterPop n (Some a') (Some b'))) = elems n"
    using el empty by (auto simp: afterPop_def collapseIfEmpty_def n Size_def)
  show "Size (afterPop n (Some a') (Some b')) = Size n - 1"
    by (simp add: afterPop_def collapseIfEmpty_def Size_def)
qed

text \<open>What a pop that took \<open>v\<close> out of \<open>n\<close> and left \<open>n'\<close> must satisfy.\<close>

definition popped :: "u64 \<Rightarrow> u64 \<Rightarrow> TreeNode \<Rightarrow> u64 \<Rightarrow> TreeNode \<Rightarrow> bool" where
  "popped lo hi n v n' \<longleftrightarrow> ppt_ok lo hi n' \<and> add_mset v (elems n') = elems n"

lemma popped_left:
  assumes "inner_ok lo hi n a b" and "popped lo (mid_of lo hi - 1) a v a'"
  shows "popped lo hi n v (afterPop n (Some a') (tn_right n))"
  using assms afterPop_ok [OF assms(1), of a' b v]
  by (auto simp: popped_def inner_ok_def)

lemma popped_right:
  assumes "inner_ok lo hi n a b" and "popped (mid_of lo hi) hi b v b'"
  shows "popped lo hi n v (afterPop n (tn_left n) (Some b'))"
  using assms afterPop_ok [OF assms(1), of a b' v]
  by (auto simp: popped_def inner_ok_def)

section \<open>PopMin\<close>

lemma popMinLeaf_ok:
  assumes "ppt_ok lo hi n" and "tn_isleaf (tn_hdr n)" and "elems n \<noteq> {#}"
  shows "\<exists>v n'. popMinLeaf n = Inr (v, n') \<and> v = Min (set_mset (elems n)) \<and> popped lo hi n v n'"
proof -
  obtain h where n: "n = TreeNode h None None"
    using assms(1,2) by (cases n) (auto split: option.splits)
  define es where "es = (if tn_sorted h then tn_elements h else sort (tn_elements h))"
  have srt: "sorted es" and ms: "mset es = mset (tn_elements h)"
    using assms(1) by (auto simp: es_def n)
  obtain v vs where es: "es = v # vs"
    using assms(3) ms by (cases es) (auto simp: n)
  have "\<forall>x\<in>set (v # vs). v \<le> x" using srt by (simp add: es)
  moreover have "set_mset (elems n) = set (v # vs)"
    using arg_cong [OF ms, of set_mset] by (simp add: n es)
  ultimately have "v = Min (set_mset (elems n))"
    by (metis List.finite_set Min_eqI list.set_intros(1))
  moreover have "length vs + 1 = length (tn_elements h)" and "set vs \<subseteq> set (tn_elements h)"
    using arg_cong [OF ms, of size] arg_cong [OF ms, of set_mset] by (auto simp: es)
  then have "ppt_ok lo hi (TreeNode (h\<lparr>tn_elements := vs, tn_sorted := True,
      tn_size := tn_size h - 1\<rparr>) None None)"
    using assms(1) srt by (auto simp: n es)
  ultimately show ?thesis
    using ms unfolding es
    by (auto simp: popMinLeaf_def n Let_def es_def [symmetric] es popped_def)
qed

text \<open>A tree whose keys are pairwise different.\<close>

definition unique :: "TreeNode \<Rightarrow> bool" where
  "unique n \<longleftrightarrow> (\<forall>x. count (elems n) x \<le> 1)"

lemma unique_add: "unique n \<Longrightarrow> elems n = elems a + elems b + M \<Longrightarrow> unique a \<and> unique b"
  unfolding unique_def by (metis add_leD1 add_leD2 count_union)

lemma unique_card: "unique n \<Longrightarrow> card (set_mset (elems n)) = size (elems n)"
proof -
  assume "unique n"
  then have "count (elems n) x = 1" if "x \<in># elems n" for x
    using that unfolding unique_def
    by (metis One_nat_def Suc_leI count_greater_zero_iff le_antisym)
  then show ?thesis by (simp add: size_multiset_overloaded_eq)
qed

text \<open>Two different keys fit into a range only if its bounds differ.\<close>

lemma unique_range:
  assumes "ppt_ok lo hi n" and "unique n" and "1 < size (elems n)"
  shows "lo < hi"
proof (rule ccontr)
  assume "\<not> lo < hi"
  then have "set_mset (elems n) \<subseteq> {lo}"
    using ppt_ok_range [OF assms(1)] by force
  then have "card (set_mset (elems n)) \<le> 1"
    by (metis card_mono finite.emptyI finite.insertI is_singletonI is_singleton_altdef)
  then show False using unique_card [OF assms(2)] assms(3) by simp
qed

lemma expandNode_ok:
  assumes "ppt_ok lo hi n" and "\<not> (tn_isleaf (tn_hdr n) \<and> Size n < 10)" and "unique n"
  shows "\<exists>a b. inner_ok lo hi (expandNode n) a b \<and> elems (expandNode n) = elems n"
proof (cases "tn_isleaf (tn_hdr n)")
  case False
  then show ?thesis
    by (auto simp: expandNode_def Let_def intro: inner_okI [OF assms(1) False])
next
  case True
  obtain h where n: "n = TreeNode h None None"
    using assms(1) True by (cases n) (auto split: option.splits)
  have "1 < size (elems n)" using True assms(2) ppt_ok_size [OF assms(1)] by simp
  then have lt: "lo < hi" by (rule unique_range [OF assms(1,3)])
  show ?thesis
    using assms(1) lt mid_of_bounds [OF lt]
    by (auto simp: expandNode_def n inner_ok_def ppt_ok_init Size_def)
       (auto simp: initTreeNode_def)
qed

lemma Min_left:
  assumes "inner_ok lo hi n a b" and "elems a + elems b = elems n" and "elems a \<noteq> {#}"
  shows "Min (set_mset (elems a)) = Min (set_mset (elems n))"
proof -
  have lt: "lo < hi" and a: "ppt_ok lo (mid_of lo hi - 1) a" and b: "ppt_ok (mid_of lo hi) hi b"
    using assms(1) by (auto simp: inner_ok_def)
  have "x < y" if "x \<in># elems a" "y \<in># elems b" for x y
    using ppt_ok_range [OF a that(1)] ppt_ok_range [OF b that(2)] less_mid_iff [OF lt]
    by (meson order_less_le_trans)
  moreover have "set_mset (elems n) = set_mset (elems a) \<union> set_mset (elems b)"
    using arg_cong [OF assms(2), of set_mset] by simp
  ultimately show ?thesis
    using assms(3) by (intro Min_eqI [symmetric]) (auto intro: Min_le less_imp_le order_trans)
qed

lemma halves_smaller:
  assumes "lo < hi"
  shows "unat (mid_of lo hi - 1) - unat lo < unat hi - unat lo" "unat hi - unat (mid_of lo hi) < unat hi - unat lo"
proof -
  have "unat lo < unat (mid_of lo hi)" "unat (mid_of lo hi) \<le> unat hi"
    using mid_of_bounds(1,2) [OF assms] by (auto simp: word_less_nat_alt word_le_nat_alt)
  then show "unat (mid_of lo hi - 1) - unat lo < unat hi - unat lo" "unat hi - unat (mid_of lo hi) < unat hi - unat lo"
    using mid_of_bounds(4) [OF assms] by auto
qed

lemma popMinRec_ok:
  "ppt_ok lo hi n \<Longrightarrow> unique n \<Longrightarrow> elems n \<noteq> {#} \<Longrightarrow>
   \<exists>v n'. popMinRec n = Some (Inr (v, n')) \<and> v = Min (set_mset (elems n)) \<and> popped lo hi n v n'"
proof (induction "unat hi - unat lo" arbitrary: lo hi n rule: less_induct)
  case less
  show ?case
  proof (cases "tn_isleaf (tn_hdr n) \<and> Size n < 10")
    case True
    then show ?thesis
      using popMinLeaf_ok [OF less.prems(1) _ less.prems(3)] by (auto simp: popMinRec.simps [of n])
  next
    case False
    obtain a0 b0 where e: "inner_ok lo hi (expandNode n) a0 b0" "elems (expandNode n) = elems n"
      using expandNode_ok [OF less.prems(1) False less.prems(2)] by blast
    obtain n1 a b where d: "distributeElementsToLeaves (expandNode n) = Inr n1"
      and n1: "inner_ok lo hi n1 a b" "elems n1 = elems n" "elems a + elems b = elems n"
      using distribute_ok [OF e(1)] e(2) by auto
    have lt: "lo < hi" and a: "tn_left n1 = Some a" "ppt_ok lo (mid_of lo hi - 1) a"
      and b: "tn_right n1 = Some b" "ppt_ok (mid_of lo hi) hi b"
      using n1(1) by (auto simp: inner_ok_def)
    have u: "unique a" "unique b"
      using unique_add [OF less.prems(2), of a b "{#}"] n1(3) by auto
    note small = halves_smaller [OF lt]
    show ?thesis
    proof (cases "0 < Size a")
      case True
      then have ne: "elems a \<noteq> {#}" using ppt_ok_size [OF a(2)] by auto
      obtain v a' where ih: "popMinRec a = Some (Inr (v, a'))" "v = Min (set_mset (elems a))"
        "popped lo (mid_of lo hi - 1) a v a'"
        using less.hyps [OF small(1) a(2) u(1) ne] by blast
      have "v = Min (set_mset (elems n))"
        using Min_left [OF n1(1) _ ne] n1(2,3) ih(2) by simp
      then show ?thesis
        using False d a b True ih(1) popped_left [OF n1(1) ih(3)] n1(2)
        by (auto simp: popMinRec.simps [of n] popped_def)
    next
      case nonpos: False
      then have eb: "elems b = elems n" using ppt_ok_size [OF a(2)] n1(3) by simp
      obtain v b' where ih: "popMinRec b = Some (Inr (v, b'))" "v = Min (set_mset (elems b))"
        "popped (mid_of lo hi) hi b v b'"
        using less.hyps [OF small(2) b(2) u(2)] less.prems(3) eb by auto
      show ?thesis
        using False d a b nonpos ih(1,2) popped_right [OF n1(1) ih(3)] n1(2) eb
        by (auto simp: popMinRec.simps [of n] popped_def)
    qed
  qed
qed

section \<open>PopNearMax\<close>

lemma popFirst_ok:
  assumes "ppt_ok lo hi n" and "tn_isleaf (tn_hdr n)" and "elems n \<noteq> {#}"
  shows "\<exists>v n'. popFirst n = Inr (v, n') \<and> popped lo hi n v n'"
proof -
  obtain h where n: "n = TreeNode h None None"
    using assms(1,2) by (cases n) (auto split: option.splits)
  obtain v vs where es: "tn_elements h = v # vs"
    using assms(3) by (cases "tn_elements h") (auto simp: n)
  show ?thesis
    using assms(1) by (auto simp: popFirst_def n es Let_def popped_def)
qed

lemma popNearMax_right:
  assumes "inner_ok lo hi n a b" and "popped (mid_of lo hi) hi b v b'"
  shows "popped lo hi n v (afterPop n (Some a) (Some b'))"
  using popped_right [OF assms] assms(1) by (simp add: inner_ok_def)

lemma PopNearMax_popped:
  "ppt_ok lo hi n \<Longrightarrow> elems n \<noteq> {#} \<Longrightarrow> \<exists>v n'. PopNearMax n = Inr (v, n') \<and> popped lo hi n v n'"
proof (induction "nodes n" arbitrary: lo hi n rule: less_induct)
  case less
  show ?case
  proof (cases "tn_isleaf (tn_hdr n)")
    case True
    then show ?thesis
      using popFirst_ok [OF less.prems(1) True less.prems(2)] by (simp add: PopNearMax.simps [of n])
  next
    case False
    obtain a b where n: "inner_ok lo hi n a b" using inner_okI [OF less.prems(1) False] .
    then have lr: "tn_left n = Some a" "tn_right n = Some b" "ppt_ok (mid_of lo hi) hi b"
      by (auto simp: inner_ok_def)
    show ?thesis
    proof (cases "0 < Size b")
      case True
      then have "elems b \<noteq> {#}" using ppt_ok_size [OF lr(3)] by auto
      from less.hyps [OF nodes_right [OF lr(2)] lr(3) this]
      obtain v b' where "PopNearMax b = Inr (v, b')" "popped (mid_of lo hi) hi b v b'" by blast
      then show ?thesis
        using False True lr popNearMax_right [OF n] by (simp add: PopNearMax.simps [of n])
    next
      case empty: False
      obtain n1 a1 b1 where d: "distributeElementsToLeaves n = Inr n1"
        and n1: "inner_ok lo hi n1 a1 b1" "elems n1 = elems n" "elems a1 + elems b1 = elems n"
        using distribute_ok [OF n] by auto
      then have lr1: "tn_left n1 = Some a1" "tn_right n1 = Some b1"
        "ppt_ok lo (mid_of lo hi - 1) a1" "ppt_ok (mid_of lo hi) hi b1"
        by (auto simp: inner_ok_def)
      have same: "popped lo hi n1 v n' = popped lo hi n v n'" for v n'
        by (simp add: popped_def n1(2))
      show ?thesis
      proof (cases "0 < Size b1")
        case True
        then have "elems b1 \<noteq> {#}" using ppt_ok_size [OF lr1(4)] by auto
        from less.hyps [OF distribute_nodes_right [OF d lr1(2)] lr1(4) this]
        obtain v b' where "PopNearMax b1 = Inr (v, b')" "popped (mid_of lo hi) hi b1 v b'" by blast
        then show ?thesis
          using False True empty lr d lr1 popped_right [OF n1(1)]
          by (simp add: PopNearMax.simps [of n] same)
      next
        case nob: False
        then have "elems a1 \<noteq> {#}"
          using ppt_ok_size [OF lr1(4)] n1(3) less.prems(2) by auto
        from less.hyps [OF distribute_nodes_left [OF d lr1(1)] lr1(3) this]
        obtain v a' where "PopNearMax a1 = Inr (v, a')" "popped lo (mid_of lo hi - 1) a1 v a'" by blast
        then show ?thesis
          using False nob empty lr d lr1 popped_left [OF n1(1)]
          by (simp add: PopNearMax.simps [of n] same)
      qed
    qed
  qed
qed

section \<open>Contract\<close>

text \<open>
  What the trigger queues rely on: a priority queue of pairwise different keys, given by the set of
  keys it holds. \<open>pop_min\<close> returns the smallest key, \<open>pop_any\<close> some key, and neither fails on a
  queue that is not empty.
\<close>

locale unique_priority_queue =
  fixes init :: "'q"
    and ins :: "'a::linorder \<Rightarrow> 'q \<Rightarrow> 'q"
    and pop_min :: "'q \<Rightarrow> ('a \<times> 'q) res"
    and pop_any :: "'q \<Rightarrow> ('a \<times> 'q) res"
    and sz :: "'q \<Rightarrow> int"
    and invar :: "'q \<Rightarrow> bool"
    and keys :: "'q \<Rightarrow> 'a set"
  assumes init_ok: "invar init" "keys init = {}"
    and finite_keys: "finite (keys q)"
    and sz_keys: "invar q \<Longrightarrow> sz q = int (card (keys q))"
    and ins_ok: "invar q \<Longrightarrow> x \<notin> keys q \<Longrightarrow> invar (ins x q) \<and> keys (ins x q) = insert x (keys q)"
    and pop_min_ok: "invar q \<Longrightarrow> keys q \<noteq> {} \<Longrightarrow>
      \<exists>q'. pop_min q = Inr (Min (keys q), q') \<and> invar q' \<and> keys q' = keys q - {Min (keys q)}"
    and pop_any_ok: "invar q \<Longrightarrow> keys q \<noteq> {} \<Longrightarrow>
      \<exists>v q'. pop_any q = Inr (v, q') \<and> v \<in> keys q \<and> invar q' \<and> keys q' = keys q - {v}"
begin

lemma sz_pos: "invar q \<Longrightarrow> 0 < sz q \<longleftrightarrow> keys q \<noteq> {}"
  using finite_keys [of q] by (auto simp: sz_keys card_gt_0_iff)

lemma pop_min_yields:
  "invar q \<Longrightarrow> keys q \<noteq> {} \<Longrightarrow>
   yields (pop_min q) (\<lambda>(v, q'). v = Min (keys q) \<and> v \<in> keys q \<and> invar q' \<and> keys q' = keys q - {v})"
proof -
  assume q: "invar q" "keys q \<noteq> {}"
  from pop_min_ok [OF this] Min_in [OF finite_keys q(2)] show ?thesis by (force simp: yields_def)
qed

lemma pop_any_yields:
  "invar q \<Longrightarrow> keys q \<noteq> {} \<Longrightarrow>
   yields (pop_any q) (\<lambda>(v, q'). v \<in> keys q \<and> invar q' \<and> keys q' = keys q - {v})"
proof -
  assume "invar q" "keys q \<noteq> {}"
  from pop_any_ok [OF this] show ?thesis by (force simp: yields_def)
qed

text \<open>Popping the minimum until the queue is empty returns its keys in ascending order.\<close>

fun drain :: "nat \<Rightarrow> 'q \<Rightarrow> ('a list \<times> 'q) res" where
  "drain 0 q = Inr ([], q)"
| "drain (Suc k) q =
     bind_res (pop_min q) (\<lambda>(v, q1). bind_res (drain k q1) (\<lambda>(vs, q2). Inr (v # vs, q2)))"

lemma drain_sorted:
  "invar q \<Longrightarrow> card (keys q) = k \<Longrightarrow>
   yields (drain k q) (\<lambda>(vs, q'). vs = sorted_list_of_set (keys q) \<and> keys q' = {})"
proof (induction k arbitrary: q)
  case 0
  then show ?case using finite_keys [of q] by simp
next
  case (Suc k)
  then have ne: "keys q \<noteq> {}" by auto
  obtain q1 where q1: "pop_min q = Inr (Min (keys q), q1)" "invar q1" "keys q1 = keys q - {Min (keys q)}"
    using pop_min_ok [OF Suc.prems(1) ne] by blast
  have "card (keys q1) = k"
    using Suc.prems(2) q1(3) finite_keys [of q] ne by simp
  from Suc.IH [OF q1(2) this] show ?case
    using q1 ne finite_keys [of q] sorted_list_of_set_nonempty [of "keys q"]
    by (auto elim!: yieldsE simp: yields_def)
qed

end

text \<open>The tree over the whole key range implements the contract.\<close>

definition ppt_inv :: "TreeNode \<Rightarrow> bool" where
  "ppt_inv n \<longleftrightarrow> ppt_ok 0 (- 1) n \<and> unique n"

definition ppt_keys :: "TreeNode \<Rightarrow> u64 set" where
  "ppt_keys n = set_mset (elems n)"

lemma popped_keys:
  assumes "ppt_inv n" and "popped 0 (- 1) n v n'"
  shows "v \<in> ppt_keys n" and "ppt_inv n'" and "ppt_keys n' = ppt_keys n - {v}"
proof -
  have el: "add_mset v (elems n') = elems n" using assms(2) by (simp add: popped_def)
  then show "v \<in> ppt_keys n" unfolding ppt_keys_def by (metis union_single_eq_member)
  have c: "count (elems n) x \<le> 1" for x using assms(1) by (simp add: ppt_inv_def unique_def)
  then have c': "count (elems n') x \<le> 1" for x
    by (metis count_add_mset el le_Suc_eq le_eq_less_or_eq less_SucI not_less_eq_eq)
  then show "ppt_inv n'" using assms(2) by (auto simp: ppt_inv_def popped_def unique_def)
  have "v \<notin># elems n'"
    using c [of v] by (auto simp: el [symmetric] not_in_iff)
  then show "ppt_keys n' = ppt_keys n - {v}"
    unfolding ppt_keys_def el [symmetric] by auto
qed

lemma ppt_inv_elems:
  assumes "ppt_inv n" and "ppt_keys n \<noteq> {}"
  shows "ppt_ok 0 (- 1) n" "unique n" "elems n \<noteq> {#}"
  using assms by (auto simp: ppt_inv_def ppt_keys_def)

interpretation ppt: unique_priority_queue
  InitPartialPriorityTree Insert PopMin PopNearMax Size ppt_inv ppt_keys
proof (unfold_locales, goal_cases)
  case 1
  show ?case
    by (simp add: ppt_inv_def InitPartialPriorityTree_def ppt_ok_init unique_def)
next
  case 2
  show ?case by (simp add: ppt_keys_def InitPartialPriorityTree_def)
next
  case (3 q)
  show ?case by (simp add: ppt_keys_def)
next
  case (4 q)
  then show ?case by (auto simp: ppt_inv_def ppt_keys_def unique_card dest: ppt_ok_size)
next
  case (5 q x)
  then have "count (elems q) x = 0" by (simp add: ppt_keys_def not_in_iff)
  with 5 show ?case
    by (auto simp: ppt_inv_def ppt_keys_def unique_def intro: ppt_ok_Insert)
next
  case (6 q)
  note ok = ppt_inv_elems [OF 6]
  show ?case
    using popMinRec_ok [OF ok] popped_keys [OF 6(1)]
    by (auto simp: PopMin_def ppt_keys_def)
next
  case (7 q)
  show ?case
    using PopNearMax_popped [OF ppt_inv_elems(1,3) [OF 7]] popped_keys [OF 7(1)] by blast
qed


section \<open>Behaviour on leaves and in the upper half\<close>

lemma leaf_split:
  assumes "ppt_ok lo hi n" and "tn_isleaf (tn_hdr n)"
  obtains h where "n = TreeNode h None None" and "elems n = mset (tn_elements h)"
  using assms by (cases n) (auto split: option.splits)

lemma PopMin_leaf_sorted:
  assumes "ppt_ok lo hi n" and "tn_isleaf (tn_hdr n)" and "Size n < 10" and "elems n \<noteq> {#}"
  shows "\<exists>v n'. PopMin n = Inr (v, n') \<and> tn_isleaf (tn_hdr n') \<and> sorted (tn_elements (tn_hdr n')) \<and>
     popped lo hi n v n'"
proof -
  obtain v n' where r: "popMinLeaf n = Inr (v, n')" "popped lo hi n v n'"
    using popMinLeaf_ok [OF assms(1,2,4)] by blast
  have "PopMin n = Inr (v, n')" using assms(2,3) r(1) by (simp add: PopMin_def popMinRec.simps)
  moreover have "tn_isleaf (tn_hdr n') \<and> sorted (tn_elements (tn_hdr n'))"
  proof -
    obtain h where n: "n = TreeNode h None None" using leaf_split [OF assms(1,2)] by metis
    define es where "es = (if tn_sorted h then tn_elements h else sort (tn_elements h))"
    have "sorted es" using assms(1,2) n by (simp add: es_def)
    then show ?thesis
      using r(1) assms(2) n by (auto simp: popMinLeaf_def Let_def es_def [symmetric] split: list.splits)
  qed
  ultimately show ?thesis using r(2) by blast
qed

lemma PopNearMax_leaf_sorted:
  assumes "ppt_ok lo hi n" and "tn_isleaf (tn_hdr n)" and "sorted (tn_elements (tn_hdr n))" and "elems n \<noteq> {#}"
  shows "\<exists>n'. PopNearMax n = Inr (Min (set_mset (elems n)), n')"
proof -
  obtain h where n: "n = TreeNode h None None" "elems n = mset (tn_elements h)"
    using leaf_split [OF assms(1,2)] by metis
  then obtain v vs where es: "tn_elements h = v # vs" using assms(4) by (cases "tn_elements h") auto
  have "Min (set (v # vs)) = v"
    using assms(3) n(1) es by (intro Min_eqI) auto
  then show ?thesis using n es assms(2) by (simp add: PopNearMax.simps [of "TreeNode h None None"] popFirst_def Let_def)
qed

lemma PopNearMax_upper:
  assumes n: "ppt_ok lo hi n" "\<not> tn_isleaf (tn_hdr n)" and e: "e \<in># elems n" "mid_of lo hi \<le> e"
    and p: "PopNearMax n = Inr (v, n')"
  shows "mid_of lo hi \<le> v"
proof -
  obtain a b where i: "inner_ok lo hi n a b" using inner_okI [OF n] .
  have ok: "mid_of lo hi \<le> v" if b: "ppt_ok (mid_of lo hi) hi c" "0 < Size c" and pc: "PopNearMax c = Inr (v, c')" for c c'
  proof -
    have "elems c \<noteq> {#}" using b ppt_ok_size [OF b(1)] by auto
    from PopNearMax_popped [OF b(1) this] pc have "popped (mid_of lo hi) hi c v c'" by auto
    then have "v \<in># elems c" unfolding popped_def by (metis union_single_eq_member)
    then show ?thesis using ppt_ok_range [OF b(1)] by simp
  qed
  have b: "ppt_ok (mid_of lo hi) hi b" "tn_right n = Some b" using i by (auto simp: inner_ok_def)
  show ?thesis
  proof (cases "0 < Size b")
    case True
    then show ?thesis using p n(2) b ok [OF b(1) True] by (auto simp: PopNearMax.simps [of n])
  next
    case False
    obtain n1 a1 b1 where d: "distributeElementsToLeaves n = Inr n1" "inner_ok lo hi n1 a1 b1"
      "elems a1 + elems b1 = elems n" using distribute_ok [OF i] by blast
    have b1: "ppt_ok (mid_of lo hi) hi b1" "tn_right n1 = Some b1" "ppt_ok lo (mid_of lo hi - 1) a1"
      using d(2) by (auto simp: inner_ok_def)
    have lt: "lo < hi" using i by (simp add: inner_ok_def)
    have "e \<notin># elems a1" using ppt_ok_range [OF b1(3)] e(2) less_mid_iff [OF lt] by (metis leD)
    then have "e \<in># elems b1" using e(1) d(3) by (metis union_iff)
    then have "elems b1 \<noteq> {#}" by auto
    then have "0 < Size b1" using ppt_ok_size [OF b1(1)] by (simp add: nonempty_has_size)
    from ok [OF b1(1) this] show ?thesis
      using p n(2) b False d(1) b1(2) \<open>0 < Size b1\<close> by (auto simp: PopNearMax.simps [of n])
  qed
qed

section \<open>Equal keys\<close>

text \<open>
  A leaf that holds ten or more copies of one key: splitting it moves all of them into one child that
  is again such a leaf.
\<close>

definition stuck :: "TreeNode \<Rightarrow> bool" where
  "stuck n \<longleftrightarrow> (\<exists>k m s lo hi. 10 \<le> m \<and> lo \<le> k \<and> k \<le> hi \<and>
     n = TreeNode \<lparr>tn_expand = 20, tn_collapse = 6, tn_low = lo, tn_mid = lo + (hi - lo) div 2 + 1,
       tn_high = hi, tn_elements = replicate m k, tn_sorted = s, tn_isleaf = True, tn_size = int m\<rparr> None None)"

lemma fold_Insert_same:
  "(Insert k ^^ m) (TreeNode h l r) =
     TreeNode (h\<lparr>tn_elements := tn_elements h @ replicate m k, tn_sorted := (m = 0 \<and> tn_sorted h),
       tn_size := tn_size h + int m\<rparr>) l r"
  by (induction m) (simp_all add: Insert_def Let_def replicate_append_same)

lemma distribute_same:
  "distribute_loop mid (replicate m k) (Some l) (Some r) =
     Inr (if k < mid then (Some ((Insert k ^^ m) l), Some r)
          else (Some l, Some ((Insert k ^^ m) r)))"
  by (induction m arbitrary: l r) (auto simp: funpow_swap1)

lemma stuck_init: "10 \<le> m \<Longrightarrow> lo \<le> k \<Longrightarrow> k \<le> hi \<Longrightarrow> stuck ((Insert k ^^ m) (initTreeNode lo hi))"
  unfolding stuck_def
  by (intro exI [of _ k] exI [of _ m] exI [of _ "m = 0"] exI [of _ lo] exI [of _ hi])
     (simp add: initTreeNode_def fold_Insert_same)

lemma word_le_minus_one: "(k::u64) < x \<Longrightarrow> k \<le> x - 1"
proof -
  assume "k < x"
  then have "x \<noteq> 0" "unat k < unat x" by (auto simp: word_less_nat_alt)
  then show ?thesis by (simp add: word_le_nat_alt unat_minus_one)
qed

lemma popMinRec_stuck:
  assumes "popMinRec n = Some y" shows "\<not> stuck n"
proof (rule popMinRec.raw_induct [OF _ assms], goal_cases)
  case (1 rec n y)
  show ?case
  proof
    assume "stuck n"
    then obtain k m s lo hi where m: "10 \<le> m" and k: "lo \<le> k" "k \<le> hi" and
      n: "n = TreeNode \<lparr>tn_expand = 20, tn_collapse = 6, tn_low = lo, tn_mid = lo + (hi - lo) div 2 + 1,
       tn_high = hi, tn_elements = replicate m k, tn_sorted = s, tn_isleaf = True, tn_size = int m\<rparr> None None"
      unfolding stuck_def by blast
    let ?mid = "lo + (hi - lo) div 2 + 1"
    have le: "k \<le> ?mid - 1" if "k < ?mid" using that by (rule word_le_minus_one)
    have none: "rec ((Insert k ^^ m) (initTreeNode a b)) = None" if "a \<le> k" "k \<le> b" for a b
    proof (rule ccontr)
      assume "rec ((Insert k ^^ m) (initTreeNode a b)) \<noteq> None"
      then obtain z where "rec ((Insert k ^^ m) (initTreeNode a b)) = Some z" by auto
      from 1(1) [OF this] stuck_init [OF m that] show False by contradiction
    qed
    have sz: "Size ((Insert k ^^ m) (initTreeNode a b)) = int m" "Size (initTreeNode a b) = 0" for a b
      by (simp_all add: initTreeNode_def fold_Insert_same Size_def)
    have sn: "Size n = int m" by (simp add: n Size_def)
    obtain h where d: "distributeElementsToLeaves (expandNode n) = Inr (if k < ?mid
        then TreeNode h (Some ((Insert k ^^ m) (initTreeNode lo (?mid - 1)))) (Some (initTreeNode ?mid hi))
        else TreeNode h (Some (initTreeNode lo (?mid - 1))) (Some ((Insert k ^^ m) (initTreeNode ?mid hi))))"
      by (simp add: n expandNode_def distributeElementsToLeaves_def distribute_same Let_def)
    show False
    proof (cases "k < ?mid")
      case True
      then show ?thesis using 1(2) m sz sn d none [OF k(1) le [OF True]] by simp
    next
      case False
      then show ?thesis using 1(2) m sz sn d none [of ?mid hi] k by simp
    qed
  qed
qed

section \<open>Properties\<close>

text \<open>
  C21. On a tree that holds distinct keys, \<^verbatim>\<open>PopMin\<close> returns (its recursion ends), its result is the
  smallest key, and it removes that key and nothing else.
\<close>

theorem PopMin_correct:
  assumes "ppt_inv n" and "ppt_keys n \<noteq> {}"
  shows "\<exists>n'. PopMin n = Inr (Min (ppt_keys n), n') \<and> ppt_inv n' \<and>
     ppt_keys n' = ppt_keys n - {Min (ppt_keys n)} \<and> Size n' = Size n - 1"
proof -
  obtain n' where p: "PopMin n = Inr (Min (ppt_keys n), n')" "ppt_inv n'"
    "ppt_keys n' = ppt_keys n - {Min (ppt_keys n)}" using ppt.pop_min_ok [OF assms] by blast
  have "0 < card (ppt_keys n)" using assms(2) ppt.finite_keys by (simp add: card_gt_0_iff)
  then have "Size n' = Size n - 1"
    using ppt.sz_keys [OF assms(1)] ppt.sz_keys [OF p(2)] p(3) Min_in [OF ppt.finite_keys assms(2)]
    by (simp add: card_Diff_singleton)
  then show ?thesis using p by blast
qed

lemma ppt_inv_inserts:
  "distinct xs \<Longrightarrow> set xs \<inter> ppt_keys n = {} \<Longrightarrow> ppt_inv n \<Longrightarrow>
   ppt_inv (fold Insert xs n) \<and> ppt_keys (fold Insert xs n) = set xs \<union> ppt_keys n"
proof (induction xs arbitrary: n)
  case (Cons x xs)
  then have "ppt_inv (Insert x n)" "ppt_keys (Insert x n) = insert x (ppt_keys n)"
    using ppt.ins_ok [of n x] by auto
  then show ?case using Cons by auto
qed simp

lemmas ppt_inserted = ppt_inv_inserts [OF _ _ ppt.init_ok(1), unfolded ppt.init_ok(2), simplified]

theorem PopMin_correct_witness:
  "\<exists>n'. PopMin (fold Insert [30, 10, 20] InitPartialPriorityTree) = Inr (10, n') \<and> ppt_keys n' = {20, 30}"
proof -
  have i: "ppt_inv (fold Insert [30, 10, 20] InitPartialPriorityTree)"
    "ppt_keys (fold Insert [30, 10, 20] InitPartialPriorityTree) = {30, 10, 20}"
    using ppt_inserted [of "[30, 10, 20]"] by auto
  have m: "Min {30, 10, 20 :: u64} = 10" by (simp add: min_def)
  from PopMin_correct [of "fold Insert [30, 10, 20] InitPartialPriorityTree"] show ?thesis
    unfolding i m using i(1) by (auto simp: insert_Diff_if)
qed

text \<open>
  C22. Inserting any distinct keys and popping the minimum as often gives the keys in ascending order:
  the lazily split tree is a priority queue.
\<close>

theorem insert_drain_sorts:
  assumes "distinct xs"
  shows "yields (ppt.drain (length xs) (fold Insert xs InitPartialPriorityTree))
     (\<lambda>(vs, n'). vs = sort xs \<and> ppt_keys n' = {})"
proof -
  note i = ppt_inserted [OF assms]
  have "card (ppt_keys (fold Insert xs InitPartialPriorityTree)) = length xs"
    using i assms by (simp add: distinct_card)
  from ppt.drain_sorted [OF _ this] i assms show ?thesis
    by (simp add: sorted_list_of_set_sort_remdups distinct_remdups_id)
qed

theorem insert_drain_sorts_witness:
  "yields (ppt.drain 3 (fold Insert [7, 3, 5] InitPartialPriorityTree)) (\<lambda>(vs, n'). vs = [3, 5, 7] \<and> ppt_keys n' = {})"
  using insert_drain_sorts [of "[7, 3, 5]"] by (simp add: numeral_3_eq_3)

text \<open>
  \<^verbatim>\<open>PopNearMax\<close> on a non-empty tree, with equal keys or without, returns one of its keys, removes
  exactly that copy and leaves a well-formed tree.
\<close>

theorem PopNearMax_correct:
  assumes "ppt_ok lo hi n" and "elems n \<noteq> {#}"
  shows "\<exists>v n'. PopNearMax n = Inr (v, n') \<and> v \<in># elems n \<and> elems n = add_mset v (elems n') \<and> ppt_ok lo hi n'"
proof -
  obtain v n' where p: "PopNearMax n = Inr (v, n')" "popped lo hi n v n'"
    using PopNearMax_popped [OF assms] by blast
  then have "elems n = add_mset v (elems n')" by (simp add: popped_def)
  then show ?thesis using p by (auto simp: popped_def)
qed

theorem PopNearMax_correct_witness:
  "\<exists>v n'. PopNearMax (Insert 5 (Insert 5 InitPartialPriorityTree)) = Inr (v, n') \<and> elems n' = {#5#}"
proof -
  have "ppt_ok 0 (- 1) (Insert 5 (Insert 5 InitPartialPriorityTree))"
    by (intro ppt_ok_Insert) (simp_all add: InitPartialPriorityTree_def ppt_ok_init)
  from PopNearMax_correct [OF this] show ?thesis by (auto simp: InitPartialPriorityTree_def add_eq_conv_ex)
qed

text \<open>
  Once the root is split, \<^verbatim>\<open>PopNearMax\<close> evicts from the upper half of the key range whenever it
  holds a key.
\<close>

theorem PopNearMax_upper_half:
  assumes "ppt_ok lo hi n" and "\<not> tn_isleaf (tn_hdr n)" and "e \<in># elems n" and "tn_mid (tn_hdr n) \<le> e"
  shows "\<exists>v n'. PopNearMax n = Inr (v, n') \<and> v \<in># elems n \<and> tn_mid (tn_hdr n) \<le> v"
proof -
  have mid: "tn_mid (tn_hdr n) = mid_of lo hi" using assms(1) by (cases n) simp
  have "elems n \<noteq> {#}" using assms(3) by auto
  then obtain v n' where p: "PopNearMax n = Inr (v, n')" "popped lo hi n v n'"
    using PopNearMax_popped [OF assms(1)] by blast
  then have "v \<in># elems n" unfolding popped_def by (metis union_single_eq_member)
  then show ?thesis using p(1) PopNearMax_upper [OF assms(1,2,3) assms(4) [unfolded mid] p(1)] mid by auto
qed

definition split_tree :: TreeNode where
  "split_tree = TreeNode \<lparr>tn_expand = 20, tn_collapse = 6, tn_low = 0, tn_mid = 2 ^ 63, tn_high = - 1,
     tn_elements = [1, 2 ^ 63 + 5, 3], tn_sorted = False, tn_isleaf = False, tn_size = 3\<rparr>
     (Some (initTreeNode 0 (2 ^ 63 - 1))) (Some (initTreeNode (2 ^ 63) (- 1)))"

lemma zero_less_max [simp]: "(0 :: u64) < - 1"
  by (simp add: word_gt_0)

lemma split_tree_ok: "ppt_ok 0 (- 1) split_tree"
  by (simp add: split_tree_def initTreeNode_def mid_of_def Size_def)

theorem PopNearMax_upper_half_witness:
  "\<exists>v n'. PopNearMax split_tree = Inr (v, n') \<and> 2 ^ 63 \<le> v"
  using PopNearMax_upper_half [OF split_tree_ok, of "2 ^ 63 + 5"] by (auto simp: split_tree_def initTreeNode_def)

text \<open>
  After a \<^verbatim>\<open>PopMin\<close> on a small tree the next \<^verbatim>\<open>PopNearMax\<close> returns the smallest key that is left,
  where the comment at the head of the file promises a large one: the leaf is sorted, and
  \<^verbatim>\<open>PopNearMax\<close> takes its first element.
\<close>

theorem PopNearMax_takes_minimum:
  assumes "ppt_ok lo hi n" and "tn_isleaf (tn_hdr n)" and "Size n < 10" and "2 \<le> Size n"
  shows "\<exists>v n1 n2. PopMin n = Inr (v, n1) \<and> PopNearMax n1 = Inr (Min (set_mset (elems n1)), n2)"
proof -
  have ne: "elems n \<noteq> {#}" using assms(4) ppt_ok_size [OF assms(1)] by auto
  obtain v n1 where p: "PopMin n = Inr (v, n1)" "tn_isleaf (tn_hdr n1)" "sorted (tn_elements (tn_hdr n1))"
    "popped lo hi n v n1" using PopMin_leaf_sorted [OF assms(1-3) ne] by blast
  have ok: "ppt_ok lo hi n1" and el: "elems n = add_mset v (elems n1)" using p(4) by (simp_all add: popped_def)
  have "2 \<le> size (elems n)" using assms(4) ppt_ok_size [OF assms(1)] by simp
  then have "elems n1 \<noteq> {#}" using el by auto
  from PopNearMax_leaf_sorted [OF ok p(2,3) this] p(1) show ?thesis by blast
qed

theorem PopNearMax_takes_minimum_witness:
  "\<exists>v n1 n2. PopMin (Insert 900 (Insert 10 (Insert 20 InitPartialPriorityTree))) = Inr (v, n1) \<and>
     PopNearMax n1 = Inr (Min (set_mset (elems n1)), n2)"
proof (rule PopNearMax_takes_minimum [of 0 "- 1"])
  show "ppt_ok 0 (- 1) (Insert 900 (Insert 10 (Insert 20 InitPartialPriorityTree)))"
    by (intro ppt_ok_Insert) (simp_all add: InitPartialPriorityTree_def ppt_ok_init)
qed (simp_all add: InitPartialPriorityTree_def initTreeNode_def Insert_def Size_def Let_def)

text \<open>
  \<^verbatim>\<open>PopMin\<close> relies on the keys being distinct: on ten or more equal keys, and nothing else, its
  recursion never ends.
\<close>

theorem PopMin_equal_keys_diverges:
  assumes "10 \<le> m"
  shows "PopMin (fold Insert (replicate m k) InitPartialPriorityTree) = Inl StackOverflow"
proof -
  have "stuck (fold Insert (replicate m k) InitPartialPriorityTree)"
    using stuck_init [OF assms, of 0 k "- 1"] by (simp add: InitPartialPriorityTree_def)
  then have "popMinRec (fold Insert (replicate m k) InitPartialPriorityTree) = None"
    using popMinRec_stuck by (cases "popMinRec (fold Insert (replicate m k) InitPartialPriorityTree)") auto
  then show ?thesis by (simp add: PopMin_def)
qed

theorem PopMin_equal_keys_diverges_witness:
  "PopMin (fold Insert (replicate 10 42) InitPartialPriorityTree) = Inl StackOverflow"
  using PopMin_equal_keys_diverges [of 10 42] by simp

text \<open>
  The midpoint \<^verbatim>\<open>low + (high-low)/2 + 1\<close> of a node with more than one key in its range does not
  overflow: it lies in the range above its lower bound, so both halves are non-empty and smaller.
\<close>

theorem initTreeNode_midpoint:
  assumes "low < high"
  shows "low < tn_mid (tn_hdr (initTreeNode low high)) \<and> tn_mid (tn_hdr (initTreeNode low high)) \<le> high"
  using mid_of_bounds(1,2) [OF assms] by (simp add: initTreeNode_def mid_of_def)

theorem initTreeNode_midpoint_witness:
  "0 < tn_mid (tn_hdr (initTreeNode 0 (- 1))) \<and> tn_mid (tn_hdr (initTreeNode 0 (- 1))) \<le> - 1"
  using initTreeNode_midpoint [OF zero_less_max] by simp

end
