(* ===== verification/DataManager.thy ===== *)
theory DataManager
  imports PriorityTree
begin

text \<open>
  The agent's store of trace data and fired triggers: \<^verbatim>\<open>trace.go\<close>, \<^verbatim>\<open>firedtrigger.go\<close>,
  \<^verbatim>\<open>triggerqueue.go\<close> and \<^verbatim>\<open>datamanager.go\<close> of \<^verbatim>\<open>agent/pkg/agent\<close>. These four files are one
  component: every operation updates a trace, the triggers that include it, their queues and the
  counters of the data manager together.

  References. A \<^verbatim>\<open>*Trace\<close> is the key under which \<^verbatim>\<open>dm.traces\<close> holds it, a \<^verbatim>\<open>*FiredTrigger\<close> is its
  \<^verbatim>\<open>TriggerID\<close>, a \<^verbatim>\<open>*TriggerQueue\<close> its queue id. Following a reference whose object is no longer
  registered is the error \<open>DanglingPointer\<close>, so a pointer that outlives its object is visible in
  the model; the invariant of the next theory shows that no operation ever meets one. A Go map whose
  values are such pointers, keyed by the id of what they point to, is the list of its keys.

  The parameter \<open>ro\<close> holds the orders in which \<^verbatim>\<open>range\<close> visits the maps of an operation.
\<close>

section \<open>Data\<close>

text \<open>
  \<^verbatim>\<open>tracestate\<close> with its three implementations. The field \<^verbatim>\<open>dm_lru_element\<close> of an untriggered trace is
  the place of its key in the list \<open>lru\<close>.
\<close>

datatype tracestate =
    UntriggeredTrace (ut_buffers: "int list") (ut_breadcrumbs: "string list") (ut_last_modified: time)
  | TriggeredTrace (tt_triggers: "TriggerID list")
  | ReportingTrace (rt_buffers: "int list") (rt_triggers: "TriggerID list")

text \<open>\<^verbatim>\<open>firedtriggerstate\<close>; \<^verbatim>\<open>tq_lru_element\<close> is the place of the trigger in the queue's \<open>tq_idle\<close>.\<close>

datatype firedtriggerstate =
    IdleTrigger (it_last_modified: time)
  | ReportingTrigger

record FiredTrigger =
  ft_id :: TriggerID
  ft_traces :: "u64 list"
  ft_buffer_count :: int
  ft_state :: firedtriggerstate

record TriggerMetrics =
  m_count :: int
  m_local :: int
  m_remote :: int
  m_dropped :: int
  m_evicted :: int
  m_buffers :: int
  m_reported_buffers :: int
  m_evicted_buffers :: int

record TriggerQueue =
  tq_id :: int
  tq_trace_count :: int
  tq_buffer_count :: int
  tq_fired :: "(u64 \<times> FiredTrigger) list"
  tq_reporting :: TreeNode
  tq_idle :: "u64 list"
  tq_metrics :: TriggerMetrics

record UntriggeredData =
  lru :: "u64 list"
  ut_trace_count :: int
  ut_buffer_count :: int
  event_horizion :: time

record TriggeredData =
  td_trace_count :: int
  td_buffer_count :: int
  queues :: "(int \<times> TriggerQueue) list"

record DataManager =
  now :: time
  traces :: "(u64 \<times> tracestate) list"
  untriggered :: UntriggeredData
  triggered :: TriggeredData
  trace_count :: int
  buffer_count :: int

record range_orders =
  ro_trigger :: "TriggerID list \<Rightarrow> TriggerID list"
  ro_trace :: "u64 list \<Rightarrow> u64 list"
  ro_queue :: "int list \<Rightarrow> int list"

definition orders_ok :: "range_orders \<Rightarrow> bool" where
  "orders_ok ro \<longleftrightarrow> key_order (ro_trigger ro) \<and> key_order (ro_trace ro) \<and> key_order (ro_queue ro)"

section \<open>Reading and writing the store\<close>

definition trace_of :: "DataManager \<Rightarrow> u64 \<rightharpoonup> tracestate" where
  "trace_of dm = map_of (traces dm)"

definition queue_of :: "DataManager \<Rightarrow> int \<rightharpoonup> TriggerQueue" where
  "queue_of dm = map_of (queues (triggered dm))"

definition fired_of :: "DataManager \<Rightarrow> TriggerID \<rightharpoonup> FiredTrigger" where
  "fired_of dm t =
     (case queue_of dm (queue_id t) of
        None \<Rightarrow> None
      | Some q \<Rightarrow> map_of (tq_fired q) (base_trace_id t))"

definition put_trace :: "u64 \<Rightarrow> tracestate \<Rightarrow> DataManager \<Rightarrow> DataManager" where
  "put_trace i s dm = dm\<lparr>traces := AList.update i s (traces dm)\<rparr>"

definition del_trace :: "u64 \<Rightarrow> DataManager \<Rightarrow> DataManager" where
  "del_trace i dm = dm\<lparr>traces := AList.delete i (traces dm)\<rparr>"

definition put_queue :: "int \<Rightarrow> TriggerQueue \<Rightarrow> DataManager \<Rightarrow> DataManager" where
  "put_queue k q dm =
     dm\<lparr>triggered := (triggered dm)\<lparr>queues := AList.update k q (queues (triggered dm))\<rparr>\<rparr>"

definition put_fired :: "u64 \<Rightarrow> FiredTrigger \<Rightarrow> TriggerQueue \<Rightarrow> TriggerQueue" where
  "put_fired b f q = q\<lparr>tq_fired := AList.update b f (tq_fired q)\<rparr>"

text \<open>Following a reference.\<close>

definition deref_trace :: "DataManager \<Rightarrow> u64 \<Rightarrow> tracestate res" where
  "deref_trace dm i = (case trace_of dm i of None \<Rightarrow> Inl DanglingPointer | Some s \<Rightarrow> Inr s)"

definition deref_queue :: "DataManager \<Rightarrow> int \<Rightarrow> TriggerQueue res" where
  "deref_queue dm k = (case queue_of dm k of None \<Rightarrow> Inl DanglingPointer | Some q \<Rightarrow> Inr q)"

definition deref_fired :: "DataManager \<Rightarrow> TriggerID \<Rightarrow> (TriggerQueue \<times> FiredTrigger) res" where
  "deref_fired dm t =
     bind_res (deref_queue dm (queue_id t)) (\<lambda>q.
       case map_of (tq_fired q) (base_trace_id t) of
         None \<Rightarrow> Inl DanglingPointer
       | Some f \<Rightarrow> Inr (q, f))"

text \<open>The counter updates of the two sections of the data manager.\<close>

definition add_untriggered :: "int \<Rightarrow> int \<Rightarrow> DataManager \<Rightarrow> DataManager" where
  "add_untriggered dt db dm =
     dm\<lparr>untriggered := (untriggered dm)\<lparr>ut_trace_count := ut_trace_count (untriggered dm) + dt,
                                       ut_buffer_count := ut_buffer_count (untriggered dm) + db\<rparr>\<rparr>"

definition add_triggered :: "int \<Rightarrow> int \<Rightarrow> DataManager \<Rightarrow> DataManager" where
  "add_triggered dt db dm =
     dm\<lparr>triggered := (triggered dm)\<lparr>td_trace_count := td_trace_count (triggered dm) + dt,
                                   td_buffer_count := td_buffer_count (triggered dm) + db\<rparr>\<rparr>"

definition add_total :: "int \<Rightarrow> int \<Rightarrow> DataManager \<Rightarrow> DataManager" where
  "add_total dt db dm = dm\<lparr>trace_count := trace_count dm + dt, buffer_count := buffer_count dm + db\<rparr>"

definition set_lru :: "(u64 list \<Rightarrow> u64 list) \<Rightarrow> DataManager \<Rightarrow> DataManager" where
  "set_lru g dm = dm\<lparr>untriggered := (untriggered dm)\<lparr>lru := g (lru (untriggered dm))\<rparr>\<rparr>"

section \<open>Fired triggers: counting buffers\<close>

text \<open>
  \<^verbatim>\<open>firedtriggerstate.buffersAdded\<close>: an idle trigger leaves the idle list and enters the reporting
  tree, a reporting one stays as it is.
\<close>

definition idleTrigger_buffersAdded :: "u64 \<Rightarrow> TriggerQueue \<Rightarrow> firedtriggerstate \<times> TriggerQueue" where
  [simp]: "idleTrigger_buffersAdded b q =
     (ReportingTrigger, q\<lparr>tq_idle := lru_remove b (tq_idle q),
                          tq_reporting := Insert b (tq_reporting q)\<rparr>)"

definition reportingTrigger_buffersAdded :: "TriggerQueue \<Rightarrow> firedtriggerstate \<times> TriggerQueue" where
  [simp]: "reportingTrigger_buffersAdded q = (ReportingTrigger, q)"

fun state_buffersAdded ::
  "firedtriggerstate \<Rightarrow> u64 \<Rightarrow> TriggerQueue \<Rightarrow> firedtriggerstate \<times> TriggerQueue" where
  "state_buffersAdded (IdleTrigger _) b q = idleTrigger_buffersAdded b q"
| "state_buffersAdded ReportingTrigger b q = reportingTrigger_buffersAdded q"

definition buffersAdded :: "TriggerID \<Rightarrow> int \<Rightarrow> DataManager \<Rightarrow> DataManager res" where
  "buffersAdded t n dm =
     bind_res (deref_fired dm t) (\<lambda>(q, f).
       let q1 = q\<lparr>tq_buffer_count := tq_buffer_count q + n,
                  tq_metrics := (tq_metrics q)\<lparr>m_buffers := m_buffers (tq_metrics q) + n\<rparr>\<rparr>;
           (st, q2) = state_buffersAdded (ft_state f) (base_trace_id t) q1;
           f1 = f\<lparr>ft_buffer_count := ft_buffer_count f + n, ft_state := st\<rparr>
       in Inr (put_queue (queue_id t) (put_fired (base_trace_id t) f1 q2) dm))"

definition buffersRemoved :: "TriggerID \<Rightarrow> int \<Rightarrow> DataManager \<Rightarrow> DataManager res" where
  "buffersRemoved t n dm =
     bind_res (deref_fired dm t) (\<lambda>(q, f).
       let q1 = q\<lparr>tq_buffer_count := tq_buffer_count q - n\<rparr>;
           f1 = f\<lparr>ft_buffer_count := ft_buffer_count f - n\<rparr>
       in Inr (put_queue (queue_id t) (put_fired (base_trace_id t) f1 q1) dm))"

text \<open>\<^verbatim>\<open>f.queue.trace_count += n\<close>\<close>

definition add_queue_traces :: "int \<Rightarrow> int \<Rightarrow> DataManager \<Rightarrow> DataManager res" where
  "add_queue_traces k n dm =
     bind_res (deref_queue dm k) (\<lambda>q.
       Inr (put_queue k (q\<lparr>tq_trace_count := tq_trace_count q + n\<rparr>) dm))"

section \<open>Traces\<close>

definition initUntriggeredTrace :: "u64 \<Rightarrow> DataManager \<Rightarrow> DataManager" where
  "initUntriggeredTrace i dm =
     add_untriggered 1 0 (add_total 1 0 (set_lru (\<lambda>l. i # l)
       (put_trace i (UntriggeredTrace [] [] (now dm)) dm)))"

definition getOrCreateTrace :: "u64 \<Rightarrow> DataManager \<Rightarrow> DataManager" where
  "getOrCreateTrace i dm =
     (case trace_of dm i of Some _ \<Rightarrow> dm | None \<Rightarrow> initUntriggeredTrace i dm)"

text \<open>
  The three implementations of \<^verbatim>\<open>addBuffers\<close>, and \<^verbatim>\<open>Trace.AddBuffers\<close>, which dispatches on the state of the
  trace. Each works on trace \<open>i\<close> whose state has the given fields.
\<close>

definition untriggeredTrace_addBuffers ::
  "u64 \<Rightarrow> int list \<Rightarrow> string list \<Rightarrow> int list \<Rightarrow> DataManager \<Rightarrow> DataManager" where
  "untriggeredTrace_addBuffers i bs crumbs buffers dm =
     (let n = int (length buffers) in
      put_trace i (UntriggeredTrace (bs @ buffers) crumbs (now dm))
        (add_untriggered 0 n (add_total 0 n (set_lru (lru_move_front i) dm))))"

definition triggeredTrace_addBuffers ::
  "range_orders \<Rightarrow> u64 \<Rightarrow> TriggerID list \<Rightarrow> int list \<Rightarrow> DataManager \<Rightarrow> DataManager res" where
  "triggeredTrace_addBuffers ro i ts buffers dm =
     (let n = int (length buffers) in
      bind_res (foreach (\<lambda>t. buffersAdded t n) (ro_trigger ro ts) (add_triggered 0 n (add_total 0 n dm)))
        (\<lambda>dm1. Inr (put_trace i (ReportingTrace buffers ts) dm1)))"

definition reportingTrace_addBuffers ::
  "range_orders \<Rightarrow> u64 \<Rightarrow> int list \<Rightarrow> TriggerID list \<Rightarrow> int list \<Rightarrow> DataManager \<Rightarrow> DataManager res" where
  "reportingTrace_addBuffers ro i bs ts buffers dm =
     (let n = int (length buffers) in
      bind_res (foreach (\<lambda>t. buffersAdded t n) (ro_trigger ro ts) (add_triggered 0 n (add_total 0 n dm)))
        (\<lambda>dm1. Inr (put_trace i (ReportingTrace (bs @ buffers) ts) dm1)))"

definition trace_AddBuffers ::
  "range_orders \<Rightarrow> u64 \<Rightarrow> int list \<Rightarrow> DataManager \<Rightarrow> DataManager res" where
  "trace_AddBuffers ro i buffers dm =
     bind_res (deref_trace dm i) (\<lambda>s.
       case s of
         UntriggeredTrace bs crumbs _ \<Rightarrow> Inr (untriggeredTrace_addBuffers i bs crumbs buffers dm)
       | TriggeredTrace ts \<Rightarrow> triggeredTrace_addBuffers ro i ts buffers dm
       | ReportingTrace bs ts \<Rightarrow> reportingTrace_addBuffers ro i bs ts buffers dm)"

lemmas trace_AddBuffers_defs = trace_AddBuffers_def untriggeredTrace_addBuffers_def
  triggeredTrace_addBuffers_def reportingTrace_addBuffers_def Let_def

text \<open>\<^verbatim>\<open>Trace.AddBreadcrumbs\<close>: buffered while untriggered, returned for reporting otherwise.\<close>

definition untriggeredTrace_addBreadcrumbs ::
  "u64 \<Rightarrow> int list \<Rightarrow> string list \<Rightarrow> string list \<Rightarrow> DataManager \<Rightarrow> string list \<times> DataManager" where
  "untriggeredTrace_addBreadcrumbs i bs cs crumbs dm =
     ([], put_trace i (UntriggeredTrace bs (cs @ crumbs) (now dm)) (set_lru (lru_move_front i) dm))"

definition triggeredTrace_addBreadcrumbs :: "string list \<Rightarrow> DataManager \<Rightarrow> string list \<times> DataManager" where
  [simp]: "triggeredTrace_addBreadcrumbs crumbs dm = (crumbs, dm)"

definition reportingTrace_addBreadcrumbs :: "string list \<Rightarrow> DataManager \<Rightarrow> string list \<times> DataManager" where
  [simp]: "reportingTrace_addBreadcrumbs crumbs dm = (crumbs, dm)"

definition trace_AddBreadcrumbs ::
  "u64 \<Rightarrow> string list \<Rightarrow> DataManager \<Rightarrow> (string list \<times> DataManager) res" where
  "trace_AddBreadcrumbs i crumbs dm =
     bind_res (deref_trace dm i) (\<lambda>s.
       case s of
         UntriggeredTrace bs cs _ \<Rightarrow> Inr (untriggeredTrace_addBreadcrumbs i bs cs crumbs dm)
       | TriggeredTrace _ \<Rightarrow> Inr (triggeredTrace_addBreadcrumbs crumbs dm)
       | ReportingTrace _ _ \<Rightarrow> Inr (reportingTrace_addBreadcrumbs crumbs dm))"

lemmas trace_AddBreadcrumbs_defs = trace_AddBreadcrumbs_def untriggeredTrace_addBreadcrumbs_def

text \<open>\<^verbatim>\<open>Trace.AddTrigger\<close>; the breadcrumbs of an untriggered trace are returned for reporting.\<close>

definition untriggeredTrace_addTrigger ::
  "u64 \<Rightarrow> int list \<Rightarrow> string list \<Rightarrow> TriggerID \<Rightarrow> DataManager \<Rightarrow> (string list \<times> DataManager) res" where
  "untriggeredTrace_addTrigger i bs cs t dm =
     (let n = int (length bs) in
      bind_res (add_queue_traces (queue_id t) 1
                  (add_triggered 1 n (add_untriggered (- 1) (- n) (set_lru (lru_remove i) dm))))
        (\<lambda>dm1.
          if bs \<noteq> []
          then bind_res (buffersAdded t n dm1) (\<lambda>dm2.
                 Inr (cs, put_trace i (ReportingTrace bs [t]) dm2))
          else Inr (cs, put_trace i (TriggeredTrace [t]) dm1)))"

definition triggeredTrace_addTrigger ::
  "u64 \<Rightarrow> TriggerID list \<Rightarrow> TriggerID \<Rightarrow> DataManager \<Rightarrow> (string list \<times> DataManager) res" where
  "triggeredTrace_addTrigger i ts t dm =
     (if t \<in> set ts then Inr ([], dm)
      else bind_res (add_queue_traces (queue_id t) 1 dm) (\<lambda>dm1.
             Inr ([], put_trace i (TriggeredTrace (ts @ [t])) dm1)))"

definition reportingTrace_addTrigger ::
  "u64 \<Rightarrow> int list \<Rightarrow> TriggerID list \<Rightarrow> TriggerID \<Rightarrow> DataManager \<Rightarrow> (string list \<times> DataManager) res" where
  "reportingTrace_addTrigger i bs ts t dm =
     (if t \<in> set ts then Inr ([], dm)
      else bind_res (add_queue_traces (queue_id t) 1 dm) (\<lambda>dm1.
           bind_res (buffersAdded t (int (length bs)) dm1) (\<lambda>dm2.
             Inr ([], put_trace i (ReportingTrace bs (ts @ [t])) dm2))))"

definition trace_AddTrigger ::
  "u64 \<Rightarrow> TriggerID \<Rightarrow> DataManager \<Rightarrow> (string list \<times> DataManager) res" where
  "trace_AddTrigger i t dm =
     bind_res (deref_trace dm i) (\<lambda>s.
       case s of
         UntriggeredTrace bs cs _ \<Rightarrow> untriggeredTrace_addTrigger i bs cs t dm
       | TriggeredTrace ts \<Rightarrow> triggeredTrace_addTrigger i ts t dm
       | ReportingTrace bs ts \<Rightarrow> reportingTrace_addTrigger i bs ts t dm)"

lemmas trace_AddTrigger_defs = trace_AddTrigger_def untriggeredTrace_addTrigger_def
  triggeredTrace_addTrigger_def reportingTrace_addTrigger_def

text \<open>\<^verbatim>\<open>Trace.RemoveTrigger\<close>; returns the buffers of a trace that loses its last trigger.\<close>

definition untriggeredTrace_removeTrigger :: "(int list \<times> DataManager) res" where
  [simp]: "untriggeredTrace_removeTrigger = Inl (LogFatal ''Cannot remove a trigger from an untriggered trace'')"

definition triggeredTrace_removeTrigger ::
  "u64 \<Rightarrow> TriggerID list \<Rightarrow> TriggerID \<Rightarrow> DataManager \<Rightarrow> (int list \<times> DataManager) res" where
  "triggeredTrace_removeTrigger i ts t dm =
     (if t \<notin> set ts then Inl (LogFatal ''Attempted to removeTrigger for f that does not exist'')
      else bind_res (add_queue_traces (queue_id t) (- 1) dm) (\<lambda>dm1.
             let ts1 = removeAll t ts in
             if ts1 = []
             then Inr ([], del_trace i (add_triggered (- 1) 0 (add_total (- 1) 0 dm1)))
             else Inr ([], put_trace i (TriggeredTrace ts1) dm1)))"

definition reportingTrace_removeTrigger ::
  "u64 \<Rightarrow> int list \<Rightarrow> TriggerID list \<Rightarrow> TriggerID \<Rightarrow> DataManager \<Rightarrow> (int list \<times> DataManager) res" where
  "reportingTrace_removeTrigger i bs ts t dm =
     (if t \<notin> set ts
      then Inl (LogFatal ''Attempted to removeTrigger in reportingTrace for f that does not exist'')
      else bind_res (add_queue_traces (queue_id t) (- 1) dm) (\<lambda>dm1.
           let n = int (length bs) in
           bind_res (buffersRemoved t n dm1) (\<lambda>dm2.
             let ts1 = removeAll t ts in
             if ts1 = []
             then Inr (bs, del_trace i (add_triggered (- 1) (- n) (add_total (- 1) (- n) dm2)))
             else Inr ([], put_trace i (ReportingTrace bs ts1) dm2))))"

definition trace_RemoveTrigger ::
  "u64 \<Rightarrow> TriggerID \<Rightarrow> DataManager \<Rightarrow> (int list \<times> DataManager) res" where
  "trace_RemoveTrigger i t dm =
     bind_res (deref_trace dm i) (\<lambda>s.
       case s of
         UntriggeredTrace _ _ _ \<Rightarrow> untriggeredTrace_removeTrigger
       | TriggeredTrace ts \<Rightarrow> triggeredTrace_removeTrigger i ts t dm
       | ReportingTrace bs ts \<Rightarrow> reportingTrace_removeTrigger i bs ts t dm)"

lemmas trace_RemoveTrigger_defs = trace_RemoveTrigger_def triggeredTrace_removeTrigger_def
  reportingTrace_removeTrigger_def

text \<open>\<^verbatim>\<open>Trace.TakeBuffers\<close>: evicts an untriggered trace, empties a reporting one.\<close>

definition untriggeredTrace_takeBuffers ::
  "u64 \<Rightarrow> int list \<Rightarrow> time \<Rightarrow> DataManager \<Rightarrow> int list \<times> DataManager" where
  "untriggeredTrace_takeBuffers i bs modified dm =
     (let n = int (length bs);
          dm1 = set_lru (lru_remove i) (add_untriggered (- 1) (- n) (add_total (- 1) (- n) dm));
          dm2 = dm1\<lparr>untriggered := (untriggered dm1)\<lparr>event_horizion := modified\<rparr>\<rparr>
      in (bs, del_trace i dm2))"

definition triggeredTrace_takeBuffers :: "DataManager \<Rightarrow> int list \<times> DataManager" where
  [simp]: "triggeredTrace_takeBuffers dm = ([], dm)"

definition reportingTrace_takeBuffers ::
  "range_orders \<Rightarrow> u64 \<Rightarrow> int list \<Rightarrow> TriggerID list \<Rightarrow> DataManager \<Rightarrow> (int list \<times> DataManager) res" where
  "reportingTrace_takeBuffers ro i bs ts dm =
     (let n = int (length bs) in
      bind_res (foreach (\<lambda>t. buffersRemoved t n) (ro_trigger ro ts)
                  (add_triggered 0 (- n) (add_total 0 (- n) dm)))
        (\<lambda>dm1. Inr (bs, put_trace i (TriggeredTrace ts) dm1)))"

definition trace_TakeBuffers ::
  "range_orders \<Rightarrow> u64 \<Rightarrow> DataManager \<Rightarrow> (int list \<times> DataManager) res" where
  "trace_TakeBuffers ro i dm =
     bind_res (deref_trace dm i) (\<lambda>s.
       case s of
         UntriggeredTrace bs _ modified \<Rightarrow> Inr (untriggeredTrace_takeBuffers i bs modified dm)
       | TriggeredTrace _ \<Rightarrow> Inr (triggeredTrace_takeBuffers dm)
       | ReportingTrace bs ts \<Rightarrow> reportingTrace_takeBuffers ro i bs ts dm)"

lemmas trace_TakeBuffers_defs = trace_TakeBuffers_def untriggeredTrace_takeBuffers_def
  reportingTrace_takeBuffers_def

section \<open>Fired triggers: life cycle\<close>

text \<open>\<^verbatim>\<open>queue.initIdleTrigger\<close>\<close>

definition initIdleTrigger :: "u64 \<Rightarrow> time \<Rightarrow> TriggerQueue \<Rightarrow> TriggerQueue" where
  "initIdleTrigger b t q =
     put_fired b \<lparr>ft_id = \<lparr>queue_id = tq_id q, base_trace_id = b\<rparr>, ft_traces = [],
                  ft_buffer_count = 0, ft_state = IdleTrigger t\<rparr>
       (q\<lparr>tq_idle := b # tq_idle q,
          tq_metrics := (tq_metrics q)\<lparr>m_count := m_count (tq_metrics q) + 1\<rparr>\<rparr>)"

definition getOrCreateTrigger :: "int \<Rightarrow> u64 \<Rightarrow> DataManager \<Rightarrow> DataManager res" where
  "getOrCreateTrigger k b dm =
     bind_res (deref_queue dm k) (\<lambda>q.
       case map_of (tq_fired q) b of
         Some _ \<Rightarrow> Inr dm
       | None \<Rightarrow> Inr (put_queue k (initIdleTrigger b (now dm) q) dm))"

text \<open>\<^verbatim>\<open>FiredTrigger.AddTrace\<close>\<close>

definition fired_AddTrace :: "TriggerID \<Rightarrow> u64 \<Rightarrow> DataManager \<Rightarrow> (string list \<times> DataManager) res" where
  "fired_AddTrace t i dm =
     bind_res (deref_fired dm t) (\<lambda>(q, f).
       let f1 = (if i \<in> set (ft_traces f) then f else f\<lparr>ft_traces := ft_traces f @ [i]\<rparr>)
       in trace_AddTrigger i t (put_queue (queue_id t) (put_fired (base_trace_id t) f1 q) dm))"

text \<open>
  \<^verbatim>\<open>FiredTrigger.GetBuffersForReport\<close>, dispatching on the state of the trigger; \<^verbatim>\<open>traces\<close> are the keys of
  the trigger's traces.
\<close>

definition idleTrigger_getBuffersForReport :: "(int list \<times> DataManager) res" where
  [simp]: "idleTrigger_getBuffersForReport = Inl (LogFatal ''Attempted to takeBuffers for idleTrigger'')"

definition reportingTrigger_getBuffersForReport ::
  "range_orders \<Rightarrow> TriggerID \<Rightarrow> u64 list \<Rightarrow> DataManager \<Rightarrow> (int list \<times> DataManager) res" where
  "reportingTrigger_getBuffersForReport ro t trs dm =
     bind_res (collect (trace_TakeBuffers ro) (ro_trace ro trs) dm) (\<lambda>(buffers, dm1).
     bind_res (deref_fired dm1 t) (\<lambda>(q1, f1).
       if ft_buffer_count f1 \<noteq> 0 then Inl (LogFatal ''Buffers remain after takeBuffers'')
       else Inr (buffers, put_queue (queue_id t)
              (put_fired (base_trace_id t) (f1\<lparr>ft_state := IdleTrigger (now dm1)\<rparr>)
                 (q1\<lparr>tq_idle := base_trace_id t # tq_idle q1\<rparr>)) dm1)))"

definition fired_GetBuffersForReport ::
  "range_orders \<Rightarrow> TriggerID \<Rightarrow> DataManager \<Rightarrow> (int list \<times> DataManager) res" where
  "fired_GetBuffersForReport ro t dm =
     bind_res (deref_fired dm t) (\<lambda>(q, f).
       case ft_state f of
         IdleTrigger _ \<Rightarrow> idleTrigger_getBuffersForReport
       | ReportingTrigger \<Rightarrow> reportingTrigger_getBuffersForReport ro t (ft_traces f) dm)"

text \<open>\<^verbatim>\<open>FiredTrigger.Evict\<close>\<close>

definition idleTrigger_evictTrigger :: "(int list \<times> DataManager) res" where
  [simp]: "idleTrigger_evictTrigger = Inl (LogFatal ''idleTrigger cannot be evicted'')"

definition reportingTrigger_evictTrigger ::
  "range_orders \<Rightarrow> TriggerID \<Rightarrow> u64 list \<Rightarrow> DataManager \<Rightarrow> (int list \<times> DataManager) res" where
  "reportingTrigger_evictTrigger ro t trs dm =
     bind_res (collect (\<lambda>i. trace_RemoveTrigger i t) (ro_trace ro trs) dm) (\<lambda>(buffers, dm1).
     bind_res (deref_fired dm1 t) (\<lambda>(q1, f1).
       if ft_buffer_count f1 \<noteq> 0 then Inl (LogFatal ''Buffers remain after eviction'')
       else Inr (buffers, put_queue (queue_id t)
              (q1\<lparr>tq_fired := AList.delete (base_trace_id t) (tq_fired q1)\<rparr>) dm1)))"

definition fired_Evict ::
  "range_orders \<Rightarrow> TriggerID \<Rightarrow> DataManager \<Rightarrow> (int list \<times> DataManager) res" where
  "fired_Evict ro t dm =
     bind_res (deref_fired dm t) (\<lambda>(q, f).
       case ft_state f of
         IdleTrigger _ \<Rightarrow> idleTrigger_evictTrigger
       | ReportingTrigger \<Rightarrow> reportingTrigger_evictTrigger ro t (ft_traces f) dm)"

text \<open>
  \<^verbatim>\<open>FiredTrigger.CheckTimeout\<close>; the buffers \<^verbatim>\<open>RemoveTrigger\<close> returns here are dropped by the code.
\<close>

definition idleTrigger_checkTimeout ::
  "range_orders \<Rightarrow> TriggerID \<Rightarrow> u64 list \<Rightarrow> time \<Rightarrow> time \<Rightarrow> DataManager \<Rightarrow> (bool \<times> DataManager) res" where
  "idleTrigger_checkTimeout ro t trs modified before dm =
     (if before < modified then Inr (False, dm)
      else bind_res (collect (\<lambda>i. trace_RemoveTrigger i t) (ro_trace ro trs) dm) (\<lambda>(_, dm1).
           bind_res (deref_queue dm1 (queue_id t)) (\<lambda>q1.
             Inr (True, put_queue (queue_id t)
               (q1\<lparr>tq_idle := lru_remove (base_trace_id t) (tq_idle q1),
                   tq_fired := AList.delete (base_trace_id t) (tq_fired q1)\<rparr>) dm1))))"

definition reportingTrigger_checkTimeout :: "DataManager \<Rightarrow> bool \<times> DataManager" where
  [simp]: "reportingTrigger_checkTimeout dm = (False, dm)"

definition fired_CheckTimeout ::
  "range_orders \<Rightarrow> TriggerID \<Rightarrow> time \<Rightarrow> DataManager \<Rightarrow> (bool \<times> DataManager) res" where
  "fired_CheckTimeout ro t before dm =
     bind_res (deref_fired dm t) (\<lambda>(q, f).
       case ft_state f of
         ReportingTrigger \<Rightarrow> Inr (reportingTrigger_checkTimeout dm)
       | IdleTrigger modified \<Rightarrow> idleTrigger_checkTimeout ro t (ft_traces f) modified before dm)"

lemmas fired_state_defs = fired_GetBuffersForReport_def reportingTrigger_getBuffersForReport_def
  fired_Evict_def reportingTrigger_evictTrigger_def fired_CheckTimeout_def idleTrigger_checkTimeout_def

section \<open>Trigger queues\<close>

definition initTriggerQueue :: "int \<Rightarrow> DataManager \<Rightarrow> DataManager" where
  "initTriggerQueue k dm =
     put_queue k \<lparr>tq_id = k, tq_trace_count = 0, tq_buffer_count = 0, tq_fired = [],
                  tq_reporting = InitPartialPriorityTree, tq_idle = [],
                  tq_metrics = \<lparr>m_count = 0, m_local = 0, m_remote = 0, m_dropped = 0, m_evicted = 0,
                                m_buffers = 0, m_reported_buffers = 0, m_evicted_buffers = 0\<rparr>\<rparr> dm"

definition GetQueue :: "int \<Rightarrow> DataManager \<Rightarrow> DataManager" where
  "GetQueue k dm = (case queue_of dm k of Some _ \<Rightarrow> dm | None \<Rightarrow> initTriggerQueue k dm)"

text \<open>Pop an id from the reporting tree of queue \<open>k\<close> with the given pop operation.\<close>

definition pop_reporting ::
  "(TreeNode \<Rightarrow> (u64 \<times> TreeNode) res) \<Rightarrow> int \<Rightarrow> DataManager \<Rightarrow> (u64 \<times> DataManager) res" where
  "pop_reporting pop k dm =
     bind_res (deref_queue dm k) (\<lambda>q.
     bind_res (pop (tq_reporting q)) (\<lambda>(b, tree).
       Inr (b, put_queue k (q\<lparr>tq_reporting := tree\<rparr>) dm)))"

text \<open>\<^verbatim>\<open>queue.EvictNext\<close>\<close>

definition queue_EvictNext ::
  "range_orders \<Rightarrow> int \<Rightarrow> DataManager \<Rightarrow> (int list \<times> DataManager) res" where
  "queue_EvictNext ro k dm =
     bind_res (pop_reporting PopNearMax k dm) (\<lambda>(b, dm1).
       case fired_of dm1 \<lparr>queue_id = k, base_trace_id = b\<rparr> of
         Some _ \<Rightarrow> fired_Evict ro \<lparr>queue_id = k, base_trace_id = b\<rparr> dm1
       | None \<Rightarrow> Inr ([], dm1))"

text \<open>
  The eviction loop of \<^verbatim>\<open>queue.EvictToCapacity\<close>. Each turn takes one id out of the reporting tree,
  so the size of the tree at the start bounds the number of turns; the caller passes it as fuel. Here
  a missing trigger is a nil dereference, which \<open>deref_fired\<close> reports. The result holds the evicted
  buffers and the number of evictions.
\<close>

fun queue_evict_loop ::
  "nat \<Rightarrow> range_orders \<Rightarrow> int \<Rightarrow> int \<Rightarrow> int list \<Rightarrow> int \<Rightarrow> DataManager
     \<Rightarrow> ((int list \<times> int) \<times> DataManager) res" where
  "queue_evict_loop fuel ro k num evicted cnt dm =
     bind_res (deref_queue dm k) (\<lambda>q.
       if int (length evicted) < num \<and> 0 < Size (tq_reporting q)
       then case fuel of
              0 \<Rightarrow> Inl NonTermination
            | Suc fuel1 \<Rightarrow>
                bind_res (pop_reporting PopNearMax k dm) (\<lambda>(b, dm1).
                bind_res (fired_Evict ro \<lparr>queue_id = k, base_trace_id = b\<rparr> dm1) (\<lambda>(bufs, dm2).
                  queue_evict_loop fuel1 ro k num (evicted @ bufs) (cnt + 1) dm2))
       else Inr ((evicted, cnt), dm))"

text \<open>\<^verbatim>\<open>num_to_evict\<close>: the excess, but at least one percent of the capacity.\<close>

definition num_to_evict :: "int \<Rightarrow> int \<Rightarrow> int" where
  "num_to_evict n target_capacity =
     (let num = n - target_capacity; min_to_evict = go_div target_capacity 100
      in if num < min_to_evict then min_to_evict else num)"

definition queue_EvictToCapacity ::
  "range_orders \<Rightarrow> int \<Rightarrow> int \<Rightarrow> DataManager \<Rightarrow> (int list \<times> DataManager) res" where
  "queue_EvictToCapacity ro k target_capacity dm =
     (if td_buffer_count (triggered dm) \<le> target_capacity \<or> target_capacity < 0 then Inr ([], dm)
      else bind_res (deref_queue dm k) (\<lambda>q.
           bind_res (queue_evict_loop (nat (Size (tq_reporting q))) ro k
                       (num_to_evict (td_buffer_count (triggered dm)) target_capacity) [] 0 dm)
             (\<lambda>((evicted, cnt), dm1).
           bind_res (deref_queue dm1 k) (\<lambda>q1.
             let m = tq_metrics q1;
                 m1 = m\<lparr>m_evicted := m_evicted m + cnt,
                        m_evicted_buffers := m_evicted_buffers m + int (length evicted)\<rparr>
             in Inr (evicted, put_queue k (q1\<lparr>tq_metrics := m1\<rparr>) dm1)))))"

text \<open>\<^verbatim>\<open>queue.ReportNext\<close>\<close>

definition queue_ReportNext ::
  "range_orders \<Rightarrow> int \<Rightarrow> DataManager \<Rightarrow> (int list \<times> DataManager) res" where
  "queue_ReportNext ro k dm =
     bind_res (pop_reporting PopMin k dm) (\<lambda>(b, dm1).
       case fired_of dm1 \<lparr>queue_id = k, base_trace_id = b\<rparr> of
         None \<Rightarrow> Inr ([], dm1)
       | Some _ \<Rightarrow>
           bind_res (fired_GetBuffersForReport ro \<lparr>queue_id = k, base_trace_id = b\<rparr> dm1)
             (\<lambda>(bufs, dm2).
           bind_res (deref_queue dm2 k) (\<lambda>q.
             let m = tq_metrics q;
                 m1 = m\<lparr>m_reported_buffers := m_reported_buffers m + int (length bufs)\<rparr>
             in Inr (bufs, put_queue k (q\<lparr>tq_metrics := m1\<rparr>) dm2))))"

text \<open>
  \<^verbatim>\<open>queue.CheckIdleTriggers\<close>: every turn that continues takes one trigger out of the idle list, whose
  length bounds the turns.
\<close>

fun check_idle_loop ::
  "nat \<Rightarrow> range_orders \<Rightarrow> int \<Rightarrow> time \<Rightarrow> int \<Rightarrow> DataManager \<Rightarrow> (int \<times> DataManager) res" where
  "check_idle_loop fuel ro k before cnt dm =
     bind_res (deref_queue dm k) (\<lambda>q.
       if tq_idle q = [] then Inr (cnt, dm)
       else case fuel of
              0 \<Rightarrow> Inl NonTermination
            | Suc fuel1 \<Rightarrow>
                bind_res (lru_back (tq_idle q)) (\<lambda>b.
                bind_res (fired_CheckTimeout ro \<lparr>queue_id = k, base_trace_id = b\<rparr> before dm)
                  (\<lambda>(timedout, dm1).
                    if \<not> timedout then Inr (cnt, dm1)
                    else check_idle_loop fuel1 ro k before (cnt + 1) dm1)))"

definition queue_CheckIdleTriggers ::
  "range_orders \<Rightarrow> int \<Rightarrow> time \<Rightarrow> DataManager \<Rightarrow> (int \<times> DataManager) res" where
  "queue_CheckIdleTriggers ro k before dm =
     bind_res (deref_queue dm k) (\<lambda>q. check_idle_loop (length (tq_idle q)) ro k before 0 dm)"

text \<open>
  \<^verbatim>\<open>queue.Trigger\<close>: the breadcrumbs to report, by trace.
\<close>

fun trigger_loop ::
  "TriggerID \<Rightarrow> u64 list \<Rightarrow> (u64 \<times> string list) list \<Rightarrow> DataManager
     \<Rightarrow> ((u64 \<times> string list) list \<times> DataManager) res" where
  "trigger_loop t [] crumbs dm = Inr (crumbs, dm)"
| "trigger_loop t (i # is) crumbs dm =
     bind_res (fired_AddTrace t i (getOrCreateTrace i dm)) (\<lambda>(to_report, dm1).
       trigger_loop t is (if to_report \<noteq> [] then AList.update i to_report crumbs else crumbs) dm1)"

definition queue_Trigger ::
  "int \<Rightarrow> u64 \<Rightarrow> u64 list \<Rightarrow> DataManager \<Rightarrow> ((u64 \<times> string list) list \<times> DataManager) res" where
  "queue_Trigger k b is dm =
     bind_res (getOrCreateTrigger k b dm) (\<lambda>dm1.
       trigger_loop \<lparr>queue_id = k, base_trace_id = b\<rparr> is [] dm1)"

section \<open>The data manager\<close>

definition InitDataManager :: "time \<Rightarrow> DataManager" where
  "InitDataManager t =
     \<lparr>now = t, traces = [],
      untriggered = \<lparr>lru = [], ut_trace_count = 0, ut_buffer_count = 0, event_horizion = 0\<rparr>,
      triggered = \<lparr>td_trace_count = 0, td_buffer_count = 0, queues = []\<rparr>,
      trace_count = 0, buffer_count = 0\<rparr>"

definition AddBuffers ::
  "range_orders \<Rightarrow> u64 \<Rightarrow> int list \<Rightarrow> DataManager \<Rightarrow> DataManager res" where
  "AddBuffers ro i bufs dm = trace_AddBuffers ro i bufs (getOrCreateTrace i dm)"

definition AddBreadcrumbs ::
  "u64 \<Rightarrow> string list \<Rightarrow> DataManager \<Rightarrow> (string list \<times> DataManager) res" where
  "AddBreadcrumbs i crumbs dm = trace_AddBreadcrumbs i crumbs (getOrCreateTrace i dm)"

text \<open>\<^verbatim>\<open>dm.Trigger\<close>\<close>

definition dm_Trigger ::
  "int \<Rightarrow> u64 \<Rightarrow> u64 list \<Rightarrow> DataManager \<Rightarrow> ((u64 \<times> string list) list \<times> DataManager) res" where
  "dm_Trigger k b is dm = queue_Trigger k b is (GetQueue k dm)"

text \<open>\<^verbatim>\<open>dm.Evict\<close>\<close>

definition dm_Evict :: "range_orders \<Rightarrow> DataManager \<Rightarrow> (int list \<times> DataManager) res" where
  "dm_Evict ro dm =
     (if ut_trace_count (untriggered dm) = 0 then Inr ([], dm)
      else bind_res (lru_back (lru (untriggered dm))) (\<lambda>i. trace_TakeBuffers ro i dm))"

text \<open>
  The eviction loop of \<^verbatim>\<open>dm.EvictToCapacity\<close>; every turn takes a trace out of the LRU list, whose
  length the caller passes as fuel.
\<close>

fun evict_loop ::
  "nat \<Rightarrow> range_orders \<Rightarrow> int \<Rightarrow> int list \<Rightarrow> DataManager \<Rightarrow> (int list \<times> DataManager) res" where
  "evict_loop fuel ro num evicted dm =
     (if int (length evicted) < num \<and> lru (untriggered dm) \<noteq> []
      then case fuel of
             0 \<Rightarrow> Inl NonTermination
           | Suc fuel1 \<Rightarrow>
               bind_res (lru_back (lru (untriggered dm))) (\<lambda>i.
               bind_res (trace_TakeBuffers ro i dm) (\<lambda>(bufs, dm1).
                 evict_loop fuel1 ro num (evicted @ bufs) dm1))
      else Inr (evicted, dm))"

definition EvictToCapacity ::
  "range_orders \<Rightarrow> int \<Rightarrow> DataManager \<Rightarrow> (int list \<times> DataManager) res" where
  "EvictToCapacity ro target_capacity dm =
     (if buffer_count dm \<le> target_capacity \<or> target_capacity < 0 then Inr ([], dm)
      else evict_loop (length (lru (untriggered dm))) ro
             (num_to_evict (buffer_count dm) target_capacity) [] dm)"

text \<open>
  The search for the largest queue in \<^verbatim>\<open>EvictedTriggeredToCapacity\<close>: the first key of the visiting
  order whose queue has the largest \<^verbatim>\<open>buffer_count\<close>; \<open>None\<close> is the nil pointer.
\<close>

fun largest_queue :: "int option \<Rightarrow> int list \<Rightarrow> DataManager \<Rightarrow> int option res" where
  "largest_queue best [] dm = Inr best"
| "largest_queue best (k # ks) dm =
     bind_res (deref_queue dm k) (\<lambda>candidate.
       case best of
         None \<Rightarrow> largest_queue (Some k) ks dm
       | Some j \<Rightarrow>
           bind_res (deref_queue dm j) (\<lambda>queue.
             if tq_buffer_count queue < tq_buffer_count candidate
             then largest_queue (Some k) ks dm
             else largest_queue (Some j) ks dm))"

definition EvictedTriggeredToCapacity ::
  "range_orders \<Rightarrow> int \<Rightarrow> DataManager \<Rightarrow> (int list \<times> DataManager) res" where
  "EvictedTriggeredToCapacity ro target_capacity dm =
     (if td_buffer_count (triggered dm) \<le> target_capacity \<or> target_capacity < 0 then Inr ([], dm)
      else bind_res (largest_queue None (ro_queue ro (map fst (queues (triggered dm)))) dm) (\<lambda>best.
             case best of
               None \<Rightarrow> Inl NilDereference
             | Some k \<Rightarrow> queue_EvictToCapacity ro k target_capacity dm))"

text \<open>\<^verbatim>\<open>dm.CheckIdleTriggers\<close>\<close>

definition dm_CheckIdleTriggers :: "range_orders \<Rightarrow> time \<Rightarrow> DataManager \<Rightarrow> DataManager res" where
  "dm_CheckIdleTriggers ro before dm =
     foreach (\<lambda>k dm0. bind_res (queue_CheckIdleTriggers ro k before dm0) (\<lambda>(_, dm1). Inr dm1))
       (ro_queue ro (map fst (queues (triggered dm)))) dm"

declare queue_evict_loop.simps [simp del] check_idle_loop.simps [simp del] evict_loop.simps [simp del]

end
