(* ===== verification/DataInv.thy ===== *)
theory DataInv
  imports DataManager
begin

text \<open>
  The invariant of the agent's data manager and the proof that every operation keeps it and returns.
  The invariant ties together what the code stores redundantly: traces and triggers point at each
  other, a trigger's and a queue's \<^verbatim>\<open>buffer_count\<close> are the sums over what they hold, idle triggers are
  in the idle list and reporting ones in the reporting tree, untriggered traces are in the LRU list,
  and the six counters of the data manager are what they count.
\<close>

section \<open>Views\<close>

abbreviation tid :: "int \<Rightarrow> u64 \<Rightarrow> TriggerID" where
  "tid k b \<equiv> \<lparr>queue_id = k, base_trace_id = b\<rparr>"

lemma tid_sel [simp]: "tid (queue_id t) (base_trace_id t) = t"
  by simp

lemma tid_eq_iff: "(t = tid k b) \<longleftrightarrow> queue_id t = k \<and> base_trace_id t = b"
  by (cases t) auto

lemma tid_eq_iff': "(tid k b = t) \<longleftrightarrow> queue_id t = k \<and> base_trace_id t = b"
  by (cases t) auto

text \<open>What a step that touches only the queues leaves alone.\<close>

definition queues_only :: "DataManager \<Rightarrow> DataManager \<Rightarrow> bool" where
  "queues_only dm dm' \<longleftrightarrow>
     (\<exists>qs. dm' = dm\<lparr>triggered := (triggered dm)\<lparr>queues := qs\<rparr>\<rparr>) \<and> dom (queue_of dm) \<subseteq> dom (queue_of dm')"

lemma queues_only_refl [simp]: "queues_only dm dm"
  unfolding queues_only_def by (intro conjI exI [of _ "queues (triggered dm)"]) simp_all

lemma queues_only_trans: "queues_only a b \<Longrightarrow> queues_only b c \<Longrightarrow> queues_only a c"
  by (auto simp: queues_only_def)

lemma queues_only_put [simp]: "queues_only dm (put_queue k q dm)"
  by (auto simp: queues_only_def put_queue_def queue_of_def)

lemma queues_only_views:
  assumes "queues_only dm dm'"
  shows "trace_of dm' = trace_of dm" and "now dm' = now dm" and "untriggered dm' = untriggered dm"
    and "td_trace_count (triggered dm') = td_trace_count (triggered dm)"
    and "td_buffer_count (triggered dm') = td_buffer_count (triggered dm)"
    and "trace_count dm' = trace_count dm" and "buffer_count dm' = buffer_count dm"
    and "dom (queue_of dm) \<subseteq> dom (queue_of dm')"
  using assms by (auto simp: queues_only_def trace_of_def)

lemma trace_of_simps [simp]:
  "trace_of (put_trace i s dm) = (trace_of dm)(i \<mapsto> s)"
  "trace_of (del_trace i dm) = (trace_of dm)(i := None)"
  "trace_of (put_queue k q dm) = trace_of dm"
  "trace_of (add_untriggered x y dm) = trace_of dm"
  "trace_of (add_triggered x y dm) = trace_of dm"
  "trace_of (add_total x y dm) = trace_of dm"
  "trace_of (set_lru g dm) = trace_of dm"
  "trace_of (dm\<lparr>untriggered := u\<rparr>) = trace_of dm"
  "trace_of (dm\<lparr>now := t\<rparr>) = trace_of dm"
  by (simp_all add: trace_of_def put_trace_def del_trace_def put_queue_def add_untriggered_def
      add_triggered_def add_total_def set_lru_def)

lemma queue_of_simps [simp]:
  "queue_of (put_queue k q dm) = (queue_of dm)(k \<mapsto> q)"
  "queue_of (put_trace i s dm) = queue_of dm"
  "queue_of (del_trace i dm) = queue_of dm"
  "queue_of (add_untriggered x y dm) = queue_of dm"
  "queue_of (add_triggered x y dm) = queue_of dm"
  "queue_of (add_total x y dm) = queue_of dm"
  "queue_of (set_lru g dm) = queue_of dm"
  "queue_of (dm\<lparr>untriggered := u\<rparr>) = queue_of dm"
  "queue_of (dm\<lparr>now := t\<rparr>) = queue_of dm"
  by (simp_all add: queue_of_def put_trace_def del_trace_def put_queue_def add_untriggered_def
      add_triggered_def add_total_def set_lru_def)

lemma fired_of_cong: "queue_of dm = queue_of dm' \<Longrightarrow> fired_of dm = fired_of dm'"
  by (simp add: fired_of_def fun_eq_iff)

lemma fired_of_simps [simp]:
  "fired_of (put_trace i s dm) = fired_of dm"
  "fired_of (del_trace i dm) = fired_of dm"
  "fired_of (add_untriggered x y dm) = fired_of dm"
  "fired_of (add_triggered x y dm) = fired_of dm"
  "fired_of (add_total x y dm) = fired_of dm"
  "fired_of (set_lru g dm) = fired_of dm"
  "fired_of (dm\<lparr>untriggered := u\<rparr>) = fired_of dm"
  "fired_of (dm\<lparr>now := t\<rparr>) = fired_of dm"
  by (rule fired_of_cong, simp)+

lemma finite_dom_trace_of [simp]: "finite (dom (trace_of dm))"
  by (simp add: trace_of_def finite_dom_map_of)

lemma fired_of_put_queue:
  "fired_of (put_queue k q dm) t =
     (if queue_id t = k then map_of (tq_fired q) (base_trace_id t) else fired_of dm t)"
  by (simp add: fired_of_def)

lemma fired_of_put_same:
  assumes "queue_of dm k = Some q" and "tq_fired q' = tq_fired q"
  shows "fired_of (put_queue k q' dm) = fired_of dm"
  using assms by (auto simp: fired_of_def fun_eq_iff)

lemma fired_of_put_fired:
  assumes "queue_of dm (queue_id t) = Some q" and "tq_fired q' = tq_fired q"
  shows "fired_of (put_queue (queue_id t) (put_fired (base_trace_id t) f q') dm) = (fired_of dm)(t \<mapsto> f)"
  using assms by (auto simp: fired_of_def put_fired_def fun_eq_iff)

lemma fired_of_del_fired:
  assumes "queue_of dm (queue_id t) = Some q" and "tq_fired q' = AList.delete (base_trace_id t) (tq_fired q)"
  shows "fired_of (put_queue (queue_id t) q' dm) = (fired_of dm)(t := None)"
  using assms by (auto simp: fired_of_def fun_eq_iff)

lemma deref_queue_Some [simp]: "queue_of dm k = Some q \<Longrightarrow> deref_queue dm k = Inr q"
  by (simp add: deref_queue_def)

lemma deref_trace_Some [simp]: "trace_of dm i = Some s \<Longrightarrow> deref_trace dm i = Inr s"
  by (simp add: deref_trace_def)

lemma deref_fired_Some:
  assumes "fired_of dm t = Some f"
  obtains q where "queue_of dm (queue_id t) = Some q" and "map_of (tq_fired q) (base_trace_id t) = Some f"
    and "deref_fired dm t = Inr (q, f)"
  using assms by (auto simp: fired_of_def deref_fired_def split: option.splits)

section \<open>The invariant of a queue\<close>

text \<open>
  \<open>flinks X t f\<close>: the traces trigger \<open>t\<close> is attached to, less those of the set \<open>X\<close>, which an operation
  under way has already detached. \<open>P\<close> holds the triggers an operation under way has already popped
  from the reporting tree. Between operations both are empty.
\<close>

definition flinks :: "(TriggerID \<times> u64) set \<Rightarrow> TriggerID \<Rightarrow> FiredTrigger \<Rightarrow> u64 set" where
  "flinks X t f = set (ft_traces f) - {i. (t, i) \<in> X}"

lemma finite_flinks [simp]: "finite (flinks X t f)"
  by (simp add: flinks_def)

definition sched_ok :: "TriggerID set \<Rightarrow> int \<Rightarrow> TriggerQueue \<Rightarrow> bool" where
  "sched_ok P k q \<longleftrightarrow>
     tq_id q = k \<and> ppt_inv (tq_reporting q) \<and>
     ppt_keys (tq_reporting q) =
       {b. (\<exists>f. map_of (tq_fired q) b = Some f \<and> ft_state f = ReportingTrigger) \<and> tid k b \<notin> P} \<and>
     distinct (tq_idle q) \<and>
     set (tq_idle q) = {b. \<exists>f m. map_of (tq_fired q) b = Some f \<and> ft_state f = IdleTrigger m}"

definition count_ok :: "(TriggerID \<times> u64) set \<Rightarrow> int \<Rightarrow> TriggerQueue \<Rightarrow> bool" where
  "count_ok X k q \<longleftrightarrow>
     tq_buffer_count q = msum (\<lambda>_. ft_buffer_count) (map_of (tq_fired q)) \<and>
     tq_trace_count q = msum (\<lambda>b f. int (card (flinks X (tid k b) f))) (map_of (tq_fired q))"

definition queues_ok :: "(TriggerID \<times> u64) set \<Rightarrow> TriggerID set \<Rightarrow> DataManager \<Rightarrow> bool" where
  "queues_ok X P dm \<longleftrightarrow> (\<forall>k q. queue_of dm k = Some q \<longrightarrow> sched_ok P k q \<and> count_ok X k q)"

lemma queues_okD: "queues_ok X P dm \<Longrightarrow> queue_of dm k = Some q \<Longrightarrow> sched_ok P k q \<and> count_ok X k q"
  by (simp add: queues_ok_def)

lemma queues_ok_put:
  "queues_ok X P dm \<Longrightarrow> sched_ok P k q \<Longrightarrow> count_ok X k q \<Longrightarrow> queues_ok X P (put_queue k q dm)"
  by (simp add: queues_ok_def)

lemma queues_ok_cong: "queue_of dm' = queue_of dm \<Longrightarrow> queues_ok X P dm' = queues_ok X P dm"
  by (simp add: queues_ok_def)

lemma queues_ok_simps [simp]:
  "queues_ok X P (put_trace i s dm) = queues_ok X P dm"
  "queues_ok X P (del_trace i dm) = queues_ok X P dm"
  "queues_ok X P (add_untriggered x y dm) = queues_ok X P dm"
  "queues_ok X P (add_triggered x y dm) = queues_ok X P dm"
  "queues_ok X P (add_total x y dm) = queues_ok X P dm"
  "queues_ok X P (set_lru g dm) = queues_ok X P dm"
  "queues_ok X P (dm\<lparr>untriggered := u\<rparr>) = queues_ok X P dm"
  "queues_ok X P (dm\<lparr>now := t\<rparr>) = queues_ok X P dm"
  by (rule queues_ok_cong, simp)+

text \<open>A trigger whose traces are unchanged takes the place of another.\<close>

lemma count_ok_put_fired:
  assumes "count_ok X k q" and "map_of (tq_fired q) b = Some f"
    and "tq_fired q' = tq_fired q" and "tq_trace_count q' = tq_trace_count q"
    and "tq_buffer_count q' = tq_buffer_count q + (ft_buffer_count f' - ft_buffer_count f)"
    and "ft_traces f' = ft_traces f"
  shows "count_ok X k (put_fired b f' q')"
proof -
  let ?m = "map_of (tq_fired q)"
  have fin: "finite (dom ?m)" by (rule finite_dom_map_of)
  show ?thesis
    using assms msum_upd [OF fin assms(2), of "\<lambda>_. ft_buffer_count" f']
      msum_upd [OF fin assms(2), of "\<lambda>b f. int (card (flinks X (tid k b) f))" f']
    by (simp add: count_ok_def put_fired_def flinks_def)
qed

lemma count_ok_add_traces:
  assumes "count_ok X k q" and "map_of (tq_fired q) b = Some f"
    and "\<And>b' f'. map_of (tq_fired q) b' = Some f' \<Longrightarrow> b' \<noteq> b \<Longrightarrow> flinks X' (tid k b') f' = flinks X (tid k b') f'"
    and "int (card (flinks X' (tid k b) f)) = int (card (flinks X (tid k b) f)) + n"
  shows "count_ok X' k (q\<lparr>tq_trace_count := tq_trace_count q + n\<rparr>)"
proof -
  let ?m = "map_of (tq_fired q)" and ?g = "\<lambda>X b f. int (card (flinks X (tid k b) f))"
  have fin: "finite (dom ?m)" by (rule finite_dom_map_of)
  have "msum (?g X') (?m(b := None)) = msum (?g X) (?m(b := None))"
    using assms(3) by (intro msum_cong) (auto split: if_splits)
  then have "msum (?g X') ?m = msum (?g X) ?m + n"
    using msum_del [OF fin assms(2), of "?g X'"] msum_del [OF fin assms(2), of "?g X"] assms(4) by simp
  then show ?thesis using assms(1) by (simp add: count_ok_def)
qed

section \<open>Counting buffers in and out\<close>

definition bump :: "int \<Rightarrow> FiredTrigger \<Rightarrow> FiredTrigger" where
  "bump n f = f\<lparr>ft_buffer_count := ft_buffer_count f + n, ft_state := ReportingTrigger\<rparr>"

definition drop_count :: "int \<Rightarrow> FiredTrigger \<Rightarrow> FiredTrigger" where
  "drop_count n f = f\<lparr>ft_buffer_count := ft_buffer_count f - n\<rparr>"

lemma sched_ok_bump:
  assumes "sched_ok P k q" and "map_of (tq_fired q) b = Some f"
    and "state_buffersAdded (ft_state f) b q1 = (st, q2)" and "tid k b \<notin> P"
    and "tq_fired q1 = tq_fired q" "tq_id q1 = tq_id q"
    and "tq_reporting q1 = tq_reporting q" "tq_idle q1 = tq_idle q"
  shows "sched_ok P k (put_fired b (bump n f) q2)"
proof (cases "ft_state f")
  case (IdleTrigger m)
  have nk: "b \<notin> ppt_keys (tq_reporting q)"
    using assms(1,2) IdleTrigger by (auto simp: sched_ok_def)
  have inv: "ppt_inv (tq_reporting q)" using assms(1) by (simp add: sched_ok_def)
  show ?thesis
    using assms IdleTrigger ppt.ins_ok [OF inv nk]
    by (auto simp: sched_ok_def put_fired_def bump_def)
next
  case ReportingTrigger
  then show ?thesis using assms by (auto simp: sched_ok_def put_fired_def bump_def)
qed

lemma buffersAdded_ok:
  assumes "queues_ok X P dm" and "fired_of dm t = Some f" and "t \<notin> P"
  shows "yields (buffersAdded t n dm) (\<lambda>dm'. queues_only dm dm' \<and> queues_ok X P dm' \<and>
           fired_of dm' = (fired_of dm)(t \<mapsto> bump n f))"
proof -
  obtain q where q: "queue_of dm (queue_id t) = Some q" "map_of (tq_fired q) (base_trace_id t) = Some f"
    "deref_fired dm t = Inr (q, f)" using deref_fired_Some [OF assms(2)] .
  define q1 where "q1 = q\<lparr>tq_buffer_count := tq_buffer_count q + n,
    tq_metrics := (tq_metrics q)\<lparr>m_buffers := m_buffers (tq_metrics q) + n\<rparr>\<rparr>"
  obtain st q2 where st: "state_buffersAdded (ft_state f) (base_trace_id t) q1 = (st, q2)"
    by fastforce
  then have f1: "f\<lparr>ft_buffer_count := ft_buffer_count f + n, ft_state := st\<rparr> = bump n f"
    and q2: "tq_fired q2 = tq_fired q" "tq_buffer_count q2 = tq_buffer_count q + n"
      "tq_trace_count q2 = tq_trace_count q"
    by (cases "ft_state f"; auto simp: bump_def q1_def)+
  have ok: "sched_ok P (queue_id t) q" "count_ok X (queue_id t) q"
    using queues_okD [OF assms(1) q(1)] by auto
  have "sched_ok P (queue_id t) (put_fired (base_trace_id t) (bump n f) q2)"
    using sched_ok_bump [OF ok(1) q(2) st] assms(3) by (simp add: q1_def)
  moreover have "count_ok X (queue_id t) (put_fired (base_trace_id t) (bump n f) q2)"
    using q2 by (intro count_ok_put_fired [OF ok(2) q(2)]) (auto simp: bump_def)
  ultimately show ?thesis
    using q st fired_of_put_fired [OF q(1) q2(1)]
    by (simp add: buffersAdded_def q1_def [symmetric] f1 queues_ok_put [OF assms(1)])
qed

lemma buffersRemoved_ok:
  assumes "queues_ok X P dm" and "fired_of dm t = Some f"
  shows "yields (buffersRemoved t n dm) (\<lambda>dm'. queues_only dm dm' \<and> queues_ok X P dm' \<and>
           fired_of dm' = (fired_of dm)(t \<mapsto> drop_count n f))"
proof -
  obtain q where q: "queue_of dm (queue_id t) = Some q" "map_of (tq_fired q) (base_trace_id t) = Some f"
    "deref_fired dm t = Inr (q, f)" using deref_fired_Some [OF assms(2)] .
  let ?q = "q\<lparr>tq_buffer_count := tq_buffer_count q - n\<rparr>"
  have ok: "sched_ok P (queue_id t) q" "count_ok X (queue_id t) q"
    using queues_okD [OF assms(1) q(1)] by auto
  have "sched_ok P (queue_id t) (put_fired (base_trace_id t) (drop_count n f) ?q)"
    using ok(1) q(2) by (auto simp: sched_ok_def put_fired_def drop_count_def)
  moreover have "count_ok X (queue_id t) (put_fired (base_trace_id t) (drop_count n f) ?q)"
    by (rule count_ok_put_fired [OF ok(2) q(2)]) (simp_all add: drop_count_def)
  ultimately show ?thesis
    using q fired_of_put_fired [OF q(1), of ?q]
    by (simp add: buffersRemoved_def drop_count_def [symmetric] queues_ok_put [OF assms(1)])
qed

text \<open>The loops over the triggers of a trace.\<close>

definition on_keys :: "'k set \<Rightarrow> ('v \<Rightarrow> 'v) \<Rightarrow> ('k \<rightharpoonup> 'v) \<Rightarrow> 'k \<rightharpoonup> 'v" where
  "on_keys A g m = (\<lambda>t. if t \<in> A then map_option g (m t) else m t)"

lemma on_keys_empty [simp]: "on_keys {} g m = m"
  by (simp add: on_keys_def)

lemma on_keys_step:
  "m t = Some f \<Longrightarrow> t \<notin> A \<Longrightarrow> on_keys A g (m(t \<mapsto> g f)) = on_keys (insert t A) g m"
  by (auto simp: on_keys_def fun_eq_iff)

lemma foreach_fired:
  assumes step: "\<And>dm t f. queues_ok X P dm \<Longrightarrow> fired_of dm t = Some f \<Longrightarrow> t \<notin> P' \<Longrightarrow>
      yields (body t dm) (\<lambda>dm'. queues_only dm dm' \<and> queues_ok X P dm' \<and>
        fired_of dm' = (fired_of dm)(t \<mapsto> g f))"
  shows "distinct ts \<Longrightarrow> set ts \<subseteq> dom (fired_of dm) \<Longrightarrow> set ts \<inter> P' = {} \<Longrightarrow> queues_ok X P dm \<Longrightarrow>
     yields (foreach body ts dm) (\<lambda>dm'. queues_only dm dm' \<and> queues_ok X P dm' \<and>
        fired_of dm' = on_keys (set ts) g (fired_of dm))"
proof (induction ts arbitrary: dm)
  case Nil
  then show ?case by simp
next
  case (Cons t ts)
  then obtain f where f: "fired_of dm t = Some f" by auto
  have "yields (body t dm) (\<lambda>dm'. queues_only dm dm' \<and> queues_ok X P dm' \<and>
      fired_of dm' = (fired_of dm)(t \<mapsto> g f))"
    using Cons.prems by (intro step f) auto
  then show ?case
  proof (rule yieldsE)
    fix dm1
    assume dm1: "body t dm = Inr dm1" "queues_only dm dm1 \<and> queues_ok X P dm1 \<and>
      fired_of dm1 = (fired_of dm)(t \<mapsto> g f)"
    have "yields (foreach body ts dm1) (\<lambda>dm'. queues_only dm1 dm' \<and> queues_ok X P dm' \<and>
        fired_of dm' = on_keys (set ts) g (fired_of dm1))"
      using Cons.prems dm1(2) by (intro Cons.IH) auto
    then show ?thesis
      using dm1 Cons.prems(1) f
      by (auto elim!: yieldsE simp: on_keys_step intro: queues_only_trans)
  qed
qed

section \<open>Traces and triggers point at each other\<close>

fun trigs :: "tracestate \<Rightarrow> TriggerID set" where
  "trigs (UntriggeredTrace _ _ _) = {}"
| "trigs (TriggeredTrace ts) = set ts"
| "trigs (ReportingTrace _ ts) = set ts"

fun bufs :: "tracestate \<Rightarrow> int list" where
  "bufs (UntriggeredTrace bs _ _) = bs"
| "bufs (TriggeredTrace _) = []"
| "bufs (ReportingTrace bs _) = bs"

fun is_untriggered :: "tracestate \<Rightarrow> bool" where
  "is_untriggered (UntriggeredTrace _ _ _) = True"
| "is_untriggered _ = False"

fun trace_wf :: "tracestate \<Rightarrow> bool" where
  "trace_wf (UntriggeredTrace _ _ _) = True"
| "trace_wf (TriggeredTrace ts) = (ts \<noteq> [] \<and> distinct ts)"
| "trace_wf (ReportingTrace _ ts) = (ts \<noteq> [] \<and> distinct ts)"

definition nbufs :: "(u64 \<rightharpoonup> tracestate) \<Rightarrow> u64 \<Rightarrow> int" where
  "nbufs T i = (case T i of None \<Rightarrow> 0 | Some s \<Rightarrow> int (length (bufs s)))"

lemma nbufs_nonneg [simp]: "0 \<le> nbufs T i"
  by (simp add: nbufs_def split: option.splits)

lemma nbufs_Some [simp]: "T i = Some s \<Longrightarrow> nbufs T i = int (length (bufs s))"
  by (simp add: nbufs_def)

lemma nbufs_upd: "j \<noteq> i \<Longrightarrow> nbufs (T(i := x)) j = nbufs T j"
  by (simp add: nbufs_def)

definition linked :: "(TriggerID \<times> u64) set \<Rightarrow> (TriggerID \<rightharpoonup> FiredTrigger) \<Rightarrow> TriggerID \<Rightarrow> u64 \<Rightarrow> bool" where
  "linked X F t i \<longleftrightarrow> (\<exists>f. F t = Some f \<and> i \<in> flinks X t f)"

definition incl :: "(u64 \<rightharpoonup> tracestate) \<Rightarrow> TriggerID \<Rightarrow> u64 \<Rightarrow> bool" where
  "incl T t i \<longleftrightarrow> (\<exists>s. T i = Some s \<and> t \<in> trigs s)"

definition fired_ok :: "(TriggerID \<times> u64) set \<Rightarrow> (u64 \<rightharpoonup> tracestate) \<Rightarrow> TriggerID \<Rightarrow> FiredTrigger \<Rightarrow> bool" where
  "fired_ok X T t f \<longleftrightarrow>
     ft_id f = t \<and> distinct (ft_traces f) \<and>
     ft_buffer_count f = (\<Sum>i\<in>flinks X t f. nbufs T i) \<and>
     (ft_state f \<noteq> ReportingTrigger \<longrightarrow> ft_buffer_count f = 0)"

definition core :: "(TriggerID \<times> u64) set \<Rightarrow> (u64 \<rightharpoonup> tracestate) \<Rightarrow> (TriggerID \<rightharpoonup> FiredTrigger) \<Rightarrow> bool" where
  "core X T F \<longleftrightarrow>
     (\<forall>i s. T i = Some s \<longrightarrow> trace_wf s) \<and>
     (\<forall>t i. linked X F t i \<longleftrightarrow> incl T t i) \<and>
     (\<forall>t f. F t = Some f \<longrightarrow> fired_ok X T t f)"

lemma coreI:
  assumes "\<And>i s. T i = Some s \<Longrightarrow> trace_wf s" and "\<And>t i. linked X F t i \<longleftrightarrow> incl T t i"
    and "\<And>t f. F t = Some f \<Longrightarrow> fired_ok X T t f"
  shows "core X T F"
  using assms by (simp add: core_def)

lemma coreD:
  assumes "core X T F"
  shows "T i = Some s \<Longrightarrow> trace_wf s" and "linked X F t i \<longleftrightarrow> incl T t i"
    and "F t = Some f \<Longrightarrow> fired_ok X T t f"
  using assms by (auto simp: core_def)

text \<open>Every trigger a trace names is registered.\<close>

lemma core_trigs_dom: "core X T F \<Longrightarrow> T i = Some s \<Longrightarrow> trigs s \<subseteq> dom F"
  using coreD(2) [of X T F] by (fastforce simp: linked_def incl_def)

lemma core_link_iff: "core X T F \<Longrightarrow> F t = Some f \<Longrightarrow> T i = Some s \<Longrightarrow> i \<in> flinks X t f \<longleftrightarrow> t \<in> trigs s"
  using coreD(2) [of X T F t i] by (auto simp: linked_def incl_def)

lemma core_unlinked: "core X T F \<Longrightarrow> F t = Some f \<Longrightarrow> T i = None \<Longrightarrow> i \<notin> flinks X t f"
  using coreD(2) [of X T F t i] by (auto simp: linked_def incl_def)

lemma core_link_some: "core X T F \<Longrightarrow> F t = Some f \<Longrightarrow> i \<in> flinks X t f \<Longrightarrow> \<exists>s. T i = Some s \<and> t \<in> trigs s"
  using coreD(2) [of X T F t i] by (auto simp: linked_def incl_def)

lemma fired_ok_zero: "fired_ok X T t f \<Longrightarrow> ft_buffer_count f = 0 \<Longrightarrow> i \<in> flinks X t f \<Longrightarrow> nbufs T i = 0"
  by (simp add: fired_ok_def sum_nonneg_eq_0_iff)

text \<open>A trigger does not notice changes outside its traces.\<close>

lemma fired_ok_transfer:
  assumes "fired_ok X T t f" and "flinks X' t f = flinks X t f"
    and "\<And>j. j \<in> flinks X t f \<Longrightarrow> nbufs T' j = nbufs T j"
  shows "fired_ok X' T' t f"
proof -
  have "(\<Sum>i\<in>flinks X t f. nbufs T' i) = (\<Sum>i\<in>flinks X t f. nbufs T i)"
    using assms(3) by (rule sum.cong [OF refl])
  then show ?thesis using assms(1,2) unfolding fired_ok_def by metis
qed

text \<open>An idle trigger has no buffers pending, so none of its traces has any.\<close>

lemma core_idle_empty:
  "core X T F \<Longrightarrow> F t = Some f \<Longrightarrow> ft_state f \<noteq> ReportingTrigger \<Longrightarrow> i \<in> flinks X t f \<Longrightarrow> nbufs T i = 0"
  using coreD(3) [of X T F t f] fired_ok_zero by (auto simp: fired_ok_def)

subsection \<open>Steps on one trace\<close>

text \<open>A trace keeps its triggers and changes its buffers; its triggers count the difference.\<close>

lemma core_set_bufs:
  assumes c: "core X T F" and s: "T i = Some s" and wf: "trace_wf s'" and ts: "trigs s' = trigs s"
    and g: "\<And>f. ft_id (g f) = ft_id f" "\<And>f. ft_traces (g f) = ft_traces f"
      "\<And>f. ft_buffer_count (g f) = ft_buffer_count f + (int (length (bufs s')) - int (length (bufs s)))"
    and idle: "\<And>t f. t \<in> trigs s \<Longrightarrow> F t = Some f \<Longrightarrow> ft_state (g f) \<noteq> ReportingTrigger \<Longrightarrow>
      ft_buffer_count (g f) = 0"
  shows "core X (T(i \<mapsto> s')) (on_keys (trigs s) g F)"
proof (rule coreI, goal_cases)
  case (1 j u)
  then show ?case using coreD(1) [OF c] wf by (auto split: if_splits)
next
  case (2 t j)
  have "linked X (on_keys (trigs s) g F) t j \<longleftrightarrow> linked X F t j"
    by (auto simp: linked_def on_keys_def flinks_def g)
  also have "\<dots> \<longleftrightarrow> incl T t j" by (rule coreD(2) [OF c])
  also have "\<dots> \<longleftrightarrow> incl (T(i \<mapsto> s')) t j" using s ts by (auto simp: incl_def)
  finally show ?case .
next
  case (3 t f')
  then obtain f where f: "F t = Some f" and f': "f' = (if t \<in> trigs s then g f else f)"
    by (auto simp: on_keys_def split: if_splits)
  have fl: "flinks X t f' = flinks X t f" by (simp add: f' flinks_def g)
  have "(\<Sum>j\<in>flinks X t f. nbufs (T(i \<mapsto> s')) j) = (\<Sum>j\<in>flinks X t f. nbufs T j) +
      (if i \<in> flinks X t f then nbufs (T(i \<mapsto> s')) i - nbufs T i else 0)"
    by (rule sum_point_upd) (simp_all add: nbufs_upd)
  then show ?case
    using coreD(3) [OF c f] core_link_iff [OF c f s] s idle [OF _ f]
    by (auto simp: fired_ok_def fl) (auto simp: f' g)
qed

lemma core_new_trace:
  assumes "core X T F" and "T i = None"
  shows "core X (T(i \<mapsto> UntriggeredTrace [] cs m)) F"
proof (rule coreI, goal_cases)
  case (1 j u)
  then show ?case using coreD(1) [OF assms(1)] by (auto split: if_splits)
next
  case (2 t j)
  show ?case using coreD(2) [OF assms(1), of t j] assms(2) by (auto simp: incl_def)
next
  case (3 t f)
  have "j \<noteq> i" if "j \<in> flinks X t f" for j
    using core_unlinked [OF assms(1) 3 assms(2)] that by auto
  then show ?case
    by (intro fired_ok_transfer [OF coreD(3) [OF assms(1) 3]]) (auto simp: nbufs_upd)
qed

lemma core_del_untriggered:
  assumes "core X T F" and "T i = Some (UntriggeredTrace bs cs m)"
  shows "core X (T(i := None)) F"
proof (rule coreI, goal_cases)
  case (1 j u)
  then show ?case using coreD(1) [OF assms(1)] by (auto split: if_splits)
next
  case (2 t j)
  show ?case using coreD(2) [OF assms(1), of t j] assms(2) by (auto simp: incl_def)
next
  case (3 t f)
  have "j \<noteq> i" if "j \<in> flinks X t f" for j
    using core_link_iff [OF assms(1) 3 assms(2)] that by auto
  then show ?case
    by (intro fired_ok_transfer [OF coreD(3) [OF assms(1) 3]]) (auto simp: nbufs_upd)
qed

text \<open>A trace and a trigger are linked; the trigger counts the trace's buffers.\<close>

lemma core_link:
  assumes c: "core {} T F" and s: "T i = Some s" and f: "F t = Some f" and new: "i \<notin> set (ft_traces f)"
    and s': "trigs s' = insert t (trigs s)" "bufs s' = bufs s" "trace_wf s'"
    and f': "ft_id f' = ft_id f" "ft_traces f' = ft_traces f @ [i]"
      "ft_buffer_count f' = ft_buffer_count f + int (length (bufs s))"
      "ft_state f' \<noteq> ReportingTrigger \<Longrightarrow> ft_buffer_count f' = 0"
  shows "core {} (T(i \<mapsto> s')) (F(t \<mapsto> f'))"
proof (rule coreI, goal_cases)
  case (1 j u)
  then show ?case using coreD(1) [OF c] s' by (auto split: if_splits)
next
  case (2 t1 j)
  have "linked {} (F(t \<mapsto> f')) t1 j \<longleftrightarrow> linked {} F t1 j \<or> (t1 = t \<and> j = i)"
    using f f' by (auto simp: linked_def flinks_def)
  also have "\<dots> \<longleftrightarrow> incl T t1 j \<or> (t1 = t \<and> j = i)" using coreD(2) [OF c] by simp
  also have "\<dots> \<longleftrightarrow> incl (T(i \<mapsto> s')) t1 j" using s s' by (auto simp: incl_def)
  finally show ?case .
next
  case (3 t1 f1)
  have nb: "nbufs (T(i \<mapsto> s')) j = nbufs T j" for j
    using s s'(2) by (simp add: nbufs_def)
  show ?case
  proof (cases "t1 = t")
    case True
    with 3 have "f1 = f'" by simp
    then show ?thesis
      using coreD(3) [OF c f] True f' new s by (auto simp: fired_ok_def flinks_def nb)
  next
    case False
    with 3 have "F t1 = Some f1" by simp
    from fired_ok_transfer [OF coreD(3) [OF c this] refl nb] show ?thesis .
  qed
qed

text \<open>
  A trace loses the trigger \<open>t\<close>: the link is added to the set of detached ones, the trigger gives up
  the trace's buffers, and a trace without triggers goes away.
\<close>

lemma fired_ok_unlink:
  assumes c: "core X T F" and s: "T i = Some s" and f: "F t = Some f" and t: "t \<in> trigs s"
  shows "fired_ok (insert (t, i) X) (T(i := u)) t (drop_count (int (length (bufs s))) f)"
proof -
  let ?f = "drop_count (int (length (bufs s))) f"
  have il: "i \<in> flinks X t f" using core_link_iff [OF c f s] t by simp
  have fl: "flinks (insert (t, i) X) t f = flinks X t f - {i}" by (auto simp: flinks_def)
  have "(\<Sum>j\<in>flinks X t f - {i}. nbufs (T(i := u)) j) = (\<Sum>j\<in>flinks X t f - {i}. nbufs T j)"
    by (intro sum.cong) (auto simp: nbufs_upd)
  also have "\<dots> = (\<Sum>j\<in>flinks X t f. nbufs T j) - int (length (bufs s))"
    using il s by (simp add: sum_diff1)
  finally have sum: "(\<Sum>j\<in>flinks X t f - {i}. nbufs (T(i := u)) j) = \<dots>" .
  have idle: "length (bufs s) = 0" if "ft_state f \<noteq> ReportingTrigger"
    using core_idle_empty [OF c f that il] s by simp
  have fo: "ft_id f = t" "distinct (ft_traces f)" "ft_buffer_count f = (\<Sum>j\<in>flinks X t f. nbufs T j)"
    "ft_state f \<noteq> ReportingTrigger \<Longrightarrow> ft_buffer_count f = 0"
    using coreD(3) [OF c f] by (auto simp: fired_ok_def)
  have "ft_buffer_count ?f = (\<Sum>j\<in>flinks (insert (t, i) X) t ?f. nbufs (T(i := u)) j)"
    using fo(3) sum fl by (simp add: drop_count_def flinks_def)
  moreover have "ft_state ?f \<noteq> ReportingTrigger \<longrightarrow> ft_buffer_count ?f = 0" using fo(4) idle by (simp add: drop_count_def)
  moreover have "ft_id ?f = t" "distinct (ft_traces ?f)" using fo(1,2) by (simp_all add: drop_count_def)
  ultimately show ?thesis unfolding fired_ok_def by blast
qed

lemma core_unlink:
  assumes c: "core X T F" and s: "T i = Some s" and f: "F t = Some f" and t: "t \<in> trigs s"
    and u: "case u of None \<Rightarrow> trigs s = {t}
                    | Some s' \<Rightarrow> trigs s' = trigs s - {t} \<and> bufs s' = bufs s \<and> trace_wf s'"
  shows "core (insert (t, i) X) (T(i := u)) (F(t \<mapsto> drop_count (int (length (bufs s))) f))"
proof (rule coreI, goal_cases)
  case (1 j v)
  then show ?case using coreD(1) [OF c] u by (auto split: if_splits option.splits)
next
  case (2 t1 j)
  have "linked (insert (t, i) X) (F(t \<mapsto> drop_count (int (length (bufs s))) f)) t1 j
      \<longleftrightarrow> linked X F t1 j \<and> \<not> (t1 = t \<and> j = i)"
    using f by (auto simp: linked_def flinks_def drop_count_def)
  also have "\<dots> \<longleftrightarrow> incl T t1 j \<and> \<not> (t1 = t \<and> j = i)" using coreD(2) [OF c] by simp
  also have "\<dots> \<longleftrightarrow> incl (T(i := u)) t1 j"
    using s u by (auto simp: incl_def split: option.splits if_splits)
  finally show ?case .
next
  case (3 t1 f1)
  show ?case
  proof (cases "t1 = t")
    case True
    then show ?thesis using 3 fired_ok_unlink [OF c s f t] by simp
  next
    case False
    with 3 have F1: "F t1 = Some f1" by simp
    have "flinks (insert (t, i) X) t1 f1 = flinks X t1 f1" using False by (auto simp: flinks_def)
    moreover have "nbufs (T(i := u)) j = nbufs T j" if "j \<in> flinks X t1 f1" for j
    proof (cases "j = i")
      case True
      then have "t1 \<in> trigs s" using that core_link_iff [OF c F1 s] by simp
      then show ?thesis using True u False s by (auto simp: nbufs_def split: option.splits)
    qed (simp add: nbufs_upd)
    ultimately show ?thesis by (rule fired_ok_transfer [OF coreD(3) [OF c F1]])
  qed
qed

text \<open>A trigger all of whose links are detached disappears.\<close>

lemma core_forget:
  assumes c: "core X T F" and X: "\<And>t' i. (t', i) \<in> X \<Longrightarrow> t' = t" and f: "F t = Some f" "flinks X t f = {}"
  shows "core {} T (F(t := None))"
proof (rule coreI, goal_cases)
  case (1 i s)
  then show ?case by (rule coreD(1) [OF c])
next
  case (2 t1 i)
  have fl: "flinks {} t1 f1 = flinks X t1 f1" if "t1 \<noteq> t" for f1
    using X that by (auto simp: flinks_def)
  show ?case
    using coreD(2) [OF c, of t1 i] f fl
    by (cases "t1 = t") (auto simp: linked_def)
next
  case (3 t1 f1)
  then have "F t1 = Some f1" "t1 \<noteq> t" by (auto split: if_splits)
  moreover have "flinks {} t1 f1 = flinks X t1 f1" using X \<open>t1 \<noteq> t\<close> by (auto simp: flinks_def)
  ultimately show ?case using coreD(3) [OF c, of t1 f1] fired_ok_transfer by blast
qed

text \<open>A trigger changes its state only.\<close>

lemma core_set_state:
  assumes c: "core X T F" and f: "F t = Some f" and "ft_buffer_count f = 0"
    and f': "ft_id f' = ft_id f" "ft_traces f' = ft_traces f" "ft_buffer_count f' = ft_buffer_count f"
  shows "core X T (F(t \<mapsto> f'))"
proof (rule coreI, goal_cases)
  case (1 i s)
  then show ?case by (rule coreD(1) [OF c])
next
  case (2 t1 i)
  have "linked X (F(t \<mapsto> f')) t1 i \<longleftrightarrow> linked X F t1 i" using f f' by (auto simp: linked_def flinks_def)
  then show ?case using coreD(2) [OF c] by simp
next
  case (3 t1 f1)
  then show ?case
    using coreD(3) [OF c, of t1] f assms(3) f'
    by (cases "t1 = t") (auto simp: fired_ok_def flinks_def)
qed

text \<open>A trigger without traces appears.\<close>

lemma core_new_trigger:
  assumes c: "core X T F" and "F t = None" and f: "ft_id f = t" "ft_traces f = []" "ft_buffer_count f = 0"
  shows "core X T (F(t \<mapsto> f))"
proof (rule coreI, goal_cases)
  case (1 i s)
  then show ?case by (rule coreD(1) [OF c])
next
  case (2 t1 i)
  have "linked X (F(t \<mapsto> f)) t1 i \<longleftrightarrow> linked X F t1 i" using assms(2) f by (auto simp: linked_def flinks_def)
  then show ?case using coreD(2) [OF c] by simp
next
  case (3 t1 f1)
  then show ?case
    using coreD(3) [OF c, of t1] f by (cases "t1 = t") (auto simp: fired_ok_def flinks_def)
qed

end
