(* ===== verification/DataOps.thy ===== *)
theory DataOps
  imports DataInv
begin

text \<open>
  Every operation of the data manager returns on a state that satisfies the invariant, keeps the
  invariant, and accounts for every buffer: \<open>held\<close> is the multiset of buffers the data manager owns,
  and each lemma says how the operation changes it.
\<close>

section \<open>Counters, LRU list and buffers held\<close>

definition if_untriggered :: "tracestate \<Rightarrow> int \<Rightarrow> int" where
  "if_untriggered s n = (if is_untriggered s then n else 0)"

definition if_triggered :: "tracestate \<Rightarrow> int \<Rightarrow> int" where
  "if_triggered s n = (if is_untriggered s then 0 else n)"

abbreviation nb :: "tracestate \<Rightarrow> int" where
  "nb s \<equiv> int (length (bufs s))"

definition counters_ok :: "DataManager \<Rightarrow> bool" where
  "counters_ok dm \<longleftrightarrow>
     trace_count dm = msum (\<lambda>_ s. 1) (trace_of dm) \<and>
     buffer_count dm = msum (\<lambda>_ s. nb s) (trace_of dm) \<and>
     ut_trace_count (untriggered dm) = msum (\<lambda>_ s. if_untriggered s 1) (trace_of dm) \<and>
     ut_buffer_count (untriggered dm) = msum (\<lambda>_ s. if_untriggered s (nb s)) (trace_of dm) \<and>
     td_trace_count (triggered dm) = msum (\<lambda>_ s. if_triggered s 1) (trace_of dm) \<and>
     td_buffer_count (triggered dm) = msum (\<lambda>_ s. if_triggered s (nb s)) (trace_of dm)"

definition weight :: "(tracestate \<Rightarrow> int) \<Rightarrow> tracestate option \<Rightarrow> int" where
  "weight g u = (case u of None \<Rightarrow> 0 | Some s \<Rightarrow> g s)"

lemma weight_simps [simp]: "weight g None = 0" "weight g (Some s) = g s"
  by (simp_all add: weight_def)

lemma counters_ok_upd:
  assumes "counters_ok dm" and "trace_of dm' = (trace_of dm)(i := u)"
    and "trace_count dm' = trace_count dm + (weight (\<lambda>s. 1) u - weight (\<lambda>s. 1) (trace_of dm i))"
    and "buffer_count dm' = buffer_count dm + (weight nb u - weight nb (trace_of dm i))"
    and "ut_trace_count (untriggered dm') = ut_trace_count (untriggered dm) +
      (weight (\<lambda>s. if_untriggered s 1) u - weight (\<lambda>s. if_untriggered s 1) (trace_of dm i))"
    and "ut_buffer_count (untriggered dm') = ut_buffer_count (untriggered dm) +
      (weight (\<lambda>s. if_untriggered s (nb s)) u - weight (\<lambda>s. if_untriggered s (nb s)) (trace_of dm i))"
    and "td_trace_count (triggered dm') = td_trace_count (triggered dm) +
      (weight (\<lambda>s. if_triggered s 1) u - weight (\<lambda>s. if_triggered s 1) (trace_of dm i))"
    and "td_buffer_count (triggered dm') = td_buffer_count (triggered dm) +
      (weight (\<lambda>s. if_triggered s (nb s)) u - weight (\<lambda>s. if_triggered s (nb s)) (trace_of dm i))"
  shows "counters_ok dm'"
proof -
  have pt: "msum (\<lambda>_. g) (trace_of dm') = msum (\<lambda>_. g) (trace_of dm) + (weight g u - weight g (trace_of dm i))"
    for g :: "tracestate \<Rightarrow> int"
    using msum_point [of "trace_of dm" g i u] by (simp add: assms(2) weight_def)
  show ?thesis
    using assms(1,3-) unfolding counters_ok_def by (simp add: pt)
qed

definition lru_ok :: "DataManager \<Rightarrow> bool" where
  "lru_ok dm \<longleftrightarrow> distinct (lru (untriggered dm)) \<and>
     set (lru (untriggered dm)) = {i. \<exists>s. trace_of dm i = Some s \<and> is_untriggered s}"

definition held :: "DataManager \<Rightarrow> int multiset" where
  "held dm = msum (\<lambda>_ s. mset (bufs s)) (trace_of dm)"

definition obufs :: "tracestate option \<Rightarrow> int list" where
  "obufs u = (case u of None \<Rightarrow> [] | Some s \<Rightarrow> bufs s)"

lemma obufs_simps [simp]: "obufs None = []" "obufs (Some s) = bufs s"
  by (simp_all add: obufs_def)

lemma held_upd:
  "trace_of dm' = (trace_of dm)(i := u) \<Longrightarrow> held dm' + mset (obufs (trace_of dm i)) = held dm + mset (obufs u)"
  using msum_point [of "trace_of dm" "\<lambda>s. mset (bufs s)" i u]
  by (cases "trace_of dm i"; cases u) (simp_all add: held_def obufs_def)

lemma held_cong: "trace_of dm' = trace_of dm \<Longrightarrow> held dm' = held dm"
  by (simp add: held_def)

lemma size_sum_multiset:
  "finite A \<Longrightarrow> size (\<Sum>i\<in>A. (h i :: 'a multiset)) = (\<Sum>i\<in>A. size (h i))"
  by (induction rule: finite_induct) simp_all

lemma held_size: "counters_ok dm \<Longrightarrow> buffer_count dm = int (size (held dm))"
proof -
  have "int (size (msum (\<lambda>_ s. mset (bufs s)) (trace_of dm))) = msum (\<lambda>_ s. nb s) (trace_of dm)"
    by (simp add: msum_def size_sum_multiset)
  then show "counters_ok dm \<Longrightarrow> ?thesis" by (simp add: counters_ok_def held_def)
qed

section \<open>The invariant\<close>

definition dm_ok :: "(TriggerID \<times> u64) set \<Rightarrow> TriggerID set \<Rightarrow> DataManager \<Rightarrow> bool" where
  "dm_ok X P dm \<longleftrightarrow> core X (trace_of dm) (fired_of dm) \<and> queues_ok X P dm \<and> counters_ok dm \<and> lru_ok dm"

text \<open>The invariant between operations.\<close>

definition dm_inv :: "DataManager \<Rightarrow> bool" where
  "dm_inv dm \<longleftrightarrow> dm_ok {} {} dm"

lemma dm_okI:
  "core X (trace_of dm) (fired_of dm) \<Longrightarrow> queues_ok X P dm \<Longrightarrow> counters_ok dm \<Longrightarrow> lru_ok dm \<Longrightarrow> dm_ok X P dm"
  by (simp add: dm_ok_def)

lemma dm_okD:
  assumes "dm_ok X P dm"
  shows "core X (trace_of dm) (fired_of dm)" and "queues_ok X P dm" and "counters_ok dm" and "lru_ok dm"
  using assms by (simp_all add: dm_ok_def)

lemmas dm_setter_defs = put_trace_def del_trace_def put_queue_def add_untriggered_def
  add_triggered_def add_total_def set_lru_def

lemma lru_simps [simp]:
  "lru (untriggered (put_trace i s dm)) = lru (untriggered dm)"
  "lru (untriggered (del_trace i dm)) = lru (untriggered dm)"
  "lru (untriggered (put_queue k q dm)) = lru (untriggered dm)"
  "lru (untriggered (add_untriggered x y dm)) = lru (untriggered dm)"
  "lru (untriggered (add_triggered x y dm)) = lru (untriggered dm)"
  "lru (untriggered (add_total x y dm)) = lru (untriggered dm)"
  "lru (untriggered (set_lru g dm)) = g (lru (untriggered dm))"
  by (simp_all add: dm_setter_defs)

lemma now_simps [simp]:
  "now (put_trace i s dm) = now dm" "now (del_trace i dm) = now dm" "now (put_queue k q dm) = now dm"
  "now (add_untriggered x y dm) = now dm" "now (add_triggered x y dm) = now dm"
  "now (add_total x y dm) = now dm" "now (set_lru g dm) = now dm"
  by (simp_all add: dm_setter_defs)

lemma untriggered_simps [simp]:
  "untriggered (put_trace i s dm) = untriggered dm" "untriggered (del_trace i dm) = untriggered dm"
  "untriggered (put_queue k q dm) = untriggered dm" "untriggered (add_triggered x y dm) = untriggered dm"
  "untriggered (add_total x y dm) = untriggered dm"
  by (simp_all add: dm_setter_defs)

text \<open>A step that touches the queues only.\<close>

lemma counters_ok_queues_only: "queues_only dm dm' \<Longrightarrow> counters_ok dm' = counters_ok dm"
  by (simp add: counters_ok_def queues_only_views)

lemma lru_ok_queues_only: "queues_only dm dm' \<Longrightarrow> lru_ok dm' = lru_ok dm"
  by (simp add: lru_ok_def queues_only_views)

lemma dm_inv_now [simp]: "dm_inv (dm\<lparr>now := t\<rparr>) = dm_inv dm"
  by (simp add: dm_inv_def dm_ok_def counters_ok_def lru_ok_def)

lemma InitDataManager_ok: "dm_inv (InitDataManager t)"
  by (simp add: dm_inv_def dm_ok_def core_def queues_ok_def counters_ok_def lru_ok_def
      InitDataManager_def trace_of_def fired_of_def queue_of_def linked_def incl_def)

section \<open>Looking up or creating a trace\<close>

lemma getOrCreateTrace_ok:
  assumes "dm_ok X P dm"
  shows "dm_ok X P (getOrCreateTrace i dm)" and "trace_of (getOrCreateTrace i dm) i \<noteq> None"
    and "held (getOrCreateTrace i dm) = held dm" and "fired_of (getOrCreateTrace i dm) = fired_of dm"
    and "queue_of (getOrCreateTrace i dm) = queue_of dm"
proof -
  note ok = dm_okD [OF assms]
  let ?dm = "getOrCreateTrace i dm"
  have "dm_ok X P ?dm \<and> trace_of ?dm i \<noteq> None \<and> held ?dm = held dm \<and> fired_of ?dm = fired_of dm \<and>
      queue_of ?dm = queue_of dm"
  proof (cases "trace_of dm i")
    case (Some s)
    then show ?thesis using assms by (simp add: getOrCreateTrace_def)
  next
    case None
    then have eq: "?dm = initUntriggeredTrace i dm" by (simp add: getOrCreateTrace_def)
    have tr: "trace_of ?dm = (trace_of dm)(i \<mapsto> UntriggeredTrace [] [] (now dm))"
      by (simp add: eq initUntriggeredTrace_def)
    have "counters_ok ?dm"
      by (rule counters_ok_upd [OF ok(3) tr])
         (simp_all add: None eq initUntriggeredTrace_def dm_setter_defs if_untriggered_def if_triggered_def)
    moreover have "lru_ok ?dm"
      using ok(4) None
      by (auto simp: lru_ok_def tr) (auto simp: eq initUntriggeredTrace_def)
    moreover have "core X (trace_of ?dm) (fired_of ?dm)"
      using core_new_trace [OF ok(1) None] by (simp add: eq initUntriggeredTrace_def)
    moreover have "queues_ok X P ?dm" using ok(2) by (simp add: eq initUntriggeredTrace_def)
    ultimately show ?thesis
      using held_upd [OF tr] None
      by (simp add: dm_ok_def) (simp add: eq initUntriggeredTrace_def)
  qed
  then show "dm_ok X P ?dm" "trace_of ?dm i \<noteq> None" "held ?dm = held dm"
    "fired_of ?dm = fired_of dm" "queue_of ?dm = queue_of dm" by auto
qed

section \<open>Changing the buffers of a trace\<close>

text \<open>
  The common part of \<^verbatim>\<open>addBuffers\<close> and \<^verbatim>\<open>takeBuffers\<close> on a triggered trace: the counters move by
  \<open>d\<close>, every trigger of the trace is told through \<open>body\<close>, and the trace gets its new state.
\<close>

lemma set_bufs_ok:
  assumes dm: "dm_ok X P dm" and s: "trace_of dm i = Some s" and nt: "\<not> is_untriggered s"
    and s': "trace_wf s'" "trigs s' = trigs s" "\<not> is_untriggered s'" "nb s' = nb s + d"
    and ts: "set ts = trigs s" "distinct ts" "set ts \<inter> P' = {}"
    and step: "\<And>dm t f. queues_ok X P dm \<Longrightarrow> fired_of dm t = Some f \<Longrightarrow> t \<notin> P' \<Longrightarrow>
      yields (body t dm) (\<lambda>dm'. queues_only dm dm' \<and> queues_ok X P dm' \<and> fired_of dm' = (fired_of dm)(t \<mapsto> g f))"
    and g: "\<And>f. ft_id (g f) = ft_id f" "\<And>f. ft_traces (g f) = ft_traces f"
      "\<And>f. ft_buffer_count (g f) = ft_buffer_count f + d"
    and idle: "\<And>t f. t \<in> trigs s \<Longrightarrow> fired_of dm t = Some f \<Longrightarrow> ft_state (g f) \<noteq> ReportingTrigger \<Longrightarrow>
      ft_buffer_count (g f) = 0"
  shows "yields (foreach body ts (add_triggered 0 d (add_total 0 d dm)))
     (\<lambda>dm1. dm_ok X P (put_trace i s' dm1) \<and> queues_only (add_triggered 0 d (add_total 0 d dm)) dm1 \<and>
        fired_of dm1 = on_keys (trigs s) g (fired_of dm) \<and>
        held (put_trace i s' dm1) + mset (bufs s) = held dm + mset (bufs s'))"
proof -
  note ok = dm_okD [OF dm]
  let ?dm0 = "add_triggered 0 d (add_total 0 d dm)"
  have "set ts \<subseteq> dom (fired_of ?dm0)" using core_trigs_dom [OF ok(1) s] ts(1) by simp
  from foreach_fired [where g = g and body = body, OF step ts(2) this ts(3)] ok(2)
  have "yields (foreach body ts ?dm0) (\<lambda>dm1. queues_only ?dm0 dm1 \<and> queues_ok X P dm1 \<and>
      fired_of dm1 = on_keys (trigs s) g (fired_of dm))" by (simp add: ts(1))
  then show ?thesis
  proof (rule yields_mono)
    fix dm1
    assume dm1: "queues_only ?dm0 dm1 \<and> queues_ok X P dm1 \<and> fired_of dm1 = on_keys (trigs s) g (fired_of dm)"
    then have qo: "queues_only ?dm0 dm1" by simp
    note v = queues_only_views [OF qo]
    have tr: "trace_of (put_trace i s' dm1) = (trace_of dm)(i \<mapsto> s')" by (simp add: v)
    have "counters_ok (put_trace i s' dm1)"
      by (rule counters_ok_upd [OF ok(3) tr])
         (use s s' nt v in \<open>simp_all add: put_trace_def if_untriggered_def if_triggered_def
            add_triggered_def add_total_def\<close>)
    moreover have "lru_ok (put_trace i s' dm1)"
      using ok(4) s s'(3) nt v(3) unfolding lru_ok_def tr by auto
    moreover have "core X (trace_of (put_trace i s' dm1)) (fired_of (put_trace i s' dm1))"
      using core_set_bufs [OF ok(1) s s'(1,2), of g] g s'(4) idle dm1 by (simp add: v)
    ultimately show "dm_ok X P (put_trace i s' dm1) \<and> queues_only ?dm0 dm1 \<and>
        fired_of dm1 = on_keys (trigs s) g (fired_of dm) \<and>
        held (put_trace i s' dm1) + mset (bufs s) = held dm + mset (bufs s')"
      using dm1 held_upd [OF tr] s by (simp add: dm_ok_def)
  qed
qed

lemma bump_sel [simp]:
  "ft_id (bump n f) = ft_id f" "ft_traces (bump n f) = ft_traces f"
  "ft_buffer_count (bump n f) = ft_buffer_count f + n" "ft_state (bump n f) = ReportingTrigger"
  by (simp_all add: bump_def)

lemma drop_count_sel [simp]:
  "ft_id (drop_count n f) = ft_id f" "ft_traces (drop_count n f) = ft_traces f"
  "ft_buffer_count (drop_count n f) = ft_buffer_count f + - n" "ft_state (drop_count n f) = ft_state f"
  by (simp_all add: drop_count_def)

text \<open>No trigger and no queue appears or disappears.\<close>

definition same_objects :: "DataManager \<Rightarrow> DataManager \<Rightarrow> bool" where
  "same_objects dm dm' \<longleftrightarrow>
     dom (fired_of dm') = dom (fired_of dm) \<and> dom (queue_of dm) \<subseteq> dom (queue_of dm')"

lemma dom_on_keys [simp]: "dom (on_keys A g m) = dom m"
  by (auto simp: on_keys_def split: if_splits)

text \<open>The two instances: buffers arrive, and all buffers are taken.\<close>

lemma add_bufs_ok:
  assumes "dm_ok X P dm" and "trace_of dm i = Some s" and "\<not> is_untriggered s"
    and "bufs s' = bufs s @ bs" "trace_wf s'" "trigs s' = trigs s" "\<not> is_untriggered s'"
    and "set ts = trigs s" "distinct ts" "set ts \<inter> P = {}"
  shows "yields (foreach (\<lambda>t. buffersAdded t (int (length bs))) ts
            (add_triggered 0 (int (length bs)) (add_total 0 (int (length bs)) dm)))
     (\<lambda>dm1. dm_ok X P (put_trace i s' dm1) \<and> held (put_trace i s' dm1) = held dm + mset bs \<and>
        trace_of dm1 = trace_of dm \<and> untriggered dm1 = untriggered dm \<and> same_objects dm dm1)"
proof -
  let ?dm0 = "add_triggered 0 (int (length bs)) (add_total 0 (int (length bs)) dm)"
  have "yields (foreach (\<lambda>t. buffersAdded t (int (length bs))) ts ?dm0)
     (\<lambda>dm1. dm_ok X P (put_trace i s' dm1) \<and> queues_only ?dm0 dm1 \<and>
        fired_of dm1 = on_keys (trigs s) (bump (int (length bs))) (fired_of dm) \<and>
        held (put_trace i s' dm1) + mset (bufs s) = held dm + mset (bufs s'))"
    using assms(4)
    by (intro set_bufs_ok [where g = "bump (int (length bs))" and P' = P and s = s and s' = s',
          OF assms(1,2,3,5,6,7) _ assms(8,9,10) buffersAdded_ok]) auto
  then show ?thesis
  proof (rule yields_mono)
    fix dm1
    assume a: "dm_ok X P (put_trace i s' dm1) \<and> queues_only ?dm0 dm1 \<and>
        fired_of dm1 = on_keys (trigs s) (bump (int (length bs))) (fired_of dm) \<and>
        held (put_trace i s' dm1) + mset (bufs s) = held dm + mset (bufs s')"
    then have "queues_only ?dm0 dm1" by simp
    note v = queues_only_views [OF this]
    show "dm_ok X P (put_trace i s' dm1) \<and> held (put_trace i s' dm1) = held dm + mset bs \<and>
        trace_of dm1 = trace_of dm \<and> untriggered dm1 = untriggered dm \<and> same_objects dm dm1"
      using a v assms(4) by (simp add: same_objects_def)
  qed
qed

lemma take_bufs_ok:
  assumes dm: "dm_ok X P dm" and s: "trace_of dm i = Some s" and ut: "\<not> is_untriggered s"
    and s': "bufs s' = []" "trace_wf s'" "trigs s' = trigs s" "\<not> is_untriggered s'"
    and ts: "set ts = trigs s" "distinct ts"
  shows "yields (foreach (\<lambda>t. buffersRemoved t (nb s)) ts
            (add_triggered 0 (- nb s) (add_total 0 (- nb s) dm)))
     (\<lambda>dm1. dm_ok X P (put_trace i s' dm1) \<and> queues_only (add_triggered 0 (- nb s) (add_total 0 (- nb s) dm)) dm1 \<and>
        fired_of dm1 = on_keys (trigs s) (drop_count (nb s)) (fired_of dm) \<and>
        held (put_trace i s' dm1) + mset (bufs s) = held dm)"
proof -
  have idle: "ft_buffer_count (drop_count (nb s) f) = 0"
    if "t \<in> trigs s" "fired_of dm t = Some f" "ft_state (drop_count (nb s) f) \<noteq> ReportingTrigger" for t f
    using that coreD(3) [OF dm_okD(1) [OF dm] that(2)] core_idle_empty [OF dm_okD(1) [OF dm] that(2), of i]
      core_link_iff [OF dm_okD(1) [OF dm] that(2) s] s by (auto simp: fired_ok_def)
  show ?thesis
    using s'(1)
    by (intro yields_mono [OF set_bufs_ok [where g = "drop_count (nb s)" and P' = "{}" and s' = s',
          OF dm s ut s'(2,3,4) _ ts _ buffersRemoved_ok _ _ _ idle]]) auto
qed

subsection \<open>AddBuffers\<close>

lemma untriggered_set:
  assumes dm: "dm_ok X P dm" and s: "trace_of dm i = Some s" "is_untriggered s" and s': "is_untriggered s'"
    and tr: "trace_of dm' = (trace_of dm)(i \<mapsto> s')" and q: "queue_of dm' = queue_of dm"
    and l: "lru (untriggered dm') = lru_move_front i (lru (untriggered dm))"
    and c: "counters_ok dm'"
  shows "dm_ok X P dm'"
proof -
  note ok = dm_okD [OF dm]
  have "trace_wf s'" "trigs s' = trigs s" "trigs s = {}"
    using s(2) s' by (cases s; cases s'; simp)+
  then have "core X (trace_of dm') (fired_of dm')"
    using core_set_bufs [OF ok(1) s(1), of s' "\<lambda>f. f\<lparr>ft_buffer_count := ft_buffer_count f + (nb s' - nb s)\<rparr>"]
      fired_of_cong [OF q] by (simp add: tr)
  moreover have "lru_ok dm'" using ok(4) s s' by (auto simp: lru_ok_def tr l)
  ultimately show ?thesis using ok(2) c q by (simp add: dm_ok_def queues_ok_def)
qed

lemma trace_AddBuffers_ok:
  assumes dm: "dm_ok X {} dm" and ro: "orders_ok ro" and s: "trace_of dm i = Some s"
  shows "yields (trace_AddBuffers ro i bs dm) (\<lambda>dm'. dm_ok X {} dm' \<and> held dm' = held dm + mset bs \<and>
     (\<exists>s'. trace_of dm' = (trace_of dm)(i \<mapsto> s') \<and> bufs s' = bufs s @ bs \<and> trigs s' = trigs s) \<and>
     lru (untriggered dm') = (if is_untriggered s then lru_move_front i (lru (untriggered dm)) else lru (untriggered dm)) \<and>
     same_objects dm dm')"
proof -
  note ok = dm_okD [OF dm]
  have wf: "trace_wf s" by (rule coreD(1) [OF ok(1) s])
  have kd: "set (ro_trigger ro ts) = set ts" "distinct (ro_trigger ro ts) = distinct ts" for ts
    using ro by (simp_all add: orders_ok_def key_order_set key_order_distinct)
  show ?thesis
  proof (cases s)
    case (UntriggeredTrace bs0 cs m)
    let ?dm = "put_trace i (UntriggeredTrace (bs0 @ bs) cs (now dm)) (add_untriggered 0 (int (length bs))
      (add_total 0 (int (length bs)) (set_lru (lru_move_front i) dm)))"
    have tr: "trace_of ?dm = (trace_of dm)(i \<mapsto> UntriggeredTrace (bs0 @ bs) cs (now dm))" by simp
    have "counters_ok ?dm"
      by (rule counters_ok_upd [OF ok(3) tr])
         (simp_all add: s UntriggeredTrace dm_setter_defs if_untriggered_def if_triggered_def)
    then have "dm_ok X {} ?dm"
      by (intro untriggered_set [OF dm s _ _ tr]) (simp_all add: UntriggeredTrace)
    then show ?thesis
      using held_upd [OF tr] s UntriggeredTrace
      by (auto simp: trace_AddBuffers_defs Let_def ac_simps same_objects_def
          intro!: exI [of _ "UntriggeredTrace (bs0 @ bs) cs (now dm)"] simp del: fun_upd_apply)
  next
    case (TriggeredTrace ts)
    show ?thesis
      using add_bufs_ok [OF dm s, of "ReportingTrace bs ts" bs "ro_trigger ro ts"] wf kd
      by (auto simp: s TriggeredTrace trace_AddBuffers_defs Let_def yields_def same_objects_def
          intro!: exI [of _ "ReportingTrace bs ts"] simp del: fun_upd_apply)
  next
    case (ReportingTrace bs0 ts)
    show ?thesis
      using add_bufs_ok [OF dm s, of "ReportingTrace (bs0 @ bs) ts" bs "ro_trigger ro ts"] wf kd
      by (auto simp: s ReportingTrace trace_AddBuffers_defs Let_def yields_def same_objects_def
          intro!: exI [of _ "ReportingTrace (bs0 @ bs) ts"] simp del: fun_upd_apply)
  qed
qed

text \<open>
  \<^verbatim>\<open>AddBuffers\<close> appends to the buffers of one trace, which it creates if it has to, and moves an
  untriggered trace to the front of the LRU list.
\<close>

lemma AddBuffers_ok:
  assumes "dm_inv dm" and "orders_ok ro"
  shows "yields (AddBuffers ro i bs dm) (\<lambda>dm'. dm_inv dm' \<and> held dm' = held dm + mset bs \<and>
     (\<exists>s'. trace_of dm' = (trace_of dm)(i \<mapsto> s') \<and> bufs s' = obufs (trace_of dm i) @ bs \<and>
        trigs s' = (case trace_of dm i of None \<Rightarrow> {} | Some s \<Rightarrow> trigs s) \<and>
        (trigs s' = {} \<longrightarrow> hd (lru (untriggered dm')) = i)) \<and>
     same_objects dm dm')"
proof -
  note g = getOrCreateTrace_ok [OF assms(1) [unfolded dm_inv_def], of i]
  obtain s where s: "trace_of (getOrCreateTrace i dm) i = Some s" using g(2) by auto
  note ok = dm_okD [OF g(1)]
  have s': "bufs s = obufs (trace_of dm i)" "trigs s = (case trace_of dm i of None \<Rightarrow> {} | Some s \<Rightarrow> trigs s)"
    using s by (auto simp: getOrCreateTrace_def initUntriggeredTrace_def split: option.splits)
  have tr: "(trace_of (getOrCreateTrace i dm))(i \<mapsto> u) = (trace_of dm)(i \<mapsto> u)" for u
    by (auto simp: getOrCreateTrace_def initUntriggeredTrace_def split: option.splits)
  have u: "trigs s = {} \<longleftrightarrow> is_untriggered s" using coreD(1) [OF ok(1) s] by (cases s) auto
  have "is_untriggered s \<Longrightarrow> i \<in> set (lru (untriggered (getOrCreateTrace i dm)))"
    using ok(4) s by (auto simp: lru_ok_def)
  then have "is_untriggered s \<Longrightarrow> hd (lru_move_front i (lru (untriggered (getOrCreateTrace i dm)))) = i"
    by (simp add: lru_move_front_def)
  then show ?thesis
    using trace_AddBuffers_ok [OF g(1) assms(2) s, of bs] g(3,4,5) s' tr u unfolding AddBuffers_def dm_inv_def
    by (elim yieldsE) (auto simp: same_objects_def simp del: fun_upd_apply intro!: exI)
qed

subsection \<open>AddBreadcrumbs\<close>

text \<open>Buffered for an untriggered trace, handed back for a triggered one.\<close>

lemma AddBreadcrumbs_ok:
  assumes "dm_inv dm"
  shows "yields (AddBreadcrumbs i crumbs dm) (\<lambda>(out, dm'). dm_inv dm' \<and> held dm' = held dm \<and>
     same_objects dm dm' \<and>
     out = (case trace_of dm i of None \<Rightarrow> [] | Some s \<Rightarrow> if is_untriggered s then [] else crumbs))"
proof -
  let ?dm = "getOrCreateTrace i dm"
  note g = getOrCreateTrace_ok [OF assms [unfolded dm_inv_def], of i]
  obtain s where s: "trace_of ?dm i = Some s" using g(2) by auto
  have iu: "(case trace_of dm i of None \<Rightarrow> [] | Some s \<Rightarrow> if is_untriggered s then [] else crumbs) =
      (if is_untriggered s then [] else crumbs)"
    using s by (auto simp: getOrCreateTrace_def initUntriggeredTrace_def split: option.splits)
  note ok = dm_okD [OF g(1)]
  show ?thesis
    unfolding iu
  proof (cases s)
    case (UntriggeredTrace bs cs m)
    let ?dm' = "put_trace i (UntriggeredTrace bs (cs @ crumbs) (now ?dm)) (set_lru (lru_move_front i) ?dm)"
    have tr: "trace_of ?dm' = (trace_of ?dm)(i \<mapsto> UntriggeredTrace bs (cs @ crumbs) (now ?dm))" by simp
    have "counters_ok ?dm'"
      by (rule counters_ok_upd [OF ok(3) tr])
         (simp_all add: s UntriggeredTrace dm_setter_defs if_untriggered_def if_triggered_def)
    then have "dm_ok {} {} ?dm'"
      by (intro untriggered_set [OF g(1) s _ _ tr]) (simp_all add: UntriggeredTrace)
    then show "yields (AddBreadcrumbs i crumbs dm) (\<lambda>(out, dm'). dm_inv dm' \<and> held dm' = held dm \<and>
        same_objects dm dm' \<and> out = (if is_untriggered s then [] else crumbs))"
      using held_upd [OF tr] s UntriggeredTrace g(3,4,5)
      by (simp add: AddBreadcrumbs_def trace_AddBreadcrumbs_defs dm_inv_def same_objects_def)
  qed (use s g in \<open>auto simp: AddBreadcrumbs_def trace_AddBreadcrumbs_defs dm_inv_def same_objects_def\<close>)
qed

end
