(* ===== verification/DataTriggers.thy ===== *)
theory DataTriggers
  imports DataOps
begin

text \<open>
  The operations that link and unlink traces and triggers: \<^verbatim>\<open>Trigger\<close>, \<^verbatim>\<open>RemoveTrigger\<close>, eviction
  and reporting of a fired trigger, and the time-out of idle triggers.
\<close>

section \<open>Creating queues and triggers\<close>

text \<open>The ids of a queue's triggers that have something to report.\<close>

definition rep :: "DataManager \<Rightarrow> int \<Rightarrow> u64 set" where
  "rep dm k = {b. \<exists>f. fired_of dm (tid k b) = Some f \<and> ft_state f = ReportingTrigger}"

lemma sched_ok_keys:
  "sched_ok P k q \<Longrightarrow> queue_of dm k = Some q \<Longrightarrow> ppt_keys (tq_reporting q) = {b \<in> rep dm k. tid k b \<notin> P}"
  by (auto simp: sched_ok_def rep_def fired_of_def)

lemma dm_inv_keys:
  assumes "dm_inv dm" and "queue_of dm k = Some q"
  shows "ppt_inv (tq_reporting q)" and "ppt_keys (tq_reporting q) = rep dm k"
    and "Size (tq_reporting q) = int (card (rep dm k))"
proof -
  have s: "sched_ok {} k q" using queues_okD [OF dm_okD(2)] assms by (auto simp: dm_inv_def)
  then show i: "ppt_inv (tq_reporting q)" by (simp add: sched_ok_def)
  show k: "ppt_keys (tq_reporting q) = rep dm k" using sched_ok_keys [OF s assms(2)] by simp
  show "Size (tq_reporting q) = int (card (rep dm k))" using ppt.sz_keys [OF i] by (simp add: k)
qed

lemma GetQueue_ok:
  assumes "dm_inv dm"
  shows "dm_inv (GetQueue k dm)" and "queue_of (GetQueue k dm) k \<noteq> None"
    and "trace_of (GetQueue k dm) = trace_of dm" and "fired_of (GetQueue k dm) = fired_of dm"
    and "queues_only dm (GetQueue k dm)"
proof -
  have "dm_inv (GetQueue k dm) \<and> queue_of (GetQueue k dm) k \<noteq> None \<and>
      trace_of (GetQueue k dm) = trace_of dm \<and> fired_of (GetQueue k dm) = fired_of dm \<and>
      queues_only dm (GetQueue k dm)"
  proof (cases "queue_of dm k")
    case None
    note ok = dm_okD [OF assms [unfolded dm_inv_def]]
    have f: "fired_of (GetQueue k dm) = fired_of dm"
      using None by (auto simp: GetQueue_def initTriggerQueue_def fired_of_def fun_eq_iff)
    have "queues_ok {} {} (GetQueue k dm)"
      using ok(2) None ppt.init_ok
      by (auto simp: GetQueue_def initTriggerQueue_def queues_ok_def sched_ok_def count_ok_def)
    moreover have qo: "queues_only dm (GetQueue k dm)"
      using None by (simp add: GetQueue_def initTriggerQueue_def)
    ultimately show ?thesis
      using ok f None
      by (simp add: dm_inv_def dm_ok_def counters_ok_queues_only [OF qo] lru_ok_queues_only [OF qo]
          queues_only_views [OF qo]) (simp add: GetQueue_def initTriggerQueue_def)
  qed (use assms in \<open>simp add: GetQueue_def\<close>)
  then show "dm_inv (GetQueue k dm)" "queue_of (GetQueue k dm) k \<noteq> None"
    "trace_of (GetQueue k dm) = trace_of dm" "fired_of (GetQueue k dm) = fired_of dm"
    "queues_only dm (GetQueue k dm)" by blast+
qed

lemma dm_ok_queues_only:
  assumes "dm_ok X P dm" and "queues_only dm dm'" and "core X' (trace_of dm) (fired_of dm')"
    and "queues_ok X' P' dm'"
  shows "dm_ok X' P' dm'"
  using assms dm_okD [OF assms(1)]
  by (simp add: dm_ok_def counters_ok_queues_only lru_ok_queues_only queues_only_views)

lemma getOrCreateTrigger_ok:
  assumes dm: "dm_inv dm" and q: "queue_of dm k = Some q"
  shows "yields (getOrCreateTrigger k b dm)
     (\<lambda>dm'. dm_inv dm' \<and> queues_only dm dm' \<and> fired_of dm' (tid k b) \<noteq> None \<and>
        (\<forall>t. t \<noteq> tid k b \<longrightarrow> fired_of dm' t = fired_of dm t) \<and>
        (fired_of dm (tid k b) \<noteq> None \<longrightarrow> dm' = dm))"
proof (cases "map_of (tq_fired q) b")
  case (Some f)
  then show ?thesis using dm q by (simp add: getOrCreateTrigger_def fired_of_def)
next
  case None
  note ok = dm_okD [OF dm [unfolded dm_inv_def]]
  have qok: "sched_ok {} k q" "count_ok {} k q" using queues_okD [OF ok(2) q] by auto
  let ?q = "initIdleTrigger b (now dm) q" and ?dm = "put_queue k (initIdleTrigger b (now dm) q) dm"
  define f where "f = \<lparr>ft_id = tid k b, ft_traces = [], ft_buffer_count = 0, ft_state = IdleTrigger (now dm)\<rparr>"
  have qe: "tq_fired ?q = AList.update b f (tq_fired q)"
    using qok(1) by (simp add: initIdleTrigger_def put_fired_def f_def sched_ok_def)
  have F: "fired_of ?dm = (fired_of dm)(tid k b \<mapsto> f)"
    using q by (auto simp: fired_of_def qe fun_eq_iff)
  have new: "fired_of dm (tid k b) = None" using q None by (simp add: fired_of_def)
  have "sched_ok {} k ?q"
    using qok(1) None by (auto simp: sched_ok_def qe f_def) (auto simp: initIdleTrigger_def put_fired_def)
  moreover have "count_ok {} k ?q"
    using qok(2) None
    by (simp add: count_ok_def qe msum_new finite_dom_map_of)
       (simp add: f_def flinks_def initIdleTrigger_def put_fired_def)
  ultimately have "queues_ok {} {} ?dm" by (rule queues_ok_put [OF ok(2)])
  moreover have "core {} (trace_of dm) (fired_of ?dm)"
    unfolding F by (rule core_new_trigger [OF ok(1) new]) (simp_all add: f_def)
  ultimately have "dm_inv ?dm"
    unfolding dm_inv_def by (intro dm_ok_queues_only [OF dm [unfolded dm_inv_def]]) simp_all
  then show ?thesis using q None new F by (simp add: getOrCreateTrigger_def)
qed

section \<open>Linking a trace and a trigger\<close>

lemma add_link_ok:
  assumes dm: "queues_ok {} {} dm" and f: "fired_of dm t = Some f" and new: "i \<notin> set (ft_traces f)"
    and q: "queue_of dm (queue_id t) = Some q" and "distinct (ft_traces f)"
    and dm1: "queue_of dm1 = queue_of (put_queue (queue_id t)
      (put_fired (base_trace_id t) (f\<lparr>ft_traces := ft_traces f @ [i]\<rparr>) q) dm)"
  shows "yields (add_queue_traces (queue_id t) 1 dm1) (\<lambda>dm2. queues_only dm1 dm2 \<and> queues_ok {} {} dm2 \<and>
     fired_of dm2 = (fired_of dm)(t \<mapsto> f\<lparr>ft_traces := ft_traces f @ [i]\<rparr>))"
proof -
  let ?f = "f\<lparr>ft_traces := ft_traces f @ [i]\<rparr>" and ?b = "base_trace_id t" and ?k = "queue_id t"
  define q1 where "q1 = put_fired ?b ?f q"
  let ?q = "q1\<lparr>tq_trace_count := tq_trace_count q1 + 1\<rparr>"
  have fb: "map_of (tq_fired q) ?b = Some f" using f q by (simp add: fired_of_def)
  have ok: "sched_ok {} ?k q" "count_ok {} ?k q" using queues_okD [OF dm q] by auto
  have "sched_ok {} ?k ?q" using ok(1) fb by (auto simp: sched_ok_def q1_def put_fired_def)
  moreover have "count_ok {} ?k ?q"
    using ok(2) new assms(5) msum_upd [OF finite_dom_map_of fb, of "\<lambda>_. ft_buffer_count" ?f]
      msum_upd [OF finite_dom_map_of fb, of "\<lambda>b f. int (card (flinks {} (tid ?k b) f))" ?f]
    by (simp add: count_ok_def q1_def put_fired_def flinks_def card_insert_disjoint)
  ultimately have "queues_ok {} {} (put_queue ?k ?q dm1)"
    using dm by (simp add: queues_ok_def dm1)
  moreover have "fired_of (put_queue ?k ?q dm1) = fired_of (put_queue ?k q1 dm)"
    by (auto simp: fired_of_def dm1 fun_eq_iff)
  then have "fired_of (put_queue ?k ?q dm1) = (fired_of dm)(t \<mapsto> ?f)"
    using fired_of_put_fired [OF q refl] by (simp add: q1_def)
  ultimately show ?thesis by (simp add: add_queue_traces_def dm1 q1_def deref_queue_def)
qed

text \<open>The common end of the three cases of \<^verbatim>\<open>addTrigger\<close>.\<close>

lemma link_end:
  assumes dm: "dm_ok {} {} dm" and s: "trace_of dm i = Some s" and f: "fired_of dm t = Some f"
    and new: "i \<notin> set (ft_traces f)"
    and s': "trigs s' = insert t (trigs s)" "bufs s' = bufs s" "trace_wf s'" "\<not> is_untriggered s'"
    and tr: "trace_of dm2 = trace_of dm" and q: "queues_ok {} {} dm2"
    and F: "fired_of dm2 = (fired_of dm)(t \<mapsto> f')"
    and f': "ft_id f' = ft_id f" "ft_traces f' = ft_traces f @ [i]"
      "ft_buffer_count f' = ft_buffer_count f + nb s"
      "ft_state f' \<noteq> ReportingTrigger \<Longrightarrow> ft_buffer_count f' = 0"
    and c: "counters_ok (put_trace i s' dm2)"
    and l: "lru (untriggered dm2) = (if is_untriggered s then lru_remove i (lru (untriggered dm)) else lru (untriggered dm))"
  shows "dm_ok {} {} (put_trace i s' dm2)" and "held (put_trace i s' dm2) = held dm"
proof -
  note ok = dm_okD [OF dm]
  have "core {} (trace_of (put_trace i s' dm2)) (fired_of (put_trace i s' dm2))"
    using core_link [OF ok(1) s f new s'(1,2,3) f'] by (simp add: tr F)
  moreover have "lru_ok (put_trace i s' dm2)"
    using ok(4) s s'(4) by (auto simp: lru_ok_def l tr)
  ultimately show "dm_ok {} {} (put_trace i s' dm2)" using q c by (simp add: dm_ok_def)
  have "trace_of (put_trace i s' dm2) = (trace_of dm)(i \<mapsto> s')" by (simp add: tr)
  from held_upd [OF this] show "held (put_trace i s' dm2) = held dm" using s s'(2) by simp
qed

text \<open>What \<^verbatim>\<open>AddTrace\<close> does: the trace now names the trigger and keeps its buffers.\<close>

fun crumbs_of :: "tracestate \<Rightarrow> string list" where
  "crumbs_of (UntriggeredTrace _ cs _) = cs"
| "crumbs_of _ = []"

definition traced :: "TriggerID \<Rightarrow> u64 \<Rightarrow> tracestate \<Rightarrow> DataManager \<Rightarrow> DataManager \<Rightarrow> bool" where
  "traced t i s dm dm' \<longleftrightarrow>
     (\<exists>s'. trace_of dm' = (trace_of dm)(i \<mapsto> s') \<and> trigs s' = insert t (trigs s) \<and> bufs s' = bufs s) \<and>
     dom (fired_of dm') = dom (fired_of dm) \<and> dom (queue_of dm) \<subseteq> dom (queue_of dm') \<and> now dm' = now dm"

lemma AddTrace_known:
  assumes dm: "dm_ok {} {} dm" and f: "fired_of dm t = Some f" and s: "trace_of dm i = Some s"
    and i: "i \<in> set (ft_traces f)"
  shows "yields (fired_AddTrace t i dm)
     (\<lambda>(out, dm'). dm_ok {} {} dm' \<and> held dm' = held dm \<and> out = crumbs_of s \<and> traced t i s dm dm')"
proof -
  note ok = dm_okD [OF dm]
  obtain q where q: "queue_of dm (queue_id t) = Some q" "map_of (tq_fired q) (base_trace_id t) = Some f"
    "deref_fired dm t = Inr (q, f)" using deref_fired_Some [OF f] .
  let ?dm = "put_queue (queue_id t) (put_fired (base_trace_id t) f q) dm"
  have F: "fired_of ?dm = fired_of dm" using fired_of_put_fired [OF q(1) refl, of f] f by auto
  have "sched_ok {} (queue_id t) (put_fired (base_trace_id t) f q)"
    "count_ok {} (queue_id t) (put_fired (base_trace_id t) f q)"
    using queues_okD [OF ok(2) q(1)] q(2) count_ok_put_fired [of "{}" "queue_id t" q "base_trace_id t" f q f]
    by (auto simp: sched_ok_def put_fired_def)
  then have dm1: "dm_ok {} {} ?dm"
    by (intro dm_ok_queues_only [OF dm]) (simp_all add: F ok queues_ok_put)
  have t: "t \<in> trigs s" using core_link_iff [OF ok(1) f s] i by (simp add: flinks_def)
  have h: "held ?dm = held dm" by (rule held_cong) simp
  have "trace_of dm = (trace_of dm)(i \<mapsto> s)" using s by auto
  then have "traced t i s dm ?dm" using t F by (auto simp: traced_def insert_absorb)
  then show ?thesis
    using dm1 h t s q i by (cases s) (simp_all add: fired_AddTrace_def trace_AddTrigger_defs insert_absorb)
qed

text \<open>
  The fired trigger with its new trace, and the two ways on: a trace without buffers is only linked, the
  buffers of any other are counted to the trigger as well.
\<close>

abbreviation with_trace :: "u64 \<Rightarrow> FiredTrigger \<Rightarrow> FiredTrigger" where
  "with_trace i f \<equiv> f\<lparr>ft_traces := ft_traces f @ [i]\<rparr>"

abbreviation store_trace :: "TriggerID \<Rightarrow> FiredTrigger \<Rightarrow> TriggerQueue \<Rightarrow> DataManager \<Rightarrow> DataManager" where
  "store_trace t f q dm \<equiv> put_queue (queue_id t) (put_fired (base_trace_id t) f q) dm"

lemma link_counted:
  assumes "queues_ok {} {} dm" and "fired_of dm t = Some f" and "i \<notin> set (ft_traces f)"
    and "queue_of dm (queue_id t) = Some q" and "distinct (ft_traces f)"
    and "queue_of dm1 = queue_of (store_trace t (with_trace i f) q dm)"
  obtains dm2 dm3 where "add_queue_traces (queue_id t) 1 dm1 = Inr dm2" "buffersAdded t n dm2 = Inr dm3"
    "queues_only dm1 dm3" "queues_ok {} {} dm3" "fired_of dm3 = (fired_of dm)(t \<mapsto> bump n (with_trace i f))"
proof -
  obtain dm2 where 2: "add_queue_traces (queue_id t) 1 dm1 = Inr dm2" "queues_only dm1 dm2" "queues_ok {} {} dm2"
      "fired_of dm2 = (fired_of dm)(t \<mapsto> with_trace i f)"
    using add_link_ok [OF assms] by (auto elim!: yieldsE)
  then have "fired_of dm2 t = Some (with_trace i f)" by simp
  from buffersAdded_ok [OF 2(3) this, of n]
  obtain dm3 where "buffersAdded t n dm2 = Inr dm3" "queues_only dm2 dm3" "queues_ok {} {} dm3"
      "fired_of dm3 = (fired_of dm)(t \<mapsto> bump n (with_trace i f))" by (auto elim!: yieldsE simp: 2)
  then show ?thesis using that 2(1) queues_only_trans [OF 2(2)] by blast
qed

lemma AddTrace_end:
  assumes dm: "dm_ok {} {} dm" and s: "trace_of dm i = Some s" and f: "fired_of dm t = Some f" and i: "i \<notin> set (ft_traces f)"
    and s': "trigs s' = insert t (trigs s)" "bufs s' = bufs s" "trace_wf s'" "\<not> is_untriggered s'"
    and dm1: "queue_of dm1 = queue_of (store_trace t f1 q dm)" "trace_of dm1 = trace_of dm" "now dm1 = now dm"
      "lru (untriggered dm1) = (if is_untriggered s then lru_remove i (lru (untriggered dm)) else lru (untriggered dm))"
    and dm2: "queues_only dm1 dm2" "queues_ok {} {} dm2" "fired_of dm2 = (fired_of dm)(t \<mapsto> g)"
    and g: "g = with_trace i f \<and> bufs s = [] \<or> g = bump (nb s) (with_trace i f)"
    and c: "counters_ok (put_trace i s' dm2)"
  shows "dm_ok {} {} (put_trace i s' dm2) \<and> held (put_trace i s' dm2) = held dm \<and> traced t i s dm (put_trace i s' dm2)"
proof -
  note v = queues_only_views [OF dm2(1)]
  have "fired_ok {} (trace_of dm) t f" by (rule coreD(3) [OF dm_okD(1) [OF dm] f])
  then have e: "dm_ok {} {} (put_trace i s' dm2)" "held (put_trace i s' dm2) = held dm"
    using g dm1 v by (intro link_end [OF dm s f i s' _ dm2(2,3) _ _ _ _ c]; auto simp: fired_ok_def)+
  have "traced t i s dm (put_trace i s' dm2)"
    unfolding traced_def using dm1 v f s'(1,2) by (auto simp: dm2(3) insert_absorb domI)
  then show ?thesis using e by simp
qed

lemma AddTrace_untriggered:
  assumes dm: "dm_ok {} {} dm" and f: "fired_of dm t = Some f" and s: "trace_of dm i = Some (UntriggeredTrace bs cs m)"
    and i: "i \<notin> set (ft_traces f)"
  shows "yields (fired_AddTrace t i dm)
     (\<lambda>(out, dm'). dm_ok {} {} dm' \<and> held dm' = held dm \<and> out = cs \<and> traced t i (UntriggeredTrace bs cs m) dm dm')"
proof -
  note ok = dm_okD [OF dm]
  obtain q where q: "queue_of dm (queue_id t) = Some q" "map_of (tq_fired q) (base_trace_id t) = Some f"
    "deref_fired dm t = Inr (q, f)" using deref_fired_Some [OF f] .
  have dis: "distinct (ft_traces f)" using coreD(3) [OF ok(1) f] by (simp add: fired_ok_def)
  let ?n = "int (length bs)"
  let ?dm1 = "add_triggered 1 ?n (add_untriggered (- 1) (- ?n) (set_lru (lru_remove i) (store_trace t (with_trace i f) q dm)))"
  have b: "queue_of ?dm1 = queue_of (store_trace t (with_trace i f) q dm)" by simp
  have c: "counters_ok (put_trace i s' dm3)" if "queues_only ?dm1 dm3" "bufs s' = bs" "\<not> is_untriggered s'" for s' dm3
    by (rule counters_ok_upd [OF ok(3), of _ i "Some s'"])
       (use queues_only_views [OF that(1)] that(2,3) s in \<open>simp_all add: if_untriggered_def if_triggered_def\<close>, simp_all add: dm_setter_defs)
  show ?thesis
  proof (cases "bs = []")
    case True
    obtain dm2 where 2: "add_queue_traces (queue_id t) 1 ?dm1 = Inr dm2" "queues_only ?dm1 dm2" "queues_ok {} {} dm2"
        "fired_of dm2 = (fired_of dm)(t \<mapsto> with_trace i f)"
      using add_link_ok [OF ok(2) f i q(1) dis b] by (auto elim!: yieldsE)
    from AddTrace_end [OF dm s f i _ _ _ _ b _ _ _ 2(2-4), of "TriggeredTrace [t]"] c [OF 2(2), of "TriggeredTrace [t]"] True
    show ?thesis using 2(1) q s i by (simp add: fired_AddTrace_def trace_AddTrigger_defs)
  next
    case False
    obtain dm2 dm3 where 3: "add_queue_traces (queue_id t) 1 ?dm1 = Inr dm2" "buffersAdded t ?n dm2 = Inr dm3"
        "queues_only ?dm1 dm3" "queues_ok {} {} dm3" "fired_of dm3 = (fired_of dm)(t \<mapsto> bump ?n (with_trace i f))"
      by (rule link_counted [OF ok(2) f i q(1) dis b])
    from AddTrace_end [OF dm s f i _ _ _ _ b _ _ _ 3(3-5), of "ReportingTrace bs [t]"] c [OF 3(3), of "ReportingTrace bs [t]"] False
    show ?thesis using 3(1,2) q s i by (simp add: fired_AddTrace_def trace_AddTrigger_defs)
  qed
qed

lemma AddTrace_triggered:
  assumes dm: "dm_ok {} {} dm" and f: "fired_of dm t = Some f" and s: "trace_of dm i = Some (TriggeredTrace ts)"
    and i: "i \<notin> set (ft_traces f)"
  shows "yields (fired_AddTrace t i dm)
     (\<lambda>(out, dm'). dm_ok {} {} dm' \<and> held dm' = held dm \<and> out = [] \<and> traced t i (TriggeredTrace ts) dm dm')"
proof -
  note ok = dm_okD [OF dm]
  obtain q where q: "queue_of dm (queue_id t) = Some q" "map_of (tq_fired q) (base_trace_id t) = Some f"
    "deref_fired dm t = Inr (q, f)" using deref_fired_Some [OF f] .
  have dis: "distinct (ft_traces f)" using coreD(3) [OF ok(1) f] by (simp add: fired_ok_def)
  have t: "t \<notin> set ts" and wf: "trace_wf (TriggeredTrace ts)"
    using core_link_iff [OF ok(1) f s] i coreD(1) [OF ok(1) s] by (simp_all add: flinks_def)
  let ?dm1 = "store_trace t (with_trace i f) q dm" and ?s = "TriggeredTrace (ts @ [t])"
  obtain dm2 where 2: "add_queue_traces (queue_id t) 1 ?dm1 = Inr dm2" "queues_only ?dm1 dm2" "queues_ok {} {} dm2"
      "fired_of dm2 = (fired_of dm)(t \<mapsto> with_trace i f)"
    using add_link_ok [OF ok(2) f i q(1) dis refl] by (auto elim!: yieldsE)
  have "counters_ok (put_trace i ?s dm2)"
    by (rule counters_ok_upd [OF ok(3), of _ i "Some ?s"])
       (use queues_only_views [OF 2(2)] s in \<open>simp_all add: if_untriggered_def if_triggered_def\<close>, simp_all add: dm_setter_defs)
  from AddTrace_end [OF dm s f i _ _ _ _ refl _ _ _ 2(2-4) _ this] t wf
  show ?thesis using 2(1) q s i by (simp add: fired_AddTrace_def trace_AddTrigger_defs)
qed

lemma AddTrace_reporting:
  assumes dm: "dm_ok {} {} dm" and f: "fired_of dm t = Some f" and s: "trace_of dm i = Some (ReportingTrace bs ts)"
    and i: "i \<notin> set (ft_traces f)"
  shows "yields (fired_AddTrace t i dm)
     (\<lambda>(out, dm'). dm_ok {} {} dm' \<and> held dm' = held dm \<and> out = [] \<and> traced t i (ReportingTrace bs ts) dm dm')"
proof -
  note ok = dm_okD [OF dm]
  obtain q where q: "queue_of dm (queue_id t) = Some q" "map_of (tq_fired q) (base_trace_id t) = Some f"
    "deref_fired dm t = Inr (q, f)" using deref_fired_Some [OF f] .
  have dis: "distinct (ft_traces f)" using coreD(3) [OF ok(1) f] by (simp add: fired_ok_def)
  have t: "t \<notin> set ts" and wf: "trace_wf (ReportingTrace bs ts)"
    using core_link_iff [OF ok(1) f s] i coreD(1) [OF ok(1) s] by (simp_all add: flinks_def)
  let ?dm1 = "store_trace t (with_trace i f) q dm" and ?s = "ReportingTrace bs (ts @ [t])" and ?n = "int (length bs)"
  obtain dm2 dm3 where 3: "add_queue_traces (queue_id t) 1 ?dm1 = Inr dm2" "buffersAdded t ?n dm2 = Inr dm3"
      "queues_only ?dm1 dm3" "queues_ok {} {} dm3" "fired_of dm3 = (fired_of dm)(t \<mapsto> bump ?n (with_trace i f))"
    by (rule link_counted [OF ok(2) f i q(1) dis refl])
  have "counters_ok (put_trace i ?s dm3)"
    by (rule counters_ok_upd [OF ok(3), of _ i "Some ?s"])
       (use queues_only_views [OF 3(3)] s in \<open>simp_all add: if_untriggered_def if_triggered_def\<close>, simp_all add: dm_setter_defs)
  from AddTrace_end [OF dm s f i _ _ _ _ refl _ _ _ 3(3-5) _ this] t wf
  show ?thesis using 3(1,2) q s i by (simp add: fired_AddTrace_def trace_AddTrigger_defs)
qed

section \<open>Trigger\<close>

lemma AddTrace_ok:
  assumes "dm_ok {} {} dm" and "fired_of dm t = Some f" and "trace_of dm i = Some s"
  shows "yields (fired_AddTrace t i dm)
     (\<lambda>(out, dm'). dm_ok {} {} dm' \<and> held dm' = held dm \<and> out = crumbs_of s \<and> traced t i s dm dm')"
  using AddTrace_known [OF assms] AddTrace_untriggered [OF assms(1,2)] AddTrace_triggered [OF assms(1,2)]
    AddTrace_reporting [OF assms(1,2)] assms(3)
  by (cases "i \<in> set (ft_traces f)"; cases s) simp_all

text \<open>Traces only gain triggers, and keep their buffers.\<close>

definition grows :: "DataManager \<Rightarrow> DataManager \<Rightarrow> bool" where
  "grows dm dm' \<longleftrightarrow>
     (\<forall>i s. trace_of dm i = Some s \<longrightarrow>
        (\<exists>s'. trace_of dm' i = Some s' \<and> trigs s \<subseteq> trigs s' \<and> bufs s' = bufs s)) \<and>
     dom (fired_of dm) \<subseteq> dom (fired_of dm') \<and> dom (queue_of dm) \<subseteq> dom (queue_of dm')"

lemma grows_trans: "grows a b \<Longrightarrow> grows b c \<Longrightarrow> grows a c"
  unfolding grows_def by (metis subset_trans)

lemma traced_grows: "traced t i s dm dm' \<Longrightarrow> trace_of dm i = Some s \<Longrightarrow> grows dm dm'"
  by (auto simp: traced_def grows_def)

lemma getOrCreateTrace_grows: "grows dm (getOrCreateTrace i dm)"
  by (auto simp: grows_def getOrCreateTrace_def initUntriggeredTrace_def split: option.splits)

lemma trigger_loop_ok:
  "dm_inv dm \<Longrightarrow> fired_of dm t \<noteq> None \<Longrightarrow>
   yields (trigger_loop t is crumbs dm) (\<lambda>(out, dm'). dm_inv dm' \<and> held dm' = held dm \<and> grows dm dm' \<and>
     dom (fired_of dm') = dom (fired_of dm) \<and> (\<forall>i\<in>set is. \<exists>s. trace_of dm' i = Some s \<and> t \<in> trigs s))"
proof (induction "is" arbitrary: crumbs dm)
  case Nil
  then show ?case by (simp add: grows_def)
next
  case (Cons i "is")
  let ?dm = "getOrCreateTrace i dm"
  note g = getOrCreateTrace_ok [OF Cons.prems(1) [unfolded dm_inv_def], of i]
  obtain s where s: "trace_of ?dm i = Some s" using g(2) by auto
  obtain f where f: "fired_of ?dm t = Some f" using g(4) Cons.prems(2) by auto
  obtain dm1 where a: "fired_AddTrace t i ?dm = Inr (crumbs_of s, dm1)" and ok: "dm_ok {} {} dm1"
    "held dm1 = held ?dm" and tr: "traced t i s ?dm dm1"
    using AddTrace_ok [OF g(1) f s] by (auto elim!: yieldsE)
  let ?c = "if crumbs_of s \<noteq> [] then AList.update i (crumbs_of s) crumbs else crumbs"
  have "fired_of dm1 t \<noteq> None" using tr f by (auto simp: traced_def)
  then have "yields (trigger_loop t is ?c dm1) (\<lambda>(out, dm'). dm_inv dm' \<and> held dm' = held dm1 \<and>
      grows dm1 dm' \<and> dom (fired_of dm') = dom (fired_of dm1) \<and> (\<forall>i\<in>set is. \<exists>s. trace_of dm' i = Some s \<and> t \<in> trigs s))"
    using ok(1) by (intro Cons.IH) (simp_all add: dm_inv_def)
  moreover have "\<exists>s. trace_of dm2 i = Some s \<and> t \<in> trigs s" if "grows dm1 dm2" for dm2
    using that tr unfolding grows_def traced_def by (metis fun_upd_same insert_subset)
  moreover have "grows dm dm2" if "grows dm1 dm2" for dm2
    using grows_trans [OF getOrCreateTrace_grows grows_trans [OF traced_grows [OF tr s] that]] .
  moreover have "dom (fired_of dm1) = dom (fired_of dm)" using tr g(4) by (simp add: traced_def)
  ultimately show ?case
    using ok(2) g(3) by (auto simp: a elim!: yieldsE)
qed

lemma queue_Trigger_ok:
  assumes dm: "dm_inv dm" and q: "queue_of dm k = Some q"
  shows "yields (queue_Trigger k b is dm) (\<lambda>(out, dm'). dm_inv dm' \<and> held dm' = held dm \<and> grows dm dm' \<and>
     dom (fired_of dm') = insert (tid k b) (dom (fired_of dm)) \<and> (\<forall>i\<in>set is. \<exists>s. trace_of dm' i = Some s \<and> tid k b \<in> trigs s))"
  unfolding queue_Trigger_def
proof (rule yields_bind [OF getOrCreateTrigger_ok [OF dm q, of b]])
  fix dm1
  assume a: "dm_inv dm1 \<and> queues_only dm dm1 \<and> fired_of dm1 (tid k b) \<noteq> None \<and>
    (\<forall>t. t \<noteq> tid k b \<longrightarrow> fired_of dm1 t = fired_of dm t) \<and> (fired_of dm (tid k b) \<noteq> None \<longrightarrow> dm1 = dm)"
  then have qo: "queues_only dm dm1" by simp
  have d: "dom (fired_of dm1) = insert (tid k b) (dom (fired_of dm))"
  proof (rule set_eqI)
    fix t
    show "t \<in> dom (fired_of dm1) \<longleftrightarrow> t \<in> insert (tid k b) (dom (fired_of dm))"
      using a by (cases "t = tid k b") auto
  qed
  then have "grows dm dm1" using queues_only_views(1,8) [OF qo] by (auto simp: grows_def)
  then show "yields (trigger_loop (tid k b) is [] dm1) (\<lambda>(out, dm'). dm_inv dm' \<and> held dm' = held dm \<and>
      grows dm dm' \<and> dom (fired_of dm') = insert (tid k b) (dom (fired_of dm)) \<and>
      (\<forall>i\<in>set is. \<exists>s. trace_of dm' i = Some s \<and> tid k b \<in> trigs s))"
    unfolding d [symmetric]
    using trigger_loop_ok [of dm1 "tid k b" "is" "[]"] a held_cong [of dm1 dm] queues_only_views(1) [OF qo]
    by (auto intro: grows_trans elim!: yieldsE)
qed

lemma dm_Trigger_ok:
  assumes "dm_inv dm"
  shows "yields (dm_Trigger k b is dm) (\<lambda>(out, dm'). dm_inv dm' \<and> held dm' = held dm \<and> grows dm dm' \<and>
     dom (fired_of dm') = insert (tid k b) (dom (fired_of dm)) \<and> (\<forall>i\<in>set is. \<exists>s. trace_of dm' i = Some s \<and> tid k b \<in> trigs s))"
proof -
  note g = GetQueue_ok [OF assms, of k]
  obtain q where "queue_of (GetQueue k dm) k = Some q" using g(2) by auto
  from queue_Trigger_ok [OF g(1) this, of b "is"] show ?thesis
    using g(3,4) held_cong [OF g(3)] queues_only_views(8) [OF g(5)]
    by (auto simp: dm_Trigger_def grows_def elim!: yieldsE)
qed

section \<open>Unlinking a trace and a trigger\<close>

lemma count_ok_other:
  "k \<noteq> queue_id t \<Longrightarrow> count_ok (insert (t, i) X) k q = count_ok X k q"
proof -
  assume "k \<noteq> queue_id t"
  then have "flinks (insert (t, i) X) (tid k b) f = flinks X (tid k b) f" for b f
    by (auto simp: flinks_def)
  then show ?thesis by (simp add: count_ok_def)
qed

lemma drop_link_ok:
  assumes dm: "queues_ok X P dm" and f: "fired_of dm t = Some f" and i: "i \<in> flinks X t f"
  shows "yields (add_queue_traces (queue_id t) (- 1) dm) (\<lambda>dm'. queues_only dm dm' \<and>
     queues_ok (insert (t, i) X) P dm' \<and> fired_of dm' = fired_of dm)"
proof -
  let ?X = "insert (t, i) X" and ?k = "queue_id t" and ?b = "base_trace_id t"
  obtain q where q: "queue_of dm ?k = Some q" "map_of (tq_fired q) ?b = Some f"
    using deref_fired_Some [OF f] by metis
  let ?q = "q\<lparr>tq_trace_count := tq_trace_count q + - 1\<rparr>"
  have ok: "sched_ok P ?k q" "count_ok X ?k q" using queues_okD [OF dm q(1)] by auto
  have fl: "flinks ?X t f = flinks X t f - {i}" by (auto simp: flinks_def)
  have "0 < card (flinks X t f)" using i card_gt_0_iff by fastforce
  then have "int (card (flinks ?X t f)) = int (card (flinks X t f)) + - 1"
    using i by (simp add: fl)
  then have "count_ok ?X ?k ?q"
    by (intro count_ok_add_traces [OF ok(2) q(2)]) (auto simp: flinks_def tid_eq_iff')
  moreover have "sched_ok P ?k ?q" using ok(1) by (simp add: sched_ok_def)
  ultimately have "queues_ok ?X P (put_queue ?k ?q dm)"
    using dm by (auto simp: queues_ok_def count_ok_other)
  moreover have "fired_of (put_queue ?k ?q dm) = fired_of dm" by (rule fired_of_put_same [OF q(1)]) simp
  ultimately show ?thesis using q(1) by (simp add: add_queue_traces_def)
qed

text \<open>The common end of the cases of \<^verbatim>\<open>removeTrigger\<close>: the trace becomes \<open>u\<close> (\<open>None\<close>: deleted).\<close>

lemma unlink_end:
  assumes dm: "dm_ok X P dm" and s: "trace_of dm i = Some s" and f: "fired_of dm t = Some f"
    and t: "t \<in> trigs s" and u: "case u of None \<Rightarrow> trigs s = {t}
        | Some s' \<Rightarrow> trigs s' = trigs s - {t} \<and> bufs s' = bufs s \<and> trace_wf s' \<and> \<not> is_untriggered s'"
    and tr: "trace_of dm2 = (trace_of dm)(i := u)" and q: "queues_ok (insert (t, i) X) P dm2"
    and F: "fired_of dm2 = (fired_of dm)(t \<mapsto> drop_count (nb s) f)"
    and c: "counters_ok dm2" and l: "lru (untriggered dm2) = lru (untriggered dm)"
  shows "dm_ok (insert (t, i) X) P dm2" and "held dm2 + mset (obufs (trace_of dm i)) = held dm + mset (obufs u)"
proof -
  note ok = dm_okD [OF dm]
  have nt: "\<not> is_untriggered s" using t by (cases s) simp_all
  have "core (insert (t, i) X) (trace_of dm2) (fired_of dm2)"
    unfolding tr F using u by (intro core_unlink [OF ok(1) s f t]) (auto split: option.splits)
  moreover have "lru_ok dm2"
    using ok(4) s nt u by (auto simp: lru_ok_def l tr split: option.splits if_splits)
  ultimately show "dm_ok (insert (t, i) X) P dm2" using q c by (simp add: dm_ok_def)
  show "held dm2 + mset (obufs (trace_of dm i)) = held dm + mset (obufs u)" by (rule held_upd [OF tr])
qed

end
