(* ===== verification/DataEvict.thy ===== *)
theory DataEvict
  imports DataTriggers
begin

text \<open>
  Removing data: a fired trigger is evicted, reported or timed out, the least recently used
  untriggered traces are evicted, and each queue is brought down to its capacity. Every operation
  returns, restores the invariant and hands out exactly the buffers that the store no longer holds.
\<close>

section \<open>Removing a trigger from a trace\<close>

text \<open>What is left of a trace without trigger \<open>t\<close>; \<open>None\<close>: nothing, and the trace is deleted.\<close>

fun strip :: "TriggerID \<Rightarrow> tracestate \<Rightarrow> tracestate option" where
  "strip t (TriggeredTrace ts) = (if removeAll t ts = [] then None else Some (TriggeredTrace (removeAll t ts)))"
| "strip t (ReportingTrace bs ts) =
     (if removeAll t ts = [] then None else Some (ReportingTrace bs (removeAll t ts)))"
| "strip t s = Some s"

lemma strip_other: "trace_wf s \<Longrightarrow> t \<notin> trigs s \<Longrightarrow> strip t s = Some s"
  by (cases s) (auto simp: removeAll_id)

lemma removeAll_Nil_iff: "removeAll x xs = [] \<longleftrightarrow> set xs \<subseteq> {x}"
  by (auto simp: removeAll_filter_not_eq filter_empty_conv)

lemma strip_cases:
  assumes "t \<in> trigs s" and "trace_wf s"
  shows "case strip t s of None \<Rightarrow> trigs s = {t}
        | Some s' \<Rightarrow> trigs s' = trigs s - {t} \<and> bufs s' = bufs s \<and> trace_wf s' \<and> \<not> is_untriggered s'"
  using assms by (cases s) (auto simp: removeAll_Nil_iff distinct_removeAll)

text \<open>What the cases of \<^verbatim>\<open>removeTrigger\<close> have in common.\<close>

definition unlinked where
  "unlinked X P t i s f dm = (\<lambda>(out, dm'). out = (if strip t s = None then bufs s else []) \<and>
     trace_of dm' = (trace_of dm)(i := strip t s) \<and> queues_ok (insert (t, i) X) P dm' \<and>
     fired_of dm' = (fired_of dm)(t \<mapsto> drop_count (nb s) f) \<and> counters_ok dm' \<and>
     untriggered dm' = untriggered dm \<and> dom (queue_of dm) \<subseteq> dom (queue_of dm') \<and> now dm' = now dm)"

lemma RemoveTrigger_triggered:
  assumes c: "counters_ok dm" and f: "fired_of dm t = Some f" and s: "trace_of dm i = Some (TriggeredTrace ts)" and t: "t \<in> set ts"
    and dm1: "add_queue_traces (queue_id t) (- 1) dm = Inr dm1" "queues_only dm dm1"
      "queues_ok (insert (t, i) X) P dm1" "fired_of dm1 = fired_of dm"
  shows "yields (trace_RemoveTrigger i t dm) (unlinked X P t i (TriggeredTrace ts) f dm)"
proof -
  note v = queues_only_views [OF dm1(2)]
  let ?dm = "if removeAll t ts = [] then del_trace i (add_triggered (- 1) 0 (add_total (- 1) 0 dm1))
    else put_trace i (TriggeredTrace (removeAll t ts)) dm1"
  have tr: "trace_of ?dm = (trace_of dm)(i := strip t (TriggeredTrace ts))" by (simp add: v)
  have "counters_ok ?dm"
    by (rule counters_ok_upd [OF c tr]) (use v s in \<open>simp_all add: if_untriggered_def if_triggered_def dm_setter_defs\<close>)
  moreover have "fired_of dm = (fired_of dm)(t \<mapsto> drop_count 0 f)" using f by (auto simp: drop_count_def)
  ultimately show ?thesis
    using dm1 v s t tr by (cases "removeAll t ts = []") (simp_all add: trace_RemoveTrigger_defs Let_def unlinked_def)
qed

lemma RemoveTrigger_reporting:
  assumes c: "counters_ok dm" and f: "fired_of dm t = Some f" and s: "trace_of dm i = Some (ReportingTrace bs ts)" and t: "t \<in> set ts"
    and dm1: "add_queue_traces (queue_id t) (- 1) dm = Inr dm1" "queues_only dm dm1"
      "queues_ok (insert (t, i) X) P dm1" "fired_of dm1 = fired_of dm"
  shows "yields (trace_RemoveTrigger i t dm) (unlinked X P t i (ReportingTrace bs ts) f dm)"
proof -
  let ?n = "int (length bs)"
  have "fired_of dm1 t = Some f" using dm1 f by simp
  from buffersRemoved_ok [OF dm1(3) this, of ?n]
  obtain dm2 where dm2: "buffersRemoved t ?n dm1 = Inr dm2" "queues_only dm1 dm2"
    "queues_ok (insert (t, i) X) P dm2" "fired_of dm2 = (fired_of dm)(t \<mapsto> drop_count ?n f)"
    by (auto elim!: yieldsE simp: dm1)
  note v = queues_only_views [OF queues_only_trans [OF dm1(2) dm2(2)]]
  let ?dm = "if removeAll t ts = [] then del_trace i (add_triggered (- 1) (- ?n) (add_total (- 1) (- ?n) dm2))
    else put_trace i (ReportingTrace bs (removeAll t ts)) dm2"
  have tr: "trace_of ?dm = (trace_of dm)(i := strip t (ReportingTrace bs ts))" by (simp add: v)
  have "counters_ok ?dm"
    by (rule counters_ok_upd [OF c tr]) (use v s in \<open>simp_all add: if_untriggered_def if_triggered_def dm_setter_defs\<close>)
  then show ?thesis
    using dm1(1) dm2 v s t tr by (cases "removeAll t ts = []") (simp_all add: trace_RemoveTrigger_defs Let_def unlinked_def)
qed

lemma RemoveTrigger_ok:
  assumes dm: "dm_ok X P dm" and f: "fired_of dm t = Some f" and i: "i \<in> flinks X t f"
    and s: "trace_of dm i = Some s"
  shows "yields (trace_RemoveTrigger i t dm) (\<lambda>(out, dm'). dm_ok (insert (t, i) X) P dm' \<and>
     held dm = held dm' + mset out \<and> trace_of dm' = (trace_of dm)(i := strip t s) \<and>
     out = (if strip t s = None then bufs s else []) \<and>
     fired_of dm' = (fired_of dm)(t \<mapsto> drop_count (nb s) f) \<and>
     untriggered dm' = untriggered dm \<and>
     dom (queue_of dm) \<subseteq> dom (queue_of dm') \<and> now dm' = now dm)"
proof -
  note ok = dm_okD [OF dm]
  have t: "t \<in> trigs s" using core_link_iff [OF ok(1) f s] i by simp
  note u = strip_cases [OF t coreD(1) [OF ok(1) s]]
  obtain dm1 where dm1: "add_queue_traces (queue_id t) (- 1) dm = Inr dm1" "queues_only dm dm1"
    "queues_ok (insert (t, i) X) P dm1" "fired_of dm1 = fired_of dm"
    using drop_link_ok [OF ok(2) f i] by (auto elim!: yieldsE)
  have "yields (trace_RemoveTrigger i t dm) (unlinked X P t i s f dm)"
    using RemoveTrigger_triggered [OF ok(3) f _ _ dm1] RemoveTrigger_reporting [OF ok(3) f _ _ dm1] s t by (cases s) auto
  then obtain out dm2 where r: "trace_RemoveTrigger i t dm = Inr (out, dm2)"
    and out: "out = (if strip t s = None then bufs s else [])"
    and tr: "trace_of dm2 = (trace_of dm)(i := strip t s)" and q: "queues_ok (insert (t, i) X) P dm2"
    and F: "fired_of dm2 = (fired_of dm)(t \<mapsto> drop_count (nb s) f)" and c: "counters_ok dm2"
    and l: "untriggered dm2 = untriggered dm" "dom (queue_of dm) \<subseteq> dom (queue_of dm2)" "now dm2 = now dm"
    unfolding unlinked_def by (elim yieldsE) auto
  note e = unlink_end [OF dm s f t u tr q F c arg_cong [OF l(1), of lru]]
  have "mset (obufs (strip t s)) + mset out = mset (bufs s)"
    using u by (cases "strip t s") (auto simp: out)
  then have "held dm = held dm2 + mset out"
    using e(2) s by (simp add: add.assoc) (metis add.commute add.left_commute add_left_cancel)
  then show ?thesis using r out tr F l e(1) by simp
qed

lemma RemoveTrigger_all:
  assumes "dm_ok X P dm" and "fired_of dm t = Some f" and "set is \<subseteq> flinks X t f" and "distinct is"
  shows "yields (collect (\<lambda>i. trace_RemoveTrigger i t) is dm) (\<lambda>(out, dm').
     dm_ok (X \<union> {t} \<times> set is) P dm' \<and> held dm = held dm' + mset out \<and>
     set out \<subseteq> (\<Union>i\<in>set is. set (obufs (trace_of dm i))) \<and>
     trace_of dm' = (\<lambda>j. if j \<in> set is then Option.bind (trace_of dm j) (strip t) else trace_of dm j) \<and>
     (\<exists>n. fired_of dm' = (fired_of dm)(t \<mapsto> drop_count n f)) \<and>
     untriggered dm' = untriggered dm \<and>
     dom (queue_of dm) \<subseteq> dom (queue_of dm') \<and> now dm' = now dm)"
  using assms
proof (induction "is" arbitrary: X dm f)
  case Nil
  have "fired_of dm = (fired_of dm)(t \<mapsto> drop_count 0 f)" using Nil.prems(2) by (auto simp: drop_count_def)
  then show ?case using Nil.prems(1) by (simp del: fun_upd_apply) blast
next
  case (Cons i "is")
  have i: "i \<in> flinks X t f" using Cons.prems(3) by simp
  obtain s where s: "trace_of dm i = Some s"
    using core_link_some [OF dm_okD(1) [OF Cons.prems(1)] Cons.prems(2) i] by auto
  obtain out dm1 where r: "trace_RemoveTrigger i t dm = Inr (out, dm1)" and ok: "dm_ok (insert (t, i) X) P dm1"
    and h: "held dm = held dm1 + mset out" and tr: "trace_of dm1 = (trace_of dm)(i := strip t s)"
    and out: "set out \<subseteq> set (bufs s)"
    and F: "fired_of dm1 = (fired_of dm)(t \<mapsto> drop_count (nb s) f)"
    and o: "untriggered dm1 = untriggered dm" "dom (queue_of dm) \<subseteq> dom (queue_of dm1)" "now dm1 = now dm"
    using RemoveTrigger_ok [OF Cons.prems(1,2) i s] by (elim yieldsE) (auto simp del: fun_upd_apply split: if_splits)
  have sub: "set is \<subseteq> flinks (insert (t, i) X) t (drop_count (nb s) f)" "distinct is"
    using Cons.prems(3,4) by (auto simp: flinks_def)
  have F1: "fired_of dm1 t = Some (drop_count (nb s) f)" using F by simp
  obtain out2 dm2 where r2: "collect (\<lambda>i. trace_RemoveTrigger i t) is dm1 = Inr (out2, dm2)"
    and ok2: "dm_ok (insert (t, i) X \<union> {t} \<times> set is) P dm2" and h2: "held dm1 = held dm2 + mset out2"
    and out2: "set out2 \<subseteq> (\<Union>i\<in>set is. set (obufs (trace_of dm1 i)))"
    and tr2: "trace_of dm2 = (\<lambda>j. if j \<in> set is then Option.bind (trace_of dm1 j) (strip t) else trace_of dm1 j)"
    and F2: "\<exists>n. fired_of dm2 = (fired_of dm1)(t \<mapsto> drop_count n (drop_count (nb s) f))"
    and o2: "untriggered dm2 = untriggered dm1" "dom (queue_of dm1) \<subseteq> dom (queue_of dm2)" "now dm2 = now dm1"
    using Cons.IH [OF ok F1 sub] by (elim yieldsE) (auto simp del: fun_upd_apply)
  have "insert (t, i) X \<union> {t} \<times> set is = X \<union> {t} \<times> set (i # is)" by auto
  moreover have "\<exists>n. fired_of dm2 = (fired_of dm)(t \<mapsto> drop_count n f)"
    using F2 F by (auto simp: drop_count_def diff_diff_eq)
  moreover have "trace_of dm2 = (\<lambda>j. if j \<in> set (i # is) then Option.bind (trace_of dm j) (strip t) else trace_of dm j)"
    using s Cons.prems(4) by (auto simp: tr2 tr fun_eq_iff)
  moreover have "(\<Union>j\<in>set is. set (obufs (trace_of dm1 j))) = (\<Union>j\<in>set is. set (obufs (trace_of dm j)))"
    using Cons.prems(4) by (intro SUP_cong) (auto simp: tr)
  then have "set (out @ out2) \<subseteq> (\<Union>i\<in>set (i # is). set (obufs (trace_of dm i)))"
    using out out2 s by auto
  ultimately show ?case using r r2 ok2 h h2 o o2 by (auto simp: ac_simps simp del: fun_upd_apply)
qed

section \<open>Evicting a trigger\<close>

text \<open>
  The specification: forget the trigger and strip it from every trace. Between popping a trigger from
  the reporting tree and finishing with it, the queue is off by that trigger (\<open>P = {t}\<close>).
\<close>

definition evicted_trigger :: "TriggerID \<Rightarrow> DataManager \<Rightarrow> DataManager \<Rightarrow> bool" where
  "evicted_trigger t dm dm' \<longleftrightarrow>
     fired_of dm' = (fired_of dm)(t := None) \<and>
     trace_of dm' = (\<lambda>j. Option.bind (trace_of dm j) (strip t)) \<and>
     untriggered dm' = untriggered dm \<and>
     dom (queue_of dm) \<subseteq> dom (queue_of dm') \<and> now dm' = now dm"

lemma bind_strip_unlinked:
  assumes "core {} T F" and "F t = Some f" and "j \<notin> set (ft_traces f)"
  shows "Option.bind (T j) (strip t) = T j"
proof (cases "T j")
  case (Some s)
  have "t \<notin> trigs s" using core_link_iff [OF assms(1,2) Some] assms(3) by (simp add: flinks_def)
  then show ?thesis using strip_other coreD(1) [OF assms(1) Some] Some by simp
qed simp

lemma dm_ok_forget:
  assumes dm: "dm_ok ({t} \<times> A) P dm" and f: "fired_of dm t = Some f" "set (ft_traces f) \<subseteq> A"
    and P: "P \<subseteq> {t}" and q: "queue_of dm (queue_id t) = Some q"
    and q': "tq_fired q' = AList.delete (base_trace_id t) (tq_fired q)" "tq_id q' = tq_id q"
      "tq_trace_count q' = tq_trace_count q" "tq_buffer_count q' = tq_buffer_count q"
      "tq_reporting q' = tq_reporting q" "tq_idle q' = lru_remove (base_trace_id t) (tq_idle q)"
    and st: "ft_state f = ReportingTrigger \<longleftrightarrow> t \<in> P" and z: "ft_buffer_count f = 0"
  shows "dm_inv (put_queue (queue_id t) q' dm)"
    and "fired_of (put_queue (queue_id t) q' dm) = (fired_of dm)(t := None)"
proof -
  let ?k = "queue_id t" and ?b = "base_trace_id t" and ?X = "{t} \<times> A"
  note ok = dm_okD [OF dm]
  show F: "fired_of (put_queue ?k q' dm) = (fired_of dm)(t := None)"
    by (rule fired_of_del_fired [OF q q'(1)])
  have fl: "flinks ?X t f = {}" using f(2) by (auto simp: flinks_def)
  have fb: "map_of (tq_fired q) ?b = Some f" using f(1) q by (simp add: fired_of_def)
  have other: "flinks ?X t' f' = flinks {} t' f'" if "t' \<noteq> t" for t' f' using that by (auto simp: flinks_def)
  have co: "count_ok {} k q1" if "count_ok ?X k q1" "k \<noteq> ?k" for k q1
  proof -
    have "flinks ?X (tid k b) g = flinks {} (tid k b) g" for b g
      using that(2) by (intro other) (auto simp: tid_eq_iff')
    then show ?thesis using that(1) by (simp add: count_ok_def)
  qed
  have sq: "sched_ok P ?k q" and cq: "count_ok ?X ?k q" using queues_okD [OF ok(2) q] by auto
  have "sched_ok {} ?k q'"
    using sq st fb P q' by (cases "t \<in> P") (auto simp: sched_ok_def tid_eq_iff' subset_singleton_iff)
  moreover have "count_ok {} ?k q'"
  proof -
    let ?m = "map_of (tq_fired q)"
    have "msum (\<lambda>b f. int (card (flinks ?X (tid ?k b) f))) (?m(?b := None)) =
        msum (\<lambda>b f. int (card (flinks {} (tid ?k b) f))) (?m(?b := None))"
      by (rule msum_cong) (auto simp: other tid_eq_iff' split: if_splits)
    then show ?thesis
      using cq z fl msum_del [OF finite_dom_map_of fb, of "\<lambda>_. ft_buffer_count"]
        msum_del [OF finite_dom_map_of fb, of "\<lambda>b f. int (card (flinks ?X (tid ?k b) f))"]
      by (simp add: count_ok_def q')
  qed
  moreover have "sched_ok {} k q1" if "sched_ok P k q1" "k \<noteq> ?k" for k q1
    using that P by (auto simp: sched_ok_def)
  ultimately have "queues_ok {} {} (put_queue ?k q' dm)"
    using ok(2) co by (auto simp: queues_ok_def)
  moreover have "core {} (trace_of dm) (fired_of (put_queue ?k q' dm))"
    unfolding F by (rule core_forget [OF ok(1) _ f(1) fl]) auto
  ultimately show "dm_inv (put_queue ?k q' dm)"
    unfolding dm_inv_def by (intro dm_ok_queues_only [OF dm]) simp_all
qed

lemma fired_Evict_ok:
  assumes dm: "dm_ok {} {t} dm" and f: "fired_of dm t = Some f" "ft_state f = ReportingTrigger"
    and ro: "orders_ok ro"
  shows "yields (fired_Evict ro t dm) (\<lambda>(out, dm'). dm_inv dm' \<and> held dm = held dm' + mset out \<and>
     evicted_trigger t dm dm')"
proof -
  note ok = dm_okD [OF dm]
  let ?is = "ro_trace ro (ft_traces f)"
  have fo: "fired_ok {} (trace_of dm) t f" by (rule coreD(3) [OF ok(1) f(1)])
  have kd: "set ?is = set (ft_traces f)" "distinct ?is" "set ?is \<subseteq> flinks {} t f"
    using ro fo by (auto simp: orders_ok_def fired_ok_def key_order_set key_order_distinct flinks_def)
  obtain out dm1 n where r: "collect (\<lambda>i. trace_RemoveTrigger i t) ?is dm = Inr (out, dm1)"
    and ok1: "dm_ok ({t} \<times> set (ft_traces f)) {t} dm1" and h: "held dm = held dm1 + mset out"
    and tr: "trace_of dm1 = (\<lambda>j. if j \<in> set (ft_traces f) then Option.bind (trace_of dm j) (strip t) else trace_of dm j)"
    and F: "fired_of dm1 = (fired_of dm)(t \<mapsto> drop_count n f)"
    and o: "untriggered dm1 = untriggered dm" "dom (queue_of dm) \<subseteq> dom (queue_of dm1)" "now dm1 = now dm"
    using RemoveTrigger_all [OF dm f(1) kd(3,2)] by (elim yieldsE) (auto simp: kd(1))
  have f1: "fired_of dm1 t = Some (drop_count n f)" by (simp add: F)
  obtain q0 where q0: "deref_fired dm t = Inr (q0, f)" using deref_fired_Some [OF f(1)] by metis
  obtain q where q: "queue_of dm1 (queue_id t) = Some q" "map_of (tq_fired q) (base_trace_id t) = Some (drop_count n f)"
    "deref_fired dm1 t = Inr (q, drop_count n f)" using deref_fired_Some [OF f1] .
  have z: "ft_buffer_count (drop_count n f) = 0"
    using coreD(3) [OF dm_okD(1) [OF ok1] f1] by (simp add: fired_ok_def flinks_def)
  let ?q = "q\<lparr>tq_fired := AList.delete (base_trace_id t) (tq_fired q)\<rparr>"
  have "base_trace_id t \<notin> set (tq_idle q)"
    using queues_okD [OF dm_okD(2) [OF ok1] q(1)] q(2) f(2) by (auto simp: sched_ok_def)
  then have "tq_idle q = lru_remove (base_trace_id t) (tq_idle q)" by (simp add: lru_remove_def remove1_idem)
  note e = dm_ok_forget [OF ok1 f1 _ _ q(1), of ?q]
  have "dm_inv (put_queue (queue_id t) ?q dm1) \<and>
      fired_of (put_queue (queue_id t) ?q dm1) = (fired_of dm1)(t := None)"
    using f(2) z \<open>tq_idle q = _\<close> by (intro conjI e) simp_all
  moreover have "trace_of dm1 = (\<lambda>j. Option.bind (trace_of dm j) (strip t))"
    using bind_strip_unlinked [OF ok(1) f(1)] by (auto simp: tr fun_eq_iff)
  ultimately have "evicted_trigger t dm (put_queue (queue_id t) ?q dm1)" "dm_inv (put_queue (queue_id t) ?q dm1)"
    using o by (auto simp: evicted_trigger_def F)
  moreover have "held (put_queue (queue_id t) ?q dm1) = held dm1" by (rule held_cong) simp
  ultimately show ?thesis using q0 r q(3) z f(2) h by (simp add: fired_state_defs)
qed

section \<open>Timing out an idle trigger\<close>

lemma CheckTimeout_ok:
  assumes dm: "dm_inv dm" and f: "fired_of dm t = Some f" "ft_state f = IdleTrigger m"
    and ro: "orders_ok ro" and m: "m \<le> before"
  shows "yields (fired_CheckTimeout ro t before dm) (\<lambda>(timedout, dm'). timedout \<and> dm_inv dm' \<and>
     held dm' = held dm \<and> evicted_trigger t dm dm')"
proof -
  note ok = dm_okD [OF dm [unfolded dm_inv_def]]
  let ?is = "ro_trace ro (ft_traces f)"
  have fo: "fired_ok {} (trace_of dm) t f" by (rule coreD(3) [OF ok(1) f(1)])
  have kd: "set ?is = set (ft_traces f)" "distinct ?is" "set ?is \<subseteq> flinks {} t f"
    using ro fo by (auto simp: orders_ok_def fired_ok_def key_order_set key_order_distinct flinks_def)
  have none: "obufs (trace_of dm i) = []" if "i \<in> set (ft_traces f)" for i
  proof -
    have "i \<in> flinks {} t f" using that by (simp add: flinks_def)
    then have "nbufs (trace_of dm) i = 0" using core_idle_empty [OF ok(1) f(1)] f(2) by simp
    then show ?thesis by (cases "trace_of dm i") (simp_all add: nbufs_def)
  qed
  obtain out dm1 n where r: "collect (\<lambda>i. trace_RemoveTrigger i t) ?is dm = Inr (out, dm1)"
    and ok1: "dm_ok ({t} \<times> set (ft_traces f)) {} dm1" and h: "held dm = held dm1 + mset out"
    and out: "set out \<subseteq> (\<Union>i\<in>set (ft_traces f). set (obufs (trace_of dm i)))"
    and tr: "trace_of dm1 = (\<lambda>j. if j \<in> set (ft_traces f) then Option.bind (trace_of dm j) (strip t) else trace_of dm j)"
    and F: "fired_of dm1 = (fired_of dm)(t \<mapsto> drop_count n f)"
    and o: "untriggered dm1 = untriggered dm" "dom (queue_of dm) \<subseteq> dom (queue_of dm1)" "now dm1 = now dm"
    using RemoveTrigger_all [OF dm [unfolded dm_inv_def] f(1) kd(3,2)] by (elim yieldsE) (auto simp: kd(1))
  have "out = []" using out none by auto
  have f1: "fired_of dm1 t = Some (drop_count n f)" by (simp add: F)
  obtain q0 where q0: "deref_fired dm t = Inr (q0, f)" using deref_fired_Some [OF f(1)] by metis
  obtain q where q: "queue_of dm1 (queue_id t) = Some q" using deref_fired_Some [OF f1] by metis
  have z: "ft_buffer_count (drop_count n f) = 0"
    using coreD(3) [OF dm_okD(1) [OF ok1] f1] by (simp add: fired_ok_def flinks_def)
  let ?q = "q\<lparr>tq_idle := lru_remove (base_trace_id t) (tq_idle q),
      tq_fired := AList.delete (base_trace_id t) (tq_fired q)\<rparr>"
  note e = dm_ok_forget [OF ok1 f1 _ _ q, of ?q]
  have "dm_inv (put_queue (queue_id t) ?q dm1) \<and>
      fired_of (put_queue (queue_id t) ?q dm1) = (fired_of dm1)(t := None)"
    using f(2) z by (intro conjI e) simp_all
  moreover have "trace_of dm1 = (\<lambda>j. Option.bind (trace_of dm j) (strip t))"
    using bind_strip_unlinked [OF ok(1) f(1)] by (auto simp: tr fun_eq_iff)
  ultimately have "evicted_trigger t dm (put_queue (queue_id t) ?q dm1)" "dm_inv (put_queue (queue_id t) ?q dm1)"
    using o by (auto simp: evicted_trigger_def F)
  moreover have "held (put_queue (queue_id t) ?q dm1) = held dm1" by (rule held_cong) simp
  ultimately show ?thesis using q0 r q f(2) h m \<open>out = []\<close> by (simp add: fired_state_defs)
qed

section \<open>Taking the buffers of a trace\<close>

fun emptied :: "tracestate \<Rightarrow> tracestate" where
  "emptied (ReportingTrace _ ts) = TriggeredTrace ts"
| "emptied s = s"

lemma emptied_triggered:
  "\<not> is_untriggered s \<Longrightarrow> bufs (emptied s) = [] \<and> trigs (emptied s) = trigs s \<and> \<not> is_untriggered (emptied s)"
  "trace_wf (emptied s) = trace_wf s"
  by (cases s; simp)+

text \<open>Triggers change their buffer counts only.\<close>

definition recounted :: "(TriggerID \<rightharpoonup> FiredTrigger) \<Rightarrow> (TriggerID \<rightharpoonup> FiredTrigger) \<Rightarrow> bool" where
  "recounted F F' \<longleftrightarrow>
     (\<forall>t. case F t of None \<Rightarrow> F' t = None
          | Some f \<Rightarrow> \<exists>n. F' t = Some (drop_count n f))"

lemma recounted_refl: "recounted F F"
  unfolding recounted_def
proof
  fix t
  show "case F t of None \<Rightarrow> F t = None | Some f \<Rightarrow> \<exists>n. F t = Some (drop_count n f)"
    by (cases "F t") (auto simp: drop_count_def intro!: exI [of _ 0])
qed

lemma recounted_on_keys: "recounted F (on_keys A (drop_count n) F)"
  unfolding recounted_def
proof
  fix t
  show "case F t of None \<Rightarrow> on_keys A (drop_count n) F t = None
      | Some f \<Rightarrow> \<exists>n'. on_keys A (drop_count n) F t = Some (drop_count n' f)"
  proof (cases "F t")
    case (Some f)
    then show ?thesis
      by (cases "t \<in> A") (auto simp: on_keys_def drop_count_def intro: exI [of _ n] exI [of _ 0])
  qed (simp add: on_keys_def)
qed

lemma drop_count_drop_count: "drop_count n (drop_count m f) = drop_count (m + n) f"
  by (simp add: drop_count_def diff_diff_eq)

lemma recounted_trans: "recounted F G \<Longrightarrow> recounted G H \<Longrightarrow> recounted F H"
  unfolding recounted_def
proof
  fix t
  assume "\<forall>t. case F t of None \<Rightarrow> G t = None | Some f \<Rightarrow> \<exists>n. G t = Some (drop_count n f)"
    and "\<forall>t. case G t of None \<Rightarrow> H t = None | Some f \<Rightarrow> \<exists>n. H t = Some (drop_count n f)"
  from this [THEN spec, of t] show "case F t of None \<Rightarrow> H t = None | Some f \<Rightarrow> \<exists>n. H t = Some (drop_count n f)"
    by (cases "F t") (auto simp: drop_count_drop_count)
qed

lemma recountedD: "recounted F F' \<Longrightarrow> F t = Some f \<Longrightarrow> \<exists>n. F' t = Some (drop_count n f)"
  "recounted F F' \<Longrightarrow> F t = None \<Longrightarrow> F' t = None"
  unfolding recounted_def by (auto dest: spec [of _ t])

lemma TakeBuffers_ok:
  assumes dm: "dm_ok X P dm" and s: "trace_of dm i = Some s" "\<not> is_untriggered s" and ro: "orders_ok ro"
  shows "yields (trace_TakeBuffers ro i dm) (\<lambda>(out, dm'). dm_ok X P dm' \<and> out = bufs s \<and>
     held dm = held dm' + mset out \<and> trace_of dm' = (trace_of dm)(i \<mapsto> emptied s) \<and>
     recounted (fired_of dm) (fired_of dm') \<and> untriggered dm' = untriggered dm \<and>
     dom (queue_of dm) \<subseteq> dom (queue_of dm') \<and> now dm' = now dm)"
proof (cases s)
  case (TriggeredTrace ts)
  moreover have "trace_of dm = (trace_of dm)(i \<mapsto> s)" using s by auto
  ultimately show ?thesis using dm s(1) recounted_refl by (simp add: trace_TakeBuffers_defs)
next
  case (ReportingTrace bs ts)
  have wf: "trace_wf s" by (rule coreD(1) [OF dm_okD(1) [OF dm] s(1)])
  have kd: "set (ro_trigger ro ts) = trigs s" "distinct (ro_trigger ro ts)"
    using ro wf by (simp_all add: orders_ok_def key_order_set key_order_distinct ReportingTrace)
  have e: "bufs (emptied s) = []" "trace_wf (emptied s)" "trigs (emptied s) = trigs s" "\<not> is_untriggered (emptied s)"
    using emptied_triggered s(2) wf by auto
  obtain dm1 where dm1: "foreach (\<lambda>t. buffersRemoved t (nb s)) (ro_trigger ro ts)
        (add_triggered 0 (- nb s) (add_total 0 (- nb s) dm)) = Inr dm1"
    "dm_ok X P (put_trace i (emptied s) dm1)"
    "queues_only (add_triggered 0 (- nb s) (add_total 0 (- nb s) dm)) dm1"
    "fired_of dm1 = on_keys (trigs s) (drop_count (nb s)) (fired_of dm)"
    "held (put_trace i (emptied s) dm1) + mset (bufs s) = held dm"
    using take_bufs_ok [OF dm s e kd] by (auto elim!: yieldsE)
  note v = queues_only_views [OF dm1(3)]
  show ?thesis
    using dm1 v s(1) recounted_on_keys by (simp add: trace_TakeBuffers_defs ReportingTrace Let_def)
qed (use s in simp)

lemma TakeBuffers_all:
  assumes "dm_ok X P dm" and "orders_ok ro" and "distinct is"
    and "\<forall>i\<in>set is. \<exists>s. trace_of dm i = Some s \<and> \<not> is_untriggered s"
  shows "yields (collect (trace_TakeBuffers ro) is dm) (\<lambda>(out, dm').
     dm_ok X P dm' \<and> out = concat (map (\<lambda>i. obufs (trace_of dm i)) is) \<and> held dm = held dm' + mset out \<and>
     trace_of dm' = (\<lambda>j. if j \<in> set is then map_option emptied (trace_of dm j) else trace_of dm j) \<and>
     recounted (fired_of dm) (fired_of dm') \<and> untriggered dm' = untriggered dm \<and>
     dom (queue_of dm) \<subseteq> dom (queue_of dm') \<and> now dm' = now dm)"
  using assms
proof (induction "is" arbitrary: dm)
  case Nil
  then show ?case by (simp add: recounted_refl)
next
  case (Cons i "is")
  obtain s where s: "trace_of dm i = Some s" "\<not> is_untriggered s" using Cons.prems(4) by auto
  obtain dm1 where r: "trace_TakeBuffers ro i dm = Inr (bufs s, dm1)" and ok: "dm_ok X P dm1"
    and h: "held dm = held dm1 + mset (bufs s)" and tr: "trace_of dm1 = (trace_of dm)(i \<mapsto> emptied s)"
    and F: "recounted (fired_of dm) (fired_of dm1)"
    and o: "untriggered dm1 = untriggered dm" "dom (queue_of dm) \<subseteq> dom (queue_of dm1)" "now dm1 = now dm"
    using TakeBuffers_ok [OF Cons.prems(1) s Cons.prems(2)] by (elim yieldsE) (auto simp del: fun_upd_apply)
  have d: "distinct is" and n: "i \<notin> set is" using Cons.prems(3) by auto
  have e: "\<forall>j\<in>set is. \<exists>s. trace_of dm1 j = Some s \<and> \<not> is_untriggered s"
    using Cons.prems(4) n by (auto simp: tr)
  obtain dm2 where r2: "collect (trace_TakeBuffers ro) is dm1 = Inr (concat (map (\<lambda>i. obufs (trace_of dm1 i)) is), dm2)"
    and ok2: "dm_ok X P dm2" and h2: "held dm1 = held dm2 + mset (concat (map (\<lambda>i. obufs (trace_of dm1 i)) is))"
    and tr2: "trace_of dm2 = (\<lambda>j. if j \<in> set is then map_option emptied (trace_of dm1 j) else trace_of dm1 j)"
    and F2: "recounted (fired_of dm1) (fired_of dm2)"
    and o2: "untriggered dm2 = untriggered dm1" "dom (queue_of dm1) \<subseteq> dom (queue_of dm2)" "now dm2 = now dm1"
    using Cons.IH [OF ok Cons.prems(2) d e] by (elim yieldsE) auto
  have m: "map (\<lambda>i. obufs (trace_of dm1 i)) is = map (\<lambda>i. obufs (trace_of dm i)) is"
    using n by (auto simp: tr)
  have "trace_of dm2 = (\<lambda>j. if j \<in> set (i # is) then map_option emptied (trace_of dm j) else trace_of dm j)"
    using s n by (auto simp: tr2 tr fun_eq_iff)
  then show ?case
    using r r2 ok2 h h2 o o2 s recounted_trans [OF F F2] unfolding m by (auto simp: ac_simps)
qed

section \<open>Reporting a trigger\<close>

text \<open>
  The specification: the traces of the trigger keep their triggers and lose their buffers, the trigger
  becomes idle now, and other triggers change their buffer counts only.
\<close>

definition reported_trigger :: "TriggerID \<Rightarrow> DataManager \<Rightarrow> DataManager \<Rightarrow> bool" where
  "reported_trigger t dm dm' \<longleftrightarrow>
     trace_of dm' = (\<lambda>j. map_option (\<lambda>s. if t \<in> trigs s then emptied s else s) (trace_of dm j)) \<and>
     (\<exists>F. recounted (fired_of dm) F \<and>
        fired_of dm' = F(t := map_option (\<lambda>f. f\<lparr>ft_state := IdleTrigger (now dm)\<rparr>) (F t))) \<and>
     untriggered dm' = untriggered dm \<and>
     dom (queue_of dm) \<subseteq> dom (queue_of dm') \<and> now dm' = now dm"

lemma dm_ok_to_idle:
  fixes m :: time
  assumes dm: "dm_ok {} {t} dm" and f: "fired_of dm t = Some f" "ft_state f = ReportingTrigger" "ft_buffer_count f = 0"
    and q: "queue_of dm (queue_id t) = Some q"
  defines "dm' \<equiv> put_queue (queue_id t) (put_fired (base_trace_id t) (f\<lparr>ft_state := IdleTrigger m\<rparr>)
      (q\<lparr>tq_idle := base_trace_id t # tq_idle q\<rparr>)) dm"
  shows "dm_inv dm'" and "fired_of dm' = (fired_of dm)(t \<mapsto> f\<lparr>ft_state := IdleTrigger m\<rparr>)"
proof -
  let ?k = "queue_id t" and ?b = "base_trace_id t" and ?f = "f\<lparr>ft_state := IdleTrigger m\<rparr>"
  let ?q = "q\<lparr>tq_idle := ?b # tq_idle q\<rparr>"
  note ok = dm_okD [OF dm]
  show F: "fired_of dm' = (fired_of dm)(t \<mapsto> ?f)"
    unfolding dm'_def by (rule fired_of_put_fired [OF q]) simp
  have fb: "map_of (tq_fired q) ?b = Some f" using f(1) q by (simp add: fired_of_def)
  have sq: "sched_ok {t} ?k q" and cq: "count_ok {} ?k q" using queues_okD [OF ok(2) q] by auto
  have "sched_ok {} ?k (put_fired ?b ?f ?q)"
    using sq fb f(2) by (auto simp: sched_ok_def put_fired_def tid_eq_iff')
  moreover have "count_ok {} ?k (put_fired ?b ?f ?q)" by (rule count_ok_put_fired [OF cq fb]) simp_all
  moreover have "sched_ok {} k q1" if "sched_ok {t} k q1" "k \<noteq> ?k" for k q1
    using that by (auto simp: sched_ok_def)
  ultimately have "queues_ok {} {} dm'" using ok(2) by (auto simp: queues_ok_def dm'_def)
  moreover have "core {} (trace_of dm) (fired_of dm')"
    unfolding F by (rule core_set_state [OF ok(1) f(1,3)]) simp_all
  ultimately show "dm_inv dm'"
    unfolding dm_inv_def by (intro dm_ok_queues_only [OF dm]) (simp_all add: dm'_def)
qed

lemma GetBuffersForReport_ok:
  assumes dm: "dm_ok {} {t} dm" and f: "fired_of dm t = Some f" "ft_state f = ReportingTrigger"
    and ro: "orders_ok ro"
  shows "yields (fired_GetBuffersForReport ro t dm) (\<lambda>(out, dm'). dm_inv dm' \<and> held dm = held dm' + mset out \<and>
     out = concat (map (\<lambda>i. obufs (trace_of dm i)) (ro_trace ro (ft_traces f))) \<and> reported_trigger t dm dm')"
proof -
  note ok = dm_okD [OF dm]
  let ?is = "ro_trace ro (ft_traces f)"
  have fo: "fired_ok {} (trace_of dm) t f" by (rule coreD(3) [OF ok(1) f(1)])
  have kd: "set ?is = set (ft_traces f)" "distinct ?is"
    using ro fo by (auto simp: orders_ok_def fired_ok_def key_order_set key_order_distinct)
  have l: "j \<in> set (ft_traces f) \<longleftrightarrow> (\<exists>s. trace_of dm j = Some s \<and> t \<in> trigs s)" for j
    using coreD(2) [OF ok(1), of t j] f(1) by (auto simp: linked_def incl_def flinks_def)
  have nt: "\<not> is_untriggered s" if "t \<in> trigs s" for s using that by (cases s) simp_all
  have e: "\<forall>i\<in>set ?is. \<exists>s. trace_of dm i = Some s \<and> \<not> is_untriggered s" using l nt kd(1) by blast
  obtain dm1 where r: "collect (trace_TakeBuffers ro) ?is dm =
        Inr (concat (map (\<lambda>i. obufs (trace_of dm i)) ?is), dm1)"
    and ok1: "dm_ok {} {t} dm1" and h: "held dm = held dm1 + mset (concat (map (\<lambda>i. obufs (trace_of dm i)) ?is))"
    and tr: "trace_of dm1 = (\<lambda>j. if j \<in> set (ft_traces f) then map_option emptied (trace_of dm j) else trace_of dm j)"
    and F: "recounted (fired_of dm) (fired_of dm1)"
    and o: "untriggered dm1 = untriggered dm" "dom (queue_of dm) \<subseteq> dom (queue_of dm1)" "now dm1 = now dm"
    using TakeBuffers_all [OF dm ro kd(2) e] by (elim yieldsE) (auto simp: kd(1))
  have tr': "trace_of dm1 = (\<lambda>j. map_option (\<lambda>s. if t \<in> trigs s then emptied s else s) (trace_of dm j))"
  proof
    fix j
    show "trace_of dm1 j = map_option (\<lambda>s. if t \<in> trigs s then emptied s else s) (trace_of dm j)"
      using l [of j] by (cases "trace_of dm j") (simp_all add: tr)
  qed
  obtain n where f1: "fired_of dm1 t = Some (drop_count n f)" using recountedD(1) [OF F f(1)] by auto
  obtain q0 where q0: "deref_fired dm t = Inr (q0, f)" using deref_fired_Some [OF f(1)] by metis
  obtain q where q: "queue_of dm1 (queue_id t) = Some q" "deref_fired dm1 t = Inr (q, drop_count n f)"
    using deref_fired_Some [OF f1] by metis
  have "nbufs (trace_of dm1) j = 0" if "j \<in> set (ft_traces f)" for j
    using that emptied_triggered(1) nt unfolding l by (auto simp: nbufs_def tr')
  then have z: "ft_buffer_count (drop_count n f) = 0"
    using coreD(3) [OF dm_okD(1) [OF ok1] f1] by (simp add: fired_ok_def flinks_def)
  let ?dm = "put_queue (queue_id t) (put_fired (base_trace_id t) ((drop_count n f)\<lparr>ft_state := IdleTrigger (now dm1)\<rparr>)
      (q\<lparr>tq_idle := base_trace_id t # tq_idle q\<rparr>)) dm1"
  have st: "ft_state (drop_count n f) = ReportingTrigger" using f(2) by simp
  note i = dm_ok_to_idle [OF ok1 f1 st z q(1), of "now dm1"]
  have "reported_trigger t dm ?dm"
    unfolding reported_trigger_def i(2) using tr' F f1 o by (auto intro!: exI [of _ "fired_of dm1"])
  moreover have "held ?dm = held dm1" by (rule held_cong) simp
  ultimately show ?thesis using q0 r q(2) z f(2) h i(1) by (simp add: fired_state_defs)
qed

end
