(* ===== verification/DataQueues.thy ===== *)
theory DataQueues
  imports DataEvict
begin

text \<open>
  The operations of a trigger queue that report, evict and time out its triggers.
\<close>

section \<open>Taking a trigger out of the reporting tree\<close>

lemma pop_reporting_ok:
  assumes dm: "dm_inv dm" and q: "queue_of dm k = Some q"
    and pop: "yields (pop (tq_reporting q)) (\<lambda>(v, tree). Q v \<and> v \<in> ppt_keys (tq_reporting q) \<and>
      ppt_inv tree \<and> ppt_keys tree = ppt_keys (tq_reporting q) - {v})"
  shows "yields (pop_reporting pop k dm) (\<lambda>(b, dm1). Q b \<and> b \<in> rep dm k \<and> dm_ok {} {tid k b} dm1 \<and>
     fired_of dm1 = fired_of dm \<and> queues_only dm dm1)"
proof -
  note ok = dm_okD [OF dm [unfolded dm_inv_def]]
  obtain b tree where r: "pop (tq_reporting q) = Inr (b, tree)" "Q b" "b \<in> ppt_keys (tq_reporting q)"
    "ppt_inv tree" "ppt_keys tree = ppt_keys (tq_reporting q) - {b}" using pop by (auto elim!: yieldsE)
  let ?q = "q\<lparr>tq_reporting := tree\<rparr>"
  have sq: "sched_ok {} k q" and cq: "count_ok {} k q" using queues_okD [OF ok(2) q] by auto
  have F: "fired_of (put_queue k ?q dm) = fired_of dm" by (rule fired_of_put_same [OF q]) simp
  have "sched_ok {tid k b} k ?q" using sq r by (auto simp: sched_ok_def)
  moreover have "count_ok {} k ?q" using cq by (simp add: count_ok_def)
  moreover have "sched_ok {tid k b} k' q1" if "sched_ok {} k' q1" "k' \<noteq> k" for k' q1
    using that by (auto simp: sched_ok_def)
  ultimately have "queues_ok {} {tid k b} (put_queue k ?q dm)" using ok(2) by (auto simp: queues_ok_def)
  then have "dm_ok {} {tid k b} (put_queue k ?q dm)"
    using ok(1) by (intro dm_ok_queues_only [OF dm [unfolded dm_inv_def]]) (simp_all add: F)
  then show ?thesis using q r F dm_inv_keys(2) [OF dm q] by (simp add: pop_reporting_def)
qed

lemma pop_min_reporting:
  assumes dm: "dm_inv dm" and q: "queue_of dm k = Some q" and ne: "rep dm k \<noteq> {}"
  shows "yields (pop_reporting PopMin k dm) (\<lambda>(b, dm1). b = Min (rep dm k) \<and> b \<in> rep dm k \<and>
     dm_ok {} {tid k b} dm1 \<and> fired_of dm1 = fired_of dm \<and> queues_only dm dm1)"
  using pop_reporting_ok [OF dm q, of PopMin "\<lambda>b. b = Min (rep dm k)"] ppt.pop_min_yields [of "tq_reporting q"]
    dm_inv_keys [OF dm q] ne by simp

lemma pop_any_reporting:
  assumes dm: "dm_inv dm" and q: "queue_of dm k = Some q" and ne: "rep dm k \<noteq> {}"
  shows "yields (pop_reporting PopNearMax k dm) (\<lambda>(b, dm1). b \<in> rep dm k \<and> dm_ok {} {tid k b} dm1 \<and>
     fired_of dm1 = fired_of dm \<and> queues_only dm dm1)"
  using pop_reporting_ok [OF dm q, of PopNearMax "\<lambda>_. True"] ppt.pop_any_yields [of "tq_reporting q"]
    dm_inv_keys [OF dm q] ne by simp

section \<open>Reporting\<close>

lemma rep_fired: "b \<in> rep dm k \<Longrightarrow> \<exists>f. fired_of dm (tid k b) = Some f \<and> ft_state f = ReportingTrigger"
  by (simp add: rep_def)

lemma dm_inv_put_metrics:
  assumes "dm_inv dm" and q: "queue_of dm k = Some q"
  shows "dm_inv (put_queue k (q\<lparr>tq_metrics := m\<rparr>) dm)"
    and "fired_of (put_queue k (q\<lparr>tq_metrics := m\<rparr>) dm) = fired_of dm"
proof -
  note ok = dm_okD [OF assms(1) [unfolded dm_inv_def]]
  show F: "fired_of (put_queue k (q\<lparr>tq_metrics := m\<rparr>) dm) = fired_of dm"
    by (rule fired_of_put_same [OF q]) simp
  have "queues_ok {} {} (put_queue k (q\<lparr>tq_metrics := m\<rparr>) dm)"
    using queues_okD [OF ok(2) q] by (intro queues_ok_put [OF ok(2)]) (simp_all add: sched_ok_def count_ok_def)
  then show "dm_inv (put_queue k (q\<lparr>tq_metrics := m\<rparr>) dm)"
    unfolding dm_inv_def using ok(1)
    by (intro dm_ok_queues_only [OF assms(1) [unfolded dm_inv_def]]) (simp_all add: F)
qed

text \<open>What the queue hands out for a trigger: the buffers of its traces.\<close>

definition trigger_buffers :: "range_orders \<Rightarrow> DataManager \<Rightarrow> TriggerID \<Rightarrow> int list" where
  "trigger_buffers ro dm t =
     (case fired_of dm t of None \<Rightarrow> []
      | Some f \<Rightarrow> concat (map (\<lambda>i. obufs (trace_of dm i)) (ro_trace ro (ft_traces f))))"

lemma queue_ReportNext_ok:
  assumes dm: "dm_inv dm" and ro: "orders_ok ro" and q: "queue_of dm k = Some q" and ne: "rep dm k \<noteq> {}"
  shows "yields (queue_ReportNext ro k dm) (\<lambda>(out, dm'). dm_inv dm' \<and> held dm = held dm' + mset out \<and>
     out = trigger_buffers ro dm (tid k (Min (rep dm k))) \<and> reported_trigger (tid k (Min (rep dm k))) dm dm')"
proof -
  obtain b dm1 where p: "pop_reporting PopMin k dm = Inr (b, dm1)" "b = Min (rep dm k)" "b \<in> rep dm k"
    "dm_ok {} {tid k b} dm1" "fired_of dm1 = fired_of dm" "queues_only dm dm1"
    using pop_min_reporting [OF dm q ne] by (auto elim!: yieldsE)
  note v = queues_only_views [OF p(6)]
  obtain f where f: "fired_of dm1 (tid k b) = Some f" "ft_state f = ReportingTrigger"
    using rep_fired [OF p(3)] p(5) by auto
  obtain out dm2 where g: "fired_GetBuffersForReport ro (tid k b) dm1 = Inr (out, dm2)" "dm_inv dm2"
    "held dm1 = held dm2 + mset out" "out = trigger_buffers ro dm (tid k b)" "reported_trigger (tid k b) dm1 dm2"
    using GetBuffersForReport_ok [OF p(4) f ro] f(1) p(5) by (auto elim!: yieldsE simp: trigger_buffers_def v)
  have rt: "reported_trigger (tid k b) dm dm2"
    using g(5) p(5) v by (auto simp: reported_trigger_def)
  then obtain q2 where q2: "queue_of dm2 k = Some q2" using q by (auto simp: reported_trigger_def)
  note m = dm_inv_put_metrics [OF g(2) q2]
  have "reported_trigger (tid k b) dm (put_queue k (q2\<lparr>tq_metrics := m\<rparr>) dm2)" for m
    using rt unfolding reported_trigger_def m(2) by (auto simp del: fun_upd_apply)
  moreover have "held (put_queue k (q2\<lparr>tq_metrics := m\<rparr>) dm2) = held dm2" for m by (rule held_cong) simp
  moreover have "held dm1 = held dm" by (rule held_cong) (simp add: v)
  ultimately show ?thesis
    using p(1,2) f(1) g q2 m(1) by (simp add: queue_ReportNext_def Let_def)
qed

section \<open>Evicting\<close>

text \<open>The specification of evicting a set of triggers of queue \<open>k\<close>.\<close>

definition evicted_from :: "int \<Rightarrow> u64 set \<Rightarrow> DataManager \<Rightarrow> DataManager \<Rightarrow> bool" where
  "evicted_from k B dm dm' \<longleftrightarrow>
     fired_of dm' = (\<lambda>t. if t \<in> tid k ` B then None else fired_of dm t) \<and>
     untriggered dm' = untriggered dm \<and> dom (queue_of dm) \<subseteq> dom (queue_of dm') \<and> now dm' = now dm"

lemma evicted_from_empty: "queues_only dm dm' \<Longrightarrow> fired_of dm' = fired_of dm \<Longrightarrow> evicted_from k {} dm dm'"
  by (simp add: evicted_from_def queues_only_views)

lemma evicted_from_trans: "evicted_from k A dm dm1 \<Longrightarrow> evicted_from k B dm1 dm2 \<Longrightarrow> evicted_from k (A \<union> B) dm dm2"
  unfolding evicted_from_def using subset_trans [of "dom (queue_of dm)" "dom (queue_of dm1)"] by (auto simp: fun_eq_iff)

lemma evicted_from_rep: "evicted_from k B dm dm' \<Longrightarrow> rep dm' k = rep dm k - B"
  by (auto simp: evicted_from_def rep_def split: if_splits)

lemma evict_one:
  assumes dm: "dm_inv dm" and ro: "orders_ok ro" and q: "queue_of dm k = Some q" and ne: "rep dm k \<noteq> {}"
  obtains b dm1 out dm2 where "pop_reporting PopNearMax k dm = Inr (b, dm1)" and "b \<in> rep dm k"
    and "fired_of dm1 (tid k b) \<noteq> None" and "fired_Evict ro (tid k b) dm1 = Inr (out, dm2)" and "dm_inv dm2"
    and "held dm = held dm2 + mset out" and "evicted_trigger (tid k b) dm dm2" and "evicted_from k {b} dm dm2"
proof -
  obtain b dm1 where p: "pop_reporting PopNearMax k dm = Inr (b, dm1)" "b \<in> rep dm k"
    "dm_ok {} {tid k b} dm1" "fired_of dm1 = fired_of dm" "queues_only dm dm1"
    using pop_any_reporting [OF dm q ne] by (auto elim!: yieldsE)
  note v = queues_only_views [OF p(5)]
  obtain f where f: "fired_of dm1 (tid k b) = Some f" "ft_state f = ReportingTrigger"
    using rep_fired [OF p(2)] p(4) by auto
  obtain out dm2 where e: "fired_Evict ro (tid k b) dm1 = Inr (out, dm2)" "dm_inv dm2"
    "held dm1 = held dm2 + mset out" "evicted_trigger (tid k b) dm1 dm2"
    using fired_Evict_ok [OF p(3) f ro] by (auto elim!: yieldsE)
  have "held dm1 = held dm" by (rule held_cong) (simp add: v)
  moreover have et: "evicted_trigger (tid k b) dm dm2" using e(4) p(4) v by (auto simp: evicted_trigger_def)
  moreover have "evicted_from k {b} dm dm2" using et by (auto simp: evicted_from_def evicted_trigger_def fun_eq_iff)
  ultimately show thesis using that p(1,2) e f(1) by simp
qed

lemma queue_EvictNext_ok:
  assumes "dm_inv dm" and "orders_ok ro" and "queue_of dm k = Some q" and "rep dm k \<noteq> {}"
  shows "yields (queue_EvictNext ro k dm) (\<lambda>(out, dm'). dm_inv dm' \<and> held dm = held dm' + mset out \<and>
     (\<exists>b\<in>rep dm k. evicted_trigger (tid k b) dm dm'))"
  by (rule evict_one [OF assms]) (auto simp: queue_EvictNext_def)

text \<open>The result of the eviction loop of a queue: the triggers \<open>B\<close> are gone, and enough buffers with them.\<close>

definition queue_trimmed where
  "queue_trimmed k num evicted cnt dm = (\<lambda>((out, cnt'), dm'). dm_inv dm' \<and>
     (\<exists>new. out = evicted @ new \<and> held dm = held dm' + mset new) \<and>
     (num \<le> int (length out) \<or> rep dm' k = {}) \<and>
     (\<exists>B \<subseteq> rep dm k. evicted_from k B dm dm' \<and> cnt' = cnt + int (card B) \<and>
        (B = {} \<longrightarrow> num \<le> int (length evicted) \<or> rep dm k = {})))"

lemma queue_trimmed_refl:
  "dm_inv dm \<Longrightarrow> num \<le> int (length evicted) \<or> rep dm k = {} \<Longrightarrow> queue_trimmed k num evicted cnt dm ((evicted, cnt), dm)"
  using evicted_from_empty [of dm dm k] by (auto simp: queue_trimmed_def)

lemma queue_trimmed_step:
  assumes b: "b \<in> rep dm k" "finite (rep dm k)" and h: "held dm = held dm2 + mset bs" and e: "evicted_from k {b} dm dm2"
    and r: "queue_trimmed k num (evicted @ bs) (cnt + 1) dm2 ((out, cnt'), dm')"
  shows "queue_trimmed k num evicted cnt dm ((out, cnt'), dm')"
proof -
  obtain new B where l: "out = (evicted @ bs) @ new" "held dm2 = held dm' + mset new" "B \<subseteq> rep dm2 k" "evicted_from k B dm2 dm'"
      "cnt' = cnt + 1 + int (card B)" using r by (auto simp: queue_trimmed_def)
  have rep2: "rep dm2 k = rep dm k - {b}" by (rule evicted_from_rep [OF e])
  have "b \<notin> B" "finite B" using l(3) rep2 b(2) finite_subset by auto
  then have "cnt' = cnt + int (card ({b} \<union> B))" using l(5) by simp
  moreover have "evicted_from k ({b} \<union> B) dm dm'" by (rule evicted_from_trans [OF e l(4)])
  moreover have "{b} \<union> B \<subseteq> rep dm k" using b(1) l(3) rep2 by auto
  ultimately have "\<exists>B\<subseteq>rep dm k. evicted_from k B dm dm' \<and> cnt' = cnt + int (card B) \<and>
      (B = {} \<longrightarrow> num \<le> int (length evicted) \<or> rep dm k = {})" by blast
  moreover have "\<exists>n. out = evicted @ n \<and> held dm = held dm' + mset n"
    using l(1,2) h by (intro exI [of _ "bs @ new"]) (simp add: ac_simps)
  ultimately show ?thesis using r by (auto simp: queue_trimmed_def)
qed

lemma queue_evict_loop_ok:
  assumes "dm_inv dm" and "orders_ok ro" and "queue_of dm k \<noteq> None" and "card (rep dm k) \<le> fuel"
  shows "yields (queue_evict_loop fuel ro k num evicted cnt dm) (queue_trimmed k num evicted cnt dm)"
  using assms
proof (induction fuel arbitrary: evicted cnt dm)
  case 0
  obtain q where q: "queue_of dm k = Some q" using 0(3) by auto
  note k = dm_inv_keys [OF 0(1) q]
  have "finite (rep dm k)" using k(2) ppt.finite_keys by metis
  then have "rep dm k = {}" using 0(4) by simp
  then show ?case using queue_trimmed_refl [OF 0(1)] q k(3) by (subst queue_evict_loop.simps) simp
next
  case (Suc fuel)
  obtain q where q: "queue_of dm k = Some q" using Suc.prems(3) by auto
  note k = dm_inv_keys [OF Suc.prems(1) q]
  have fin: "finite (rep dm k)" using k(2) ppt.finite_keys by metis
  show ?case
  proof (cases "int (length evicted) < num \<and> rep dm k \<noteq> {}")
    case False
    then have "\<not> (int (length evicted) < num \<and> 0 < Size (tq_reporting q))" using k(3) fin by (auto simp: card_gt_0_iff)
    moreover have "queue_trimmed k num evicted cnt dm ((evicted, cnt), dm)"
      using False by (intro queue_trimmed_refl [OF Suc.prems(1)]) auto
    ultimately show ?thesis using q by (subst queue_evict_loop.simps) auto
  next
    case True
    then have sz: "0 < Size (tq_reporting q)" using k(3) fin by (auto simp: card_gt_0_iff)
    obtain b dm1 bs dm2 where e: "pop_reporting PopNearMax k dm = Inr (b, dm1)" "b \<in> rep dm k"
      "fired_Evict ro (tid k b) dm1 = Inr (bs, dm2)" "dm_inv dm2" "held dm = held dm2 + mset bs"
      "evicted_from k {b} dm dm2"
      using evict_one [OF Suc.prems(1,2) q] True by metis
    have q2: "queue_of dm2 k \<noteq> None" using e(6) q by (auto simp: evicted_from_def)
    have "card (rep dm2 k) \<le> fuel" using Suc.prems(4) e(2) fin by (simp add: evicted_from_rep [OF e(6)])
    from Suc.IH [OF e(4) Suc.prems(2) q2 this, of "evicted @ bs" "cnt + 1"] show ?thesis
      using q True sz e(1,3) queue_trimmed_step [OF e(2) fin e(5,6)] by (subst queue_evict_loop.simps) (auto elim!: yieldsE)
  qed
qed

section \<open>Evicting to capacity\<close>

lemma buffer_count_split:
  assumes "counters_ok dm"
  shows "buffer_count dm = ut_buffer_count (untriggered dm) + td_buffer_count (triggered dm)"
proof -
  have "msum (\<lambda>_ s. nb s) T = msum (\<lambda>_ s. if_untriggered s (nb s)) T + msum (\<lambda>_ s. if_triggered s (nb s)) T"
    for T :: "u64 \<rightharpoonup> tracestate"
    unfolding msum_def sum.distrib [symmetric]
    by (rule sum.cong) (simp_all add: if_untriggered_def if_triggered_def)
  then show ?thesis using assms by (simp add: counters_ok_def)
qed

text \<open>What a step hands out is what the triggered section no longer counts.\<close>

lemma triggered_accounting:
  assumes "dm_inv dm" and "dm_inv dm'" and "untriggered dm' = untriggered dm" and "held dm = held dm' + mset out"
  shows "td_buffer_count (triggered dm') = td_buffer_count (triggered dm) - int (length out)"
proof -
  have c: "counters_ok dm" "counters_ok dm'" using assms(1,2) by (simp_all add: dm_inv_def dm_ok_def)
  have "int (size (held dm)) = int (size (held dm')) + int (length out)" using assms(4) by simp
  then have "buffer_count dm = buffer_count dm' + int (length out)" using held_size c by simp
  then show ?thesis using buffer_count_split c assms(3) by simp
qed

lemma num_to_evict_ge: "n - cap \<le> num_to_evict n cap"
  by (simp add: num_to_evict_def Let_def)

lemma num_to_evict_min: "go_div cap 100 \<le> num_to_evict n cap"
  by (simp add: num_to_evict_def Let_def)

lemma queue_EvictToCapacity_idle:
  "td_buffer_count (triggered dm) \<le> cap \<or> cap < 0 \<Longrightarrow> queue_EvictToCapacity ro k cap dm = Inr ([], dm)"
  by (simp add: queue_EvictToCapacity_def)

lemma queue_EvictToCapacity_ok:
  assumes dm: "dm_inv dm" and ro: "orders_ok ro" and q: "queue_of dm k \<noteq> None"
    and cap: "0 \<le> cap" "cap < td_buffer_count (triggered dm)"
  shows "yields (queue_EvictToCapacity ro k cap dm) (\<lambda>(out, dm'). dm_inv dm' \<and> held dm = held dm' + mset out \<and>
     (\<exists>B \<subseteq> rep dm k. evicted_from k B dm dm' \<and> (rep dm k \<noteq> {} \<longrightarrow> B \<noteq> {})) \<and>
     (td_buffer_count (triggered dm') \<le> cap \<and> go_div cap 100 \<le> int (length out) \<or> rep dm' k = {}))"
proof -
  obtain q where q: "queue_of dm k = Some q" using q by auto
  let ?num = "num_to_evict (td_buffer_count (triggered dm)) cap"
  have "card (rep dm k) \<le> nat (Size (tq_reporting q))" using dm_inv_keys(3) [OF dm q] by simp
  from queue_evict_loop_ok [OF dm ro _ this, of ?num "[]" 0] q
  obtain out cnt dm1 B where l:
    "queue_evict_loop (nat (Size (tq_reporting q))) ro k ?num [] 0 dm = Inr ((out, cnt), dm1)"
    "dm_inv dm1" "held dm = held dm1 + mset out" "?num \<le> int (length out) \<or> rep dm1 k = {}"
    "B \<subseteq> rep dm k" "evicted_from k B dm dm1" "B = {} \<longrightarrow> ?num \<le> 0 \<or> rep dm k = {}"
    by (auto simp: queue_trimmed_def elim!: yieldsE)
  obtain q1 where q1: "queue_of dm1 k = Some q1" using l(6) q by (auto simp: evicted_from_def)
  note m = dm_inv_put_metrics [OF l(2) q1]
  define dm2 where "dm2 = put_queue k (q1\<lparr>tq_metrics := (tq_metrics q1)\<lparr>m_evicted := m_evicted (tq_metrics q1) + cnt,
      m_evicted_buffers := m_evicted_buffers (tq_metrics q1) + int (length out)\<rparr>\<rparr>) dm1"
  have d2: "dm_inv dm2" "fired_of dm2 = fired_of dm1" using m by (simp_all add: dm2_def)
  have "evicted_from k {} dm1 dm2" using d2(2) by (intro evicted_from_empty) (simp_all add: dm2_def)
  from evicted_from_trans [OF l(6) this] have e2: "evicted_from k B dm dm2" by simp
  have h2: "held dm = held dm2 + mset out" using l(3) held_cong [of dm2 dm1] by (simp add: dm2_def)
  have rep2: "rep dm2 k = rep dm1 k" by (simp add: rep_def d2(2))
  have pos: "0 < ?num" using num_to_evict_ge [of "td_buffer_count (triggered dm)" cap] cap(2) by simp
  have "td_buffer_count (triggered dm2) = td_buffer_count (triggered dm) - int (length out)"
    using e2 by (intro triggered_accounting [OF dm d2(1) _ h2]) (simp add: evicted_from_def)
  then have "td_buffer_count (triggered dm2) \<le> cap \<and> go_div cap 100 \<le> int (length out) \<or> rep dm2 k = {}"
    using l(4) num_to_evict_ge [of "td_buffer_count (triggered dm)" cap]
      num_to_evict_min [of cap "td_buffer_count (triggered dm)"] by (auto simp: rep2)
  moreover have "queue_EvictToCapacity ro k cap dm = Inr (out, dm2)"
    using cap q l(1) q1 by (simp add: queue_EvictToCapacity_def Let_def dm2_def)
  moreover have "B \<subseteq> rep dm k \<and> evicted_from k B dm dm2 \<and> (rep dm k \<noteq> {} \<longrightarrow> B \<noteq> {})"
    using l(5,7) e2 pos by auto
  ultimately show ?thesis using d2(1) h2 by auto
qed

subsection \<open>The largest queue\<close>

abbreviation qbufs :: "DataManager \<Rightarrow> int \<Rightarrow> int" where
  "qbufs dm k \<equiv> (case queue_of dm k of None \<Rightarrow> 0 | Some q \<Rightarrow> tq_buffer_count q)"

lemma largest_queue_ok:
  assumes "set ks \<subseteq> dom (queue_of dm)" and "set_option best \<subseteq> dom (queue_of dm)" and "ks \<noteq> [] \<or> best \<noteq> None"
  shows "yields (largest_queue best ks dm) (\<lambda>r. \<exists>k \<in> set ks \<union> set_option best. r = Some k \<and>
     (\<forall>j \<in> set ks \<union> set_option best. qbufs dm j \<le> qbufs dm k))"
  using assms
proof (induction ks arbitrary: best)
  case Nil
  then show ?case by auto
next
  case (Cons k ks)
  obtain q where q: "queue_of dm k = Some q" using Cons.prems(1) by auto
  have sub: "set ks \<subseteq> dom (queue_of dm)" using Cons.prems(1) by simp
  show ?case
  proof (cases best)
    case None
    have "yields (largest_queue (Some k) ks dm) (\<lambda>r. \<exists>k' \<in> set ks \<union> set_option (Some k). r = Some k' \<and>
        (\<forall>j \<in> set ks \<union> set_option (Some k). qbufs dm j \<le> qbufs dm k'))"
      using q by (intro Cons.IH sub) auto
    then show ?thesis using None q by (auto elim!: yieldsE)
  next
    case (Some j)
    obtain q' where q': "queue_of dm j = Some q'" using Cons.prems(2) Some by auto
    let ?m = "if tq_buffer_count q' < tq_buffer_count q then k else j"
    have "yields (largest_queue (Some ?m) ks dm) (\<lambda>r. \<exists>k' \<in> set ks \<union> set_option (Some ?m). r = Some k' \<and>
        (\<forall>j \<in> set ks \<union> set_option (Some ?m). qbufs dm j \<le> qbufs dm k'))"
      using q q' by (intro Cons.IH sub) auto
    then show ?thesis using Some q q' by (auto elim!: yieldsE split: if_splits)
  qed
qed

text \<open>If triggered buffers are held, the largest queue has a trigger to evict.\<close>

lemma triggered_buffers_queue:
  assumes dm: "dm_inv dm" and pos: "0 < td_buffer_count (triggered dm)"
  shows "\<exists>k. 0 < qbufs dm k"
proof -
  note ok = dm_okD [OF dm [unfolded dm_inv_def]]
  have "msum (\<lambda>_ s. if_triggered s (nb s)) (trace_of dm) \<noteq> 0" using pos ok(3) by (simp add: counters_ok_def)
  then obtain i s where s: "trace_of dm i = Some s" "if_triggered s (nb s) \<noteq> 0"
    unfolding msum_def by (metis (no_types, lifting) domD option.sel sum.neutral)
  then have nt: "\<not> is_untriggered s" "0 < nb s" by (auto simp: if_triggered_def split: if_splits)
  have "trigs s \<noteq> {}" using coreD(1) [OF ok(1) s(1)] nt(1) by (cases s) auto
  then obtain t where t: "t \<in> trigs s" by auto
  obtain f where f: "fired_of dm t = Some f" using core_trigs_dom [OF ok(1) s(1)] t by auto
  have i: "i \<in> flinks {} t f" using core_link_iff [OF ok(1) f s(1)] t by simp
  have "nbufs (trace_of dm) i \<le> (\<Sum>i\<in>flinks {} t f. nbufs (trace_of dm) i)" by (rule member_le_sum [OF i]) simp_all
  also have "\<dots> = ft_buffer_count f" using coreD(3) [OF ok(1) f] by (simp add: fired_ok_def)
  finally have fpos: "0 < ft_buffer_count f" using nbufs_Some [of "trace_of dm" i s] s(1) nt(2) by linarith
  obtain q where q: "queue_of dm (queue_id t) = Some q" "map_of (tq_fired q) (base_trace_id t) = Some f"
    using deref_fired_Some [OF f] by metis
  have nn: "0 \<le> ft_buffer_count g" if "map_of (tq_fired q) b = Some g" for b g
  proof -
    have "fired_of dm (tid (queue_id t) b) = Some g" using that q(1) by (simp add: fired_of_def)
    from coreD(3) [OF ok(1) this] show ?thesis by (simp add: fired_ok_def sum_nonneg)
  qed
  have "ft_buffer_count f \<le> msum (\<lambda>_. ft_buffer_count) (map_of (tq_fired q))"
    by (rule msum_member_le [OF finite_dom_map_of q(2)]) (rule nn)
  then have "0 < qbufs dm (queue_id t)" using fpos queues_okD [OF ok(2) q(1)] q(1) by (simp add: count_ok_def)
  then show ?thesis by blast
qed

lemma qbufs_rep:
  assumes dm: "dm_inv dm" and pos: "qbufs dm k \<noteq> 0"
  shows "queue_of dm k \<noteq> None" and "rep dm k \<noteq> {}"
proof -
  note ok = dm_okD [OF dm [unfolded dm_inv_def]]
  obtain q where q: "queue_of dm k = Some q" using pos by (auto split: option.splits)
  then show "queue_of dm k \<noteq> None" by simp
  have "msum (\<lambda>_. ft_buffer_count) (map_of (tq_fired q)) \<noteq> 0"
    using pos q queues_okD [OF ok(2) q] by (simp add: count_ok_def)
  then obtain b f where f: "map_of (tq_fired q) b = Some f" "ft_buffer_count f \<noteq> 0"
    unfolding msum_def by (metis (no_types, lifting) domD option.sel sum.neutral)
  have F: "fired_of dm (tid k b) = Some f" using f(1) q by (simp add: fired_of_def)
  then have "ft_state f = ReportingTrigger" using coreD(3) [OF ok(1) F] f(2) by (auto simp: fired_ok_def)
  then show "rep dm k \<noteq> {}" using F by (auto simp: rep_def)
qed

lemma EvictedTriggeredToCapacity_ok:
  assumes dm: "dm_inv dm" and ro: "orders_ok ro" and cap: "0 \<le> cap" "cap < td_buffer_count (triggered dm)"
  shows "yields (EvictedTriggeredToCapacity ro cap dm) (\<lambda>(out, dm'). dm_inv dm' \<and> held dm = held dm' + mset out \<and>
     (\<exists>k B. (\<forall>j. qbufs dm j \<le> qbufs dm k) \<and> B \<subseteq> rep dm k \<and> B \<noteq> {} \<and> evicted_from k B dm dm' \<and>
        (td_buffer_count (triggered dm') \<le> cap \<and> go_div cap 100 \<le> int (length out) \<or> rep dm' k = {})))"
proof -
  let ?ks = "ro_queue ro (map fst (queues (triggered dm)))"
  obtain k0 where k0: "0 < qbufs dm k0" using triggered_buffers_queue [OF dm] cap by auto
  have ks: "set ?ks = dom (queue_of dm)"
    using ro by (simp add: orders_ok_def key_order_set queue_of_def dom_map_of_conv_image_fst)
  have "k0 \<in> dom (queue_of dm)" using qbufs_rep(1) [OF dm, of k0] k0 by auto
  then have ne: "?ks \<noteq> []" using ks by auto
  obtain k where k: "largest_queue None ?ks dm = Inr (Some k)" "\<forall>j\<in>dom (queue_of dm). qbufs dm j \<le> qbufs dm k"
    using largest_queue_ok [of ?ks dm None] ks ne by (auto elim!: yieldsE)
  have kpos: "0 < qbufs dm k" using k(2) k0 \<open>k0 \<in> dom (queue_of dm)\<close> by force
  have max: "qbufs dm j \<le> qbufs dm k" for j
    using k(2) kpos by (cases "queue_of dm j") (auto dest!: bspec [of _ _ j])
  note r = qbufs_rep [OF dm less_imp_neq [OF kpos, symmetric]]
  obtain out dm' B where e: "queue_EvictToCapacity ro k cap dm = Inr (out, dm')" "dm_inv dm'"
    "held dm = held dm' + mset out" "B \<subseteq> rep dm k" "evicted_from k B dm dm'" "B \<noteq> {}"
    "td_buffer_count (triggered dm') \<le> cap \<and> go_div cap 100 \<le> int (length out) \<or> rep dm' k = {}"
    using queue_EvictToCapacity_ok [OF dm ro r(1) cap] r(2) by (elim yieldsE) (clarsimp; blast)
  have "EvictedTriggeredToCapacity ro cap dm = Inr (out, dm')"
    using cap k(1) e(1) by (simp add: EvictedTriggeredToCapacity_def)
  then show ?thesis using e max by auto
qed

end
