(* ===== verification/DataLimits.thy ===== *)
theory DataLimits
  imports DataQueues
begin

text \<open>
  Time-outs of idle triggers and eviction of untriggered traces in least-recently-used order.
\<close>

section \<open>Idle triggers\<close>

definition idle :: "DataManager \<Rightarrow> int \<Rightarrow> u64 set" where
  "idle dm k = {b. \<exists>f m. fired_of dm (tid k b) = Some f \<and> ft_state f = IdleTrigger m}"

definition idle_since :: "DataManager \<Rightarrow> int \<Rightarrow> time \<Rightarrow> u64 set" where
  "idle_since dm k before =
     {b. \<exists>f m. fired_of dm (tid k b) = Some f \<and> ft_state f = IdleTrigger m \<and> m \<le> before}"

lemma idle_queue:
  assumes "dm_inv dm" and "queue_of dm k = Some q"
  shows "set (tq_idle q) = idle dm k" and "length (tq_idle q) = card (idle dm k)"
proof -
  have s: "sched_ok {} k q" using queues_okD [OF dm_okD(2)] assms by (auto simp: dm_inv_def)
  then show i: "set (tq_idle q) = idle dm k" using assms(2) by (auto simp: sched_ok_def idle_def fired_of_def)
  show "length (tq_idle q) = card (idle dm k)" using s i distinct_card [of "tq_idle q"] by (simp add: sched_ok_def)
qed

lemma evicted_from_idle: "evicted_from k B dm dm' \<Longrightarrow> idle dm' k = idle dm k - B"
  by (auto simp: evicted_from_def idle_def split: if_splits)

lemma evicted_from_idle_since: "evicted_from k B dm dm' \<Longrightarrow> idle_since dm' k before = idle_since dm k before - B"
  by (auto simp: evicted_from_def idle_since_def split: if_splits)

lemma CheckTimeout_fresh:
  assumes "fired_of dm t = Some f" and "ft_state f = IdleTrigger m" and "before < m"
  shows "fired_CheckTimeout ro t before dm = Inr (False, dm)"
proof -
  obtain q where "deref_fired dm t = Inr (q, f)" using deref_fired_Some [OF assms(1)] by metis
  then show ?thesis using assms by (simp add: fired_state_defs)
qed

text \<open>The result of the loop: triggers idle since \<open>before\<close> were dropped until a younger one was met.\<close>

definition idle_checked where
  "idle_checked k before cnt dm = (\<lambda>(cnt', dm'). dm_inv dm' \<and> held dm' = held dm \<and>
     (\<exists>B \<subseteq> idle_since dm k before. evicted_from k B dm dm' \<and> cnt' = cnt + int (card B)) \<and>
     (idle dm' k = {} \<or> idle dm' k - idle_since dm' k before \<noteq> {}))"

lemma idle_checked_refl:
  "dm_inv dm \<Longrightarrow> idle dm k = {} \<or> idle dm k - idle_since dm k before \<noteq> {} \<Longrightarrow> idle_checked k before cnt dm (cnt, dm)"
  using evicted_from_empty [of dm dm k] by (auto simp: idle_checked_def)

lemma idle_checked_step:
  assumes e: "evicted_from k {b} dm dm1" and h: "held dm1 = held dm" and b: "b \<in> idle_since dm k before"
    and fin: "finite (idle dm k)" and r: "idle_checked k before (cnt + 1) dm1 (cnt', dm')"
  shows "idle_checked k before cnt dm (cnt', dm')"
proof -
  obtain B where B: "B \<subseteq> idle_since dm1 k before" "evicted_from k B dm1 dm'" "cnt' = cnt + 1 + int (card B)"
    using r by (auto simp: idle_checked_def)
  note e' = evicted_from_idle [OF e] evicted_from_idle_since [OF e, of before]
  have "idle_since dm k before \<subseteq> idle dm k" by (auto simp: idle_since_def idle_def)
  then have "b \<notin> B" "finite B" using B(1) e' fin finite_subset by auto
  then have "cnt' = cnt + int (card ({b} \<union> B))" using B(3) by simp
  moreover have "evicted_from k ({b} \<union> B) dm dm'" by (rule evicted_from_trans [OF e B(2)])
  moreover have "{b} \<union> B \<subseteq> idle_since dm k before" using b B(1) e' by auto
  ultimately have "\<exists>B \<subseteq> idle_since dm k before. evicted_from k B dm dm' \<and> cnt' = cnt + int (card B)" by blast
  then show ?thesis using r h by (auto simp: idle_checked_def)
qed

lemma check_idle_loop_ok:
  assumes "dm_inv dm" and "orders_ok ro" and "queue_of dm k \<noteq> None" and "card (idle dm k) \<le> fuel"
  shows "yields (check_idle_loop fuel ro k before cnt dm) (idle_checked k before cnt dm)"
  using assms
proof (induction fuel arbitrary: cnt dm)
  case 0
  obtain q where q: "queue_of dm k = Some q" using 0(3) by auto
  have "tq_idle q = []" using idle_queue(2) [OF 0(1) q] 0(4) by simp
  then show ?case using idle_checked_refl [OF 0(1)] idle_queue(1) [OF 0(1) q] q by (subst check_idle_loop.simps) simp
next
  case (Suc fuel)
  obtain q where q: "queue_of dm k = Some q" using Suc.prems(3) by auto
  note i = idle_queue [OF Suc.prems(1) q]
  show ?case
  proof (cases "tq_idle q = []")
    case True
    then show ?thesis using idle_checked_refl [OF Suc.prems(1)] i(1) q by (subst check_idle_loop.simps) simp
  next
    case ne: False
    let ?b = "last (tq_idle q)"
    have bi: "?b \<in> idle dm k" using ne i(1) last_in_set by auto
    then obtain f m where f: "fired_of dm (tid k ?b) = Some f" "ft_state f = IdleTrigger m" by (auto simp: idle_def)
    show ?thesis
    proof (cases "before < m")
      case True
      have "?b \<notin> idle_since dm k before" using f True by (simp add: idle_since_def)
      then have "idle_checked k before cnt dm (cnt, dm)" using bi by (intro idle_checked_refl [OF Suc.prems(1)]) auto
      then show ?thesis using q ne CheckTimeout_fresh [OF f True] by (subst check_idle_loop.simps) (simp add: lru_back_def)
    next
      case False
      then obtain dm1 where c: "fired_CheckTimeout ro (tid k ?b) before dm = Inr (True, dm1)" "dm_inv dm1"
        "held dm1 = held dm" "evicted_trigger (tid k ?b) dm dm1"
        using CheckTimeout_ok [OF Suc.prems(1) f Suc.prems(2), of before] by (auto elim!: yieldsE)
      have e: "evicted_from k {?b} dm dm1" using c(4) by (auto simp: evicted_from_def evicted_trigger_def fun_eq_iff)
      have bs: "?b \<in> idle_since dm k before" using f False by (simp add: idle_since_def)
      have fin: "finite (idle dm k)" using i(1) by (metis List.finite_set)
      have "card (idle dm1 k) \<le> fuel" "queue_of dm1 k \<noteq> None"
        using Suc.prems(4) bi fin e q by (auto simp: evicted_from_idle [OF e] evicted_from_def)
      from Suc.IH [OF c(2) Suc.prems(2) this(2,1), of "cnt + 1"] show ?thesis
        using q ne c(1) idle_checked_step [OF e c(3) bs fin] by (subst check_idle_loop.simps) (auto simp: lru_back_def elim!: yieldsE)
    qed
  qed
qed

lemma queue_CheckIdleTriggers_ok:
  assumes "dm_inv dm" and "orders_ok ro" and "queue_of dm k \<noteq> None"
  shows "yields (queue_CheckIdleTriggers ro k before dm) (\<lambda>(cnt, dm'). dm_inv dm' \<and> held dm' = held dm \<and>
     (\<exists>B \<subseteq> idle_since dm k before. evicted_from k B dm dm' \<and> cnt = int (card B)) \<and>
     (idle dm' k = {} \<or> idle dm' k - idle_since dm' k before \<noteq> {}))"
proof -
  obtain q where q: "queue_of dm k = Some q" using assms(3) by auto
  then show ?thesis
    using check_idle_loop_ok [OF assms, of "length (tq_idle q)" before 0] idle_queue(2) [OF assms(1) q]
    by (simp add: queue_CheckIdleTriggers_def idle_checked_def)
qed

text \<open>A pass over all queues: only idle triggers that timed out disappear.\<close>

definition only_timed_out :: "time \<Rightarrow> DataManager \<Rightarrow> DataManager \<Rightarrow> bool" where
  "only_timed_out before dm dm' \<longleftrightarrow>
     (\<forall>t. fired_of dm' t = fired_of dm t \<or>
        fired_of dm' t = None \<and> base_trace_id t \<in> idle_since dm (queue_id t) before) \<and>
     dom (queue_of dm) \<subseteq> dom (queue_of dm') \<and> untriggered dm' = untriggered dm"

lemma only_timed_out_step:
  assumes "evicted_from k B dm dm1" and "B \<subseteq> idle_since dm k before"
  shows "only_timed_out before dm dm1"
  using assms by (auto simp: evicted_from_def only_timed_out_def)

lemma only_timed_out_trans:
  assumes a: "only_timed_out before dm dm1" and b: "only_timed_out before dm1 dm2"
  shows "only_timed_out before dm dm2"
proof -
  have "idle_since dm1 k before \<subseteq> idle_since dm k before" for k
    using a unfolding only_timed_out_def idle_since_def by (smt (verit) Collect_mono option.distinct(1))
  then show ?thesis
    using assms unfolding only_timed_out_def by (smt (verit) subsetD subset_trans)
qed

lemma foreach_idle:
  "dm_inv dm \<Longrightarrow> orders_ok ro \<Longrightarrow> set ks \<subseteq> dom (queue_of dm) \<Longrightarrow>
   yields (foreach (\<lambda>k dm0. bind_res (queue_CheckIdleTriggers ro k before dm0) (\<lambda>(_, dm1). Inr dm1)) ks dm)
     (\<lambda>dm'. dm_inv dm' \<and> held dm' = held dm \<and> only_timed_out before dm dm')"
proof (induction ks arbitrary: dm)
  case Nil
  then show ?case by (simp add: only_timed_out_def)
next
  case (Cons k ks)
  have q: "queue_of dm k \<noteq> None" using Cons.prems(3) by auto
  obtain cnt dm1 B where c: "queue_CheckIdleTriggers ro k before dm = Inr (cnt, dm1)" "dm_inv dm1"
    "held dm1 = held dm" "B \<subseteq> idle_since dm k before" "evicted_from k B dm dm1"
    using queue_CheckIdleTriggers_ok [OF Cons.prems(1,2) q, of before] by (auto elim!: yieldsE)
  note o = only_timed_out_step [OF c(5,4)]
  have "set ks \<subseteq> dom (queue_of dm1)"
    using Cons.prems(3) o unfolding only_timed_out_def by (meson set_subset_Cons subset_trans)
  from Cons.IH [OF c(2) Cons.prems(2) this] show ?case
    using c(1,3) only_timed_out_trans [OF o] by (auto elim!: yieldsE)
qed

lemma dm_CheckIdleTriggers_ok:
  assumes "dm_inv dm" and "orders_ok ro"
  shows "yields (dm_CheckIdleTriggers ro before dm)
     (\<lambda>dm'. dm_inv dm' \<and> held dm' = held dm \<and> only_timed_out before dm dm')"
  unfolding dm_CheckIdleTriggers_def using assms
  by (intro foreach_idle) (auto simp: orders_ok_def key_order_set queue_of_def dom_map_of_conv_image_fst)

section \<open>Evicting untriggered traces\<close>

text \<open>
  The state after the last \<open>n\<close> traces of the LRU list, its least recently used ones, are gone.
\<close>

definition lru_evicted :: "nat \<Rightarrow> DataManager \<Rightarrow> DataManager \<Rightarrow> bool" where
  "lru_evicted n dm dm' \<longleftrightarrow>
     (let l = lru (untriggered dm); gone = set (drop (length l - n) l) in
      lru (untriggered dm') = take (length l - n) l \<and>
      trace_of dm' = (\<lambda>i. if i \<in> gone then None else trace_of dm i) \<and>
      queue_of dm' = queue_of dm \<and> now dm' = now dm)"

lemma lru_evicted_0 [simp]: "lru_evicted 0 dm dm"
  by (simp add: lru_evicted_def)

lemma take_untriggered_ok:
  assumes dm: "dm_inv dm" and ne: "lru (untriggered dm) \<noteq> []"
  shows "yields (trace_TakeBuffers ro (last (lru (untriggered dm))) dm) (\<lambda>(out, dm'). dm_inv dm' \<and>
     out = obufs (trace_of dm (last (lru (untriggered dm)))) \<and> held dm = held dm' + mset out \<and> lru_evicted 1 dm dm')"
proof -
  note ok = dm_okD [OF dm [unfolded dm_inv_def]]
  let ?l = "lru (untriggered dm)"
  define i where "i = last ?l"
  have "i \<in> set ?l" using ne by (simp add: i_def)
  then obtain s where s: "trace_of dm i = Some s" "is_untriggered s" using ok(4) by (auto simp: lru_ok_def)
  then obtain bs cs m where s': "s = UntriggeredTrace bs cs m" by (cases s) auto
  define dm1 where "dm1 = set_lru (lru_remove i) (add_untriggered (- 1) (- nb s) (add_total (- 1) (- nb s) dm))"
  define dm2 where "dm2 = del_trace i (dm1\<lparr>untriggered := (untriggered dm1)\<lparr>event_horizion := m\<rparr>\<rparr>)"
  have r: "trace_TakeBuffers ro i dm = Inr (bs, dm2)"
    using s(1) by (simp add: trace_TakeBuffers_defs s' dm2_def dm1_def Let_def)
  have tr: "trace_of dm2 = (trace_of dm)(i := None)" by (simp add: dm2_def dm1_def)
  have q: "queue_of dm2 = queue_of dm" by (simp add: dm2_def dm1_def)
  have dist: "distinct ?l" using ok(4) by (simp add: lru_ok_def)
  have l: "lru (untriggered dm2) = lru_remove i ?l" by (simp add: dm2_def dm1_def dm_setter_defs)
  have "counters_ok dm2"
    by (rule counters_ok_upd [OF ok(3) tr])
       (simp_all add: s(1) s' dm2_def dm1_def dm_setter_defs if_untriggered_def if_triggered_def)
  moreover have "core {} (trace_of dm2) (fired_of dm2)"
    using core_del_untriggered [OF ok(1) s(1) [unfolded s']] fired_of_cong [OF q] by (simp add: tr)
  moreover have "lru_ok dm2" using ok(4) dist by (auto simp: lru_ok_def l tr)
  moreover have "queues_ok {} {} dm2" using ok(2) by (simp add: queues_ok_def q)
  ultimately have inv: "dm_inv dm2" by (simp add: dm_inv_def dm_ok_def)
  have "lru (untriggered dm2) = take (length ?l - 1) ?l"
    using l dist ne lru_remove_last [of ?l] by (simp add: i_def butlast_conv_take)
  moreover have "set (drop (length ?l - 1) ?l) = {i}"
    using ne by (cases ?l rule: rev_cases) (simp_all add: i_def)
  ultimately have "lru_evicted 1 dm dm2"
    using q by (auto simp: lru_evicted_def tr fun_eq_iff) (simp add: dm2_def dm1_def)
  then show ?thesis
    using r inv held_upd [OF tr] s(1) by (simp add: i_def [symmetric] s')
qed

lemma drop_take_split: "n \<le> m \<Longrightarrow> m \<le> length l \<Longrightarrow> set (drop n l) = set (drop n (take m l)) \<union> set (drop m l)"
  by (metis append_take_drop_id drop_append drop_take length_take min.absorb2 diff_is_0_eq drop_0 set_append)

lemma lru_evicted_trans:
  assumes a: "lru_evicted m dm dm1" and b: "lru_evicted n dm1 dm2" and le: "m + n \<le> length (lru (untriggered dm))"
  shows "lru_evicted (m + n) dm dm2"
proof -
  let ?l = "lru (untriggered dm)" and ?l1 = "lru (untriggered dm1)"
  have l1: "?l1 = take (length ?l - m) ?l" using a by (simp add: lru_evicted_def Let_def)
  have len: "length ?l1 - n = length ?l - (m + n)" by (simp add: l1)
  have "lru (untriggered dm2) = take (length ?l - (m + n)) ?l"
    using b unfolding lru_evicted_def Let_def len by (simp add: l1 min_def)
  moreover have "set (drop (length ?l - (m + n)) ?l) = set (drop (length ?l - (m + n)) ?l1) \<union> set (drop (length ?l - m) ?l)"
    unfolding l1 by (rule drop_take_split) simp_all
  then have "trace_of dm2 = (\<lambda>i. if i \<in> set (drop (length ?l - (m + n)) ?l) then None else trace_of dm i)"
    using a b unfolding lru_evicted_def Let_def len by auto
  ultimately show ?thesis using a b by (simp add: lru_evicted_def Let_def)
qed

text \<open>The buffers of the \<open>n\<close> least recently used traces, oldest first.\<close>

definition lru_bufs :: "nat \<Rightarrow> DataManager \<Rightarrow> int list" where
  "lru_bufs n dm = concat (map (\<lambda>i. obufs (trace_of dm i)) (take n (rev (lru (untriggered dm)))))"

lemma lru_bufs_Suc:
  assumes "lru_evicted 1 dm dm1" and "lru (untriggered dm) \<noteq> []" and "distinct (lru (untriggered dm))"
  shows "lru_bufs (Suc n) dm = obufs (trace_of dm (last (lru (untriggered dm)))) @ lru_bufs n dm1"
proof (cases "lru (untriggered dm)" rule: rev_cases)
  case (snoc l i)
  have l1: "lru (untriggered dm1) = l" "trace_of dm1 = (trace_of dm)(i := None)"
    using assms(1) by (auto simp: lru_evicted_def snoc)
  have "map (\<lambda>j. obufs (trace_of dm1 j)) (take n (rev l)) = map (\<lambda>j. obufs (trace_of dm j)) (take n (rev l))"
    using assms(3) by (auto simp: l1 snoc dest: in_set_takeD)
  then show ?thesis unfolding lru_bufs_def l1(1) by (simp add: snoc del: map_eq_conv)
qed (use assms in simp)

text \<open>The result of the eviction loop: as few of the oldest traces as suffice are gone.\<close>

definition lru_trimmed where
  "lru_trimmed num evicted dm = (\<lambda>(out, dm'). dm_inv dm' \<and>
     (\<exists>n \<le> length (lru (untriggered dm)). lru_evicted n dm dm' \<and> out = evicted @ lru_bufs n dm \<and>
        held dm = held dm' + mset (lru_bufs n dm) \<and> (num \<le> int (length out) \<or> lru (untriggered dm') = []) \<and>
        (\<forall>j < n. int (length evicted + length (lru_bufs j dm)) < num)))"

lemma lru_trimmed_step:
  assumes t: "held dm = held dm1 + mset bs" "lru_evicted 1 dm dm1" and ne: "lru (untriggered dm) \<noteq> []"
    and b: "\<And>n. lru_bufs (Suc n) dm = bs @ lru_bufs n dm1" and num: "int (length evicted) < num"
    and r: "lru_trimmed num (evicted @ bs) dm1 (out, dm')"
  shows "lru_trimmed num evicted dm (out, dm')"
proof -
  let ?l = "lru (untriggered dm)"
  have len: "length (lru (untriggered dm1)) = length ?l - 1" using t(2) by (simp add: lru_evicted_def Let_def)
  obtain n where l: "n \<le> length (lru (untriggered dm1))" "lru_evicted n dm1 dm'" "out = (evicted @ bs) @ lru_bufs n dm1"
      "held dm1 = held dm' + mset (lru_bufs n dm1)" "num \<le> int (length out) \<or> lru (untriggered dm') = []" "dm_inv dm'"
      "\<forall>j < n. int (length (evicted @ bs) + length (lru_bufs j dm1)) < num"
    using r unfolding lru_trimmed_def by blast
  have n: "Suc n \<le> length ?l" using l(1) len ne by (cases ?l) simp_all
  have "lru_evicted (Suc n) dm dm'" using lru_evicted_trans [OF t(2) l(2)] n by simp
  moreover have "out = evicted @ lru_bufs (Suc n) dm" using l(3) b by simp
  moreover have "held dm = held dm' + mset (lru_bufs (Suc n) dm)" using t(1) l(4) b by (simp add: ac_simps)
  moreover have "int (length evicted + length (lru_bufs j dm)) < num" if "j < Suc n" for j
  proof (cases j)
    case (Suc j')
    then show ?thesis using l(7) that b [of j'] by (auto simp: ac_simps)
  qed (use num in \<open>simp add: lru_bufs_def\<close>)
  ultimately show ?thesis using n l(5,6) unfolding lru_trimmed_def by blast
qed

lemma evict_loop_ok:
  assumes "dm_inv dm" and "length (lru (untriggered dm)) \<le> fuel"
  shows "yields (evict_loop fuel ro num evicted dm) (lru_trimmed num evicted dm)"
  using assms
proof (induction fuel arbitrary: evicted dm)
  case 0
  then show ?case by (subst evict_loop.simps) (auto simp: lru_bufs_def lru_trimmed_def)
next
  case (Suc fuel)
  let ?l = "lru (untriggered dm)"
  show ?case
  proof (cases "int (length evicted) < num \<and> ?l \<noteq> []")
    case False
    then have "num \<le> int (length evicted) \<or> ?l = []" by auto
    then show ?thesis
      using Suc.prems(1) False by (subst evict_loop.simps) (auto simp: lru_bufs_def lru_trimmed_def intro!: exI [of _ 0])
  next
    case True
    then have ne: "?l \<noteq> []" by simp
    let ?bs = "obufs (trace_of dm (last ?l))"
    obtain dm1 where t: "trace_TakeBuffers ro (last ?l) dm = Inr (?bs, dm1)" "dm_inv dm1"
      "held dm = held dm1 + mset ?bs" "lru_evicted 1 dm dm1"
      using take_untriggered_ok [OF Suc.prems(1) ne] by (auto elim!: yieldsE)
    have "distinct ?l" using Suc.prems(1) by (simp add: dm_inv_def dm_ok_def lru_ok_def)
    note b = lru_bufs_Suc [OF t(4) ne this]
    have "length (lru (untriggered dm1)) \<le> fuel" using Suc.prems(2) ne t(4) by (cases ?l) (simp_all add: lru_evicted_def Let_def)
    from Suc.IH [OF t(2) this, of "evicted @ ?bs"] show ?thesis
      using True t(1) lru_trimmed_step [OF t(3,4) ne b] by (subst evict_loop.simps) (auto simp: lru_back_def elim!: yieldsE)
  qed
qed

lemma EvictToCapacity_ok:
  assumes dm: "dm_inv dm" and cap: "0 \<le> cap" "cap < buffer_count dm"
  shows "yields (EvictToCapacity ro cap dm) (\<lambda>(out, dm'). dm_inv dm' \<and> held dm = held dm' + mset out \<and>
     (\<exists>n. lru_evicted n dm dm' \<and> out = lru_bufs n dm \<and>
        (\<forall>j < n. int (length (lru_bufs j dm)) < num_to_evict (buffer_count dm) cap)) \<and>
     (buffer_count dm' \<le> cap \<and> go_div cap 100 \<le> int (length out) \<or> lru (untriggered dm') = []))"
proof -
  let ?num = "num_to_evict (buffer_count dm) cap"
  obtain out dm' n where l: "evict_loop (length (lru (untriggered dm))) ro ?num [] dm = Inr (out, dm')" "dm_inv dm'"
    "lru_evicted n dm dm'" "out = lru_bufs n dm" "held dm = held dm' + mset out"
    "?num \<le> int (length out) \<or> lru (untriggered dm') = []" "\<forall>j < n. int (length (lru_bufs j dm)) < ?num"
    using evict_loop_ok [OF dm order_refl, of ro ?num "[]"] unfolding lru_trimmed_def by (elim yieldsE) (clarsimp; blast)
  have "buffer_count dm = buffer_count dm' + int (length out)"
    using l(5) held_size dm l(2) by (simp add: dm_inv_def dm_ok_def)
  then have "buffer_count dm' \<le> cap \<and> go_div cap 100 \<le> int (length out) \<or> lru (untriggered dm') = []"
    using l(6) num_to_evict_ge [of "buffer_count dm" cap] num_to_evict_min [of cap "buffer_count dm"] by auto
  then show ?thesis using cap l by (auto simp: EvictToCapacity_def)
qed

lemma dm_Evict_ok:
  assumes dm: "dm_inv dm"
  shows "yields (dm_Evict ro dm) (\<lambda>(out, dm'). dm_inv dm' \<and> held dm = held dm' + mset out \<and>
     (\<exists>n \<le> 1. lru_evicted n dm dm' \<and> out = lru_bufs n dm \<and> (n = 0 \<longrightarrow> lru (untriggered dm) = [])))"
proof -
  note ok = dm_okD [OF dm [unfolded dm_inv_def]]
  let ?l = "lru (untriggered dm)"
  have "ut_trace_count (untriggered dm) = int (card {i. \<exists>s. trace_of dm i = Some s \<and> is_untriggered s})"
  proof -
    have "{i. \<exists>s. trace_of dm i = Some s \<and> is_untriggered s} = {i \<in> dom (trace_of dm). is_untriggered (the (trace_of dm i))}"
      by auto
    then show ?thesis
      using ok(3) by (simp add: counters_ok_def msum_def if_untriggered_def sum.If_cases Int_def)
  qed
  also have "\<dots> = int (length ?l)" using ok(4) distinct_card [of ?l] by (simp add: lru_ok_def)
  finally have c: "ut_trace_count (untriggered dm) = int (length ?l)" .
  show ?thesis
  proof (cases "?l = []")
    case True
    then show ?thesis using dm c by (auto simp: dm_Evict_def lru_bufs_def intro!: exI [of _ 0])
  next
    case False
    have "lru_bufs 1 dm = obufs (trace_of dm (last ?l))"
      using False by (cases ?l rule: rev_cases) (simp_all add: lru_bufs_def)
    then show ?thesis
      using take_untriggered_ok [OF dm False, of ro] False c
      by (auto simp: dm_Evict_def lru_back_def elim!: yieldsE intro!: exI [of _ "1 :: nat"])
  qed
qed

end
