(* ===== verification/TriggerManager.thy ===== *)
theory TriggerManager
  imports Complex_Main DataLimits
begin

text \<open>
  The trigger manager, \<^verbatim>\<open>agent/pkg/agent/triggermanager.go\<close>: rate limits on local triggers and on
  reporting, and fair sharing of reporting between the trigger queues.

  The token bucket is \<^verbatim>\<open>github.com/juju/ratelimit\<close>, a parameter \<open>bk\<close> of the model: how a bucket is
  made, how many tokens it offers at an instant (negative while consumers wait), and what taking
  tokens at an instant leaves. The parameter \<open>clk\<close> says at which instant the limiter of a queue is
  consulted. A \<^verbatim>\<open>float64\<close> rate is the rational number it denotes; the only arithmetic on rates is
  scaling by powers of two, which is exact.
\<close>

section \<open>Data\<close>

record 'b buckets =
  bk_new :: "rat \<Rightarrow> int \<Rightarrow> 'b"
  bk_available :: "time \<Rightarrow> 'b \<Rightarrow> int"
  bk_take :: "time \<Rightarrow> int \<Rightarrow> 'b \<Rightarrow> 'b"

text \<open>The fields \<^verbatim>\<open>tm\<close> and \<^verbatim>\<open>queue\<close> of a \<^verbatim>\<open>ManagedQueue\<close> are the state it lives in and its queue id.\<close>

record 'b ManagedQueue =
  trigger_limiter :: 'b
  reporting_limiter :: 'b
  vt :: int

record 'b TriggerManager =
  tm_queues :: "(int \<times> 'b ManagedQueue) list"
  vc :: int
  tm_buffer_size :: int
  tm_trigger_limit :: rat
  tm_reporting_limit :: rat
  tm_batch_size :: int

type_synonym 'b tm_state = "'b TriggerManager \<times> DataManager"

text \<open>\<^verbatim>\<open>int64(x)\<close> truncates towards zero.\<close>

definition int64_of :: "rat \<Rightarrow> int" where
  "int64_of x = (if 0 \<le> x then \<lfloor>x\<rfloor> else \<lceil>x\<rceil>)"

definition new_bucket :: "'b buckets \<Rightarrow> rat \<Rightarrow> 'b" where
  "new_bucket bk rate = bk_new bk rate (int64_of rate)"

section \<open>Operations\<close>

definition tm_Init :: "int \<Rightarrow> rat \<Rightarrow> 'b TriggerManager res" where
  "tm_Init buffer_size trigger_limit =
     (if buffer_size = 0 then Inl DivisionByZero
      else Inr \<lparr>tm_queues = [], vc = 0, tm_buffer_size = buffer_size,
                tm_trigger_limit = (if trigger_limit = 0 then 10 * 1024 * 1024 * 1024 else trigger_limit),
                tm_reporting_limit = 10 * 1024 * 1024 * 1024,
                tm_batch_size = 1 + go_div (128 * 1024) buffer_size\<rparr>)"

definition mq_of :: "'b TriggerManager \<Rightarrow> int \<rightharpoonup> 'b ManagedQueue" where
  "mq_of tm = map_of (tm_queues tm)"

definition put_mq :: "int \<Rightarrow> 'b ManagedQueue \<Rightarrow> 'b TriggerManager \<Rightarrow> 'b TriggerManager" where
  "put_mq k mq tm = tm\<lparr>tm_queues := AList.update k mq (tm_queues tm)\<rparr>"

definition deref_mq :: "'b TriggerManager \<Rightarrow> int \<Rightarrow> 'b ManagedQueue res" where
  "deref_mq tm k = (case mq_of tm k of None \<Rightarrow> Inl DanglingPointer | Some mq \<Rightarrow> Inr mq)"

definition getQueue :: "'b buckets \<Rightarrow> int \<Rightarrow> 'b tm_state \<Rightarrow> 'b tm_state" where
  "getQueue bk k = (\<lambda>(tm, dm).
     case mq_of tm k of
       Some _ \<Rightarrow> (tm, dm)
     | None \<Rightarrow> (put_mq k \<lparr>trigger_limiter = new_bucket bk (tm_trigger_limit tm),
                          reporting_limiter = new_bucket bk (tm_reporting_limit tm), vt = vc tm\<rparr> tm,
                GetQueue k dm))"

text \<open>\<^verbatim>\<open>ConfigureRateLimits\<close>; the list holds the entries of the map in the order they are visited.\<close>

fun ConfigureRateLimits :: "'b buckets \<Rightarrow> (int \<times> rat) list \<Rightarrow> 'b tm_state \<Rightarrow> 'b tm_state res" where
  "ConfigureRateLimits bk [] st = Inr st"
| "ConfigureRateLimits bk ((k, limit) # limits) st =
     (let (tm, dm) = getQueue bk k st in
      bind_res (deref_mq tm k) (\<lambda>mq.
        ConfigureRateLimits bk limits
          (put_mq k (mq\<lparr>reporting_limiter := new_bucket bk (limit * 1024 * 1024)\<rparr>) tm, dm)))"

text \<open>\<^verbatim>\<open>mq.queue.metrics.x += 1\<close>\<close>

definition upd_metrics :: "int \<Rightarrow> (TriggerMetrics \<Rightarrow> TriggerMetrics) \<Rightarrow> DataManager \<Rightarrow> DataManager res" where
  "upd_metrics k g dm =
     bind_res (deref_queue dm k) (\<lambda>q. Inr (put_queue k (q\<lparr>tq_metrics := g (tq_metrics q)\<rparr>) dm))"

definition TriggerLocal ::
  "'b buckets \<Rightarrow> time \<Rightarrow> int \<Rightarrow> u64 \<Rightarrow> u64 list \<Rightarrow> 'b tm_state
     \<Rightarrow> ((bool \<times> (u64 \<times> string list) list) \<times> 'b tm_state) res" where
  "TriggerLocal bk t k b is = (\<lambda>(tm, dm).
     bind_res (deref_mq tm k) (\<lambda>mq.
       if bk_available bk t (trigger_limiter mq) < 0
       then bind_res (upd_metrics k (\<lambda>m. m\<lparr>m_dropped := m_dropped m + 1\<rparr>) dm) (\<lambda>dm1.
              Inr ((False, []), (tm, dm1)))
       else
         let tm1 = put_mq k (mq\<lparr>trigger_limiter := bk_take bk t 1 (trigger_limiter mq)\<rparr>) tm in
         bind_res (upd_metrics k (\<lambda>m. m\<lparr>m_local := m_local m + 1\<rparr>) dm) (\<lambda>dm1.
         bind_res (queue_Trigger k b is dm1) (\<lambda>(crumbs, dm2).
           Inr ((True, crumbs), (tm1, dm2))))))"

definition TriggerRemote ::
  "int \<Rightarrow> u64 \<Rightarrow> u64 list \<Rightarrow> 'b tm_state \<Rightarrow> ((u64 \<times> string list) list \<times> 'b tm_state) res" where
  "TriggerRemote k b is = (\<lambda>(tm, dm).
     bind_res (deref_mq tm k) (\<lambda>mq.
     bind_res (upd_metrics k (\<lambda>m. m\<lparr>m_remote := m_remote m + 1\<rparr>) dm) (\<lambda>dm1.
     bind_res (queue_Trigger k b is dm1) (\<lambda>(crumbs, dm2). Inr (crumbs, (tm, dm2))))))"

text \<open>
  The search of \<^verbatim>\<open>getNextBuffersToReport\<close>: queues without buffers and rate-limited queues catch up with
  the virtual clock; of the others the first with the lowest virtual time wins.
\<close>

fun next_queue ::
  "'b buckets \<Rightarrow> (int \<Rightarrow> time) \<Rightarrow> DataManager \<Rightarrow> int list \<Rightarrow> int option \<Rightarrow> 'b TriggerManager
     \<Rightarrow> (int option \<times> 'b TriggerManager) res" where
  "next_queue bk clk dm [] best tm = Inr (best, tm)"
| "next_queue bk clk dm (k # ks) best tm =
     bind_res (deref_mq tm k) (\<lambda>candidate.
     bind_res (deref_queue dm k) (\<lambda>q.
       if tq_buffer_count q = 0 \<or> bk_available bk (clk k) (reporting_limiter candidate) < 0
       then next_queue bk clk dm ks best (put_mq k (candidate\<lparr>vt := vc tm\<rparr>) tm)
       else case best of
              None \<Rightarrow> next_queue bk clk dm ks (Some k) tm
            | Some j \<Rightarrow>
                bind_res (deref_mq tm j) (\<lambda>mq.
                  next_queue bk clk dm ks (if vt candidate < vt mq then Some k else Some j) tm)))"

definition getNextBuffersToReport ::
  "range_orders \<Rightarrow> 'b buckets \<Rightarrow> (int \<Rightarrow> time) \<Rightarrow> 'b tm_state \<Rightarrow> (int list \<times> 'b tm_state) res" where
  "getNextBuffersToReport ro bk clk = (\<lambda>(tm, dm).
     bind_res (next_queue bk clk dm (ro_queue ro (map fst (tm_queues tm))) None tm) (\<lambda>(best, tm1).
       case best of
         None \<Rightarrow> Inr ([], (tm1, dm))
       | Some k \<Rightarrow>
           bind_res (queue_ReportNext ro k dm) (\<lambda>(buffers, dm1).
           bind_res (deref_mq tm1 k) (\<lambda>mq.
             let n = int (length buffers) in
             if 0 < n
             then Inr (buffers, (put_mq k (mq\<lparr>vt := vt mq + n,
                    reporting_limiter := bk_take bk (clk k) (n * tm_buffer_size tm1) (reporting_limiter mq)\<rparr>)
                    (tm1\<lparr>vc := vt mq + n\<rparr>), dm1))
             else Inr (buffers, (tm1, dm1))))))"

text \<open>
  \<^verbatim>\<open>GetNextBatchToReport\<close>. The loop has no bound of its own: while all queues with buffers are rate
  limited it spins. \<open>clk n\<close> gives the instants of pass \<open>n\<close>, and \<open>fuel\<close> the number of passes watched;
  \<open>NonTermination\<close> means that the loop has not ended within them.
\<close>

fun batch_loop ::
  "nat \<Rightarrow> nat \<Rightarrow> range_orders \<Rightarrow> 'b buckets \<Rightarrow> (nat \<Rightarrow> int \<Rightarrow> time) \<Rightarrow> int list \<Rightarrow> 'b tm_state
     \<Rightarrow> (int list \<times> 'b tm_state) res" where
  "batch_loop fuel n ro bk clk buffers st =
     (if int (length buffers) < tm_batch_size (fst st) \<and> 0 < td_buffer_count (triggered (snd st))
      then case fuel of
             0 \<Rightarrow> Inl NonTermination
           | Suc fuel1 \<Rightarrow>
               bind_res (getNextBuffersToReport ro bk (clk n) st) (\<lambda>(bs, st1).
                 batch_loop fuel1 (Suc n) ro bk clk (buffers @ bs) st1)
      else Inr (buffers, st))"

declare batch_loop.simps [simp del]

definition GetNextBatchToReport ::
  "nat \<Rightarrow> range_orders \<Rightarrow> 'b buckets \<Rightarrow> (nat \<Rightarrow> int \<Rightarrow> time) \<Rightarrow> 'b tm_state
     \<Rightarrow> (int list \<times> 'b tm_state) res" where
  "GetNextBatchToReport fuel ro bk clk st = batch_loop fuel 0 ro bk clk [] st"

section \<open>The invariant\<close>

text \<open>
  Every managed queue is a queue of the data manager, and every trigger belongs to a managed queue.
\<close>

definition tm_ok :: "'b tm_state \<Rightarrow> bool" where
  "tm_ok st \<longleftrightarrow> dm_inv (snd st) \<and> distinct (map fst (tm_queues (fst st))) \<and> dom (mq_of (fst st)) \<subseteq> dom (queue_of (snd st)) \<and>
     (\<forall>t \<in> dom (fired_of (snd st)). queue_id t \<in> dom (mq_of (fst st)))"

lemma mq_of_put [simp]: "mq_of (put_mq k mq tm) = (mq_of tm)(k \<mapsto> mq)"
  by (simp add: mq_of_def put_mq_def)

lemma put_mq_sel [simp]:
  "vc (put_mq k mq tm) = vc tm" "tm_batch_size (put_mq k mq tm) = tm_batch_size tm"
  "tm_buffer_size (put_mq k mq tm) = tm_buffer_size tm"
  by (simp_all add: put_mq_def)

lemma keys_put_mq [simp]: "mq_of tm k \<noteq> None \<Longrightarrow> map fst (tm_queues (put_mq k mq tm)) = map fst (tm_queues tm)"
  by (auto simp: put_mq_def update_keys mq_of_def map_of_eq_None_iff)

lemma distinct_put_mq [simp]:
  "distinct (map fst (tm_queues tm)) \<Longrightarrow> distinct (map fst (tm_queues (put_mq k mq tm)))"
  by (simp add: put_mq_def distinct_update)

lemma mq_of_vc [simp]: "mq_of (tm\<lparr>vc := v\<rparr>) = mq_of tm"
  by (simp add: mq_of_def)

lemma deref_mq_Some [simp]: "mq_of tm k = Some mq \<Longrightarrow> deref_mq tm k = Inr mq"
  by (simp add: deref_mq_def)

lemma tm_ok_Init:
  assumes "tm_Init n r = Inr tm" shows "tm_ok (tm, InitDataManager t)"
  using assms InitDataManager_ok
  by (auto simp: tm_Init_def tm_ok_def mq_of_def fired_of_def queue_of_def InitDataManager_def split: if_splits)

lemma getQueue_ok:
  assumes "tm_ok (tm, dm)"
  shows "\<exists>tm' dm'. getQueue bk k (tm, dm) = (tm', dm') \<and> tm_ok (tm', dm') \<and> mq_of tm' k \<noteq> None \<and>
     held dm' = held dm \<and> fired_of dm' = fired_of dm \<and> trace_of dm' = trace_of dm \<and>
     tm_batch_size tm' = tm_batch_size tm \<and> dom (mq_of tm) \<subseteq> dom (mq_of tm')"
proof (cases "mq_of tm k")
  case None
  have dm: "dm_inv dm" using assms by (simp add: tm_ok_def)
  note g = GetQueue_ok [OF dm, of k]
  have "dom (mq_of tm) \<subseteq> dom (queue_of (GetQueue k dm))"
    using assms queues_only_views(8) [OF g(5)] unfolding tm_ok_def by (simp, meson subset_trans)
  then show ?thesis
    using None assms g held_cong [OF g(3)] by (auto simp: getQueue_def tm_ok_def)
qed (use assms in \<open>auto simp: getQueue_def\<close>)

lemma upd_metrics_ok:
  assumes "dm_inv dm" and "queue_of dm k \<noteq> None"
  shows "yields (upd_metrics k g dm) (\<lambda>dm'. dm_inv dm' \<and> queues_only dm dm' \<and> fired_of dm' = fired_of dm)"
proof -
  obtain q where q: "queue_of dm k = Some q" using assms(2) by auto
  note m = dm_inv_put_metrics [OF assms(1) q, of "g (tq_metrics q)"]
  show ?thesis using q m by (simp add: upd_metrics_def)
qed

section \<open>Triggers\<close>

lemma count_and_trigger:
  assumes "tm_ok (tm, dm)" and "mq_of tm k = Some mq" and tm1: "dom (mq_of tm1) = dom (mq_of tm)"
    and d1: "distinct (map fst (tm_queues tm1))"
  shows "yields (bind_res (upd_metrics k g dm) (\<lambda>dm1. queue_Trigger k b is dm1)) (\<lambda>(crumbs, dm').
     tm_ok (tm1, dm') \<and> held dm' = held dm \<and> grows dm dm' \<and>
     dom (fired_of dm') = insert (tid k b) (dom (fired_of dm)) \<and>
     (\<forall>i\<in>set is. \<exists>s. trace_of dm' i = Some s \<and> tid k b \<in> trigs s))"
proof -
  have dm: "dm_inv dm" and q: "queue_of dm k \<noteq> None" using assms by (auto simp: tm_ok_def)
  obtain dm1 where u: "upd_metrics k g dm = Inr dm1" "dm_inv dm1" "queues_only dm dm1" "fired_of dm1 = fired_of dm"
    using upd_metrics_ok [OF dm q, of g] by (auto elim!: yieldsE)
  note v = queues_only_views [OF u(3)]
  obtain q1 where q1: "queue_of dm1 k = Some q1" using v(8) q by blast
  have gr: "grows dm dm1" using v u(4) by (auto simp: grows_def)
  obtain crumbs dm' where t: "queue_Trigger k b is dm1 = Inr (crumbs, dm')" "dm_inv dm'" "held dm' = held dm1"
    "grows dm1 dm'" "dom (fired_of dm') = insert (tid k b) (dom (fired_of dm1))"
    "\<forall>i\<in>set is. \<exists>s. trace_of dm' i = Some s \<and> tid k b \<in> trigs s"
    using queue_Trigger_ok [OF u(2) q1, of b "is"] by (elim yieldsE) (simp split: prod.splits)
  have gr': "grows dm dm'" by (rule grows_trans [OF gr t(4)])
  moreover from this have "dom (mq_of tm1) \<subseteq> dom (queue_of dm')"
    using assms(1) tm1 unfolding tm_ok_def grows_def by (simp, meson subset_trans)
  ultimately show ?thesis
    using u t assms tm1 d1 held_cong [OF v(1)] by (auto simp: tm_ok_def)
qed

lemma TriggerLocal_ok:
  assumes "tm_ok (tm, dm)" and mq: "mq_of tm k = Some mq"
  shows "yields (TriggerLocal bk t k b is (tm, dm)) (\<lambda>((acc, crumbs), (tm', dm')). tm_ok (tm', dm') \<and>
     held dm' = held dm \<and> grows dm dm' \<and> (acc \<longleftrightarrow> 0 \<le> bk_available bk t (trigger_limiter mq)) \<and>
     mq_of tm' = (mq_of tm)(k \<mapsto> (if acc then mq\<lparr>trigger_limiter := bk_take bk t 1 (trigger_limiter mq)\<rparr> else mq)) \<and>
     tm_batch_size tm' = tm_batch_size tm \<and>
     (acc \<longrightarrow> (\<forall>i\<in>set is. \<exists>s. trace_of dm' i = Some s \<and> tid k b \<in> trigs s)) \<and>
     (\<not> acc \<longrightarrow> crumbs = [] \<and> trace_of dm' = trace_of dm \<and> fired_of dm' = fired_of dm))"
proof (cases "bk_available bk t (trigger_limiter mq) < 0")
  case True
  have dm: "dm_inv dm" and q: "queue_of dm k \<noteq> None" using assms by (auto simp: tm_ok_def)
  obtain dm1 where u: "upd_metrics k (\<lambda>m. m\<lparr>m_dropped := m_dropped m + 1\<rparr>) dm = Inr dm1" "dm_inv dm1"
    "queues_only dm dm1" "fired_of dm1 = fired_of dm"
    using upd_metrics_ok [OF dm q] by (auto elim!: yieldsE)
  note v = queues_only_views [OF u(3)]
  have "dom (mq_of tm) \<subseteq> dom (queue_of dm1)"
    using assms(1) v(8) unfolding tm_ok_def by (simp, meson subset_trans)
  then have "tm_ok (tm, dm1)" using assms(1) u by (simp add: tm_ok_def)
  moreover have "mq_of tm = (mq_of tm)(k \<mapsto> mq)" using mq by auto
  moreover have "grows dm dm1" using v u(4) by (auto simp: grows_def)
  ultimately show ?thesis
    using True mq u v held_cong [OF v(1)] by (simp add: TriggerLocal_def)
next
  case False
  let ?tm = "put_mq k (mq\<lparr>trigger_limiter := bk_take bk t 1 (trigger_limiter mq)\<rparr>) tm"
  have "dom (mq_of ?tm) = dom (mq_of tm)" using mq by auto
  moreover have "distinct (map fst (tm_queues ?tm))" using assms(1) by (simp add: tm_ok_def)
  ultimately show ?thesis
    using count_and_trigger [OF assms, of ?tm "\<lambda>m. m\<lparr>m_local := m_local m + 1\<rparr>" b "is"] False mq
    by (auto simp: TriggerLocal_def Let_def elim!: yieldsE)
qed

lemma TriggerRemote_ok:
  assumes "tm_ok (tm, dm)" and mq: "mq_of tm k = Some mq"
  shows "yields (TriggerRemote k b is (tm, dm)) (\<lambda>(crumbs, (tm', dm')). tm_ok (tm', dm') \<and> tm' = tm \<and>
     held dm' = held dm \<and> grows dm dm' \<and> (\<forall>i\<in>set is. \<exists>s. trace_of dm' i = Some s \<and> tid k b \<in> trigs s))"
  using count_and_trigger [OF assms refl _, of "\<lambda>m. m\<lparr>m_remote := m_remote m + 1\<rparr>" b "is"] mq assms(1)
  by (auto simp: TriggerRemote_def tm_ok_def elim!: yieldsE)

section \<open>Choosing the queue to report from\<close>

definition eligible :: "'b buckets \<Rightarrow> (int \<Rightarrow> time) \<Rightarrow> DataManager \<Rightarrow> 'b TriggerManager \<Rightarrow> int \<Rightarrow> bool" where
  "eligible bk clk dm tm k \<longleftrightarrow>
     qbufs dm k \<noteq> 0 \<and> (case mq_of tm k of None \<Rightarrow> False
                        | Some mq \<Rightarrow> 0 \<le> bk_available bk (clk k) (reporting_limiter mq))"

definition vt_of :: "'b TriggerManager \<Rightarrow> int \<Rightarrow> int" where
  "vt_of tm k = (case mq_of tm k of None \<Rightarrow> 0 | Some mq \<Rightarrow> vt mq)"

text \<open>Virtual times may move, limiters and everything else stay.\<close>

definition vt_only :: "'b TriggerManager \<Rightarrow> 'b TriggerManager \<Rightarrow> bool" where
  "vt_only tm tm' \<longleftrightarrow>
     (\<exists>h. mq_of tm' = (\<lambda>k. map_option (\<lambda>mq. mq\<lparr>vt := h k\<rparr>) (mq_of tm k))) \<and>
     map fst (tm_queues tm') = map fst (tm_queues tm) \<and>
     vc tm' = vc tm \<and> tm_batch_size tm' = tm_batch_size tm \<and> tm_buffer_size tm' = tm_buffer_size tm"

lemma vt_only_refl: "vt_only tm tm"
proof -
  have "mq_of tm = (\<lambda>k. map_option (\<lambda>mq. mq\<lparr>vt := vt_of tm k\<rparr>) (mq_of tm k))"
    by (auto simp: fun_eq_iff vt_of_def split: option.splits)
  then show ?thesis unfolding vt_only_def by blast
qed

lemma vt_only_trans: "vt_only a b \<Longrightarrow> vt_only b c \<Longrightarrow> vt_only a c"
  by (auto simp: vt_only_def option.map_comp comp_def)

lemma vt_only_put:
  assumes "mq_of tm k = Some mq"
  shows "vt_only tm (put_mq k (mq\<lparr>vt := v\<rparr>) tm)"
proof -
  obtain h where h: "mq_of tm = (\<lambda>k. map_option (\<lambda>mq. mq\<lparr>vt := h k\<rparr>) (mq_of tm k))"
    using vt_only_refl [of tm] unfolding vt_only_def by blast
  have "(mq_of tm)(k \<mapsto> mq\<lparr>vt := v\<rparr>) = (\<lambda>j. map_option (\<lambda>mq. mq\<lparr>vt := (h(k := v)) j\<rparr>) (mq_of tm j))"
    using assms fun_cong [OF h] by (auto simp: fun_eq_iff)
  then show ?thesis unfolding vt_only_def using assms by auto
qed

lemma vt_only_dom: "vt_only tm tm' \<Longrightarrow> dom (mq_of tm') = dom (mq_of tm)"
  by (auto simp: vt_only_def)

lemma vt_only_eligible: "vt_only tm tm' \<Longrightarrow> eligible bk clk dm tm' k = eligible bk clk dm tm k"
  by (auto simp: vt_only_def eligible_def split: option.splits)

text \<open>The result \<open>r\<close> of the search through \<open>ks\<close>, which starts from \<open>best\<close>.\<close>

definition searched ::
  "'b buckets \<Rightarrow> (int \<Rightarrow> time) \<Rightarrow> DataManager \<Rightarrow> int list \<Rightarrow> int option \<Rightarrow> 'b TriggerManager \<Rightarrow> int option \<times> 'b TriggerManager \<Rightarrow> bool" where
  "searched bk clk dm ks best tm = (\<lambda>(r, tm'). vt_only tm tm' \<and>
     (\<forall>k. eligible bk clk dm tm k \<longrightarrow> mq_of tm' k = mq_of tm k) \<and>
     (case r of
        None \<Rightarrow> best = None \<and> (\<forall>k\<in>set ks. \<not> eligible bk clk dm tm k)
      | Some k \<Rightarrow> eligible bk clk dm tm k \<and>
          (\<forall>j \<in> set ks \<union> set_option best. eligible bk clk dm tm j \<longrightarrow> vt_of tm k \<le> vt_of tm j)))"

lemma searched_skip:
  assumes mq: "mq_of tm k = Some mq" and k: "\<not> eligible bk clk dm tm k"
    and r: "searched bk clk dm ks best (put_mq k (mq\<lparr>vt := vc tm\<rparr>) tm) r"
  shows "searched bk clk dm (k # ks) best tm r"
proof -
  let ?tm = "put_mq k (mq\<lparr>vt := vc tm\<rparr>) tm"
  have vo: "vt_only tm ?tm" by (rule vt_only_put [OF mq])
  have "mq_of ?tm j = mq_of tm j" "vt_of ?tm j = vt_of tm j" if "eligible bk clk dm tm j" for j
    using that k by (auto simp: vt_of_def)
  then show ?thesis
    using r k vt_only_trans [OF vo] unfolding searched_def vt_only_eligible [OF vo] by (auto split: option.splits)
qed

lemma searched_take:
  assumes "searched bk clk dm ks (Some b) tm r" and "eligible bk clk dm tm b"
    and "\<And>j. j = k \<or> best = Some j \<Longrightarrow> vt_of tm b \<le> vt_of tm j"
  shows "searched bk clk dm (k # ks) best tm r"
  using assms unfolding searched_def by (fastforce split: option.splits)

text \<open>The step on an eligible queue: the better one of it and of the best so far is kept.\<close>

definition better :: "'b TriggerManager \<Rightarrow> int \<Rightarrow> int option \<Rightarrow> int" where
  "better tm k best = (case best of None \<Rightarrow> k | Some j \<Rightarrow> if vt_of tm k < vt_of tm j then k else j)"

lemma next_queue_take:
  assumes "queue_of dm k \<noteq> None" and "eligible bk clk dm tm k" and "\<And>j. best = Some j \<Longrightarrow> mq_of tm j \<noteq> None"
  shows "next_queue bk clk dm (k # ks) best tm = next_queue bk clk dm ks (Some (better tm k best)) tm"
proof -
  obtain mq q where "mq_of tm k = Some mq" "queue_of dm k = Some q" "tq_buffer_count q \<noteq> 0" "\<not> bk_available bk (clk k) (reporting_limiter mq) < 0"
    using assms(1,2) by (auto simp: eligible_def split: option.splits)
  then show ?thesis using assms(3) by (cases best) (auto simp: better_def vt_of_def deref_mq_def deref_queue_def split: option.splits)
qed

lemma next_queue_ok:
  assumes "distinct ks" and "set ks \<subseteq> dom (mq_of tm)" and "set ks \<subseteq> dom (queue_of dm)"
    and "\<And>j. best = Some j \<Longrightarrow> eligible bk clk dm tm j \<and> j \<notin> set ks"
  shows "yields (next_queue bk clk dm ks best tm) (searched bk clk dm ks best tm)"
  using assms
proof (induction ks arbitrary: best tm)
  case Nil
  then show ?case by (cases best) (simp_all add: vt_only_refl searched_def)
next
  case (Cons k ks)
  obtain mq q where mq: "mq_of tm k = Some mq" and q: "queue_of dm k = Some q" using Cons.prems(2,3) by auto
  have dist: "distinct ks" and d: "set ks \<subseteq> dom (mq_of tm)" "set ks \<subseteq> dom (queue_of dm)" using Cons.prems by auto
  show ?case
  proof (cases "eligible bk clk dm tm k")
    case False
    let ?tm = "put_mq k (mq\<lparr>vt := vc tm\<rparr>) tm"
    note e = vt_only_eligible [OF vt_only_put [OF mq], of bk clk dm]
    have "set ks \<subseteq> dom (mq_of ?tm)" using d(1) by auto
    then have "yields (next_queue bk clk dm ks best ?tm) (searched bk clk dm ks best ?tm)"
      using Cons.prems(4) e by (intro Cons.IH dist d(2)) auto
    moreover have "next_queue bk clk dm (k # ks) best tm = next_queue bk clk dm ks best ?tm"
      using mq q False by (auto simp: eligible_def)
    ultimately show ?thesis using searched_skip [OF mq False] by (auto elim!: yieldsE)
  next
    case True
    let ?b = "better tm k best"
    have b: "eligible bk clk dm tm ?b \<and> ?b \<notin> set ks" "\<And>j. j = k \<or> best = Some j \<Longrightarrow> vt_of tm ?b \<le> vt_of tm j"
      using True Cons.prems(1,4) by (auto simp: better_def split: option.splits)
    have "yields (next_queue bk clk dm ks (Some ?b) tm) (searched bk clk dm ks (Some ?b) tm)"
      using b(1) by (intro Cons.IH dist d) auto
    moreover have "next_queue bk clk dm (k # ks) best tm = next_queue bk clk dm ks (Some ?b) tm"
      using q True Cons.prems(4) by (intro next_queue_take) (auto simp: eligible_def split: option.splits)
    ultimately show ?thesis using searched_take [OF _ conjunct1 [OF b(1)] b(2)] by (auto elim!: yieldsE)
  qed
qed

section \<open>Reporting\<close>

text \<open>The triggers that have something to report, over all queues.\<close>

definition reporting_set :: "DataManager \<Rightarrow> TriggerID set" where
  "reporting_set dm = {t. \<exists>f. fired_of dm t = Some f \<and> ft_state f = ReportingTrigger}"

lemma finite_fired: "finite (dom (fired_of dm))"
proof -
  have "dom (fired_of dm) \<subseteq> (\<lambda>(k, b). tid k b) `
      (SIGMA k : dom (queue_of dm). dom (map_of (tq_fired (the (queue_of dm k)))))"
  proof
    fix t
    assume "t \<in> dom (fired_of dm)"
    then have "(queue_id t, base_trace_id t) \<in> (SIGMA k : dom (queue_of dm). dom (map_of (tq_fired (the (queue_of dm k)))))"
      by (auto simp: fired_of_def split: option.splits)
    then show "t \<in> (\<lambda>(k, b). tid k b) ` (SIGMA k : dom (queue_of dm). dom (map_of (tq_fired (the (queue_of dm k)))))"
      by (auto intro!: image_eqI [of t _ "(queue_id t, base_trace_id t)"])
  qed
  moreover have "finite (SIGMA k : dom (queue_of dm). dom (map_of (tq_fired (the (queue_of dm k)))))"
    by (intro finite_SigmaI) (simp_all add: queue_of_def finite_dom_map_of)
  ultimately show ?thesis using finite_surj by blast
qed

lemma finite_reporting_set [simp]: "finite (reporting_set dm)"
  by (rule finite_subset [OF _ finite_fired [of dm]]) (auto simp: reporting_set_def)

lemma rep_reporting: "b \<in> rep dm k \<longleftrightarrow> tid k b \<in> reporting_set dm"
  by (simp add: rep_def reporting_set_def)

lemma reported_trigger_set:
  assumes "reported_trigger t dm dm'"
  shows "reporting_set dm' = reporting_set dm - {t}" and "dom (fired_of dm') = dom (fired_of dm)"
proof -
  obtain F where F: "recounted (fired_of dm) F"
    "fired_of dm' = F(t := map_option (\<lambda>f. f\<lparr>ft_state := IdleTrigger (now dm)\<rparr>) (F t))"
    using assms by (auto simp: reported_trigger_def)
  have F': "F u = None \<and> fired_of dm u = None \<or>
      (\<exists>f n. fired_of dm u = Some f \<and> F u = Some (drop_count n f))" for u
    using recountedD [OF F(1)] by (cases "fired_of dm u") auto
  show "reporting_set dm' = reporting_set dm - {t}"
  proof (rule set_eqI)
    fix u
    show "u \<in> reporting_set dm' \<longleftrightarrow> u \<in> reporting_set dm - {t}"
      using F' [of u] by (auto simp: reporting_set_def F(2))
  qed
  show "dom (fired_of dm') = dom (fired_of dm)"
  proof (rule set_eqI)
    fix u
    show "u \<in> dom (fired_of dm') \<longleftrightarrow> u \<in> dom (fired_of dm)" using F' [of u] F' [of t] by (auto simp: F(2))
  qed
qed

text \<open>
  One pass: either no queue is eligible and nothing happens, or the eligible queue with the lowest
  virtual time reports its smallest trigger.
\<close>

definition passed :: "range_orders \<Rightarrow> 'b buckets \<Rightarrow> (int \<Rightarrow> time) \<Rightarrow> 'b tm_state \<Rightarrow> int list \<Rightarrow> DataManager \<Rightarrow> bool" where
  "passed ro bk clk st out dm' \<longleftrightarrow>
     (\<forall>k. \<not> eligible bk clk (snd st) (fst st) k) \<and> out = [] \<and> dm' = snd st \<or>
     (\<exists>k. eligible bk clk (snd st) (fst st) k \<and>
        (\<forall>j. eligible bk clk (snd st) (fst st) j \<longrightarrow> vt_of (fst st) k \<le> vt_of (fst st) j) \<and>
        Min (rep (snd st) k) \<in> rep (snd st) k \<and>
        out = trigger_buffers ro (snd st) (tid k (Min (rep (snd st) k))) \<and>
        reported_trigger (tid k (Min (rep (snd st) k))) (snd st) dm')"

lemma reported_trigger_tm_ok:
  assumes "tm_ok (tm, dm)" and "dm_inv dm'" and r: "reported_trigger t dm dm'"
    and "distinct (map fst (tm_queues tm'))" and "dom (mq_of tm') = dom (mq_of tm)"
  shows "tm_ok (tm', dm')"
proof -
  have "dom (mq_of tm') \<subseteq> dom (queue_of dm')"
    using assms(1,5) r unfolding tm_ok_def reported_trigger_def by (simp, meson subset_trans)
  then show ?thesis using assms reported_trigger_set(2) [OF r] by (simp add: tm_ok_def)
qed

lemma eligible_dom: "eligible bk clk dm tm k \<Longrightarrow> k \<in> dom (mq_of tm)"
  by (auto simp: eligible_def split: option.splits)

lemma search_all:
  assumes st: "tm_ok (tm, dm)" and ro: "orders_ok ro"
  obtains r tm1 where "next_queue bk clk dm (ro_queue ro (map fst (tm_queues tm))) None tm = Inr (r, tm1)" "vt_only tm tm1"
    "case r of None \<Rightarrow> (\<forall>k. \<not> eligible bk clk dm tm k)
      | Some k \<Rightarrow> eligible bk clk dm tm k \<and> (\<forall>j. eligible bk clk dm tm j \<longrightarrow> vt_of tm k \<le> vt_of tm j)"
proof -
  have dq: "dom (mq_of tm) \<subseteq> dom (queue_of dm)" and dist: "distinct (map fst (tm_queues tm))"
    using st by (simp_all add: tm_ok_def)
  let ?ks = "ro_queue ro (map fst (tm_queues tm))"
  have ks: "set ?ks = dom (mq_of tm)" "distinct ?ks"
    using ro dist by (simp_all add: orders_ok_def key_order_set key_order_distinct mq_of_def dom_map_of_conv_image_fst)
  then have "yields (next_queue bk clk dm ?ks None tm) (searched bk clk dm ?ks None tm)"
    using dq by (intro next_queue_ok) simp_all
  then show ?thesis
    using that eligible_dom [of bk clk dm tm] by (elim yieldsE) (fastforce split: option.splits simp: ks(1) searched_def)
qed

lemma report_eligible:
  assumes dm: "dm_inv dm" and ro: "orders_ok ro" and e: "eligible bk clk dm tm k"
  obtains dm1 where "queue_ReportNext ro k dm = Inr (trigger_buffers ro dm (tid k (Min (rep dm k))), dm1)" "dm_inv dm1"
    "held dm = held dm1 + mset (trigger_buffers ro dm (tid k (Min (rep dm k))))"
    "reported_trigger (tid k (Min (rep dm k))) dm dm1" "Min (rep dm k) \<in> rep dm k"
proof -
  have "qbufs dm k \<noteq> 0" using e by (simp add: eligible_def)
  note qr = qbufs_rep [OF dm this]
  obtain q where q: "queue_of dm k = Some q" using qr(1) by auto
  have "finite (rep dm k)" using dm_inv_keys(2) [OF dm q] ppt.finite_keys by metis
  then show ?thesis using that queue_ReportNext_ok [OF dm ro q qr(2)] qr(2) by (auto elim!: yieldsE)
qed

lemma getNextBuffersToReport_ok:
  assumes st: "tm_ok (tm, dm)" and ro: "orders_ok ro"
  shows "yields (getNextBuffersToReport ro bk clk (tm, dm)) (\<lambda>(out, (tm', dm')). tm_ok (tm', dm') \<and>
     held dm = held dm' + mset out \<and> tm_batch_size tm' = tm_batch_size tm \<and>
     passed ro bk clk (tm, dm) out dm')"
proof -
  have dm: "dm_inv dm" and dist: "distinct (map fst (tm_queues tm))" using st by (simp_all add: tm_ok_def)
  obtain r tm1 where r: "next_queue bk clk dm (ro_queue ro (map fst (tm_queues tm))) None tm = Inr (r, tm1)" "vt_only tm tm1"
    "case r of None \<Rightarrow> (\<forall>k. \<not> eligible bk clk dm tm k)
      | Some k \<Rightarrow> eligible bk clk dm tm k \<and> (\<forall>j. eligible bk clk dm tm j \<longrightarrow> vt_of tm k \<le> vt_of tm j)"
    by (rule search_all [OF st ro])
  have d1: "distinct (map fst (tm_queues tm1))" "dom (mq_of tm1) = dom (mq_of tm)" "tm_batch_size tm1 = tm_batch_size tm"
    using dist r(2) vt_only_dom [OF r(2)] by (simp_all add: vt_only_def)
  show ?thesis
  proof (cases r)
    case None
    have "tm_ok (tm1, dm)" using st d1 by (simp add: tm_ok_def)
    then show ?thesis using None r d1 by (simp add: getNextBuffersToReport_def passed_def)
  next
    case (Some k)
    have e: "eligible bk clk dm tm k" using r(3) Some by simp
    obtain mq where mq: "mq_of tm1 k = Some mq" using eligible_dom [OF e] d1(2) by auto
    let ?out = "trigger_buffers ro dm (tid k (Min (rep dm k)))"
    obtain dm1 where n: "queue_ReportNext ro k dm = Inr (?out, dm1)" "dm_inv dm1" "held dm = held dm1 + mset ?out"
      "reported_trigger (tid k (Min (rep dm k))) dm dm1" "Min (rep dm k) \<in> rep dm k"
      by (rule report_eligible [OF dm ro e])
    have p: "passed ro bk clk (tm, dm) ?out dm1" using e r(3) n(4,5) Some by (auto simp: passed_def)
    have "tm_ok (put_mq k m (tm1\<lparr>vc := v\<rparr>), dm1)" "tm_ok (tm1, dm1)" for m v
      using d1 insert_absorb [OF eligible_dom [OF e]] by (intro reported_trigger_tm_ok [OF st n(2,4)]; simp)+
    then show ?thesis
      using Some r(1) n(1,3) mq d1(3) p by (cases "?out = []") (simp_all add: getNextBuffersToReport_def Let_def)
  qed
qed

lemma passed_reporting:
  assumes "passed ro bk clk st out dm'"
  shows "reporting_set dm' \<subseteq> reporting_set (snd st)"
    and "eligible bk clk (snd st) (fst st) k \<Longrightarrow> card (reporting_set dm') < card (reporting_set (snd st))"
  using assms unfolding passed_def
  by (auto simp: reported_trigger_set(1) rep_reporting intro!: psubset_card_mono)

section \<open>Batches\<close>

text \<open>The instants at which no limiter holds a queue back.\<close>

definition unlimited :: "'b buckets \<Rightarrow> (int \<Rightarrow> time) \<Rightarrow> bool" where
  "unlimited bk clk \<longleftrightarrow> (\<forall>k b. 0 \<le> bk_available bk (clk k) b)"

lemma eligible_ex:
  assumes st: "tm_ok st" and pos: "0 < td_buffer_count (triggered (snd st))" and u: "unlimited bk clk"
  shows "\<exists>k. eligible bk clk (snd st) (fst st) k"
proof -
  have dm: "dm_inv (snd st)" using st by (simp add: tm_ok_def)
  obtain k where k: "0 < qbufs (snd st) k" using triggered_buffers_queue [OF dm pos] by auto
  obtain b where "b \<in> rep (snd st) k" using qbufs_rep(2) [OF dm, of k] k by auto
  then have "tid k b \<in> dom (fired_of (snd st))" by (auto simp: rep_def)
  then have "k \<in> dom (mq_of (fst st))" using st unfolding tm_ok_def by (metis TriggerID.select_convs(1))
  then have "eligible bk clk (snd st) (fst st) k" using k u by (auto simp: eligible_def unlimited_def)
  then show ?thesis ..
qed

text \<open>Whatever the limiters do, the loop only ever fails by not having ended yet.\<close>

definition batch_done :: "int list \<Rightarrow> 'b tm_state \<Rightarrow> int list \<Rightarrow> 'b tm_state \<Rightarrow> bool" where
  "batch_done buffers st out st' \<longleftrightarrow> tm_ok st' \<and>
     (\<exists>new. out = buffers @ new \<and> held (snd st) = held (snd st') + mset new) \<and>
     (tm_batch_size (fst st) \<le> int (length out) \<or> td_buffer_count (triggered (snd st')) \<le> 0)"

lemma reporting_set_pos:
  assumes "tm_ok st" and pos: "0 < td_buffer_count (triggered (snd st))"
  shows "0 < card (reporting_set (snd st))"
proof -
  have dm: "dm_inv (snd st)" using assms(1) by (simp add: tm_ok_def)
  obtain k where k: "0 < qbufs (snd st) k" using triggered_buffers_queue [OF dm pos] by auto
  obtain b where "b \<in> rep (snd st) k" using qbufs_rep(2) [OF dm, of k] k by auto
  then show ?thesis by (auto simp: rep_reporting card_gt_0_iff)
qed

text \<open>The passes among \<open>n, n + 1, ...\<close> in which no limiter holds a queue back.\<close>

definition free_passes :: "'b buckets \<Rightarrow> (nat \<Rightarrow> int \<Rightarrow> time) \<Rightarrow> nat \<Rightarrow> nat \<Rightarrow> nat set" where
  "free_passes bk clk n fuel = {m. n \<le> m \<and> m < n + fuel \<and> unlimited bk (clk m)}"

lemma free_passes_0 [simp]: "free_passes bk clk n 0 = {}"
  by (auto simp: free_passes_def)

lemma free_passes_Suc:
  "card (free_passes bk clk n (Suc fuel)) = card (free_passes bk clk (Suc n) fuel) + (if unlimited bk (clk n) then 1 else 0)"
proof -
  have "free_passes bk clk n (Suc fuel) = (if unlimited bk (clk n) then insert n (free_passes bk clk (Suc n) fuel) else free_passes bk clk (Suc n) fuel)"
    unfolding free_passes_def by (auto simp: less_Suc_eq_le Suc_le_eq le_less)
  moreover have "finite (free_passes bk clk (Suc n) fuel)" "n \<notin> free_passes bk clk (Suc n) fuel" by (simp_all add: free_passes_def)
  ultimately show ?thesis by simp
qed

lemma pass_reduces:
  assumes st: "tm_ok (tm, dm)" and pos: "0 < td_buffer_count (triggered dm)" and p: "passed ro bk clk (tm, dm) bs dm1"
  shows "card (reporting_set dm1) + (if unlimited bk clk then 1 else 0) \<le> card (reporting_set dm)"
proof (cases "unlimited bk clk")
  case True
  then have "card (reporting_set dm1) < card (reporting_set dm)" using eligible_ex [OF st _ True] pos passed_reporting(2) [OF p] by auto
  then show ?thesis using True by simp
qed (use passed_reporting(1) [OF p] in \<open>simp add: card_mono\<close>)

lemma batch_loop_steps:
  assumes "tm_ok st" and "orders_ok ro"
  shows "(case batch_loop fuel n ro bk clk buffers st of
      Inl e \<Rightarrow> e = NonTermination \<and> card (free_passes bk clk n fuel) < card (reporting_set (snd st))
    | Inr (out, st') \<Rightarrow> batch_done buffers st out st')"
  using assms
proof (induction fuel arbitrary: n buffers st)
  case 0
  then show ?case using reporting_set_pos [OF 0(1)] by (subst batch_loop.simps) (auto simp: batch_done_def)
next
  case (Suc fuel)
  show ?case
  proof (cases "int (length buffers) < tm_batch_size (fst st) \<and> 0 < td_buffer_count (triggered (snd st))")
    case False
    then show ?thesis using Suc.prems by (subst batch_loop.simps) (auto simp: batch_done_def)
  next
    case True
    obtain tm dm where st: "st = (tm, dm)" by (cases st)
    obtain bs tm1 dm1 where g: "getNextBuffersToReport ro bk (clk n) st = Inr (bs, (tm1, dm1))" "tm_ok (tm1, dm1)"
      "held dm = held dm1 + mset bs" "tm_batch_size tm1 = tm_batch_size tm" "passed ro bk (clk n) (tm, dm) bs dm1"
      using getNextBuffersToReport_ok [OF Suc.prems(1) [unfolded st] Suc.prems(2), of bk "clk n"]
      unfolding st by (auto elim!: yieldsE)
    have eq: "batch_loop (Suc fuel) n ro bk clk buffers st = batch_loop fuel (Suc n) ro bk clk (buffers @ bs) (tm1, dm1)"
      using True g(1) by (subst batch_loop.simps) simp
    have le: "card (reporting_set dm1) + (if unlimited bk (clk n) then 1 else 0) \<le> card (reporting_set dm)"
      using True by (intro pass_reduces [OF Suc.prems(1) [unfolded st] _ g(5)]) (simp add: st)
    have "batch_done buffers st out st'" if "batch_done (buffers @ bs) (tm1, dm1) out st'" for out st'
      using that g(3,4) by (auto simp: st batch_done_def ac_simps)
    then show ?thesis
      using Suc.IH [OF g(2) Suc.prems(2), of "Suc n" "buffers @ bs"] le
      unfolding eq by (auto simp: st free_passes_Suc split: sum.splits)
  qed
qed

lemmas batch_loop_ok = batch_loop_steps [unfolded free_passes_def]

text \<open>While every queue is held back, the loop spins.\<close>

lemma getNext_limited:
  assumes "tm_ok (tm, dm)" and "orders_ok ro" and "\<And>k b. bk_available bk (clk k) b < 0"
  shows "\<exists>tm'. getNextBuffersToReport ro bk clk (tm, dm) = Inr ([], (tm', dm)) \<and>
    tm_ok (tm', dm) \<and> tm_batch_size tm' = tm_batch_size tm"
proof -
  have "\<not> eligible bk clk dm tm k" for k
    using assms(3) [of k] by (auto simp: eligible_def not_le split: option.splits)
  then show ?thesis
    using getNextBuffersToReport_ok [OF assms(1,2), of bk clk] by (auto simp: passed_def elim!: yieldsE)
qed

lemma batch_loop_spins:
  assumes "orders_ok ro" and "\<And>m k b. bk_available bk (clk m k) b < 0"
    and "int (length buffers) < tm_batch_size tm" and "0 < td_buffer_count (triggered dm)"
  shows "tm_ok (tm, dm) \<Longrightarrow> batch_loop fuel n ro bk clk buffers (tm, dm) = Inl NonTermination"
  using assms(3)
proof (induction fuel arbitrary: n tm)
  case 0
  then show ?case using assms by (subst batch_loop.simps) simp
next
  case (Suc fuel)
  obtain tm' where "getNextBuffersToReport ro bk (clk n) (tm, dm) = Inr ([], (tm', dm))" "tm_ok (tm', dm)"
    "tm_batch_size tm' = tm_batch_size tm"
    using getNext_limited [OF Suc.prems(1) assms(1), of bk "clk n"] assms(2) by blast
  then show ?case using Suc.IH [of tm' "Suc n"] Suc.prems assms(4) by (subst batch_loop.simps) simp
qed


section \<open>The store behind the agent\<close>

text \<open>
  What the agent's loop relies on: the data manager under a given trigger manager keeps every buffer
  it is given until one of its operations hands it out.
\<close>

locale buffer_store =
  fixes ok :: "'p \<Rightarrow> bool"
    and invar :: "'s \<Rightarrow> bool"
    and owns :: "'s \<Rightarrow> int multiset"
    and add :: "'p \<Rightarrow> u64 \<Rightarrow> int list \<Rightarrow> 's \<Rightarrow> 's res"
    and expire :: "'p \<Rightarrow> time \<Rightarrow> 's \<Rightarrow> 's res"
    and shed :: "'p \<Rightarrow> int \<Rightarrow> 's \<Rightarrow> (int list \<times> 's) res"
    and trim :: "'p \<Rightarrow> int \<Rightarrow> 's \<Rightarrow> (int list \<times> 's) res"
  assumes add_ok: "ok p \<Longrightarrow> invar s \<Longrightarrow>
      yields (add p i bs s) (\<lambda>s'. invar s' \<and> owns s' = owns s + mset bs)"
    and expire_ok: "ok p \<Longrightarrow> invar s \<Longrightarrow> yields (expire p t s) (\<lambda>s'. invar s' \<and> owns s' = owns s)"
    and shed_ok: "ok p \<Longrightarrow> invar s \<Longrightarrow>
      yields (shed p c s) (\<lambda>(out, s'). invar s' \<and> owns s = owns s' + mset out)"
    and trim_ok: "ok p \<Longrightarrow> invar s \<Longrightarrow>
      yields (trim p c s) (\<lambda>(out, s'). invar s' \<and> owns s = owns s' + mset out)"
begin

text \<open>Expire, shed, trim: what comes out is what the store no longer owns.\<close>

lemma reclaim_ok:
  assumes p: "ok p" and s: "invar s"
    and k: "\<And>o1 o2 s3. invar s3 \<Longrightarrow> owns s = owns s3 + mset o1 + mset o2 \<Longrightarrow> yields (k o1 o2 s3) Q"
  shows "yields (bind_res (expire p t s) (\<lambda>s1. bind_res (shed p c s1) (\<lambda>(o1, s2).
       bind_res (trim p d s2) (\<lambda>(o2, s3). k o1 o2 s3)))) Q"
proof (rule yields_bind [OF expire_ok [OF p s]])
  fix s1
  assume s1: "invar s1 \<and> owns s1 = owns s"
  then have i1: "invar s1" by simp
  show "yields (bind_res (shed p c s1) (\<lambda>(o1, s2). bind_res (trim p d s2) (\<lambda>(o2, s3). k o1 o2 s3))) Q"
  proof (rule yields_bind [OF shed_ok [OF p i1]], clarify)
    fix o1 s2
    assume s2: "invar s2" "owns s1 = owns s2 + mset o1"
    show "yields (bind_res (trim p d s2) (\<lambda>(o2, s3). k o1 o2 s3)) Q"
    proof (rule yields_bind [OF trim_ok [OF p s2(1)]], clarify)
      fix o2 s3
      assume "invar s3" "owns s2 = owns s3 + mset o2"
      then show "yields (k o1 o2 s3) Q" using s1 s2(2) by (intro k) (simp_all add: ac_simps)
    qed
  qed
qed

end

lemma tm_ok_shrink:
  assumes "tm_ok (tm, dm)" and "dm_inv dm'" and "dom (fired_of dm') \<subseteq> dom (fired_of dm)"
    and "dom (queue_of dm) \<subseteq> dom (queue_of dm')"
  shows "tm_ok (tm, dm')"
proof -
  have "dom (mq_of tm) \<subseteq> dom (queue_of dm')"
    using assms(1,4) unfolding tm_ok_def by (simp, meson subset_trans)
  then show ?thesis using assms(1-3) unfolding tm_ok_def by (simp, meson subsetD)
qed

lemma tm_ok_evicted: "tm_ok (tm, dm) \<Longrightarrow> dm_inv dm' \<Longrightarrow> evicted_from k B dm dm' \<Longrightarrow> tm_ok (tm, dm')"
  by (rule tm_ok_shrink) (auto simp: evicted_from_def split: if_splits)

lemma tm_ok_lru_evicted: "tm_ok (tm, dm) \<Longrightarrow> dm_inv dm' \<Longrightarrow> lru_evicted n dm dm' \<Longrightarrow> tm_ok (tm, dm')"
proof (rule tm_ok_shrink)
  assume "lru_evicted n dm dm'"
  then have q: "queue_of dm' = queue_of dm" by (simp add: lru_evicted_def Let_def)
  then show "dom (queue_of dm) \<subseteq> dom (queue_of dm')" by simp
  show "dom (fired_of dm') \<subseteq> dom (fired_of dm)" using fired_of_cong [OF q] by simp
qed

lemma tm_ok_timed_out: "tm_ok (tm, dm) \<Longrightarrow> dm_inv dm' \<Longrightarrow> only_timed_out b dm dm' \<Longrightarrow> tm_ok (tm, dm')"
proof (rule tm_ok_shrink)
  assume "only_timed_out b dm dm'"
  then show "dom (queue_of dm) \<subseteq> dom (queue_of dm')" by (simp add: only_timed_out_def)
  show "dom (fired_of dm') \<subseteq> dom (fired_of dm)"
    using \<open>only_timed_out b dm dm'\<close> unfolding only_timed_out_def by (metis (no_types, lifting) domIff subsetI)
qed

interpretation store: buffer_store orders_ok "\<lambda>dm. tm_ok (tm, dm)" held AddBuffers dm_CheckIdleTriggers
  EvictedTriggeredToCapacity EvictToCapacity for tm :: "'b TriggerManager"
proof (unfold_locales, goal_cases)
  case (1 ro dm i bs)
  then have "dm_inv dm" by (simp add: tm_ok_def)
  from AddBuffers_ok [OF this 1(1), of i bs] show ?case
    using tm_ok_shrink [OF 1(2)] by (elim yieldsE) (auto simp: same_objects_def)
next
  case (2 ro dm t)
  then have "dm_inv dm" by (simp add: tm_ok_def)
  from dm_CheckIdleTriggers_ok [OF this 2(1), of t] show ?case
    using tm_ok_timed_out [OF 2(2)] by (auto elim!: yieldsE)
next
  case (3 ro dm c)
  then have dm: "dm_inv dm" by (simp add: tm_ok_def)
  show ?case
  proof (cases "0 \<le> c \<and> c < td_buffer_count (triggered dm)")
    case True
    then have c: "0 \<le> c" "c < td_buffer_count (triggered dm)" by simp_all
    show ?thesis
      using EvictedTriggeredToCapacity_ok [OF dm 3(1) c] tm_ok_evicted [OF 3(2)] by (elim yieldsE) auto
  next
    case False
    then have "EvictedTriggeredToCapacity ro c dm = Inr ([], dm)" by (auto simp: EvictedTriggeredToCapacity_def)
    then show ?thesis using 3 by simp
  qed
next
  case (4 ro dm c)
  then have dm: "dm_inv dm" by (simp add: tm_ok_def)
  show ?case
  proof (cases "0 \<le> c \<and> c < buffer_count dm")
    case True
    then have c: "0 \<le> c" "c < buffer_count dm" by simp_all
    show ?thesis
      using EvictToCapacity_ok [OF dm c, of ro] tm_ok_lru_evicted [OF 4(2)] by (elim yieldsE) auto
  next
    case False
    then have "EvictToCapacity ro c dm = Inr ([], dm)" by (auto simp: EvictToCapacity_def)
    then show ?thesis using 4 by simp
  qed
qed

lemma ConfigureRateLimits_ok:
  "tm_ok st \<Longrightarrow> yields (ConfigureRateLimits bk limits st) (\<lambda>st'. tm_ok st' \<and> held (snd st') = held (snd st) \<and>
     (\<forall>k \<in> fst ` set limits. mq_of (fst st') k \<noteq> None) \<and> dom (mq_of (fst st)) \<subseteq> dom (mq_of (fst st')))"
proof (induction bk limits st rule: ConfigureRateLimits.induct)
  case (2 bk k limit limits st)
  obtain tm dm where st: "st = (tm, dm)" by (cases st)
  obtain tm1 dm1 where g: "getQueue bk k (tm, dm) = (tm1, dm1)" "tm_ok (tm1, dm1)" "mq_of tm1 k \<noteq> None"
    "held dm1 = held dm" "dom (mq_of tm) \<subseteq> dom (mq_of tm1)"
    using getQueue_ok [of tm dm bk k] 2(2) st by auto
  then obtain mq where mq: "mq_of tm1 k = Some mq" by auto
  let ?tm = "put_mq k (mq\<lparr>reporting_limiter := new_bucket bk (limit * 1024 * 1024)\<rparr>) tm1"
  have d: "dom (mq_of ?tm) = dom (mq_of tm1)" using mq by auto
  then have ok: "tm_ok (?tm, dm1)" using g(2) by (simp add: tm_ok_def)
  obtain st' where r: "ConfigureRateLimits bk limits (?tm, dm1) = Inr st'" "tm_ok st'" "held (snd st') = held dm1"
    "\<forall>k \<in> fst ` set limits. mq_of (fst st') k \<noteq> None" "dom (mq_of ?tm) \<subseteq> dom (mq_of (fst st'))"
    using "2.IH" [OF g(1) [unfolded st [symmetric], symmetric] refl ok]
    by (elim yieldsE) (simp del: mq_of_put)
  have "mq_of (fst st') k \<noteq> None" "dom (mq_of tm) \<subseteq> dom (mq_of (fst st'))"
    using r(5) mq g(5) unfolding d by (blast, meson subset_trans)
  then show ?case using r g mq st by (simp add: Let_def)
qed simp

end
