(* ===== verification/Reporting.thy ===== *)
theory Reporting
  imports Memory TriggerManager
begin

text \<open>
  The agent's connection to the collector, \<^verbatim>\<open>agent/pkg/agent/reporting.go\<close>: buffers are read from the
  pool, cut to the size their header gives, sent as frames, and returned to the available queue
  whether or not sending succeeds. Waiting for the rate limit takes tokens from the bucket.
\<close>

section \<open>Operations\<close>

record 'b Reporting =
  rp_enabled :: bool
  rp_rate_limit :: rat
  rp_buffer_size :: int
  rp_bucket :: "'b option"
  agent_addr :: string
  rp_remote_addr :: string
  rp_data :: "int list list"

definition InitReporting :: "'b buckets \<Rightarrow> shm_pool \<Rightarrow> rat \<Rightarrow> bool \<Rightarrow> string \<Rightarrow> string \<Rightarrow> string \<Rightarrow> 'b Reporting" where
  "InitReporting bk p rate_limit_mb enabled remote hostname port =
     (let rate = rate_limit_mb * 1024 * 1024 in
      \<lparr>rp_enabled = enabled, rp_rate_limit = rate, rp_buffer_size = buffer_size p,
       rp_bucket = (if rate \<noteq> 0 then Some (new_bucket bk rate) else None),
       agent_addr = hostname @ '':'' @ port, rp_remote_addr = remote, rp_data = []\<rparr>)"

text \<open>
  \<^verbatim>\<open>data[0:header.Size]\<close>: bounded by the capacity of the slice, which reaches beyond the buffer.
\<close>

definition buffer_data :: "shm_pool \<Rightarrow> int \<Rightarrow> byte list res" where
  "buffer_data p buffer_id =
     bind_res (ExtractBuffer p buffer_id) (\<lambda>(header, start, _).
       let size = uint (hd_Size header) in
       if 2 ^ 30 - start < size then Inl IndexOutOfRange
       else pool_bytes p start (start + size))"

fun write_buffers :: "shm_pool \<Rightarrow> int list \<Rightarrow> wconn \<Rightarrow> (io_error option \<times> wconn) res" where
  "write_buffers p [] conn = Inr (None, conn)"
| "write_buffers p (b # bs) conn =
     bind_res (buffer_data p b) (\<lambda>data.
       case writeLengthPrefixed data conn of
         (Some err, conn1) \<Rightarrow> Inr (Some err, conn1)
       | (None, conn1) \<Rightarrow> write_buffers p bs conn1)"

text \<open>\<open>t\<close>: when the bucket is asked; \<open>available\<close>: the channel to the available queue.\<close>

definition reportData ::
  "'b buckets \<Rightarrow> time \<Rightarrow> shm_pool \<Rightarrow> int list \<Rightarrow> 'b Reporting \<Rightarrow> wconn \<Rightarrow> int list list
     \<Rightarrow> (io_error option \<times> 'b Reporting \<times> wconn \<times> int list list) res" where
  "reportData bk t p buffers r conn available =
     (let r1 = r\<lparr>rp_bucket := map_option (bk_take bk t (int (length buffers) * rp_buffer_size r)) (rp_bucket r)\<rparr> in
      bind_res (if rp_enabled r then write_buffers p buffers conn else Inr (None, conn)) (\<lambda>(err, conn1).
        Inr (err, r1, conn1, if buffers \<noteq> [] then available @ [buffers] else available)))"

definition writeConnectionHandshake :: "'b Reporting \<Rightarrow> wconn \<Rightarrow> io_error option \<times> wconn" where
  "writeConnectionHandshake r conn = writeLengthPrefixed (bytes_of (agent_addr r)) conn"

text \<open>
  \<^verbatim>\<open>ReportData\<close> until the pending batches are sent or an error ends the connection; \<open>clk\<close> gives the
  instants of the batches.
\<close>

fun report_batches ::
  "'b buckets \<Rightarrow> (nat \<Rightarrow> time) \<Rightarrow> shm_pool \<Rightarrow> int list list \<Rightarrow> 'b Reporting \<Rightarrow> wconn \<Rightarrow> int list list
     \<Rightarrow> (io_error option \<times> 'b Reporting \<times> wconn \<times> int list list) res" where
  "report_batches bk clk p [] r conn available = Inr (None, r, conn, available)"
| "report_batches bk clk p (buffers # rest) r conn available =
     bind_res (reportData bk (clk (length rest)) p buffers (r\<lparr>rp_data := rest\<rparr>) conn available) (\<lambda>(err, r1, conn1, available1).
       if err \<noteq> None then Inr (err, r1, conn1, available1)
       else report_batches bk clk p rest r1 conn1 available1)"

definition ReportData where
  "ReportData bk clk p r conn available =
     (case writeConnectionHandshake r conn of
        (Some err, conn1) \<Rightarrow> Inr (Some err, r, conn1, available)
      | (None, conn1) \<Rightarrow> report_batches bk clk p (rp_data r) r conn1 available)"

section \<open>What is sent\<close>

lemma write_buffers_good:
  assumes "w_good conn" and "list_all2 (\<lambda>b data. buffer_data p b = Inr data) bs datas"
  shows "\<exists>conn'. write_buffers p bs conn = Inr (None, conn') \<and> w_good conn' \<and>
     w_out conn' = w_out conn @ concat (map frame datas)"
  using assms(2,1)
proof (induction arbitrary: conn rule: list_all2_induct)
  case (Cons b bs data datas)
  obtain c1 where c1: "writeLengthPrefixed data conn = (None, c1)" "w_out c1 = w_out conn @ frame data" "w_good c1"
    using writeLengthPrefixed_good [OF Cons.prems] by blast
  then show ?case using Cons.IH [OF c1(3)] Cons(1) by auto
qed simp

lemma report_batches_good:
  assumes "w_good conn" and "list_all2 (\<lambda>b data. buffer_data p b = Inr data) (concat bss) datas" and "rp_enabled r"
  shows "\<exists>r' conn'. report_batches bk clk p bss r conn available
       = Inr (None, r', conn', available @ filter (\<lambda>b. b \<noteq> []) bss) \<and>
     w_out conn' = w_out conn @ concat (map frame datas)"
  using assms
proof (induction bss arbitrary: conn r datas available)
  case (Cons bs bss)
  obtain d1 d2 where d: "datas = d1 @ d2" "list_all2 (\<lambda>b data. buffer_data p b = Inr data) bs d1"
      "list_all2 (\<lambda>b data. buffer_data p b = Inr data) (concat bss) d2"
    using Cons.prems(2) by (auto simp: list_all2_append1)
  obtain c1 where c1: "write_buffers p bs conn = Inr (None, c1)" "w_good c1" "w_out c1 = w_out conn @ concat (map frame d1)"
    using write_buffers_good [OF Cons.prems(1) d(2)] by blast
  let ?r = "r\<lparr>rp_data := bss, rp_bucket := map_option (bk_take bk (clk (length bss)) (int (length bs) * rp_buffer_size r)) (rp_bucket r)\<rparr>"
  let ?av = "if bs \<noteq> [] then available @ [bs] else available"
  have "report_batches bk clk p (bs # bss) r conn available = report_batches bk clk p bss ?r c1 ?av"
    using c1(1) Cons.prems(3) by (simp add: reportData_def Let_def)
  moreover have "?av @ filter (\<lambda>b. b \<noteq> []) bss = available @ filter (\<lambda>b. b \<noteq> []) (bs # bss)" by simp
  ultimately show ?case
    using Cons.IH [OF c1(2) d(3), of ?r ?av] c1(3) Cons.prems(3) by (simp add: d(1) del: report_batches.simps)
qed simp

text \<open>Whatever the connection does, a batch that was taken is returned.\<close>

lemma reportData_returns_buffers:
  "reportData bk t p buffers r conn available = Inr (err, r', conn', available') \<Longrightarrow>
     concat available' = concat available @ buffers"
  by (auto simp: reportData_def Let_def split: if_splits)

end
