(* ===== verification/Connections.thy ===== *)
theory Connections
  imports AgentClient CoordServer Reporting "HOL-Library.Sublist"
begin

text \<open>
  The loops that keep a connection: \<^verbatim>\<open>TriggersLoop\<close> and \<^verbatim>\<open>BreadcrumbsLoop\<close> of
  \<^verbatim>\<open>agent/pkg/agent/coordinator.go\<close>, \<^verbatim>\<open>AgentLoop\<close> of \<^verbatim>\<open>agent/pkg/coordinator/server.go\<close> and \<^verbatim>\<open>Run\<close> of
  \<^verbatim>\<open>agent/pkg/agent/reporting.go\<close>. All dial, send until an error or the cancellation of their context,
  pause for two seconds and dial again.

  What the network, the timer and the context do is a sequence of events, and a loop a partial
  function that takes the next event: \<open>None\<close> when the loop does not wait for it. What arrives in the
  channel that a loop empties is an event as well. A step returns the request it tried to send, if any.
\<close>

section \<open>The control of the loops\<close>

text \<open>
  Where a loop is; \<^verbatim>\<open>firsttime\<close>; the connections whose deferred \<^verbatim>\<open>Close\<close> has not run; the failures
  that were logged.
\<close>

datatype link_phase = Dialing | Connected | Pausing | Stopped

record link =
  ln_phase :: link_phase
  ln_firsttime :: bool
  ln_open :: nat
  ln_logged :: nat

definition link_Init :: link where
  "link_Init = \<lparr>ln_phase = Dialing, ln_firsttime = True, ln_open = 0, ln_logged = 0\<rparr>"

text \<open>
  \<open>lk_quiet\<close>: only the first failure is logged; \<open>lk_selects\<close>: the pause ends when the context is
  cancelled, otherwise it is a \<^verbatim>\<open>time.Sleep\<close>.
\<close>

record loop_kind =
  lk_quiet :: bool
  lk_selects :: bool

text \<open>\<open>Cancelled n\<close>: the context is done, after \<open>n\<close> messages of the next request were received.\<close>

datatype link_event = Cancelled nat | DialOk | DialFails | SendOk | SendFails | PauseOver

definition log_failure :: "loop_kind \<Rightarrow> link \<Rightarrow> link" where
  "log_failure k l =
     (if lk_quiet k \<and> \<not> ln_firsttime l then l else l\<lparr>ln_firsttime := False, ln_logged := ln_logged l + 1\<rparr>)"

definition link_failed :: "loop_kind \<Rightarrow> link \<Rightarrow> link" where
  "link_failed k l = (log_failure k l)\<lparr>ln_phase := Pausing\<rparr>"

text \<open>Returning runs the deferred calls, which close every connection the loop has opened.\<close>

definition link_return :: "link \<Rightarrow> link" where
  "link_return l = l\<lparr>ln_phase := Stopped, ln_open := 0\<rparr>"

text \<open>
  A step. The reporting function returns without an error only when the context is done: \<^verbatim>\<open>firsttime\<close>
  is set, and the loop returns when it looks at the context again.
\<close>

definition link_step :: "loop_kind \<Rightarrow> link_event \<Rightarrow> link \<Rightarrow> link option" where
  "link_step k ev l =
     (case (ln_phase l, ev) of
        (Dialing, Cancelled n) \<Rightarrow> if n = 0 then Some (link_return l) else None
      | (Dialing, DialOk) \<Rightarrow> Some (l\<lparr>ln_phase := Connected, ln_open := ln_open l + 1\<rparr>)
      | (Dialing, DialFails) \<Rightarrow> Some (link_failed k l)
      | (Connected, Cancelled n) \<Rightarrow> Some (link_return (l\<lparr>ln_firsttime := True\<rparr>))
      | (Connected, SendOk) \<Rightarrow> Some l
      | (Connected, SendFails) \<Rightarrow> Some (link_failed k l)
      | (Pausing, Cancelled n) \<Rightarrow> if lk_selects k \<and> n = 0 then Some (link_return l) else None
      | (Pausing, PauseOver) \<Rightarrow> Some (l\<lparr>ln_phase := Dialing\<rparr>)
      | _ \<Rightarrow> None)"

text \<open>
  Which prefixes of a channel a loop can have received when it sees the cancellation: another message
  is received only while fewer than 100 items are accumulated.
\<close>

definition receivable :: "('m \<Rightarrow> 'a list) \<Rightarrow> nat \<Rightarrow> 'm list \<Rightarrow> bool" where
  "receivable items n ch \<longleftrightarrow>
     n \<le> length ch \<and> (n = 0 \<or> length (concat (map items (take (n - 1) ch))) < 100)"

section \<open>The loops of the coordination\<close>

text \<open>
  The agent's \<^verbatim>\<open>TriggersLoop\<close>. When reporting is switched off nothing is sent, and no error occurs.
\<close>

definition TriggersLoop_kind :: loop_kind where
  "TriggersLoop_kind = \<lparr>lk_quiet = True, lk_selects = False\<rparr>"

definition sends :: "link_event \<Rightarrow> bool" where
  "sends ev \<longleftrightarrow> ev = SendOk \<or> ev = SendFails"

fun TriggersLoop_step ::
  "mem_Trigger list + link_event \<Rightarrow> link \<times> AgentCoordinator \<Rightarrow> (TriggerRequest list \<times> link \<times> AgentCoordinator) option" where
  "TriggersLoop_step (Inl triggers) (l, r) =
     (case try_send 500 triggers (ac_localtriggers r) of
        Some ch \<Rightarrow> Some ([], l, r\<lparr>ac_localtriggers := ch\<rparr>)
      | None \<Rightarrow> None)"
| "TriggersLoop_step (Inr ev) (l, r) =
     (case link_step TriggersLoop_kind ev l of
        None \<Rightarrow> None
      | Some l1 \<Rightarrow>
          (case ev of
             Cancelled n \<Rightarrow>
               if receivable (\<lambda>ts. ts) n (ac_localtriggers r)
               then Some ([], l1, r\<lparr>ac_localtriggers := drop n (ac_localtriggers r)\<rparr>) else None
           | _ \<Rightarrow>
               if sends ev
               then case client_ReportTriggers r of
                      None \<Rightarrow> None
                    | Some (None, r1) \<Rightarrow> if ev = SendOk then Some ([], l1, r1) else None
                    | Some (Some req, r1) \<Rightarrow> Some ([req], l1, r1)
               else Some ([], l1, r)))"

text \<open>
  The agent's \<^verbatim>\<open>BreadcrumbsLoop\<close>. Each connection starts with a new table of addresses, a local
  variable of \<^verbatim>\<open>ReportBreadcrumbs\<close>.
\<close>

definition BreadcrumbsLoop_kind :: loop_kind where
  "BreadcrumbsLoop_kind = \<lparr>lk_quiet = True, lk_selects = True\<rparr>"

fun BreadcrumbsLoop_step ::
  "(crumb_map \<Rightarrow> crumb_map) \<Rightarrow> crumb_map + link_event \<Rightarrow> link \<times> AgentCoordinator \<times> encoder
     \<Rightarrow> (BreadcrumbsRequest list \<times> link \<times> AgentCoordinator \<times> encoder) option" where
  "BreadcrumbsLoop_step ord (Inl m) (l, r, enc) =
     (case try_send 500 m (ac_breadcrumbs r) of
        Some ch \<Rightarrow> Some ([], l, r\<lparr>ac_breadcrumbs := ch\<rparr>, enc)
      | None \<Rightarrow> None)"
| "BreadcrumbsLoop_step ord (Inr ev) (l, r, enc) =
     (case link_step BreadcrumbsLoop_kind ev l of
        None \<Rightarrow> None
      | Some l1 \<Rightarrow>
          (case ev of
             Cancelled n \<Rightarrow>
               if receivable (\<lambda>m. if m = [] then [] else [m]) n (ac_breadcrumbs r)
               then Some ([], l1, r\<lparr>ac_breadcrumbs := drop n (ac_breadcrumbs r)\<rparr>, enc) else None
           | DialOk \<Rightarrow> Some ([], l1, r, encoder_Init)
           | _ \<Rightarrow>
               if sends ev
               then case ReportBreadcrumbs ord (r, enc) of
                      None \<Rightarrow> None
                    | Some (None, r1, enc1) \<Rightarrow> if ev = SendOk then Some ([], l1, r1, enc1) else None
                    | Some (Some req, r1, enc1) \<Rightarrow> Some ([req], l1, r1, enc1)
               else Some ([], l1, r, enc)))"

text \<open>The coordinator's \<^verbatim>\<open>AgentLoop\<close>, which empties the channel of one agent and logs every failure.\<close>

definition AgentLoop_kind :: loop_kind where
  "AgentLoop_kind = \<lparr>lk_quiet = False, lk_selects = True\<rparr>"

fun AgentLoop_step ::
  "(time \<times> Trigger list) + link_event \<Rightarrow> link \<times> AgentConn \<Rightarrow> (TriggerRequest list \<times> link \<times> AgentConn) option" where
  "AgentLoop_step (Inl (t, triggers)) (l, a) =
     (if length (outgoing_triggers a) < 10000 then Some ([], l, SendTriggers t triggers a) else None)"
| "AgentLoop_step (Inr ev) (l, a) =
     (case link_step AgentLoop_kind ev l of
        None \<Rightarrow> None
      | Some l1 \<Rightarrow>
          (case ev of
             Cancelled n \<Rightarrow>
               if receivable (\<lambda>ts. ts) n (outgoing_triggers a)
               then Some ([], l1, a\<lparr>outgoing_triggers := drop n (outgoing_triggers a)\<rparr>) else None
           | _ \<Rightarrow>
               if sends ev
               then case conn_ReportTriggers a of
                      None \<Rightarrow> None
                    | Some (req, a1) \<Rightarrow> Some ([req], l1, a1)
               else Some ([], l1, a)))"

section \<open>The loop of the reporting\<close>

text \<open>
  \<^verbatim>\<open>Run\<close> of \<^verbatim>\<open>reporting.go\<close>: it dials, with the connection it gets or none; writes the handshake;
  reports the next batch at an instant \<open>t\<close>; pauses; or is cancelled. Batches arrive in a channel of
  four. The step returns the buffers that it gave back.
\<close>

datatype report_event = DataArrives "int list" | Dials "wconn option" | Batch time | Waits | Stops

definition Run_kind :: loop_kind where
  "Run_kind = \<lparr>lk_quiet = True, lk_selects = True\<rparr>"

record 'b reporter =
  rr_link :: link
  rr_conn :: "wconn option"
  rr_state :: "'b Reporting"

definition reporter_Init :: "'b Reporting \<Rightarrow> 'b reporter" where
  "reporter_Init r = \<lparr>rr_link = link_Init, rr_conn = None, rr_state = r\<rparr>"

text \<open>The control after a call on the connection, which may have failed.\<close>

definition after_call :: "io_error option \<Rightarrow> link \<Rightarrow> link" where
  "after_call err l = (if err = None then l else link_failed Run_kind l)"

fun reporting_Run_step ::
  "'b buckets \<Rightarrow> shm_pool \<Rightarrow> report_event \<Rightarrow> 'b reporter \<Rightarrow> (int list list \<times> 'b reporter) res option" where
  "reporting_Run_step bk p (DataArrives buffers) s =
     (case try_send 4 buffers (rp_data (rr_state s)) of
        Some ch \<Rightarrow> Some (Inr ([], s\<lparr>rr_state := (rr_state s)\<lparr>rp_data := ch\<rparr>\<rparr>))
      | None \<Rightarrow> None)"
| "reporting_Run_step bk p (Dials None) s =
     map_option (\<lambda>l. Inr ([], s\<lparr>rr_link := l\<rparr>)) (link_step Run_kind DialFails (rr_link s))"
| "reporting_Run_step bk p (Dials (Some conn)) s =
     (case link_step Run_kind DialOk (rr_link s) of
        None \<Rightarrow> None
      | Some l1 \<Rightarrow>
          let (err, conn1) = writeConnectionHandshake (rr_state s) conn
          in Some (Inr ([], s\<lparr>rr_link := after_call err l1, rr_conn := Some conn1\<rparr>)))"
| "reporting_Run_step bk p (Batch t) s =
     (case (ln_phase (rr_link s), rr_conn s, rp_data (rr_state s)) of
        (Connected, Some conn, buffers # rest) \<Rightarrow>
          Some (bind_res (reportData bk t p buffers ((rr_state s)\<lparr>rp_data := rest\<rparr>) conn []) (\<lambda>(err, r1, conn1, returned).
            Inr (returned, s\<lparr>rr_link := after_call err (rr_link s), rr_conn := Some conn1, rr_state := r1\<rparr>)))
      | _ \<Rightarrow> None)"
| "reporting_Run_step bk p Waits s =
     map_option (\<lambda>l. Inr ([], s\<lparr>rr_link := l\<rparr>)) (link_step Run_kind PauseOver (rr_link s))"
| "reporting_Run_step bk p Stops s =
     map_option (\<lambda>l. Inr ([], s\<lparr>rr_link := l\<rparr>)) (link_step Run_kind (Cancelled 0) (rr_link s))"

section \<open>Runs\<close>

text \<open>A sequence of events: all that was sent, and the state at the end.\<close>

fun run_events :: "('e \<Rightarrow> 's \<Rightarrow> ('o list \<times> 's) option) \<Rightarrow> 'e list \<Rightarrow> 's \<Rightarrow> ('o list \<times> 's) option" where
  "run_events step [] s = Some ([], s)"
| "run_events step (e # es) s =
     (case step e s of
        None \<Rightarrow> None
      | Some (out, s1) \<Rightarrow>
          (case run_events step es s1 of
             None \<Rightarrow> None
           | Some (outs, s2) \<Rightarrow> Some (out @ outs, s2)))"

lemma run_events_ConsE:
  assumes "run_events step (e # es) s = Some (out, s')"
  obtains o1 s1 o2 where "step e s = Some (o1, s1)" "run_events step es s1 = Some (o2, s')" "out = o1 @ o2"
  using assms by (auto split: option.splits)

text \<open>
  What the loops share. A loop empties a channel into messages: what it holds and what arrives is sent
  in order, and only a cancellation, an event that is not \<open>live\<close>, makes it drop something.
\<close>

locale outbox =
  fixes step :: "'e \<Rightarrow> 's \<Rightarrow> ('o list \<times> 's) option"
    and ok :: "'s \<Rightarrow> bool"
    and live :: "'e \<Rightarrow> bool"
    and held :: "'s \<Rightarrow> 'i list"
    and arrives :: "'e \<Rightarrow> 'i list"
    and carries :: "'o \<Rightarrow> 'i list"
  assumes step_ok: "ok s \<Longrightarrow> step e s = Some (out, s') \<Longrightarrow> ok s'"
    and step_live: "ok s \<Longrightarrow> step e s = Some (out, s') \<Longrightarrow> live e \<Longrightarrow>
      concat (map carries out) @ held s' = held s @ arrives e"
    and step_cancelled: "ok s \<Longrightarrow> step e s = Some (out, s') \<Longrightarrow> \<not> live e \<Longrightarrow>
      out = [] \<and> arrives e = [] \<and> subseq (held s') (held s)"
begin

lemma run_live:
  "ok s \<Longrightarrow> run_events step es s = Some (out, s') \<Longrightarrow> list_all live es \<Longrightarrow>
     concat (map carries out) @ held s' = held s @ concat (map arrives es)"
proof (induction es arbitrary: s out)
  case (Cons e es)
  obtain o1 s1 o2 where r: "step e s = Some (o1, s1)" "run_events step es s1 = Some (o2, s')" "out = o1 @ o2"
    using Cons.prems(2) by (rule run_events_ConsE)
  have "concat (map carries o2) @ held s' = held s1 @ concat (map arrives es)"
    using Cons.IH [OF step_ok [OF Cons.prems(1) r(1)] r(2)] Cons.prems(3) by simp
  then have "concat (map carries out) @ held s' = (concat (map carries o1) @ held s1) @ concat (map arrives es)"
    using r(3) by simp
  then show ?case using step_live [OF Cons.prems(1) r(1)] Cons.prems(3) by simp
qed simp

lemma run_subseq:
  "ok s \<Longrightarrow> run_events step es s = Some (out, s') \<Longrightarrow>
     subseq (concat (map carries out) @ held s') (held s @ concat (map arrives es))"
proof (induction es arbitrary: s out)
  case (Cons e es)
  obtain o1 s1 o2 where r: "step e s = Some (o1, s1)" "run_events step es s1 = Some (o2, s')" "out = o1 @ o2"
    using Cons.prems(2) by (rule run_events_ConsE)
  have i: "subseq (concat (map carries o2) @ held s') (held s1 @ concat (map arrives es))"
    by (rule Cons.IH [OF step_ok [OF Cons.prems(1) r(1)] r(2)])
  have "subseq (concat (map carries o1) @ held s1) (held s @ arrives e)"
    using step_live [OF Cons.prems(1) r(1)] step_cancelled [OF Cons.prems(1) r(1)] by (cases "live e") simp_all
  then have "subseq (concat (map carries o1) @ held s1 @ concat (map arrives es)) (held s @ arrives e @ concat (map arrives es))"
    using list_emb_append_mono [of "(=)", OF _ subseq_order.order_refl] by fastforce
  moreover have "subseq (concat (map carries o1) @ concat (map carries o2) @ held s')
      (concat (map carries o1) @ held s1 @ concat (map arrives es))"
    using i by (simp add: subseq_append')
  ultimately show ?case using r(3) subseq_order.order_trans by fastforce
qed simp

end

section \<open>The loops as outboxes\<close>

lemma accumulate_sends:
  assumes "accumulate items 100 ch = Some (out, rest)"
  shows "out @ concat (map items rest) = concat (map items ch)"
proof -
  have "length (items m) \<le> Max (insert 0 (length ` items ` set ch))" if "m \<in> set ch" for m
    using that by (intro Max_ge) auto
  from accumulate_ok(1) [OF assms _ this] show ?thesis by simp
qed

lemma subseq_drop: "subseq (concat (map f (drop n ch))) (concat (map f ch))"
proof -
  have "concat (map f ch) = concat (map f (take n ch)) @ concat (map f (drop n ch))"
    by (metis append_take_drop_id concat_append map_append)
  then show ?thesis by (metis list_emb_append2 subseq_order.order_refl)
qed

definition is_live :: "'a + link_event \<Rightarrow> bool" where
  "is_live e \<longleftrightarrow> (\<forall>n. e \<noteq> Inr (Cancelled n))"

lemma is_live_simps [simp]:
  "is_live (Inl x)" "\<not> is_live (Inr (Cancelled n))" "is_live (Inr DialOk)" "is_live (Inr DialFails)"
  "is_live (Inr SendOk)" "is_live (Inr SendFails)" "is_live (Inr PauseOver)"
  by (simp_all add: is_live_def)

definition offered :: "('x \<Rightarrow> 'i list) \<Rightarrow> 'x + link_event \<Rightarrow> 'i list" where
  "offered f e = (case e of Inl x \<Rightarrow> f x | Inr _ \<Rightarrow> [])"

lemma offered_simps [simp]: "offered f (Inl x) = f x" "offered f (Inr ev) = []"
  by (simp_all add: offered_def)

definition held_triggers :: "link \<times> AgentCoordinator \<Rightarrow> pb_Trigger list" where
  "held_triggers s = map pb_of_mem (concat (ac_localtriggers (snd s)))"

lemma client_ReportTriggers_enabled:
  assumes "client_ReportTriggers r = Some (req, r1)" and "ac_enabled r"
  shows "\<exists>q. req = Some q \<and> ac_enabled r1 \<and>
     tr_Triggers q @ map pb_of_mem (concat (ac_localtriggers r1)) = map pb_of_mem (concat (ac_localtriggers r))"
proof -
  obtain ts ch where a: "accumulate (\<lambda>ts. ts) 100 (ac_localtriggers r) = Some (ts, ch)" "req = sendTriggers ts r" "r1 = r\<lparr>ac_localtriggers := ch\<rparr>"
    using assms(1) by (auto simp: client_ReportTriggers_def split: option.splits)
  have "ts @ concat ch = concat (ac_localtriggers r)" using accumulate_sends [OF a(1)] by simp
  then show ?thesis using a(2,3) assms(2) by (auto simp: sendTriggers_def simp flip: map_append)
qed

interpretation triggers_out: outbox TriggersLoop_step "\<lambda>s. ac_enabled (snd s)" is_live held_triggers
  "offered (map pb_of_mem)" tr_Triggers
proof (unfold_locales, goal_cases)
  case (1 s e out s')
  then show ?case
    by (cases s; cases e) (auto simp: sends_def split: option.splits link_event.splits if_splits dest!: client_ReportTriggers_enabled)
next
  case (2 s e out s')
  then show ?case
    by (cases s; cases e) (auto simp: held_triggers_def sends_def try_send_def
        split: option.splits link_event.splits if_splits dest!: client_ReportTriggers_enabled)
next
  case (3 s e out s')
  then show ?case using subseq_drop [of "\<lambda>ts. map pb_of_mem ts"]
    by (cases s; cases e) (auto simp: held_triggers_def is_live_def map_concat split: option.splits if_splits)
qed

definition held_forwards :: "link \<times> AgentConn \<Rightarrow> pb_Trigger list" where
  "held_forwards s = map pb_of_trigger (concat (outgoing_triggers (snd s)))"

lemma conn_ReportTriggers_sends:
  assumes "conn_ReportTriggers a = Some (q, a1)"
  shows "tr_Triggers q @ map pb_of_trigger (concat (outgoing_triggers a1)) = map pb_of_trigger (concat (outgoing_triggers a))"
proof -
  obtain ts ch where a: "accumulate (\<lambda>ts. ts) 100 (outgoing_triggers a) = Some (ts, ch)" "q = doSend ts" "a1 = a\<lparr>outgoing_triggers := ch\<rparr>"
    using assms by (auto simp: conn_ReportTriggers_def split: option.splits)
  have "ts @ concat ch = concat (outgoing_triggers a)" using accumulate_sends [OF a(1)] by simp
  then show ?thesis using a(2,3) by (auto simp: doSend_def simp flip: map_append)
qed

interpretation forwards_out: outbox AgentLoop_step "\<lambda>s. True" is_live held_forwards
  "offered (\<lambda>(t, ts). map pb_of_trigger ts)" tr_Triggers
proof (unfold_locales, goal_cases)
  case (2 s e out s')
  then show ?case
    by (cases s; cases e) (auto simp: held_forwards_def sends_def SendTriggers_def try_send_def
        split: option.splits link_event.splits if_splits dest!: conn_ReportTriggers_sends)
next
  case (3 s e out s')
  then show ?case using subseq_drop [of "\<lambda>ts. map pb_of_trigger ts"]
    by (cases s; cases e) (auto simp: held_forwards_def is_live_def map_concat split: option.splits if_splits)
qed simp

text \<open>Of breadcrumbs, the traces they are about; the addresses depend on the table of the connection.\<close>

definition crumb_traces :: "(crumb_map \<Rightarrow> crumb_map) \<Rightarrow> crumb_map list \<Rightarrow> u64 list" where
  "crumb_traces ord ms = map fst (concat (map ord ms))"

definition request_traces :: "BreadcrumbsRequest \<Rightarrow> u64 list" where
  "request_traces q = map bc_TraceId (br_Breadcrumbs q)"

definition crumbs_ok :: "(crumb_map \<Rightarrow> crumb_map) \<Rightarrow> link \<times> AgentCoordinator \<times> encoder \<Rightarrow> bool" where
  "crumbs_ok ord s \<longleftrightarrow> key_order ord \<and> ac_enabled (fst (snd s)) \<and> enc_ok (snd (snd s))"

lemma crumb_traces_append: "crumb_traces ord (ms @ ms') = crumb_traces ord ms @ crumb_traces ord ms'"
  by (simp add: crumb_traces_def)

lemma crumb_traces_nonempty:
  assumes "key_order ord"
  shows "crumb_traces ord (concat (map (\<lambda>m. if m = [] then [] else [m]) ms)) = crumb_traces ord ms"
proof -
  have "ord [] = []" using key_order_set [OF assms, of "[]"] by simp
  then show ?thesis by (induction ms) (auto simp: crumb_traces_def)
qed

lemma ReportBreadcrumbs_enabled:
  assumes "ReportBreadcrumbs ord (r, enc) = Some (req, r1, enc1)" and "ac_enabled r" and "enc_ok enc" and "key_order ord"
  shows "\<exists>q. req = Some q \<and> ac_enabled r1 \<and> enc_ok enc1 \<and>
     request_traces q @ crumb_traces ord (ac_breadcrumbs r1) = crumb_traces ord (ac_breadcrumbs r)"
proof -
  let ?f = "\<lambda>m. if m = [] then [] else [m]"
  obtain ms ch q where a: "accumulate ?f 100 (ac_breadcrumbs r) = Some (ms, ch)"
      "encode_request ord (local_addr r) ms enc = (q, enc1)" "req = Some q" "r1 = r\<lparr>ac_breadcrumbs := ch\<rparr>"
    using assms(1,2) by (auto simp: ReportBreadcrumbs_def split: option.splits prod.splits)
  have "request_traces q = crumb_traces ord ms" "enc_ok enc1"
    using a(2) encode_crumbs_ok [OF assms(3), of "concat (map ord ms)" "[]" "[]"]
    by (auto simp: encode_request_def request_traces_def crumb_traces_def extends_def)
  moreover have "crumb_traces ord ms @ crumb_traces ord ch = crumb_traces ord (ac_breadcrumbs r)"
    using arg_cong [OF accumulate_sends [OF a(1)], of "crumb_traces ord"]
    by (simp only: crumb_traces_append crumb_traces_nonempty [OF assms(4)])
  ultimately show ?thesis using a(3,4) assms(2) by simp
qed

interpretation crumbs_out: outbox "BreadcrumbsLoop_step ord" "crumbs_ok ord" is_live
  "\<lambda>s. crumb_traces ord (ac_breadcrumbs (fst (snd s)))" "offered (\<lambda>m. map fst (ord m))" request_traces
  for ord
proof (unfold_locales, goal_cases)
  case (1 s e out s')
  then show ?case
    by (cases s; cases e) (auto simp: crumbs_ok_def sends_def enc_ok_Init
        split: option.splits link_event.splits if_splits dest!: ReportBreadcrumbs_enabled)
next
  case (2 s e out s')
  then show ?case
    by (cases s; cases e) (auto simp: crumbs_ok_def sends_def try_send_def crumb_traces_append crumb_traces_def [of ord "[_]"]
        split: option.splits link_event.splits if_splits dest!: ReportBreadcrumbs_enabled)
next
  case (3 s e out s')
  then show ?case using subseq_drop [of "\<lambda>m. map fst (ord m)"]
    by (cases s; cases e) (auto simp: is_live_def crumb_traces_def map_concat comp_def split: option.splits if_splits)
qed

text \<open>The reporting: whatever the connections do, the buffers of a batch that was taken are returned.\<close>

definition Run_returns :: "'b buckets \<Rightarrow> shm_pool \<Rightarrow> report_event \<Rightarrow> 'b reporter \<Rightarrow> (int list list \<times> 'b reporter) option" where
  "Run_returns bk p e s = (case reporting_Run_step bk p e s of Some (Inr x) \<Rightarrow> Some x | _ \<Rightarrow> None)"

definition batch_of :: "report_event \<Rightarrow> int list" where
  "batch_of e = (case e of DataArrives buffers \<Rightarrow> buffers | _ \<Rightarrow> [])"

lemma reportData_data: "reportData bk t p buffers r conn av = Inr (err, r1, conn1, av1) \<Longrightarrow> rp_data r1 = rp_data r"
  by (auto simp: reportData_def Let_def)

interpretation buffers_out: outbox "Run_returns bk p" "\<lambda>s. True" "\<lambda>e. True"
  "\<lambda>s. concat (rp_data (rr_state s))" batch_of "\<lambda>bs. bs"
  for bk p
proof (unfold_locales, goal_cases)
  case (2 s e out s')
  show ?case
  proof (cases e)
    case (Batch t)
    then obtain conn buffers rest err r1 conn1 where r: "rp_data (rr_state s) = buffers # rest"
        "reportData bk t p buffers ((rr_state s)\<lparr>rp_data := rest\<rparr>) conn [] = Inr (err, r1, conn1, out)" "rr_state s' = r1"
      using 2(2) by (auto simp: Run_returns_def split: option.splits sum.splits list.splits link_phase.splits)
    then show ?thesis using Batch reportData_data [OF r(2)] reportData_returns_buffers [OF r(2)] by (simp add: batch_of_def)
  next
    case (Dials co)
    then show ?thesis using 2(2)
      by (cases co) (auto simp: Run_returns_def batch_of_def split: option.splits prod.splits)
  qed (use 2(2) in \<open>auto simp: Run_returns_def batch_of_def try_send_def split: option.splits if_splits\<close>)
qed simp_all

end
