(* ===== verification/ServerSpec.thy ===== *)
theory ServerSpec
  imports CoordServer
begin

text \<open>
  The server keeps the invariant of the coordinator's state and the bounds of its channels, and its
  handlers implement the specification of \<^verbatim>\<open>CoordSpec\<close>, request by request: which triggers each agent
  is sent, and what the coordinator knows afterwards.
\<close>

section \<open>Connections\<close>

definition conn_ok :: "AgentConn \<Rightarrow> bool" where
  "conn_ok a \<longleftrightarrow> length (outgoing_triggers a) \<le> 10000"

definition srv_ok :: "CoordinatorServer \<Rightarrow> bool" where
  "srv_ok cs \<longleftrightarrow> co_ok (cs_c cs) \<and> all_ran conn_ok (conn_of cs) \<and>
     length (incoming_triggers cs) \<le> 10000 \<and> length (incoming_breadcrumbs cs) \<le> 10000 \<and>
     (\<forall>l. logger cs = Some l \<longrightarrow> length (Finished l) \<le> 1000)"

lemma conn_of_put [simp]: "conn_of (put_conn addr a cs) = (conn_of cs)(addr \<mapsto> a)"
  by (simp add: conn_of_def put_conn_def)

lemma put_conn_sel [simp]:
  "cs_c (put_conn addr a cs) = cs_c cs" "logger (put_conn addr a cs) = logger cs"
  "incoming_triggers (put_conn addr a cs) = incoming_triggers cs"
  "incoming_breadcrumbs (put_conn addr a cs) = incoming_breadcrumbs cs" "cs_timeout (put_conn addr a cs) = cs_timeout cs"
  by (simp_all add: put_conn_def)

lemma conn_of_sel [simp]:
  "conn_of (cs\<lparr>cs_c := c\<rparr>) = conn_of cs" "conn_of (cs\<lparr>logger := l\<rparr>) = conn_of cs"
  "conn_of (cs\<lparr>incoming_triggers := it\<rparr>) = conn_of cs" "conn_of (cs\<lparr>incoming_breadcrumbs := ib\<rparr>) = conn_of cs"
  by (simp_all add: conn_of_def)

text \<open>
  The messages pending for an agent, the table of the addresses it uses in breadcrumbs, and the effect
  of sending it triggers: they are the last message pending for it, unless the channel was full.
\<close>

definition pending :: "AgentConn option \<Rightarrow> Trigger list list" where
  "pending ao = (case ao of None \<Rightarrow> [] | Some a \<Rightarrow> outgoing_triggers a)"

definition table :: "AgentConn option \<Rightarrow> 32 word \<rightharpoonup> string" where
  "table ao = (case ao of None \<Rightarrow> Map.empty | Some a \<Rightarrow> map_of (id_to_addr a))"

definition sent_pending :: "AgentConn option \<Rightarrow> Trigger list \<Rightarrow> AgentConn option \<Rightarrow> bool" where
  "sent_pending old ts new \<longleftrightarrow>
     (if length (pending old) < 10000 then pending new = pending old @ [ts] else pending new = pending old)"

definition sent :: "AgentConn option \<Rightarrow> Trigger list \<Rightarrow> AgentConn option \<Rightarrow> bool" where
  "sent old ts new \<longleftrightarrow> (\<exists>a. new = Some a \<and> conn_ok a) \<and> table new = table old \<and> sent_pending old ts new"

lemma SendTriggers_sent:
  assumes "\<And>b. old = Some b \<Longrightarrow> conn_ok b" and "a = (case old of None \<Rightarrow> agent_Init t | Some b \<Rightarrow> b)"
  shows "sent old ts (Some (SendTriggers t' ts a))"
  using assms
  by (cases old) (auto simp: sent_def sent_pending_def pending_def table_def SendTriggers_def agent_Init_def conn_ok_def try_send_def Let_def)

text \<open>The loop that queues the triggers for each address of a map.\<close>

lemma forward_loop_ok:
  assumes "set addrs \<subseteq> dom (map_of m)" and "distinct addrs" and "all_ran conn_ok (conn_of cs)"
  shows "yields (foreach (forward_to ck m) addrs cs) (\<lambda>cs'.
     cs' = cs\<lparr>cs_agents := cs_agents cs'\<rparr> \<and> all_ran conn_ok (conn_of cs') \<and>
     (\<forall>addr. if addr \<in> set addrs then sent (conn_of cs addr) (the (map_of m addr)) (conn_of cs' addr)
             else conn_of cs' addr = conn_of cs addr))"
  using assms
proof (induction addrs arbitrary: cs)
  case (Cons addr addrs)
  obtain ts where ts: "map_of m addr = Some ts" using Cons.prems(1) by auto
  obtain a cs1 where g: "GetAgent (ck_conn ck addr) addr cs = (a, cs1)" by fastforce
  let ?cs = "put_conn addr (SendTriggers (ck_send ck addr) ts a) cs1"
  have a: "a = (case conn_of cs addr of None \<Rightarrow> agent_Init (ck_conn ck addr) | Some b \<Rightarrow> b)"
      "?cs = cs\<lparr>cs_agents := cs_agents ?cs\<rparr>"
      "conn_of ?cs = (conn_of cs)(addr \<mapsto> SendTriggers (ck_send ck addr) ts a)"
    using g by (auto simp: GetAgent_def put_conn_def conn_of_def split: option.splits)
  have s: "sent (conn_of cs addr) ts (conn_of ?cs addr)"
    using Cons.prems(3) a(1) unfolding a(3) by (simp add: SendTriggers_sent all_ran_def ran_def) (metis SendTriggers_sent)
  have ok: "all_ran conn_ok (conn_of ?cs)"
    unfolding a(3) using Cons.prems(3) s by (intro all_ran_upd) (auto simp: sent_def)
  have p: "set addrs \<subseteq> dom (map_of m)" "distinct addrs" using Cons.prems(1,2) by simp_all
  obtain cs' where cs': "foreach (forward_to ck m) addrs ?cs = Inr cs'" "cs' = ?cs\<lparr>cs_agents := cs_agents cs'\<rparr>"
      "all_ran conn_ok (conn_of cs')"
      "\<And>b. if b \<in> set addrs then sent (conn_of ?cs b) (the (map_of m b)) (conn_of cs' b) else conn_of cs' b = conn_of ?cs b"
    using Cons.IH [OF p ok] by (elim yieldsE) blast
  have "if b \<in> set (addr # addrs) then sent (conn_of cs b) (the (map_of m b)) (conn_of cs' b) else conn_of cs' b = conn_of cs b" for b
    using cs'(4) [of b] s ts Cons.prems(2) unfolding a(3) by (auto split: if_splits)
  moreover have "cs' = cs\<lparr>cs_agents := cs_agents cs'\<rparr>" using cs'(2) a(2) by (metis CoordinatorServer.surjective CoordinatorServer.update_convs(3))
  moreover have "forward_to ck m addr cs = Inr ?cs" using ts g by (simp add: forward_to_def)
  then have "foreach (forward_to ck m) (addr # addrs) cs = Inr cs'" using cs'(1) by simp
  ultimately show ?case unfolding yields_def using cs'(3) by blast
qed simp

section \<open>Expiration and the log\<close>

definition sp_expire :: "time \<Rightarrow> coord_spec \<Rightarrow> coord_spec" where
  "sp_expire cutoff s0 = (let s = sp_drop_traces (expired cutoff (sp_trace_time s0)) s0
     in sp_drop_triggers (expired cutoff (sp_trigger_time s)) s)"

lemma log_finished_ok:
  assumes "srv_ok cs"
  shows "srv_ok (log_finished finished cs)" and "conn_of (log_finished finished cs) = conn_of cs"
    and "cs_c (log_finished finished cs) = cs_c cs"
  using assms by (auto simp: log_finished_def srv_ok_def try_send_def split: option.splits)

lemma spec_of_now: "spec_of (c\<lparr>c_now := t\<rparr>) = (spec_of c)\<lparr>sp_now := t\<rparr>"
  by (simp add: spec_of_def)

lemma checkExpirations_ok:
  assumes cs: "srv_ok cs" and co: "coord_orders_ok co" and t: "c_now (cs_c cs) \<le> t"
  shows "yields (checkExpirations co t cs) (\<lambda>cs'. srv_ok cs' \<and> conn_of cs' = conn_of cs \<and>
     spec_of (cs_c cs') = sp_expire (t + cs_timeout cs) ((spec_of (cs_c cs))\<lparr>sp_now := t\<rparr>))"
proof -
  let ?c = "(cs_c cs)\<lparr>c_now := t\<rparr>" and ?cut = "t + cs_timeout cs"
  have c: "co_ok ?c" using cs t by (intro co_ok_now) (simp_all add: srv_ok_def)
  obtain c1 where c1: "checkTraceExpiration co ?cut ?c = Inr c1" "co_ok c1"
      "spec_of c1 = sp_drop_traces (expired ?cut (sp_trace_time (spec_of ?c))) (spec_of ?c)"
    using expire_traces_ok [OF c co order_refl, of ?cut] by (auto simp: checkTraceExpiration_def elim!: yieldsE)
  obtain fin c2 where c2: "checkTriggerExpiration co ?cut c1 = Inr (fin, c2)" "co_ok c2"
      "spec_of c2 = sp_drop_triggers (expired ?cut (sp_trigger_time (spec_of c1))) (spec_of c1)"
    using expire_triggers_ok [OF c1(2) co order_refl, of ?cut "[]"] by (auto simp: checkTriggerExpiration_def elim!: yieldsE)
  have "srv_ok (cs\<lparr>cs_c := c2\<rparr>)" using cs c2(2) by (simp add: srv_ok_def)
  moreover have "spec_of c2 = sp_expire ?cut ((spec_of (cs_c cs))\<lparr>sp_now := t\<rparr>)"
    using c1(3) c2(3) by (simp add: sp_expire_def Let_def spec_of_now)
  ultimately show ?thesis
    using c1(1) c2(1) log_finished_ok [of "cs\<lparr>cs_c := c2\<rparr>" fin] by (simp add: checkExpirations_def Let_def)
qed

section \<open>Triggers\<close>

text \<open>
  What the triggers of a request do to the abstract state, and which of them, in order, an address
  is sent.
\<close>

definition sp_report :: "string \<Rightarrow> Trigger \<Rightarrow> coord_spec \<Rightarrow> coord_spec" where
  "sp_report src t = sp_AddTrigger src (trigger_id t) (set (trace_ids t))"

declare sp_report_def [sp_report_defs] sp_AddTrigger_def [sp_report_defs] sp_link_def [sp_report_defs]
  sp_mention_def [sp_report_defs] Let_def [sp_report_defs]

definition is_sent :: "string \<Rightarrow> Trigger \<Rightarrow> coord_spec \<Rightarrow> string \<Rightarrow> bool" where
  "is_sent src t s a \<longleftrightarrow> \<not> set (trace_ids t) \<subseteq> sp_member s `` {trigger_id t} \<and> a \<noteq> src \<and>
     (trigger_id t, a) \<in> sp_trigger_at (sp_report src t s)"

fun sp_forwards :: "string \<Rightarrow> Trigger list \<Rightarrow> coord_spec \<Rightarrow> string \<Rightarrow> Trigger list" where
  "sp_forwards src [] s a = []"
| "sp_forwards src (t # ts) s a = (if is_sent src t s a then [t] else []) @ sp_forwards src ts (sp_report src t s) a"

text \<open>The triggers that a map holds for an address.\<close>

definition got :: "(string \<times> Trigger list) list \<Rightarrow> string \<Rightarrow> Trigger list" where
  "got m a = (case map_of m a of None \<Rightarrow> [] | Some l \<Rightarrow> l)"

definition no_empty :: "(string \<times> Trigger list) list \<Rightarrow> bool" where
  "no_empty m \<longleftrightarrow> distinct (map fst m) \<and> (\<forall>a l. map_of m a = Some l \<longrightarrow> l \<noteq> [])"

lemma got_notin: "a \<notin> set (map fst m) \<Longrightarrow> got m a = []"
  by (simp add: got_def map_of_eq_None_iff [THEN iffD2])

lemma got_append_at [simp]: "got (append_at b ts m) a = (if a = b then got m a @ ts else got m a)"
  by (auto simp: got_def append_at_def split: option.splits)

lemma no_empty_append_at: "no_empty m \<Longrightarrow> ts \<noteq> [] \<Longrightarrow> no_empty (append_at b ts m)"
  by (auto simp: no_empty_def append_at_def distinct_update split: if_splits)

lemma got_fold_append:
  "distinct as \<Longrightarrow> got (fold (\<lambda>addr. append_at addr [t]) as m) a = got m a @ (if a \<in> set as then [t] else [])"
  by (induction as arbitrary: m) auto

lemma no_empty_fold_append: "no_empty m \<Longrightarrow> no_empty (fold (\<lambda>addr. append_at addr [t]) as m)"
  by (induction as arbitrary: m) (auto simp: no_empty_append_at)

lemma no_empty_dom: "no_empty m \<Longrightarrow> set (map fst m) = {a. got m a \<noteq> []}"
  by (auto simp: no_empty_def got_def dom_map_of_conv_image_fst [symmetric] split: option.splits)

lemma store_triggers_ok:
  assumes "co_ok c" and co: "coord_orders_ok co" and "no_empty m"
  shows "yields (store_triggers co src ts m c) (\<lambda>(m', c'). co_ok c' \<and> no_empty m' \<and>
     spec_of c' = fold (\<lambda>t. sp_report src (trigger_of_pb t)) ts (spec_of c) \<and>
     (\<forall>a. got m' a = got m a @ sp_forwards src (map trigger_of_pb ts) (spec_of c) a))"
  using assms(1,3)
proof (induction ts arbitrary: m c)
  case (Cons t ts)
  let ?t = "trigger_of_pb t"
  obtain send_to c1 where c1: "AddTrigger co src ?t c = Inr (send_to, c1)" "co_ok c1"
      "spec_of c1 = sp_report src ?t (spec_of c)" "distinct send_to"
      "set send_to = (if set (trace_ids ?t) \<subseteq> sp_member (spec_of c) `` {trigger_id ?t} then {}
                    else sp_trigger_at (spec_of c1) `` {trigger_id ?t} - {src})"
    using AddTrigger_ok [OF Cons.prems(1) co, of src ?t] by (elim yieldsE) (auto simp: sp_report_def)
  let ?m = "fold (\<lambda>addr. append_at addr [?t]) send_to m"
  have "got ?m a = got m a @ (if is_sent src ?t (spec_of c) a then [?t] else [])" for a
    using c1(5) by (auto simp: got_fold_append [OF c1(4)] is_sent_def c1(3))
  then show ?case
    using Cons.IH [OF c1(2) no_empty_fold_append [OF Cons.prems(2)], of ?t send_to] c1(1,3)
    by (auto elim!: yieldsE)
qed simp

text \<open>Queueing what a map holds, and expiration: the end of both handlers.\<close>

lemma send_all_ok:
  assumes cs: "srv_ok cs" and co: "coord_orders_ok co" and m: "no_empty m" and c: "co_ok c" and t: "c_now c \<le> t"
  shows "yields (bind_res (foreach (forward_to ck m) (co_addr co (map fst m)) (cs\<lparr>cs_c := c\<rparr>)) (checkExpirations co t)) (\<lambda>cs'.
     srv_ok cs' \<and> spec_of (cs_c cs') = sp_expire (t + cs_timeout cs) ((spec_of c)\<lparr>sp_now := t\<rparr>) \<and>
     (\<forall>a. if got m a = [] then conn_of cs' a = conn_of cs a else sent (conn_of cs a) (got m a) (conn_of cs' a)))"
proof -
  let ?as = "co_addr co (map fst m)"
  have k: "key_order (co_addr co)" using co by (simp add: coord_orders_ok_def)
  have as: "set ?as = {a. got m a \<noteq> []}" "distinct ?as" "set ?as \<subseteq> dom (map_of m)"
    using no_empty_dom [OF m] m
    by (simp_all add: key_order_set [OF k] key_order_distinct [OF k] no_empty_def dom_map_of_conv_image_fst)
  have g: "the (map_of m a) = got m a" if "got m a \<noteq> []" for a using that by (auto simp: got_def split: option.splits)
  have ok: "all_ran conn_ok (conn_of (cs\<lparr>cs_c := c\<rparr>))" using cs by (simp add: srv_ok_def)
  obtain cs1 where cs1: "foreach (forward_to ck m) ?as (cs\<lparr>cs_c := c\<rparr>) = Inr cs1"
      "cs1 = cs\<lparr>cs_c := c, cs_agents := cs_agents cs1\<rparr>" "all_ran conn_ok (conn_of cs1)"
      "\<forall>a. if a \<in> set ?as then sent (conn_of cs a) (the (map_of m a)) (conn_of cs1 a) else conn_of cs1 a = conn_of cs a"
    using forward_loop_ok [OF as(3,2) ok, of ck] unfolding conn_of_sel by (elim yieldsE) auto
  have sel: "cs_c cs1 = c" "cs_timeout cs1 = cs_timeout cs" "incoming_triggers cs1 = incoming_triggers cs"
      "incoming_breadcrumbs cs1 = incoming_breadcrumbs cs" "logger cs1 = logger cs"
    by (subst cs1(2), simp)+
  have "srv_ok cs1" using cs c cs1(3) by (simp add: srv_ok_def sel)
  moreover have "if got m a = [] then conn_of cs1 a = conn_of cs a else sent (conn_of cs a) (got m a) (conn_of cs1 a)" for a
    using cs1(4) [rule_format, of a] as(1) g [of a] by (simp split: if_splits)
  ultimately show ?thesis using checkExpirations_ok [OF _ co, of cs1 t] t cs1(1) by (auto simp: sel elim!: yieldsE)
qed

lemma processTriggersRequest_ok:
  fixes req
  assumes cs: "srv_ok cs" and co: "coord_orders_ok co"
    and t: "c_now (cs_c cs) \<le> ck_start ck" "ck_start ck \<le> ck_expire ck"
  defines "ts \<equiv> map trigger_of_pb (tr_Triggers req)" and "s \<equiv> (spec_of (cs_c cs))\<lparr>sp_now := ck_start ck\<rparr>"
  shows "yields (processTriggersRequest co ck req cs) (\<lambda>cs'. srv_ok cs' \<and>
     spec_of (cs_c cs') = sp_expire (ck_expire ck + cs_timeout cs)
       ((fold (sp_report (tr_Src req)) ts s)\<lparr>sp_now := ck_expire ck\<rparr>) \<and>
     (\<forall>a. let out = sp_forwards (tr_Src req) ts s a
          in if out = [] then conn_of cs' a = conn_of cs a else sent (conn_of cs a) out (conn_of cs' a)))"
proof -
  let ?c = "(cs_c cs)\<lparr>c_now := ck_start ck\<rparr>"
  have c: "co_ok ?c" using cs t(1) by (intro co_ok_now) (simp_all add: srv_ok_def)
  obtain m c1 where c1: "store_triggers co (tr_Src req) (tr_Triggers req) [] ?c = Inr (m, c1)" "co_ok c1" "no_empty m"
      "spec_of c1 = fold (sp_report (tr_Src req)) ts s" "got m = sp_forwards (tr_Src req) ts s"
    using store_triggers_ok [OF c co, of "[]" "tr_Src req" "tr_Triggers req"]
    by (auto simp: no_empty_def got_def spec_of_now s_def ts_def fold_map comp_def fun_eq_iff elim!: yieldsE)
  have "sp_now (fold (sp_report src) us s') = sp_now s'" for src us s'
    by (induction us arbitrary: s') (simp_all add: sp_report_defs)
  then have "c_now c1 \<le> ck_expire ck" using arg_cong [OF c1(4), of sp_now] t(2) by (simp add: spec_simps s_def)
  from send_all_ok [OF cs co c1(3,2) this, of ck, unfolded c1(4,5)] show ?thesis
    using c1(1) by (simp add: processTriggersRequest_def Let_def)
qed

section \<open>Breadcrumbs\<close>

text \<open>The addresses that the breadcrumbs of a request give for a trace.\<close>

definition crumbs_at :: "(32 word \<rightharpoonup> string) \<Rightarrow> pb_Breadcrumbs list \<Rightarrow> u64 \<Rightarrow> string list" where
  "crumbs_at tbl bs i = concat (map (\<lambda>b. if bc_TraceId b = i then map (\<lambda>k. the (tbl k)) (bc_Addrs b) else []) bs)"

definition addrs_of :: "(u64 \<times> string list) list \<Rightarrow> u64 \<Rightarrow> string list" where
  "addrs_of m i = (case map_of m i of None \<Rightarrow> [] | Some l \<Rightarrow> l)"

definition crumbs_shape :: "(u64 \<times> string list) list \<Rightarrow> bool" where
  "crumbs_shape m \<longleftrightarrow> distinct (map fst m) \<and> (\<forall>i l. map_of m i = Some l \<longrightarrow> l \<noteq> [])"

lemma crumbs_shape_upd: "crumbs_shape m \<Longrightarrow> crumbs_shape (AList.update i (l @ [a]) m)"
  by (auto simp: crumbs_shape_def distinct_update)

lemma decode_addrs_ok:
  "crumbs_shape m \<Longrightarrow> case decode_addrs tbl i ks m of
     Inl k \<Rightarrow> k \<in> set ks \<and> map_of tbl k = None
   | Inr m' \<Rightarrow> set ks \<subseteq> dom (map_of tbl) \<and> crumbs_shape m' \<and>
       (\<forall>j. addrs_of m' j = addrs_of m j @ (if i = j then map (\<lambda>k. the (map_of tbl k)) ks else []))"
proof (induction ks arbitrary: m)
  case (Cons k ks)
  show ?case
  proof (cases "map_of tbl k")
    case (Some addr)
    let ?m = "AList.update i ((case map_of m i of None \<Rightarrow> [] | Some l \<Rightarrow> l) @ [addr]) m"
    have "addrs_of ?m j = addrs_of m j @ (if i = j then [addr] else [])" for j by (simp add: addrs_of_def)
    then show ?thesis using Cons.IH [of ?m] crumbs_shape_upd [OF Cons.prems] Some by (auto split: sum.splits)
  qed simp
qed simp

lemma decode_crumbs_ok:
  "crumbs_shape m \<Longrightarrow> case decode_crumbs tbl bs m of
     Inl k \<Rightarrow> (\<exists>b\<in>set bs. k \<in> set (bc_Addrs b)) \<and> map_of tbl k = None
   | Inr m' \<Rightarrow> (\<forall>b\<in>set bs. set (bc_Addrs b) \<subseteq> dom (map_of tbl)) \<and> crumbs_shape m' \<and>
       (\<forall>j. addrs_of m' j = addrs_of m j @ crumbs_at (map_of tbl) bs j)"
proof (induction bs arbitrary: m)
  case (Cons b bs)
  show ?case
  proof (cases "decode_addrs tbl (bc_TraceId b) (bc_Addrs b) m")
    case (Inl k)
    then show ?thesis using decode_addrs_ok [OF Cons.prems, where tbl = tbl and i = "bc_TraceId b" and ks = "bc_Addrs b"] by simp
  next
    case (Inr m1)
    then show ?thesis
      using decode_addrs_ok [OF Cons.prems, where tbl = tbl and i = "bc_TraceId b" and ks = "bc_Addrs b"] Cons.IH [of m1]
      by (auto simp: crumbs_at_def split: sum.splits)
  qed
qed (simp add: crumbs_at_def)

lemma got_append_all:
  "distinct as \<Longrightarrow> no_empty m \<Longrightarrow> no_empty (append_all out as m) \<and>
     got (append_all out as m) a = got m a @ (if a \<in> set as then got out a else [])"
proof (induction as arbitrary: m)
  case (Cons b as)
  let ?m = "case map_of out b of None \<Rightarrow> m | Some ts \<Rightarrow> if ts \<noteq> [] then append_at b ts m else m"
  have "no_empty ?m" using Cons.prems(2) by (auto simp: no_empty_append_at split: option.splits)
  moreover have "got ?m a = got m a @ (if a = b then got out a else [])"
    by (auto simp: got_def [of out] split: option.splits)
  ultimately show ?case using Cons.IH [of ?m] Cons.prems(1) by auto
qed simp

definition sp_crumbs :: "string \<Rightarrow> (u64 \<Rightarrow> string list) \<Rightarrow> u64 list \<Rightarrow> coord_spec \<Rightarrow> coord_spec" where
  "sp_crumbs src as is = fold (\<lambda>i. sp_AddBreadcrumb i (insert src (set (as i)))) is"

text \<open>Triggers with no trace but those the coordinator has for them.\<close>

definition told_by :: "coord_spec \<Rightarrow> Trigger list \<Rightarrow> bool" where
  "told_by s ts \<longleftrightarrow> (\<forall>u\<in>set ts. {trigger_id u} \<times> set (trace_ids u) \<subseteq> sp_member s)"

lemma told_by_simps [simp]: "told_by s []" "told_by s (ts @ us) \<longleftrightarrow> told_by s ts \<and> told_by s us"
  by (auto simp: told_by_def)

lemma told_by_messages:
  assumes "messages s i A Map.empty (map_of out)"
  shows "told_by s (got out a)"
proof (cases "a \<in> A \<and> (i, a) \<notin> sp_trace_at s \<and> untold s i a \<noteq> {}")
  case True
  then obtain ts where "map_of out a = Some ts" "delivers s ts (untold s i a)" using assms unfolding messages_def by metis
  then show ?thesis by (auto simp: told_by_def got_def delivers_def)
next
  case False
  then have "map_of out a = None" using assms unfolding messages_def by metis
  then show ?thesis by (simp add: got_def)
qed

lemma sp_member_AddBreadcrumb [simp]: "sp_member (sp_AddBreadcrumb i A s) = sp_member s"
  by (simp add: sp_AddBreadcrumb_def Let_def)

text \<open>
  Whoever is taken to know a trigger after the loop did so before or has it in the map; what is in the
  map is known to the coordinator.
\<close>

lemma store_crumbs_ok:
  assumes "co_ok c" and co: "coord_orders_ok co" and "no_empty m" and "set is \<subseteq> dom (map_of bs)"
  shows "yields (store_crumbs co src bs is m c) (\<lambda>(m', c'). co_ok c' \<and> no_empty m' \<and>
     spec_of c' = sp_crumbs src (addrs_of bs) is (spec_of c) \<and>
     (\<forall>a. set (got m a) \<subseteq> set (got m' a) \<and> (told_by (spec_of c) (got m a) \<longrightarrow> told_by (spec_of c) (got m' a))) \<and>
     (\<forall>t a. (t, a) \<in> sp_trigger_at (spec_of c') \<longrightarrow>
        (t, a) \<in> sp_trigger_at (spec_of c) \<or> t \<in> trigger_id ` set (got m' a)))"
  using assms(1,3,4)
proof (induction "is" arbitrary: m c)
  case (Cons i "is")
  obtain addrs where b: "map_of bs i = Some addrs" "addrs_of bs i = addrs" using Cons.prems(3) by (auto simp: addrs_of_def)
  let ?A = "insert src (set addrs)"
  obtain out c1 where c1: "AddBreadcrumb co src i addrs c = Inr (out, c1)" "co_ok c1"
      "spec_of c1 = sp_AddBreadcrumb i ?A (spec_of c)" "messages (spec_of c) i ?A Map.empty (map_of out)"
    using AddBreadcrumb_ok [OF Cons.prems(1) co, of src i addrs] by (elim yieldsE) auto
  have new: "t \<in> trigger_id ` set (got out a)"
    if "(t, a) \<in> sp_trigger_at (spec_of c1)" "(t, a) \<notin> sp_trigger_at (spec_of c)" for t a
  proof -
    have "a \<in> ?A" "(i, a) \<notin> sp_trace_at (spec_of c)" "t \<in> untold (spec_of c) i a"
      using that by (auto simp: c1(3) sp_AddBreadcrumb_def Let_def untold_def)
    from messagesD(1) [OF c1(4) this] show ?thesis using \<open>t \<in> untold (spec_of c) i a\<close> by (auto simp: got_def delivers_def)
  qed
  let ?as = "co_addr co (map fst out)" and ?m = "append_all out (co_addr co (map fst out)) m"
  have as: "distinct ?as" "set ?as = set (map fst out)"
    using co AddBreadcrumb_distinct [OF c1(1)] by (simp_all add: coord_orders_ok_def key_order_distinct key_order_set)
  have m: "no_empty ?m" "got ?m a = got m a @ got out a" for a
    using got_append_all [OF as(1) Cons.prems(2), of out a] got_notin [of a out] as(2) by auto
  obtain m' c' where r: "store_crumbs co src bs is ?m c1 = Inr (m', c')" "co_ok c'" "no_empty m'"
      "spec_of c' = sp_crumbs src (addrs_of bs) is (spec_of c1)" "\<forall>a. set (got ?m a) \<subseteq> set (got m' a) \<and> (told_by (spec_of c1) (got ?m a) \<longrightarrow> told_by (spec_of c1) (got m' a))"
      "\<forall>t a. (t, a) \<in> sp_trigger_at (spec_of c') \<longrightarrow> (t, a) \<in> sp_trigger_at (spec_of c1) \<or> t \<in> trigger_id ` set (got m' a)"
    using Cons.IH [OF c1(2) m(1)] Cons.prems(3) by (simp, elim yieldsE) auto
  have "(t, a) \<in> sp_trigger_at (spec_of c) \<or> t \<in> trigger_id ` set (got m' a)" if "(t, a) \<in> sp_trigger_at (spec_of c')" for t a
    using r(5,6) that new [of t a] m(2) by fastforce
  moreover have "told_by (spec_of c1) ts = told_by (spec_of c) ts" for ts using c1(3) by (simp add: told_by_def)
  then have "told_by (spec_of c) (got m a) \<longrightarrow> told_by (spec_of c) (got m' a)" for a
    using r(5) m(2) told_by_messages [OF c1(4), of a] by auto
  moreover have "store_crumbs co src bs (i # is) m c = Inr (m', c')" using b(1) c1(1) r(1) by simp
  ultimately show ?case using r m(2) c1(3) b(2) by (simp add: sp_crumbs_def del: store_crumbs.simps)
qed (simp add: sp_crumbs_def)

lemma learn_addrs_sel [simp]: "outgoing_triggers (learn_addrs as a) = outgoing_triggers a"
  by (simp add: learn_addrs_def)

text \<open>The table of an agent after a request: later addresses override earlier ones.\<close>

definition learned :: "CoordinatorServer \<Rightarrow> BreadcrumbsRequest \<Rightarrow> 32 word \<rightharpoonup> string" where
  "learned cs req = fold (\<lambda>b f. f(ba_Id b \<mapsto> ba_Addr b)) (br_Addresses req) (table (conn_of cs (br_Src req)))"

text \<open>
  The result of a request with breadcrumbs: an identifier without an address is an error and leaves
  what the coordinator knows and all queues alone; otherwise every trace of the request is handled.
\<close>

definition crumbs_result ::
  "coord_orders \<Rightarrow> server_clock \<Rightarrow> BreadcrumbsRequest \<Rightarrow> CoordinatorServer \<Rightarrow> (server_error + unit) \<Rightarrow> CoordinatorServer \<Rightarrow> bool" where
  "crumbs_result co ck req cs r cs' \<longleftrightarrow>
     (let tbl = learned cs req; s = (spec_of (cs_c cs))\<lparr>sp_now := ck_start ck\<rparr> in
      (\<forall>a. table (conn_of cs' a) = (if a = br_Src req then tbl else table (conn_of cs a))) \<and>
      (case r of
        Inl e \<Rightarrow> (\<exists>k b. e = UnmappedAddrId k (br_Src req) \<and> b \<in> set (br_Breadcrumbs req) \<and> k \<in> set (bc_Addrs b) \<and> tbl k = None) \<and>
          spec_of (cs_c cs') = s \<and> (\<forall>a. pending (conn_of cs' a) = pending (conn_of cs a))
      | Inr _ \<Rightarrow> (\<forall>b\<in>set (br_Breadcrumbs req). set (bc_Addrs b) \<subseteq> dom tbl) \<and>
          (\<exists>is s'. distinct is \<and> set is = {i. crumbs_at tbl (br_Breadcrumbs req) i \<noteq> []} \<and>
             s' = sp_crumbs (br_Src req) (crumbs_at tbl (br_Breadcrumbs req)) is s \<and>
             spec_of (cs_c cs') = sp_expire (ck_expire ck + cs_timeout cs) (s'\<lparr>sp_now := ck_expire ck\<rparr>) \<and>
             (\<forall>a. \<exists>tss. pending (conn_of cs' a) = pending (conn_of cs a) @ tss \<and> told_by s (concat tss)) \<and>
             (\<forall>t a. (t, a) \<in> sp_trigger_at s' \<longrightarrow> (t, a) \<in> sp_trigger_at s \<or>
                (\<exists>ts. t \<in> trigger_id ` set ts \<and> sent_pending (conn_of cs a) ts (conn_of cs' a))))))"

lemma map_of_fold_learn:
  "map_of (fold (\<lambda>b. AList.update (ba_Id b) (ba_Addr b)) as m) = fold (\<lambda>b f. f(ba_Id b \<mapsto> ba_Addr b)) as (map_of m)"
  by (induction as arbitrary: m) simp_all

lemma sp_crumbs_now: "sp_now (sp_crumbs src as is s) = sp_now s"
  by (induction "is" arbitrary: s) (simp_all add: sp_crumbs_def sp_AddBreadcrumb_def Let_def)

lemma origin_ok:
  assumes cs: "srv_ok cs" and t: "c_now (cs_c cs) \<le> ck_start ck"
    and g: "GetAgent n (br_Src req) (cs\<lparr>cs_c := (cs_c cs)\<lparr>c_now := ck_start ck\<rparr>\<rparr>) = (origin, cs1)"
  defines "cs2 \<equiv> put_conn (br_Src req) (learn_addrs (br_Addresses req) origin) cs1"
  shows "srv_ok cs2" "cs_c cs2 = (cs_c cs)\<lparr>c_now := ck_start ck\<rparr>" "cs_timeout cs2 = cs_timeout cs"
    "pending (conn_of cs2 a) = pending (conn_of cs a)"
    "map_of (id_to_addr (learn_addrs (br_Addresses req) origin)) = learned cs req"
    "table (conn_of cs2 a) = (if a = br_Src req then learned cs req else table (conn_of cs a))"
proof -
  have c: "co_ok ((cs_c cs)\<lparr>c_now := ck_start ck\<rparr>)" using cs t by (intro co_ok_now) (simp_all add: srv_ok_def)
  have o: "cs_c cs1 = (cs_c cs)\<lparr>c_now := ck_start ck\<rparr>" "cs_timeout cs1 = cs_timeout cs" "logger cs1 = logger cs"
      "incoming_triggers cs1 = incoming_triggers cs" "incoming_breadcrumbs cs1 = incoming_breadcrumbs cs"
      "conn_of cs1 = (conn_of cs)(br_Src req \<mapsto> origin)"
      "origin = (case conn_of cs (br_Src req) of None \<Rightarrow> agent_Init n | Some a \<Rightarrow> a)"
    using g by (auto simp: GetAgent_def split: option.splits)
  have p: "outgoing_triggers origin = pending (conn_of cs (br_Src req))"
    using o(7) by (auto simp: pending_def agent_Init_def split: option.splits)
  have "conn_ok (learn_addrs (br_Addresses req) origin)"
    using cs p by (auto simp: conn_ok_def srv_ok_def all_ran_def ran_def pending_def split: option.splits)
  then show "srv_ok cs2" using cs c o(3-6) by (simp add: cs2_def srv_ok_def o(1) all_ran_upd)
  show "cs_c cs2 = (cs_c cs)\<lparr>c_now := ck_start ck\<rparr>" "cs_timeout cs2 = cs_timeout cs" using o(1,2) by (simp_all add: cs2_def)
  show "pending (conn_of cs2 a) = pending (conn_of cs a)" using p o(6) by (auto simp: cs2_def pending_def)
  show l: "map_of (id_to_addr (learn_addrs (br_Addresses req) origin)) = learned cs req"
    using o(7) by (auto simp: learned_def learn_addrs_def table_def map_of_fold_learn agent_Init_def split: option.splits)
  show "table (conn_of cs2 a) = (if a = br_Src req then learned cs req else table (conn_of cs a))"
    using l o(6) by (simp add: cs2_def table_def)
qed

text \<open>The traces of a request, in the order in which the coordinator visits them.\<close>

lemma crumb_keys:
  assumes "coord_orders_ok co" and "crumbs_shape bs"
  shows "distinct (co_trace co (map fst bs))" "set (co_trace co (map fst bs)) = dom (map_of bs)"
    "set (co_trace co (map fst bs)) = {i. addrs_of bs i \<noteq> []}"
proof -
  have k: "key_order (co_trace co)" using assms(1) by (simp add: coord_orders_ok_def)
  show "distinct (co_trace co (map fst bs))" "set (co_trace co (map fst bs)) = dom (map_of bs)"
    using assms(2) by (simp_all add: key_order_distinct [OF k] key_order_set [OF k] crumbs_shape_def dom_map_of_conv_image_fst)
  then show "set (co_trace co (map fst bs)) = {i. addrs_of bs i \<noteq> []}"
    using assms(2) by (auto simp: crumbs_shape_def addrs_of_def split: option.splits)
qed

text \<open>What sending the messages \<open>m\<close> leaves in the connections.\<close>

definition forwarded :: "(string \<times> Trigger list) list \<Rightarrow> CoordinatorServer \<Rightarrow> CoordinatorServer \<Rightarrow> bool" where
  "forwarded m cs cs' \<longleftrightarrow> (\<forall>a. if got m a = [] then conn_of cs' a = conn_of cs a else sent (conn_of cs a) (got m a) (conn_of cs' a))"

lemma forwarded_crumbs:
  assumes "forwarded m cs2 cs'" and "\<And>a. pending (conn_of cs2 a) = pending (conn_of cs a)"
  shows "got m a \<noteq> [] \<Longrightarrow> sent_pending (conn_of cs a) (got m a) (conn_of cs' a)"
    and "told_by s (got m a) \<Longrightarrow> \<exists>tss. pending (conn_of cs' a) = pending (conn_of cs a) @ tss \<and> told_by s (concat tss)"
    and "table (conn_of cs' a) = table (conn_of cs2 a)"
  using assms(1) [unfolded forwarded_def, rule_format, of a] assms(2) [of a]
  by (auto simp: sent_def sent_pending_def split: if_splits intro: exI [of _ "[]"] exI [of _ "[got m a]"])

lemma processBreadcrumbRequest_ok:
  assumes cs: "srv_ok cs" and co: "coord_orders_ok co"
    and t: "c_now (cs_c cs) \<le> ck_start ck" "ck_start ck \<le> ck_expire ck"
  shows "yields (processBreadcrumbRequest co ck req cs) (\<lambda>(r, cs'). srv_ok cs' \<and> crumbs_result co ck req cs r cs')"
proof -
  let ?src = "br_Src req" and ?bs = "br_Breadcrumbs req" and ?tbl = "learned cs req"
  let ?s = "(spec_of (cs_c cs))\<lparr>sp_now := ck_start ck\<rparr>"
  obtain origin cs1 where g: "GetAgent (ck_conn ck ?src) ?src (cs\<lparr>cs_c := (cs_c cs)\<lparr>c_now := ck_start ck\<rparr>\<rparr>) = (origin, cs1)"
    by fastforce
  define o1 where "o1 = learn_addrs (br_Addresses req) origin"
  define cs2 where "cs2 = put_conn ?src o1 cs1"
  note o = origin_ok [OF cs t(1) g, folded o1_def, folded cs2_def]
  have s2: "spec_of (cs_c cs2) = ?s" using o(2) by (simp add: spec_of_now)
  have d: "crumbs_shape []" by (simp add: crumbs_shape_def)
  show ?thesis
  proof (cases "decode_crumbs (id_to_addr o1) ?bs []")
    case (Inl k)
    then have "processBreadcrumbRequest co ck req cs = Inr (Inl (UnmappedAddrId k ?src), cs2)"
      using g by (simp add: processBreadcrumbRequest_def Let_def o1_def cs2_def)
    then show ?thesis
      using decode_crumbs_ok [OF d, where tbl = "id_to_addr o1" and bs = ?bs] Inl o(1,4,5,6) s2
      by (auto simp: crumbs_result_def Let_def)
  next
    case (Inr bs)
    then have bs: "\<forall>b\<in>set ?bs. set (bc_Addrs b) \<subseteq> dom ?tbl" "crumbs_shape bs" "addrs_of bs = crumbs_at ?tbl ?bs"
      using decode_crumbs_ok [OF d, where tbl = "id_to_addr o1" and bs = ?bs] o(5)
      by (auto simp: addrs_of_def [of "[]"] fun_eq_iff)
    let ?is = "co_trace co (map fst bs)"
    note ks = crumb_keys [OF co bs(2)]
    obtain m c1 where c1: "store_crumbs co ?src bs ?is [] (cs_c cs2) = Inr (m, c1)" "co_ok c1" "no_empty m"
        "spec_of c1 = sp_crumbs ?src (crumbs_at ?tbl ?bs) ?is ?s"
        "\<forall>t a. (t, a) \<in> sp_trigger_at (spec_of c1) \<longrightarrow> (t, a) \<in> sp_trigger_at ?s \<or> t \<in> trigger_id ` set (got m a)"
        "\<forall>a. told_by ?s (got m a)"
      using store_crumbs_ok [of "cs_c cs2" co "[]" ?is bs ?src] o(1) co ks(2) s2 bs(3)
      by (auto simp: srv_ok_def no_empty_def got_def [of "[]"] elim!: yieldsE)
    have "c_now c1 \<le> ck_expire ck" using arg_cong [OF c1(4), of sp_now] t(2) by (simp add: spec_simps sp_crumbs_now)
    from send_all_ok [OF o(1) co c1(3,2) this, of ck] obtain cs' where
      cs': "bind_res (foreach (forward_to ck m) (co_addr co (map fst m)) (cs2\<lparr>cs_c := c1\<rparr>)) (checkExpirations co (ck_expire ck)) = Inr cs'"
        "srv_ok cs'" "spec_of (cs_c cs') = sp_expire (ck_expire ck + cs_timeout cs) ((spec_of c1)\<lparr>sp_now := ck_expire ck\<rparr>)"
        "forwarded m cs2 cs'"
      using o(3) by (elim yieldsE) (auto simp: forwarded_def)
    note f = forwarded_crumbs [where cs = cs, OF cs'(4) o(4)]
    have "(t, a) \<in> sp_trigger_at ?s \<or> (\<exists>ts. t \<in> trigger_id ` set ts \<and> sent_pending (conn_of cs a) ts (conn_of cs' a))"
      if "(t, a) \<in> sp_trigger_at (spec_of c1)" for t a
      using c1(5) [rule_format, OF that] f(1) [of a] by fastforce
    moreover note f(2) [OF c1(6) [rule_format]] f(3)
    moreover have "processBreadcrumbRequest co ck req cs = Inr (Inr (), cs')"
      using g Inr c1(1) cs'(1) by (auto simp: processBreadcrumbRequest_def Let_def o1_def cs2_def)
    ultimately show ?thesis
      using cs'(2,3) bs(1) ks(1) ks(3) [unfolded bs(3)] c1(4) o(6) by (auto simp: crumbs_result_def Let_def)
  qed
qed

section \<open>The queues of requests\<close>

text \<open>Handling a request leaves the queues of incoming requests alone.\<close>

definition queues :: "CoordinatorServer \<Rightarrow> TriggerRequest list \<times> BreadcrumbsRequest list" where
  "queues cs = (incoming_triggers cs, incoming_breadcrumbs cs)"

lemma foreach_keeps:
  assumes "\<And>k s s'. body k s = Inr s' \<Longrightarrow> f s' = f s"
  shows "foreach body ks s = Inr s' \<Longrightarrow> f s' = f s"
proof (induction ks arbitrary: s)
  case (Cons k ks)
  then obtain s1 where "body k s = Inr s1" "foreach body ks s1 = Inr s'" by auto
  then show ?case using Cons.IH assms by metis
qed simp

lemma forward_to_queues: "forward_to ck m addr cs = Inr cs' \<Longrightarrow> queues cs' = queues cs"
  by (auto simp: forward_to_def GetAgent_def queues_def split: option.splits)

lemma log_finished_queues [simp]: "queues (log_finished fin cs) = queues cs"
  by (simp add: log_finished_def queues_def split: option.splits)

lemma checkExpirations_queues: "checkExpirations co t cs = Inr cs' \<Longrightarrow> queues cs' = queues cs"
  by (auto simp: checkExpirations_def Let_def split: if_splits) (auto simp: queues_def)

lemma process_queues:
  "processTriggersRequest co ck req cs = Inr cs' \<Longrightarrow> queues cs' = queues cs"
  "processBreadcrumbRequest co ck breq cs = Inr (r, cs') \<Longrightarrow> queues cs' = queues cs"
proof -
  have f: "foreach (forward_to ck m) ks cs = Inr cs' \<Longrightarrow> queues cs' = queues cs" for m ks cs cs'
    by (rule foreach_keeps [where f = queues]) (rule forward_to_queues)
  note k = f checkExpirations_queues
  have sel: "queues (cs\<lparr>cs_c := c\<rparr>) = queues cs" "queues (put_conn a x cs) = queues cs" for cs c a x by (simp_all add: queues_def)
  show "queues cs' = queues cs" if "processTriggersRequest co ck req cs = Inr cs'"
    using that by (auto simp: processTriggersRequest_def sel dest!: k)
  show "queues cs' = queues cs" if "processBreadcrumbRequest co ck breq cs = Inr (r, cs')"
    using that by (auto simp: processBreadcrumbRequest_def Let_def GetAgent_def sel dest!: k split: sum.splits option.splits)
qed

end
