(* ===== verification/CoordProps.thy ===== *)
theory CoordProps
  imports CoordSpec
begin

text \<open>
  The properties of the coordinator's state: each operation returns, keeps the invariant and
  implements its specification; runs of the coordinator never fail; and when the triggers of a
  trace are known wherever the trace is.
\<close>

section \<open>Events\<close>

lemma coord_step_ok:
  assumes c: "co_ok c" and co: "coord_orders_ok co"
  shows "\<forall>n. e = Clock n \<longrightarrow> c_now c \<le> n \<Longrightarrow> yields (coord_step co e c) (\<lambda>c'. co_ok c' \<and>
     c_now c' = (case e of Clock n \<Rightarrow> n | _ \<Rightarrow> c_now c))"
proof (cases e)
  case (Report src t)
  then show ?thesis using AddTrigger_ok [OF assms, of src t]
    by (auto elim!: yieldsE simp: sp_AddTrigger_def sp_link_def sp_mention_def Let_def dest!: arg_cong [of _ _ sp_now] simp: spec_simps)
next
  case (Crumbs src i addrs)
  then show ?thesis using AddBreadcrumb_ok [OF assms, of src i addrs]
    by (auto elim!: yieldsE simp: sp_AddBreadcrumb_def Let_def dest!: arg_cong [of _ _ sp_now] simp: spec_simps)
next
  case (Expire k l)
  obtain fin c1 where c1: "checkTriggerExpiration co k c = Inr (fin, c1)" "co_ok c1"
      "spec_of c1 = sp_drop_triggers (expired k (sp_trigger_time (spec_of c))) (spec_of c)"
    using expire_triggers_ok [OF c co order_refl, of k "[]"] by (auto simp: checkTriggerExpiration_def elim!: yieldsE)
  have "c_now c1 = c_now c" using arg_cong [OF c1(3), of sp_now] by (simp add: spec_simps sp_drop_triggers_def)
  then show ?thesis using Expire c1 expire_traces_ok [OF c1(2) co order_refl, of l]
    by (auto simp: checkTraceExpiration_def sp_drop_traces_def dest!: arg_cong [of _ _ sp_now] simp: spec_simps elim!: yieldsE)
qed (use co_ok_now [OF c] in simp)

lemma coord_run_ok:
  assumes "co_ok c" and co: "coord_orders_ok co" and "clock_forward (c_now c) es"
  shows "yields (foreach (coord_step co) es c) co_ok"
  using assms(1,3)
proof (induction es arbitrary: c)
  case (Cons e es)
  have "\<forall>n. e = Clock n \<longrightarrow> c_now c \<le> n" "clock_forward (case e of Clock n \<Rightarrow> n | _ \<Rightarrow> c_now c) es"
    using Cons.prems(2) by (cases e; simp)+
  then show ?case
    using coord_step_ok [OF Cons.prems(1) co, of e] Cons.IH by (auto elim!: yieldsE)
qed simp

section \<open>Closedness\<close>

lemma closed_AddBreadcrumb: "closed s \<Longrightarrow> closed (sp_AddBreadcrumb i A s)"
  by (auto simp: closed_def sp_AddBreadcrumb_def Let_def)

lemma closed_drop: "closed s \<Longrightarrow> closed (sp_drop_triggers D s)" "closed s \<Longrightarrow> closed (sp_drop_traces E s)"
  by (auto simp: closed_def sp_drop_triggers_def sp_drop_traces_def)

lemma closed_AddTrigger:
  assumes "closed s"
    and src: "\<And>i u. i \<in> I \<Longrightarrow> (t, i) \<notin> sp_member s \<Longrightarrow> (u, i) \<in> sp_member s \<Longrightarrow> (u, src) \<in> sp_trigger_at s"
  shows "closed (sp_AddTrigger src t I s)"
  using assms unfolding closed_def sp_AddTrigger_def sp_link_def sp_mention_def Let_def by auto

section \<open>A small coordinator\<close>

definition ex_co :: coord_orders where
  "ex_co = \<lparr>co_addr = (\<lambda>l. l), co_trigger = rev, co_trace = (\<lambda>l. l)\<rparr>"

text \<open>Agents A and B report triggers 1 and 2, both for the trace 7.\<close>

definition ex_events :: "coord_event list" where
  "ex_events = [Clock 5, Report ''A'' \<lparr>trigger_id = \<lparr>queue_id = 1, base_trace_id = 7\<rparr>, trace_ids = [7]\<rparr>,
                Clock 9, Report ''B'' \<lparr>trigger_id = \<lparr>queue_id = 2, base_trace_id = 7\<rparr>, trace_ids = [7, 8]\<rparr>]"

definition ex_coord :: Coordinator where
  "ex_coord = the (case foreach (coord_step ex_co) ex_events (coord_Init 0) of Inl _ \<Rightarrow> None | Inr c \<Rightarrow> Some c)"

lemma ex_co_ok: "coord_orders_ok ex_co"
  by (simp add: coord_orders_ok_def ex_co_def)

lemma ex_coord_ok: "co_ok ex_coord"
  using coord_run_ok [OF coord_Init_ok ex_co_ok, of 0 ex_events]
  by (auto simp: ex_coord_def ex_events_def coord_Init_def elim!: yieldsE)

lemma ex_coord_eval:
  "trig_of ex_coord \<lparr>queue_id = 1, base_trace_id = 7\<rparr> = Some \<lparr>cg_known_at = [''A''], cg_traces = [7], cg_created = 5,
     cg_last_modified = 5, cg_last_breadcrumb = 0\<rparr>"
  "trig_of ex_coord \<lparr>queue_id = 2, base_trace_id = 7\<rparr> = Some \<lparr>cg_known_at = [''B'', ''A''], cg_traces = [7, 8],
     cg_created = 9, cg_last_modified = 9, cg_last_breadcrumb = 0\<rparr>"
  "ctrace_of ex_coord 7 = Some \<lparr>ct_known_at = [''A'', ''B''], ct_triggers = [\<lparr>queue_id = 1, base_trace_id = 7\<rparr>,
     \<lparr>queue_id = 2, base_trace_id = 7\<rparr>], ct_created = 5, ct_last_modified = 9, ct_last_breadcrumb = 0\<rparr>"
  by code_simp+

section \<open>Properties\<close>

text \<open>
  C9. Reporting a trigger returns and implements the specification: the trigger is known at its
  source and wherever one of its newly attached traces was known, the traces that were not attached
  before are attached and known at the source, and all times are brought up to date. If a trace was
  attached, the trigger goes once to every address that knows it but the source, and to nobody
  otherwise.
\<close>

theorem AddTrigger_correct:
  assumes "co_ok c" and "coord_orders_ok co"
  shows "yields (AddTrigger co src t c) (\<lambda>(send_to, c'). co_ok c' \<and>
     spec_of c' = sp_AddTrigger src (trigger_id t) (set (trace_ids t)) (spec_of c) \<and> distinct send_to \<and>
     set send_to = (if set (trace_ids t) \<subseteq> sp_member (spec_of c) `` {trigger_id t} then {}
                    else sp_trigger_at (spec_of c') `` {trigger_id t} - {src}))"
  by (rule AddTrigger_ok [OF assms])

theorem AddTrigger_correct_witness:
  "yields (AddTrigger ex_co ''C'' \<lparr>trigger_id = \<lparr>queue_id = 1, base_trace_id = 7\<rparr>, trace_ids = [7, 9]\<rparr> ex_coord)
     (\<lambda>(send_to, c'). co_ok c' \<and> set send_to = {''A''})"
proof -
  have "sp_member (spec_of ex_coord) `` {\<lparr>queue_id = 1, base_trace_id = 7\<rparr>} = {7}"
    using ex_coord_eval(1) by (simp add: spec_of_def rel_Image)
  moreover have "ctrace_of ex_coord 9 = None" by code_simp
  then have "sp_trace_at (spec_of ex_coord) `` ({7, 9} - {7}) = {}" by (auto simp: spec_of_def rel_def)
  moreover have "sp_trigger_at (spec_of ex_coord) `` {\<lparr>queue_id = 1, base_trace_id = 7\<rparr>} = {''A''}"
    using ex_coord_eval(1) by (simp add: spec_of_def rel_Image)
  ultimately show ?thesis
    using AddTrigger_correct [OF ex_coord_ok ex_co_ok,
        of "''C''" "\<lparr>trigger_id = \<lparr>queue_id = 1, base_trace_id = 7\<rparr>, trace_ids = [7, 9]\<rparr>"]
    by (elim yieldsE) (auto simp: sp_AddTrigger_def sp_link_def sp_mention_def Let_def)
qed

text \<open>
  C10. Breadcrumbs return and implement the specification: every address that is new to the trace
  gets a message with exactly the triggers of the trace that it does not know, each with all its
  traces, nobody else gets a message, and the trace and its triggers are then known there and are
  the most recently used.
\<close>

theorem AddBreadcrumb_correct:
  assumes "co_ok c" and "coord_orders_ok co"
  shows "yields (AddBreadcrumb co src i addrs c) (\<lambda>(out, c'). co_ok c' \<and>
     spec_of c' = sp_AddBreadcrumb i (insert src (set addrs)) (spec_of c) \<and>
     messages (spec_of c) i (insert src (set addrs)) Map.empty (map_of out))"
  by (rule AddBreadcrumb_ok [OF assms])

theorem AddBreadcrumb_correct_witness:
  "yields (AddBreadcrumb ex_co ''C'' 7 [''B''] ex_coord) (\<lambda>(out, c').
     co_ok c' \<and> map_of out ''B'' = None \<and> (\<exists>ts. map_of out ''C'' = Some ts))"
proof -
  have n: "(7, ''C'') \<notin> sp_trace_at (spec_of ex_coord)" "(7, ''B'') \<in> sp_trace_at (spec_of ex_coord)"
    using ex_coord_eval(3) by (simp_all add: spec_of_def in_rel)
  have "\<lparr>queue_id = 1, base_trace_id = 7\<rparr> \<in> untold (spec_of ex_coord) 7 ''C''"
    using ex_coord_eval(1) by (simp add: untold_def spec_of_def in_rel)
  then show ?thesis
    using AddBreadcrumb_correct [OF ex_coord_ok ex_co_ok, of "''C''" 7 "[''B'']"] n
    by (elim yieldsE) (auto dest: messagesD(1) [where a = "''C''"] messagesD(2) [where a = "''B''"])
qed

text \<open>
  Expiration returns; it drops exactly the triggers last modified no later than the cutoff, with
  their links and addresses, and reports each of them once with the number of agents that know it and
  the time its dissemination took.
\<close>

theorem checkTriggerExpiration_correct:
  assumes "co_ok c" and "coord_orders_ok co"
  shows "yields (checkTriggerExpiration co cutoff c) (\<lambda>(finished, c'). co_ok c' \<and>
     spec_of c' = sp_drop_triggers (expired cutoff (sp_trigger_time (spec_of c))) (spec_of c) \<and>
     (\<exists>ts. distinct ts \<and> set ts = expired cutoff (sp_trigger_time (spec_of c)) \<and>
        finished = map (finished_of (spec_of c)) ts))"
  using expire_triggers_ok [OF assms order_refl, of cutoff "[]"] by (simp add: checkTriggerExpiration_def)

theorem checkTriggerExpiration_correct_witness:
  "yields (checkTriggerExpiration ex_co 5 ex_coord) (\<lambda>(finished, c').
     co_ok c' \<and> finished \<noteq> [] \<and> \<lparr>queue_id = 1, base_trace_id = 7\<rparr> \<notin> dom (sp_trigger_time (spec_of c')))"
proof -
  have "\<lparr>queue_id = 1, base_trace_id = 7\<rparr> \<in> expired 5 (sp_trigger_time (spec_of ex_coord))"
    using ex_coord_eval(1) by (simp add: expired_def spec_of_def stamps_def)
  then show ?thesis
    using checkTriggerExpiration_correct [OF ex_coord_ok ex_co_ok, of 5]
    by (elim yieldsE) (auto simp: sp_drop_triggers_def)
qed

text \<open>
  From an empty coordinator every sequence of requests is handled as long as the clock does not
  go back: no operation follows a stale pointer, takes from an empty list or loops, and the state is
  consistent after each.
\<close>

theorem coord_never_fails:
  assumes "coord_orders_ok co" and "clock_forward n es"
  shows "yields (foreach (coord_step co) es (coord_Init n)) co_ok"
  using coord_run_ok [OF coord_Init_ok assms(1), of n] assms(2) by (simp add: coord_Init_def)

theorem coord_never_fails_witness: "yields (foreach (coord_step ex_co) (ex_events @ [Expire 4 8]) (coord_Init 0)) co_ok"
  using coord_never_fails [OF ex_co_ok, of 0 "ex_events @ [Expire 4 8]"] by (simp add: ex_events_def)


definition ex_coord1 :: Coordinator where
  "ex_coord1 = the (case foreach (coord_step ex_co) (take 2 ex_events) (coord_Init 0) of Inl _ \<Rightarrow> None | Inr c \<Rightarrow> Some c)"

lemma ex_coord1_ok: "co_ok ex_coord1"
  using coord_run_ok [OF coord_Init_ok ex_co_ok, of 0 "take 2 ex_events"]
  by (auto simp: ex_coord1_def ex_events_def coord_Init_def elim!: yieldsE)

lemma ex_coord1_eval:
  "map (\<lambda>(t, g). (t, cg_known_at g, cg_traces g)) (c_triggers ex_coord1) = [(\<lparr>queue_id = 1, base_trace_id = 7\<rparr>, [''A''], [7])]"
  "map (\<lambda>(i, r). (i, ct_known_at r)) (c_traces ex_coord1) = [(7, [''A''])]"
  by code_simp+

lemma ex_coord1_closed: "closed (spec_of ex_coord1)"
  using ex_coord1_eval
  by (auto simp: closed_def spec_of_def in_rel trig_of_def ctrace_of_def map_eq_Cons_conv split: if_splits)



end
