(* ===== verification/ServerProps.thy ===== *)
theory ServerProps
  imports ServerSpec AgentClient CoordProps
begin

text \<open>
  The properties of the coordinator's server and of the agent's side of the coordination, and of the
  two together: triggers and breadcrumbs arrive as they were sent, and what goes wrong when a request
  is dropped.
\<close>

section \<open>Composition\<close>

text \<open>The addresses that a list of maps gives for a trace.\<close>

definition crumbs_in :: "crumb_map list \<Rightarrow> u64 \<Rightarrow> string list" where
  "crumbs_in ms i = concat (map snd (filter (\<lambda>e. fst e = i) (concat ms)))"

lemma encode_request_ok:
  assumes enc: "enc_ok enc" and a: "agrees enc f" and e: "encode_request ord src ms enc = (req, enc')"
    and n: "length (addr_to_id enc') \<le> 2 ^ 32"
  defines "g \<equiv> fold (\<lambda>b f. f(ba_Id b \<mapsto> ba_Addr b)) (br_Addresses req) f"
  shows "br_Src req = src" "enc_ok enc'" "agrees enc' g"
    "\<forall>b\<in>set (br_Breadcrumbs req). set (bc_Addrs b) \<subseteq> dom g"
    "crumbs_at g (br_Breadcrumbs req) = crumbs_in (map ord ms)"
proof -
  let ?m = "concat (map ord ms)"
  obtain bcs new where b: "encode_crumbs ?m [] ([], enc) = (bcs, new, enc')" "extends enc new enc'"
      "map bc_TraceId bcs = map fst ?m" "map (\<lambda>b. map Some (bc_Addrs b)) bcs = map (\<lambda>e. map (map_of (addr_to_id enc')) (snd e)) ?m"
      "req = \<lparr>br_Src = src, br_Addresses = new, br_Breadcrumbs = bcs\<rparr>"
    using encode_crumbs_ok [OF enc, of ?m "[]" "[]"] e by (auto simp: encode_request_def Let_def)
  show "br_Src req = src" "enc_ok enc'" using b(2,5) by (simp_all add: extends_def)
  show ag: "agrees enc' g" using agrees_learn [OF b(2) a n] b(5) by (simp add: g_def)
  have ids: "map Some (bc_Addrs b) = map (map_of (addr_to_id enc')) (snd e) \<Longrightarrow>
      map g (bc_Addrs b) = map Some (snd e)" for b and e :: "u64 \<times> string list"
  proof -
    assume "map Some (bc_Addrs b) = map (map_of (addr_to_id enc')) (snd e)"
    then have "list_all2 (\<lambda>k a. map_of (addr_to_id enc') a = Some k) (bc_Addrs b) (snd e)"
      by (auto simp: list_all2_conv_all_nth list_eq_iff_nth_eq)
    then have "list_all2 (\<lambda>k a. g k = Some a) (bc_Addrs b) (snd e)"
      using ag by (elim list_all2_mono) (auto simp: agrees_def)
    then show ?thesis by (auto simp: list_all2_conv_all_nth intro!: nth_equalityI)
  qed
  have l: "list_all2 (\<lambda>b e. bc_TraceId b = fst e \<and> map g (bc_Addrs b) = map Some (snd e)) bcs ?m"
    using b(3,4) by (auto simp: list_all2_conv_all_nth list_eq_iff_nth_eq [of "map _ bcs"] intro!: ids)
  have "set (bc_Addrs b) \<subseteq> dom g" if "b \<in> set bcs" for b
  proof -
    obtain e where "map g (bc_Addrs b) = map Some (snd e)" using l \<open>b \<in> set bcs\<close> by (auto simp: list_all2_conv_all_nth in_set_conv_nth)
    then have "g ` set (bc_Addrs b) = Some ` set (snd e)" by (metis list.set_map)
    then show ?thesis by (auto simp: set_eq_iff image_iff dom_def)
  qed
  then show "\<forall>b\<in>set (br_Breadcrumbs req). set (bc_Addrs b) \<subseteq> dom g" using b(5) by simp
  have "crumbs_at g bcs i = concat (map snd (filter (\<lambda>e. fst e = i) ?m))" for i
    using l
  proof (induction rule: list_all2_induct)
    case (Cons b bs e es)
    have "map (\<lambda>k. the (g k)) (bc_Addrs b) = snd e"
      using arg_cong [OF conjunct2 [OF Cons(1)], of "map the"] by (simp add: comp_def)
    then show ?case using Cons by (simp add: crumbs_at_def)
  qed (simp add: crumbs_at_def)
  then show "crumbs_at g (br_Breadcrumbs req) = crumbs_in (map ord ms)" using b(5) by (simp add: crumbs_in_def fun_eq_iff)
qed

lemma sp_report_at:
  "(t, a) \<in> sp_trigger_at (sp_report src u s) \<Longrightarrow> (t, a) \<in> sp_trigger_at s \<or> a = src \<or> t = trigger_id u \<and> is_sent src u s a"
  by (auto simp: sp_report_defs is_sent_def)

lemma fold_report_at:
  "(t, a) \<in> sp_trigger_at (fold (sp_report src) ts s) \<Longrightarrow>
     (t, a) \<in> sp_trigger_at s \<or> a = src \<or> t \<in> trigger_id ` set (sp_forwards src ts s a)"
proof (induction ts arbitrary: s)
  case (Cons u ts)
  then have "(t, a) \<in> sp_trigger_at (sp_report src u s) \<or> a = src \<or> t \<in> trigger_id ` set (sp_forwards src ts (sp_report src u s) a)"
    by simp
  then show ?case using sp_report_at [of t a src u s] by auto
qed simp

lemma sp_expire_at: "(t, a) \<in> sp_trigger_at (sp_expire n s) \<Longrightarrow> (t, a) \<in> sp_trigger_at s"
  by (auto simp: sp_expire_def Let_def sp_drop_triggers_def sp_drop_traces_def)

section \<open>Runs of the server\<close>

text \<open>
  Requests arrive at any time and are queued or dropped; the coordinator handles one at a time, and
  its clock does not go back.
\<close>

definition clock_ok :: "server_clock \<Rightarrow> CoordinatorServer \<Rightarrow> bool" where
  "clock_ok ck cs \<longleftrightarrow> c_now (cs_c cs) \<le> ck_start ck \<and> ck_start ck \<le> ck_expire ck"

inductive server_reach :: "coord_orders \<Rightarrow> CoordinatorServer \<Rightarrow> bool" for co where
  start: "server_reach co (server_Init t with_log)"
| triggers_rpc: "server_reach co s \<Longrightarrow> server_reach co (snd (LocalTrigger lock t t' req s))"
| crumbs_rpc: "server_reach co s \<Longrightarrow> server_reach co (snd (Breadcrumbs lock t t' breq s))"
| turn: "server_reach co s \<Longrightarrow> clock_ok ck s \<Longrightarrow> runCoordinator_turn co ck ev s = Some (Inr s') \<Longrightarrow> server_reach co s'"

lemma server_Init_ok: "srv_ok (server_Init t with_log)"
  by (simp add: srv_ok_def server_Init_def coord_Init_ok all_ran_def conn_of_def)

lemma rpc_ok:
  "srv_ok s \<Longrightarrow> srv_ok (snd (LocalTrigger lock t t' req s))" "srv_ok s \<Longrightarrow> srv_ok (snd (Breadcrumbs lock t t' breq s))"
  by (auto simp: srv_ok_def LocalTrigger_def Breadcrumbs_def try_send_def Let_def conn_of_def)

lemma srv_ok_put: "srv_ok s \<Longrightarrow> co_ok c \<Longrightarrow> srv_ok (s\<lparr>cs_c := c\<rparr>)"
  by (simp add: srv_ok_def)

lemma turn_ok:
  assumes s: "srv_ok s" and co: "coord_orders_ok co" and ck: "clock_ok ck s" and r: "runCoordinator_turn co ck ev s = Some r"
  shows "yields r srv_ok"
proof (cases ev)
  case ShutDown
  have "yields (checkTriggerExpiration co (ck_start ck + second) (cs_c s)) (\<lambda>(fin, c'). co_ok c')"
    using expire_triggers_ok [OF _ co order_refl, of "cs_c s" "ck_start ck + second" "[]"] s
    by (auto simp: checkTriggerExpiration_def srv_ok_def elim!: yieldsE)
  then show ?thesis using r ShutDown s by (auto elim!: yieldsE intro!: log_finished_ok(1) srv_ok_put split: if_splits)
next
  case TakeTriggers
  then obtain req ch where q: "incoming_triggers s = req # ch" "r = processTriggersRequest co ck req (s\<lparr>incoming_triggers := ch\<rparr>)"
    using r by (auto split: list.splits)
  have "srv_ok (s\<lparr>incoming_triggers := ch\<rparr>)" using s q(1) by (simp add: srv_ok_def)
  from processTriggersRequest_ok [OF this co, of ck req] show ?thesis
    using ck q(2) by (auto simp: clock_ok_def elim!: yieldsE)
next
  case TakeBreadcrumbs
  then obtain req ch where q: "incoming_breadcrumbs s = req # ch"
      "r = bind_res (processBreadcrumbRequest co ck req (s\<lparr>incoming_breadcrumbs := ch\<rparr>)) (\<lambda>(_, cs1). Inr cs1)"
    using r by (auto split: list.splits)
  have "srv_ok (s\<lparr>incoming_breadcrumbs := ch\<rparr>)" using s q(1) by (simp add: srv_ok_def)
  from processBreadcrumbRequest_ok [OF this co, of ck req] show ?thesis
    using ck q(2) by (auto simp: clock_ok_def elim!: yieldsE)
qed

lemma server_reach_ok: "server_reach co s \<Longrightarrow> coord_orders_ok co \<Longrightarrow> srv_ok s"
proof (induction rule: server_reach.induct)
  case (turn s ck ev s')
  then show ?case using turn_ok [OF _ turn.prems turn.hyps(2,3)] by simp
qed (simp_all add: server_Init_ok rpc_ok)

section \<open>A small server\<close>

definition ex_clock :: "time \<Rightarrow> server_clock" where
  "ex_clock t = \<lparr>ck_start = t, ck_conn = (\<lambda>_. t), ck_send = (\<lambda>_. t), ck_expire = t\<rparr>"

definition ex_server :: CoordinatorServer where
  "ex_server = server_Init 0 True"

definition ex_request :: "string \<Rightarrow> u64 \<Rightarrow> TriggerRequest" where
  "ex_request src i = \<lparr>tr_Src = src, tr_Triggers = [\<lparr>QueueId = 3, BaseTraceId = 1, TraceIds = [i]\<rparr>]\<rparr>"

lemma ex_server_ok: "srv_ok ex_server"
  by (simp add: ex_server_def server_Init_ok)

lemma ex_server_clock: "c_now (cs_c ex_server) \<le> ck_start (ex_clock 5)" "ck_start (ex_clock 5) \<le> ck_expire (ex_clock 5)"
  by (simp_all add: ex_server_def server_Init_def coord_Init_def ex_clock_def)

section \<open>Properties of the server\<close>

text \<open>
  C12. A request with triggers is handled: the coordinator knows what the specification says for its
  triggers in order and drops what has expired, and every agent is sent, as one message, exactly the
  triggers of the request that concern it, unless its channel is full.
\<close>

theorem processTriggersRequest_correct:
  assumes "srv_ok cs" and "coord_orders_ok co"
    and "c_now (cs_c cs) \<le> ck_start ck" and "ck_start ck \<le> ck_expire ck"
  shows "yields (processTriggersRequest co ck req cs) (\<lambda>cs'. srv_ok cs' \<and>
     (let ts = map trigger_of_pb (tr_Triggers req); s = (spec_of (cs_c cs))\<lparr>sp_now := ck_start ck\<rparr> in
      spec_of (cs_c cs') = sp_expire (ck_expire ck + cs_timeout cs)
        ((fold (sp_report (tr_Src req)) ts s)\<lparr>sp_now := ck_expire ck\<rparr>) \<and>
      (\<forall>a. let out = sp_forwards (tr_Src req) ts s a
           in if out = [] then conn_of cs' a = conn_of cs a else sent (conn_of cs a) out (conn_of cs' a))))"
  using processTriggersRequest_ok [OF assms, of req] by (elim yieldsE) (simp add: Let_def)

theorem processTriggersRequest_correct_witness:
  "yields (processTriggersRequest ex_co (ex_clock 5) (ex_request ''A'' 7) ex_server) (\<lambda>cs'. srv_ok cs' \<and> conn_of cs' ''A'' = None)"
proof -
  have "conn_of ex_server ''A'' = None" by (simp add: ex_server_def server_Init_def conn_of_def)
  then show ?thesis
    using processTriggersRequest_correct [OF ex_server_ok ex_co_ok ex_server_clock, of "ex_request ''A'' 7"]
    by (elim yieldsE) (auto simp: Let_def ex_request_def is_sent_def dest!: spec [of _ "''A''"] split: if_splits)
qed

text \<open>What the two kinds of request add to what agents are taken to know.\<close>

lemma known_after_triggers:
  assumes "srv_ok cs" and "coord_orders_ok co"
    and "c_now (cs_c cs) \<le> ck_start ck" and "ck_start ck \<le> ck_expire ck"
  shows "yields (processTriggersRequest co ck req cs) (\<lambda>cs'. \<forall>t a. (t, a) \<in> sp_trigger_at (spec_of (cs_c cs')) \<longrightarrow>
       (t, a) \<in> sp_trigger_at (spec_of (cs_c cs)) \<or> a = tr_Src req \<or>
       (\<exists>ts. t \<in> trigger_id ` set ts \<and> sent_pending (conn_of cs a) ts (conn_of cs' a)))"
proof -
  let ?ts = "map trigger_of_pb (tr_Triggers req)" and ?s = "(spec_of (cs_c cs))\<lparr>sp_now := ck_start ck\<rparr>"
  obtain cs' where cs': "processTriggersRequest co ck req cs = Inr cs'"
      "spec_of (cs_c cs') = sp_expire (ck_expire ck + cs_timeout cs) ((fold (sp_report (tr_Src req)) ?ts ?s)\<lparr>sp_now := ck_expire ck\<rparr>)"
      "\<And>a. sp_forwards (tr_Src req) ?ts ?s a \<noteq> [] \<Longrightarrow> sent (conn_of cs a) (sp_forwards (tr_Src req) ?ts ?s a) (conn_of cs' a)"
    using processTriggersRequest_ok [OF assms, of req] by (elim yieldsE) (auto simp: Let_def split: if_splits)
  have "(t, a) \<in> sp_trigger_at (spec_of (cs_c cs)) \<or> a = tr_Src req \<or>
      (\<exists>ts. t \<in> trigger_id ` set ts \<and> sent_pending (conn_of cs a) ts (conn_of cs' a))"
    if "(t, a) \<in> sp_trigger_at (spec_of (cs_c cs'))" for t a
  proof -
    have "(t, a) \<in> sp_trigger_at (fold (sp_report (tr_Src req)) ?ts ?s)"
      using sp_expire_at [OF that [unfolded cs'(2)]] by simp
    from fold_report_at [OF this] consider "(t, a) \<in> sp_trigger_at (spec_of (cs_c cs)) \<or> a = tr_Src req"
      | "t \<in> trigger_id ` set (sp_forwards (tr_Src req) ?ts ?s a)" by auto
    then show ?thesis
    proof cases
      case 2
      then have "sp_forwards (tr_Src req) ?ts ?s a \<noteq> []" by auto
      from cs'(3) [OF this] show ?thesis using 2 unfolding sent_def by blast
    qed blast
  qed
  then show ?thesis
    unfolding cs'(1) by simp
qed

lemma known_after_breadcrumbs:
  assumes "srv_ok cs" and "coord_orders_ok co"
    and "c_now (cs_c cs) \<le> ck_start ck" and "ck_start ck \<le> ck_expire ck"
  shows "yields (processBreadcrumbRequest co ck breq cs) (\<lambda>(r, cs'). \<forall>t a. (t, a) \<in> sp_trigger_at (spec_of (cs_c cs')) \<longrightarrow>
       (t, a) \<in> sp_trigger_at (spec_of (cs_c cs)) \<or>
       (\<exists>ts. t \<in> trigger_id ` set ts \<and> sent_pending (conn_of cs a) ts (conn_of cs' a)))"
proof -
  obtain r cs' where cs': "processBreadcrumbRequest co ck breq cs = Inr (r, cs')" "crumbs_result co ck breq cs r cs'"
    using processBreadcrumbRequest_ok [OF assms, of breq] by (elim yieldsE) auto
  have "(t, a) \<in> sp_trigger_at (spec_of (cs_c cs)) \<or>
      (\<exists>ts. t \<in> trigger_id ` set ts \<and> sent_pending (conn_of cs a) ts (conn_of cs' a))"
    if "(t, a) \<in> sp_trigger_at (spec_of (cs_c cs'))" for t a
  proof (cases r)
    case (Inr x)
    obtain s' where s': "spec_of (cs_c cs') = sp_expire (ck_expire ck + cs_timeout cs) (s'\<lparr>sp_now := ck_expire ck\<rparr>)"
        "\<forall>t a. (t, a) \<in> sp_trigger_at s' \<longrightarrow> (t, a) \<in> sp_trigger_at (spec_of (cs_c cs)) \<or>
           (\<exists>ts. t \<in> trigger_id ` set ts \<and> sent_pending (conn_of cs a) ts (conn_of cs' a))"
      using cs'(2) Inr by (auto simp: crumbs_result_def Let_def)
    have "(t, a) \<in> sp_trigger_at s'" using sp_expire_at [OF that [unfolded s'(1)]] by simp
    then show ?thesis using s'(2) by blast
  qed (use cs'(2) that in \<open>auto simp: crumbs_result_def Let_def\<close>)
  then show ?thesis
    unfolding cs'(1) by simp
qed



text \<open>
  C25. In every state the server can reach, whatever requests arrive and are dropped, the channels are
  within their capacities, the coordinator's state is consistent, and handling the next request or
  shutting down returns and keeps it so.
\<close>

theorem server_never_fails:
  assumes "server_reach co s" and "coord_orders_ok co"
  shows "srv_ok s \<and> (\<forall>ck ev r. clock_ok ck s \<longrightarrow> runCoordinator_turn co ck ev s = Some r \<longrightarrow> yields r srv_ok)"
  using server_reach_ok [OF assms] turn_ok [OF _ assms(2)] by blast

theorem server_never_fails_witness: "srv_ok (snd (LocalTrigger True 2 3 (ex_request ''A'' 7) (server_Init 0 True)))"
  using server_never_fails [OF server_reach.triggers_rpc [OF server_reach.start] ex_co_ok] by blast

section \<open>Properties of the exchange\<close>

text \<open>
  C17. Breadcrumbs arrive as they were sent. While a connection has announced its identifiers to the
  server, the next request is decoded without error to the same addresses for every trace, whatever
  the order in which the maps were visited, and the tables agree again afterwards. A new connection
  starts in this state, whatever the server remembers of an earlier one.
\<close>

theorem breadcrumbs_roundtrip:
  assumes "srv_ok cs" and "coord_orders_ok co"
    and "c_now (cs_c cs) \<le> ck_start ck" and "ck_start ck \<le> ck_expire ck"
    and "enc_ok enc" and "agrees enc (table (conn_of cs src))"
    and "encode_request ord src ms enc = (req, enc')" and "length (addr_to_id enc') \<le> 2 ^ 32"
  shows "yields (processBreadcrumbRequest co ck req cs) (\<lambda>(r, cs'). r = Inr () \<and> enc_ok enc' \<and>
     agrees enc' (table (conn_of cs' src)) \<and>
     (\<exists>is. distinct is \<and> set is = {i. crumbs_in (map ord ms) i \<noteq> []} \<and>
        spec_of (cs_c cs') = sp_expire (ck_expire ck + cs_timeout cs)
          ((sp_crumbs src (crumbs_in (map ord ms)) is ((spec_of (cs_c cs))\<lparr>sp_now := ck_start ck\<rparr>))\<lparr>sp_now := ck_expire ck\<rparr>)))"
proof -
  note e = encode_request_ok [OF assms(5,6,7,8)]
  have l: "learned cs req = fold (\<lambda>b f. f(ba_Id b \<mapsto> ba_Addr b)) (br_Addresses req) (table (conn_of cs src))"
    using e(1) by (simp add: learned_def)
  obtain r cs' where cs': "processBreadcrumbRequest co ck req cs = Inr (r, cs')" "crumbs_result co ck req cs r cs'"
    using processBreadcrumbRequest_ok [OF assms(1-4), of req] by (elim yieldsE) auto
  have "r = Inr ()" using cs'(2) e(4) unfolding l [symmetric] by (cases r) (auto simp: crumbs_result_def Let_def)
  then show ?thesis
    using cs' e(1,2,3,5) unfolding l [symmetric] by (auto simp: crumbs_result_def Let_def)
qed

definition ex_crumbs :: "crumb_map list" where
  "ex_crumbs = [[(7, [''B'', ''C'']), (8, [''B''])], [(7, [''D''])]]"

theorem breadcrumbs_roundtrip_witness:
  "yields (processBreadcrumbRequest ex_co (ex_clock 5) (fst (encode_request rev ''A'' ex_crumbs encoder_Init)) ex_server)
     (\<lambda>(r, cs'). r = Inr ())"
proof -
  have "length (addr_to_id (snd (encode_request rev ''A'' ex_crumbs encoder_Init))) = 3" by code_simp
  then have "length (addr_to_id (snd (encode_request rev ''A'' ex_crumbs encoder_Init))) \<le> 2 ^ 32" by simp
  then show ?thesis
    using breadcrumbs_roundtrip [OF ex_server_ok ex_co_ok ex_server_clock enc_ok_Init agrees_Init
        prod.collapse [symmetric], of rev "''A''" ex_crumbs] by (auto elim!: yieldsE)
qed

text \<open>
  Triggers arrive as they were sent if their queue ids fit 32 bits: an agent's local triggers
  reach the coordinator with their one trace each, and the coordinator's triggers reach an agent as
  one trigger for each of their traces.
\<close>

theorem triggers_roundtrip:
  assumes "\<forall>t\<in>set ts. is_int32 (Queue_id t)" and "\<forall>u\<in>set us. is_int32 (queue_id (trigger_id u))"
  shows "map (trigger_of_pb \<circ> pb_of_mem) ts = map (\<lambda>t. \<lparr>trigger_id = \<lparr>queue_id = Queue_id t, base_trace_id = Base_trace_id t\<rparr>,
       trace_ids = [Trace_id t]\<rparr>) ts
     \<and> concat (map unpack_trigger (tr_Triggers (doSend us))) = concat (map (\<lambda>u. map (\<lambda>i.
       \<lparr>Queue_id = queue_id (trigger_id u), Base_trace_id = base_trace_id (trigger_id u), Trace_id = i\<rparr>) (trace_ids u)) us)"
proof (rule conjI)
  show "map (trigger_of_pb \<circ> pb_of_mem) ts = map (\<lambda>t. \<lparr>trigger_id = \<lparr>queue_id = Queue_id t, base_trace_id = Base_trace_id t\<rparr>,
       trace_ids = [Trace_id t]\<rparr>) ts"
    using assms(1) by (simp add: trigger_of_pb_def pb_of_mem_def sint_int32_of)
  show "concat (map unpack_trigger (tr_Triggers (doSend us))) = concat (map (\<lambda>u. map (\<lambda>i.
       \<lparr>Queue_id = queue_id (trigger_id u), Base_trace_id = base_trace_id (trigger_id u), Trace_id = i\<rparr>) (trace_ids u)) us)"
    using assms(2) by (induction us) (simp_all add: doSend_def unpack_trigger_def pb_of_trigger_def sint_int32_of)
qed

theorem triggers_roundtrip_witness:
  "map (trigger_of_pb \<circ> pb_of_mem) [\<lparr>Queue_id = - 4, Base_trace_id = 9, Trace_id = 5\<rparr>]
     = [\<lparr>trigger_id = \<lparr>queue_id = - 4, base_trace_id = 9\<rparr>, trace_ids = [5]\<rparr>]"
  using triggers_roundtrip [of "[\<lparr>Queue_id = - 4, Base_trace_id = 9, Trace_id = 5\<rparr>]" "[]"] by (simp add: is_int32_def)

text \<open>
  Requests are built from the oldest pending messages, in order and without loss: the agent's and
  the coordinator's trigger loops send all that is pending or at least 100 triggers, and fewer than
  100 more than the longest message; they wait exactly when nothing is pending.
\<close>

theorem ReportTriggers_batches:
  "(case conn_ReportTriggers a of
      None \<Rightarrow> concat (outgoing_triggers a) = []
    | Some (req, a') \<Rightarrow> \<exists>ts. req = doSend ts \<and> ts \<noteq> [] \<and> ts @ concat (outgoing_triggers a') = concat (outgoing_triggers a) \<and>
        (100 \<le> length ts \<or> outgoing_triggers a' = []) \<and>
        length ts \<le> 99 + Max (insert 0 (length ` set (outgoing_triggers a))))
   \<and> (case client_ReportTriggers r of
      None \<Rightarrow> concat (ac_localtriggers r) = []
    | Some (req, r') \<Rightarrow> \<exists>ts. req = sendTriggers ts r \<and> ts \<noteq> [] \<and> ts @ concat (ac_localtriggers r') = concat (ac_localtriggers r) \<and>
        (100 \<le> length ts \<or> ac_localtriggers r' = []) \<and>
        length ts \<le> 99 + Max (insert 0 (length ` set (ac_localtriggers r))))"
proof -
  have b: "length m \<le> Max (insert 0 (length ` set ch))" if "m \<in> set ch" for m :: "'x list" and ch
    using that by (intro Max_ge) auto
  have k: "case accumulate (\<lambda>ts. ts) 100 ch of
      None \<Rightarrow> concat ch = []
    | Some (ts, ch') \<Rightarrow> ts \<noteq> [] \<and> ts @ concat ch' = concat ch \<and> (100 \<le> length ts \<or> ch' = []) \<and>
        length ts \<le> 99 + Max (insert 0 (length ` set ch))" for ch :: "'x list list"
    using accumulate_ok [where items = "\<lambda>ts. ts" and n = 100 and ch = ch and k = "Max (insert 0 (length ` set ch))"] b [of _ ch]
      accumulate_blocks [of "\<lambda>ts. ts" 100 ch]
    by (auto split: option.splits)
  show ?thesis
    using k [of "outgoing_triggers a"] k [of "ac_localtriggers r"]
    by (auto simp: conn_ReportTriggers_def client_ReportTriggers_def split: option.splits)
qed

section \<open>What is lost\<close>

text \<open>A sequence of requests handled at the instants 1, 2, and so on.\<close>

fun handle_all :: "time \<Rightarrow> (TriggerRequest + BreadcrumbsRequest) list \<Rightarrow> CoordinatorServer \<Rightarrow> CoordinatorServer res" where
  "handle_all t [] cs = Inr cs"
| "handle_all t (Inl req # reqs) cs = bind_res (processTriggersRequest ex_co (ex_clock t) req cs) (handle_all (t + 1) reqs)"
| "handle_all t (Inr req # reqs) cs =
     bind_res (processBreadcrumbRequest ex_co (ex_clock t) req cs) (\<lambda>(_, cs1). handle_all (t + 1) reqs cs1)"

text \<open>
  A reports a trigger for the trace 1; B reports a breadcrumb of the trace 2; A adds the trace 2 to
  the trigger; at last A reports that the trace 1 went on to B.
\<close>

definition ex_lossy :: "(TriggerRequest + BreadcrumbsRequest) list" where
  "ex_lossy =
     [Inl (ex_request ''A'' 1),
      Inr (fst (encode_request (\<lambda>m. m) ''B'' [[(2, [''A''])]] encoder_Init)),
      Inl (ex_request ''A'' 2),
      Inr (fst (encode_request (\<lambda>m. m) ''A'' [[(1, [''B''])]] encoder_Init))]"

definition ex_lost :: CoordinatorServer where
  "ex_lost = (case handle_all 1 ex_lossy (server_Init 0 False) of Inl _ \<Rightarrow> server_Init 0 False | Inr cs \<Rightarrow> cs)"

text \<open>
  A trigger reaches an agent without the traces it had before: the coordinator forwards the
  trigger as it was reported last, takes the receiver to know it, and does not tell it of the other
  traces even when a breadcrumb shows that it holds data of them. In the run above B is told of the
  trigger for the trace 2 only.
\<close>

theorem forwarded_trigger_lacks_traces:
  "handle_all 1 ex_lossy (server_Init 0 False) = Inr ex_lost \<and>
   (\<lparr>queue_id = 3, base_trace_id = 1\<rparr>, 1) \<in> sp_member (spec_of (cs_c ex_lost)) \<and>
   (1, ''B'') \<in> sp_trace_at (spec_of (cs_c ex_lost)) \<and>
   concat (pending (conn_of ex_lost ''B'')) = [\<lparr>trigger_id = \<lparr>queue_id = 3, base_trace_id = 1\<rparr>, trace_ids = [2]\<rparr>]"
proof -
  have "\<not> isl (handle_all 1 ex_lossy (server_Init 0 False))" by code_simp
  then have e: "handle_all 1 ex_lossy (server_Init 0 False) = Inr ex_lost"
    by (cases "handle_all 1 ex_lossy (server_Init 0 False)") (auto simp: ex_lost_def)
  have "map_option cg_traces (trig_of (cs_c ex_lost) \<lparr>queue_id = 3, base_trace_id = 1\<rparr>) = Some [1, 2]" by code_simp
  moreover have "map_option ct_known_at (ctrace_of (cs_c ex_lost) 1) = Some [''A'', ''B'']" by code_simp
  moreover have "concat (pending (conn_of ex_lost ''B'')) = [\<lparr>trigger_id = \<lparr>queue_id = 3, base_trace_id = 1\<rparr>, trace_ids = [2]\<rparr>]"
    by code_simp
  ultimately show ?thesis using e by (auto simp: spec_of_def in_rel)
qed

text \<open>
  Two connections of the agent A. The first announces B under the identifier 0. After a reconnection
  the identifiers start again at 0; the request that announces C is dropped, the next one uses it.
\<close>

definition ex_conn :: "BreadcrumbsRequest" where
  "ex_conn = fst (encode_request (\<lambda>m. m) ''A'' [[(7, [''B''])]] encoder_Init)"

definition ex_dropped :: "BreadcrumbsRequest \<times> encoder" where
  "ex_dropped = encode_request (\<lambda>m. m) ''A'' [[(8, [''C''])]] encoder_Init"

definition ex_after :: "BreadcrumbsRequest" where
  "ex_after = fst (encode_request (\<lambda>m. m) ''A'' [[(9, [''C''])]] (snd ex_dropped))"

definition ex_stale :: CoordinatorServer where
  "ex_stale = (case handle_all 1 [Inr ex_conn, Inr ex_after] (server_Init 0 False) of Inl _ \<Rightarrow> server_Init 0 False | Inr cs \<Rightarrow> cs)"

text \<open>
  When the server's queue is full a request with breadcrumbs is dropped, and the agent is not
  told. Identifiers that it announced are then decoded with the table of the previous connection: the
  breadcrumb of the trace 9 points at C and is stored as pointing at B.
\<close>

theorem dropped_request_misroutes:
  "(let s = (server_Init 0 False)\<lparr>incoming_breadcrumbs := replicate 10000 ex_conn\<rparr>;
        (queued, s') = Breadcrumbs lock t t' (fst ex_dropped) s
    in \<not> queued \<and> incoming_breadcrumbs s' = incoming_breadcrumbs s) \<and>
   handle_all 1 [Inr ex_conn, Inr ex_after] (server_Init 0 False) = Inr ex_stale \<and>
   (9, ''B'') \<in> sp_trace_at (spec_of (cs_c ex_stale)) \<and> (9, ''C'') \<notin> sp_trace_at (spec_of (cs_c ex_stale))"
proof -
  have "\<not> isl (handle_all 1 [Inr ex_conn, Inr ex_after] (server_Init 0 False))" by code_simp
  then have "handle_all 1 [Inr ex_conn, Inr ex_after] (server_Init 0 False) = Inr ex_stale"
    by (cases "handle_all 1 [Inr ex_conn, Inr ex_after] (server_Init 0 False)") (auto simp: ex_stale_def)
  moreover have "map_option ct_known_at (ctrace_of (cs_c ex_stale) 9) = Some [''B'', ''A'']" by code_simp
  moreover have "let s = (server_Init 0 False)\<lparr>incoming_breadcrumbs := replicate 10000 ex_conn\<rparr>;
        (queued, s') = Breadcrumbs lock t t' (fst ex_dropped) s
    in \<not> queued \<and> incoming_breadcrumbs s' = incoming_breadcrumbs s"
    by (simp add: Breadcrumbs_def try_send_def Let_def)
  ultimately show ?thesis by (auto simp: spec_of_def in_rel)
qed

end
