(* ===== verification/Collector.thy ===== *)
theory Collector
  imports Memory
begin

text \<open>
  The collector, \<^verbatim>\<open>agent/pkg/collector/collector.go\<close> and \<^verbatim>\<open>fileio.go\<close>: it receives the frames of an
  agent's connection and appends them to a file with the name of the agent.
\<close>

section \<open>Operations\<close>

record ReceivedBuffer =
  rb_trace_id :: u64
  source_agent :: string
  rb_buffer :: "byte list"

text \<open>
  \<^verbatim>\<open>handleConnection\<close>: the buffers put into the channel \<^verbatim>\<open>incoming\<close> until the connection ends, and the
  error that ended it. Every turn consumes input, whose length bounds the number of turns.
\<close>

fun receive_frames :: "nat \<Rightarrow> string \<Rightarrow> rconn \<Rightarrow> ReceivedBuffer list \<Rightarrow> (io_error \<times> ReceivedBuffer list) res" where
  "receive_frames 0 addr conn incoming = Inl NonTermination"
| "receive_frames (Suc fuel) addr conn incoming =
     (case readLengthPrefixed conn of
        (Inl err, conn1) \<Rightarrow> Inr (err, incoming)
      | (Inr buf, conn1) \<Rightarrow>
          if 32 \<le> length buf
          then bind_res (ExtractBufferHeader buf) (\<lambda>header.
                 receive_frames fuel addr conn1
                   (incoming @ [\<lparr>rb_trace_id = hd_Trace_id header, source_agent = addr, rb_buffer = buf\<rparr>]))
          else receive_frames fuel addr conn1 incoming)"

definition handleConnection :: "rconn \<Rightarrow> ReceivedBuffer list \<Rightarrow> (io_error \<times> ReceivedBuffer list) res" where
  "handleConnection conn incoming =
     (case readLengthPrefixed conn of
        (Inl err, conn1) \<Rightarrow> Inr (err, incoming)
      | (Inr buf, conn1) \<Rightarrow> receive_frames (Suc (length (r_in conn1))) (string_of buf) conn1 incoming)"

definition WriteToFile :: "ReceivedBuffer \<Rightarrow> wconn \<Rightarrow> io_error option \<times> wconn" where
  "WriteToFile b f =
     (case writeFileLengthPrefixed (bytes_of (source_agent b)) f of
        (Some err, f1) \<Rightarrow> (Some err, f1)
      | (None, f1) \<Rightarrow> writeFileLengthPrefixed (rb_buffer b) f1)"

definition ReadFromFile :: "rconn \<Rightarrow> (io_error + (string \<times> byte list)) \<times> rconn" where
  "ReadFromFile f =
     (case readFileLengthPrefixed f of
        (Inl err, f1) \<Rightarrow> (Inl err, f1)
      | (Inr agentbs, f1) \<Rightarrow>
          (case readFileLengthPrefixed f1 of
             (Inl err, f2) \<Rightarrow> (Inl err, f2)
           | (Inr buffer, f2) \<Rightarrow> (Inr (string_of agentbs, buffer), f2)))"

text \<open>\<^verbatim>\<open>fileWriter\<close> for the buffers it receives: an error is printed and the next buffer follows.\<close>

fun fileWriter :: "ReceivedBuffer list \<Rightarrow> nat \<Rightarrow> wconn \<Rightarrow> nat \<times> wconn" where
  "fileWriter [] written f = (written, f)"
| "fileWriter (r # rs) written f = fileWriter rs (written + length (rb_buffer r)) (snd (WriteToFile r f))"

text \<open>\<^verbatim>\<open>TraceToStore\<close>: buffers of a trace that wait to be written.\<close>

record TraceToStore =
  ts_trace_id :: u64
  ts_buffers :: "ReceivedBuffer list"

definition initTraceToStore :: "u64 \<Rightarrow> TraceToStore" where
  "initTraceToStore trace_id = \<lparr>ts_trace_id = trace_id, ts_buffers = []\<rparr>"

definition AddBuffer :: "ReceivedBuffer \<Rightarrow> TraceToStore \<Rightarrow> TraceToStore" where
  "AddBuffer buf t = t\<lparr>ts_buffers := ts_buffers t @ [buf]\<rparr>"

definition takeBuffers :: "TraceToStore \<Rightarrow> ReceivedBuffer list \<times> TraceToStore" where
  "takeBuffers t = (ts_buffers t, t\<lparr>ts_buffers := []\<rparr>)"

fun write_all :: "ReceivedBuffer list \<Rightarrow> wconn \<Rightarrow> io_error option \<times> wconn" where
  "write_all [] f = (None, f)"
| "write_all (b # bs) f =
     (case WriteToFile b f of
        (Some err, f1) \<Rightarrow> (Some err, f1)
      | (None, f1) \<Rightarrow> write_all bs f1)"

definition AppendToFile :: "TraceToStore \<Rightarrow> wconn \<Rightarrow> io_error option \<times> TraceToStore \<times> wconn" where
  "AppendToFile t f = (let (buffers, t1) = takeBuffers t; (err, f1) = write_all buffers f in (err, t1, f1))"

section \<open>What is received\<close>

definition received :: "string \<Rightarrow> byte list \<Rightarrow> ReceivedBuffer" where
  "received addr data = \<lparr>rb_trace_id = hd_Trace_id (parse_header data), source_agent = addr, rb_buffer = data\<rparr>"

lemma readLengthPrefixed_end: "r_good c \<Longrightarrow> r_in c = [] \<Longrightarrow> \<exists>c'. readLengthPrefixed c = (Inl EndOfFile, c')"
  by (cases "r_plan c")
     (auto simp: readLengthPrefixed_def doRead.simps [of 4] conn_Read_def r_good_def)

lemma receive_frames_good:
  assumes "r_good c" and "r_in c = concat (map frame datas)" and "\<forall>d\<in>set datas. length d < 2 ^ 32"
    and "length datas < fuel"
  shows "receive_frames fuel addr c incoming =
     Inr (EndOfFile, incoming @ map (received addr) (filter (\<lambda>d. 32 \<le> length d) datas))"
  using assms
proof (induction datas arbitrary: fuel c incoming)
  case Nil
  then show ?case using readLengthPrefixed_end [of c] by (cases fuel) auto
next
  case (Cons d datas)
  obtain fuel1 where f: "fuel = Suc fuel1" using Cons.prems(4) by (cases fuel) auto
  obtain c1 where c1: "readLengthPrefixed c = (Inr d, c1)" "r_in c1 = concat (map frame datas)" "r_good c1"
    using readLengthPrefixed_good [OF Cons.prems(1), of d "concat (map frame datas)"] Cons.prems(2,3) by auto
  have "receive_frames fuel1 addr c1 inc = Inr (EndOfFile, inc @ map (received addr) (filter (\<lambda>d. 32 \<le> length d) datas))" for inc
    using Cons.IH [OF c1(3,2)] Cons.prems(3,4) f by simp
  then show ?case using c1(1) f by (auto simp: ExtractBufferHeader_def received_def)
qed

lemma length_frames: "length datas \<le> length (concat (map frame datas))"
  by (induction datas) (simp_all add: frame_def)

lemma handleConnection_good:
  assumes "r_good c" and "r_in c = frame (bytes_of addr) @ concat (map frame datas)"
    and "length addr < 2 ^ 32" and "\<forall>d\<in>set datas. length d < 2 ^ 32"
  shows "handleConnection c incoming =
     Inr (EndOfFile, incoming @ map (received addr) (filter (\<lambda>d. 32 \<le> length d) datas))"
proof -
  obtain c1 where c1: "readLengthPrefixed c = (Inr (bytes_of addr), c1)" "r_in c1 = concat (map frame datas)" "r_good c1"
    using readLengthPrefixed_good [OF assms(1,2)] assms(3) by auto
  have "length datas < Suc (length (r_in c1))" using length_frames [of datas] c1(2) by simp
  then show ?thesis using c1(1) receive_frames_good [OF c1(3,2) assms(4)] by (simp add: handleConnection_def del: receive_frames.simps)
qed

lemma WriteToFile_good:
  assumes "w_good f"
  shows "\<exists>f'. WriteToFile b f = (None, f') \<and> w_good f' \<and>
     w_out f' = w_out f @ frame (bytes_of (source_agent b)) @ frame (rb_buffer b)"
proof -
  obtain f1 where f1: "writeFileLengthPrefixed (bytes_of (source_agent b)) f = (None, f1)"
      "w_out f1 = w_out f @ frame (bytes_of (source_agent b))" "w_good f1"
    using writeFileLengthPrefixed_good [OF assms] by blast
  then show ?thesis using writeFileLengthPrefixed_good [OF f1(3), of "rb_buffer b"] by (auto simp: WriteToFile_def)
qed

lemma fileWriter_good:
  "w_good f \<Longrightarrow> w_good (snd (fileWriter rs n f)) \<and>
     w_out (snd (fileWriter rs n f)) = w_out f @ concat (map (\<lambda>b. frame (bytes_of (source_agent b)) @ frame (rb_buffer b)) rs)"
proof (induction rs arbitrary: n f)
  case (Cons r rs)
  obtain f1 where f1: "WriteToFile r f = (None, f1)" "w_good f1"
      "w_out f1 = w_out f @ frame (bytes_of (source_agent r)) @ frame (rb_buffer r)"
    using WriteToFile_good [OF Cons.prems] by blast
  then show ?case using Cons.IH [OF f1(2)] by simp
qed simp

text \<open>Reading back: one buffer, then all of them.\<close>

lemma ReadFromFile_good:
  assumes f: "f_good f" and i: "r_in f = frame (bytes_of (source_agent b)) @ frame (rb_buffer b) @ rest"
    and n: "length (source_agent b) \<le> 1024 * 1024 * 100" "length (rb_buffer b) < 2 ^ 32"
  shows "\<exists>f'. ReadFromFile f = (if length (rb_buffer b) \<le> 1024 * 1024 * 100 then Inr (source_agent b, rb_buffer b)
       else Inl (InvalidRead (length (rb_buffer b))), f') \<and>
     (length (rb_buffer b) \<le> 1024 * 1024 * 100 \<longrightarrow> f_good f' \<and> r_in f' = rest)"
proof -
  obtain f1 where f1: "readFileLengthPrefixed f = (Inr (bytes_of (source_agent b)), f1)" "f_good f1"
      "r_in f1 = frame (rb_buffer b) @ rest"
    using readFileLengthPrefixed_good [OF f i] n(1) by auto
  show ?thesis using readFileLengthPrefixed_good [OF f1(2,3) n(2)] f1(1) by (auto simp: ReadFromFile_def)
qed

fun read_all :: "nat \<Rightarrow> rconn \<Rightarrow> (string \<times> byte list) list" where
  "read_all 0 f = []"
| "read_all (Suc n) f = (case ReadFromFile f of (Inl _, _) \<Rightarrow> [] | (Inr x, f1) \<Rightarrow> x # read_all n f1)"

lemma read_all_good:
  assumes "f_good f" and "r_in f = concat (map (\<lambda>b. frame (bytes_of (source_agent b)) @ frame (rb_buffer b)) rs)"
    and "\<forall>b\<in>set rs. length (source_agent b) \<le> 1024 * 1024 * 100 \<and> length (rb_buffer b) \<le> 1024 * 1024 * 100"
  shows "read_all (length rs) f = map (\<lambda>b. (source_agent b, rb_buffer b)) rs"
  using assms
proof (induction rs arbitrary: f)
  case (Cons b rs)
  obtain f1 where "ReadFromFile f = (Inr (source_agent b, rb_buffer b), f1)" "f_good f1"
      "r_in f1 = concat (map (\<lambda>b. frame (bytes_of (source_agent b)) @ frame (rb_buffer b)) rs)"
    using ReadFromFile_good [OF Cons.prems(1), of b] Cons.prems(2,3) by fastforce
  then show ?case using Cons.IH [of f1] Cons.prems(3) by simp
qed simp

end
