(* ===== verification/Delayer.thy ===== *)
theory Delayer
  imports Prelude
begin

text \<open>
  The delayer, \<^verbatim>\<open>agent/pkg/agent/delayer.go\<close>: batches of triggers are held back for a fixed delay and
  then passed on in their order. The timer is the instant at which it fires next, if it runs.
\<close>

section \<open>Operations\<close>

record DelayedTrigger =
  trigger_at :: time
  dt_triggers :: "mem_Trigger list"

record Delayer =
  Outgoing :: "mem_Trigger list list"
  delay :: time
  delayed :: "DelayedTrigger list"
  timer :: "time option"

definition delayTriggers :: "time \<Rightarrow> Delayer" where
  "delayTriggers d = \<lparr>Outgoing = [], delay = d, delayed = [], timer = None\<rparr>"

text \<open>\<open>now1\<close> is the clock.\<close>

definition addTriggers :: "time \<Rightarrow> mem_Trigger list \<Rightarrow> Delayer \<Rightarrow> Delayer" where
  "addTriggers now1 triggers d =
     (let t = \<lparr>trigger_at = now1 + delay d, dt_triggers = triggers\<rparr>;
          d1 = (if delayed d = [] then d\<lparr>timer := Some (now1 + delay d)\<rparr> else d)
      in d1\<lparr>delayed := delayed d1 @ [t]\<rparr>)"

fun check_timeouts_loop :: "time \<Rightarrow> DelayedTrigger list \<Rightarrow> Delayer \<Rightarrow> Delayer" where
  "check_timeouts_loop now1 [] d = d\<lparr>delayed := []\<rparr>"
| "check_timeouts_loop now1 (t # ts) d =
     (if trigger_at t < now1
      then check_timeouts_loop now1 ts (d\<lparr>Outgoing := Outgoing d @ [dt_triggers t]\<rparr>)
      else d\<lparr>delayed := t # ts, timer := Some (now1 + time_sub (trigger_at t) now1)\<rparr>)"

definition checkTimeouts :: "time \<Rightarrow> Delayer \<Rightarrow> Delayer" where
  "checkTimeouts now1 d = check_timeouts_loop now1 (delayed d) d"

text \<open>
  A turn of \<^verbatim>\<open>applyDelay\<close>: a batch arrives, or the timer fires, which is heeded only while something is
  delayed; \<open>None\<close>: the case is not enabled. A timer that has fired is stopped until it is reset.
\<close>

datatype delay_event = Arrives "mem_Trigger list" | TimerFires

fun applyDelay :: "time \<Rightarrow> delay_event \<Rightarrow> Delayer \<Rightarrow> Delayer option" where
  "applyDelay now1 (Arrives triggers) d = Some (addTriggers now1 triggers d)"
| "applyDelay now1 TimerFires d =
     (case timer d of
        Some t \<Rightarrow> if delayed d \<noteq> [] \<and> t \<le> now1 then Some (checkTimeouts now1 (d\<lparr>timer := None\<rparr>)) else None
      | None \<Rightarrow> None)"

section \<open>Order and delay\<close>

text \<open>Everything that arrived, in order: what was passed on and what is held back.\<close>

definition all_batches :: "Delayer \<Rightarrow> mem_Trigger list list" where
  "all_batches d = Outgoing d @ map dt_triggers (delayed d)"

text \<open>
  The delayed batches are in order of their deadlines, none later than \<open>n + delay\<close>, and the timer runs
  while something is delayed, and fires no later than the first deadline.
\<close>

definition del_ok :: "time \<Rightarrow> Delayer \<Rightarrow> bool" where
  "del_ok n d \<longleftrightarrow> sorted (map trigger_at (delayed d)) \<and> (\<forall>t\<in>set (delayed d). trigger_at t \<le> n + delay d) \<and>
     (\<forall>t ts. delayed d = t # ts \<longrightarrow> (\<exists>k. timer d = Some k \<and> k \<le> trigger_at t))"

lemma loop_split:
  "\<exists>k. Outgoing (check_timeouts_loop n ts d) = Outgoing d @ map dt_triggers (take k ts) \<and>
     delayed (check_timeouts_loop n ts d) = drop k ts \<and> delay (check_timeouts_loop n ts d) = delay d \<and>
     (\<forall>t\<in>set (take k ts). trigger_at t < n) \<and>
     (k < length ts \<longrightarrow> n \<le> trigger_at (ts ! k) \<and> timer (check_timeouts_loop n ts d) = Some (n + time_sub (trigger_at (ts ! k)) n))"
proof (induction n ts d rule: check_timeouts_loop.induct)
  case (2 n t ts d)
  show ?case
  proof (cases "trigger_at t < n")
    case True
    then obtain k where "Outgoing (check_timeouts_loop n (t # ts) d) = (Outgoing d @ [dt_triggers t]) @ map dt_triggers (take k ts)"
        "delayed (check_timeouts_loop n (t # ts) d) = drop k ts" "delay (check_timeouts_loop n (t # ts) d) = delay d"
        "\<forall>t\<in>set (take k ts). trigger_at t < n"
        "k < length ts \<longrightarrow> n \<le> trigger_at (ts ! k) \<and> timer (check_timeouts_loop n (t # ts) d) = Some (n + time_sub (trigger_at (ts ! k)) n)"
      using 2 [OF True] by auto
    then show ?thesis using True by (intro exI [of _ "Suc k"]) simp
  qed (auto intro: exI [of _ 0])
qed simp

end
