(* ===== verification/ShmApi.thy ===== *)
theory ShmApi
  imports Memory Rpc
begin

text \<open>
  The channels of \<^verbatim>\<open>GoAgentAPI\<close> and the four loops of its \<^verbatim>\<open>Run\<close> (\<^verbatim>\<open>agent/pkg/memory/memory.go\<close>), which move
  buffers, triggers and breadcrumbs between the shared queues and the agent, and the circulation of
  buffers between the clients, the shared memory and the agent.
\<close>

section \<open>The interface\<close>

record GoAgentAPI =
  api_Available :: "int list list"
  api_Complete :: "(u64 \<times> int list) list list"
  api_Triggers :: "mem_Trigger list list"
  api_Breadcrumbs :: "crumb_map list"

definition GoAgentAPI_Init :: GoAgentAPI where
  "GoAgentAPI_Init = \<lparr>api_Available = [], api_Complete = [], api_Triggers = [], api_Breadcrumbs = []\<rparr>"

text \<open>The shared memory: its four queues, its pool, and the number of buffers in the pool.\<close>

record shm =
  shm_available :: "int list"
  shm_complete :: "(u64 \<times> int) list"
  shm_triggers :: "mem_Trigger list"
  shm_breadcrumbs :: "(u64 \<times> string) list"
  shm_buffers :: shm_pool
  shm_capacity :: int

definition Capacity :: "shm \<Rightarrow> int" where
  "Capacity m = shm_capacity m"

definition BufferSize :: "shm \<Rightarrow> int" where
  "BufferSize m = buffer_size (shm_buffers m)"

text \<open>The state of the loops: the channels, the shared memory, and a backoff for each polling loop.\<close>

record api_state =
  as_api :: GoAgentAPI
  as_shm :: shm
  as_complete_backoff :: int
  as_trigger_backoff :: int
  as_crumbs_backoff :: int

definition api_state_Init :: "shm \<Rightarrow> api_state" where
  "api_state_Init m = \<lparr>as_api = GoAgentAPI_Init, as_shm = m, as_complete_backoff = 10, as_trigger_backoff = 10, as_crumbs_backoff = 10\<rparr>"

text \<open>\<^verbatim>\<open>availableLoop\<close> takes a batch from its channel, when there is one, and puts it into the shared queue.\<close>

definition availableLoop_turn :: "api_state \<Rightarrow> api_state option" where
  "availableLoop_turn s =
     (case api_Available (as_api s) of
        [] \<Rightarrow> None
      | bufids # ch \<Rightarrow> Some (s\<lparr>as_api := (as_api s)\<lparr>api_Available := ch\<rparr>,
          as_shm := (as_shm s)\<lparr>shm_available := shm_available (as_shm s) @ concat (PutAvailable bufids)\<rparr>\<rparr>))"

text \<open>A turn of one of the loops that \<^verbatim>\<open>Run\<close> starts; \<open>None\<close>: the loop is blocked.\<close>

datatype api_loop = AvailableLoop | CompleteLoop | TriggerLoop | BreadcrumbsLoop

fun memory_Run_turn :: "api_loop \<Rightarrow> api_state \<Rightarrow> api_state res option" where
  "memory_Run_turn AvailableLoop s = map_option Inr (availableLoop_turn s)"
| "memory_Run_turn CompleteLoop s =
     Some (bind_res (completeLoop_turn (shm_complete (as_shm s)) (api_Complete (as_api s)) (as_complete_backoff s)) (\<lambda>(q, ch, b).
       Inr (s\<lparr>as_api := (as_api s)\<lparr>api_Complete := ch\<rparr>, as_shm := (as_shm s)\<lparr>shm_complete := q\<rparr>, as_complete_backoff := b\<rparr>)))"
| "memory_Run_turn TriggerLoop s =
     Some (bind_res (triggerLoop_turn (shm_triggers (as_shm s)) (api_Triggers (as_api s)) (as_trigger_backoff s)) (\<lambda>(q, ch, b).
       Inr (s\<lparr>as_api := (as_api s)\<lparr>api_Triggers := ch\<rparr>, as_shm := (as_shm s)\<lparr>shm_triggers := q\<rparr>, as_trigger_backoff := b\<rparr>)))"
| "memory_Run_turn BreadcrumbsLoop s =
     Some (bind_res (breadcrumbsLoop_turn (shm_breadcrumbs (as_shm s)) (api_Breadcrumbs (as_api s)) (as_crumbs_backoff s)) (\<lambda>(q, ch, b).
       Inr (s\<lparr>as_api := (as_api s)\<lparr>api_Breadcrumbs := ch\<rparr>, as_shm := (as_shm s)\<lparr>shm_breadcrumbs := q\<rparr>, as_crumbs_backoff := b\<rparr>)))"

section \<open>The loops\<close>

lemma next_backoff_bounds: "0 \<le> b \<Longrightarrow> b \<le> 100000 \<Longrightarrow> 0 \<le> next_backoff k b \<and> next_backoff k b \<le> 100000"
  by (auto simp: next_backoff_def Let_def)

definition backoffs_ok :: "api_state \<Rightarrow> bool" where
  "backoffs_ok s \<longleftrightarrow> as_complete_backoff s \<in> {0..100000} \<and> as_trigger_backoff s \<in> {0..100000} \<and> as_crumbs_backoff s \<in> {0..100000}"

lemma completeLoop_turn_ok:
  "yields (completeLoop_turn q ch b) (\<lambda>(q', ch', b'). q' = [] \<and> b' = next_backoff (int (length q)) b \<and>
     mset (concat (map snd (concat ch'))) = mset (concat (map snd (concat ch))) + mset (map snd q))"
proof -
  obtain ch' bs where r: "drainBatches 20 q ch = Inr (length q, [], ch')" "ch' = ch @ map (\<lambda>b. group_by b []) bs" "concat bs = q"
    using drain_ok [OF gets_calls(1), of 20 q "Suc (length q)" 0 ch] by (auto simp: drainBatches_def BATCHSIZE_def elim!: yieldsE)
  have "mset (concat (map snd (concat (map (\<lambda>b. group_by b []) bs)))) = mset (map snd (concat bs))"
    by (induction bs) (simp_all add: mset_group_by)
  then show ?thesis using r by (simp add: completeLoop_turn_def)
qed

lemma triggerLoop_turn_ok:
  "yields (triggerLoop_turn q ch b) (\<lambda>(q', ch', b'). q' = [] \<and> b' = next_backoff (int (length q)) b \<and> concat ch' = concat ch @ q)"
  using drain_ok [OF gets_calls(2), of 20 q "Suc (length q)" 0 ch]
  by (auto simp: triggerLoop_turn_def drainTriggers_def BATCHSIZE_def elim!: yieldsE)

lemma breadcrumbsLoop_turn_ok:
  "yields (breadcrumbsLoop_turn q ch b) (\<lambda>(q', ch', b'). q' = [] \<and> b' = next_backoff (int (length q)) b)"
  using drain_ok [OF gets_calls(3), of 20 q "Suc (length q)" 0 ch]
  by (auto simp: breadcrumbsLoop_turn_def drainBreadcrumbs_def BATCHSIZE_def elim!: yieldsE)

section \<open>The circulation of buffers\<close>

text \<open>
  Beside the loops: clients take available buffers and complete them for a trace; the agent takes
  completed buffers and returns them. The buffers that the clients and the agent hold are ghosts.
\<close>

record circulation =
  ci_api :: api_state
  ci_clients :: "int multiset"
  ci_agent :: "int multiset"

inductive circulates :: "shm \<Rightarrow> circulation \<Rightarrow> bool" for m where
  start: "shm_complete m = [] \<Longrightarrow> circulates m \<lparr>ci_api = api_state_Init m, ci_clients = {#}, ci_agent = {#}\<rparr>"
| acquire: "circulates m c \<Longrightarrow> s = ci_api c \<Longrightarrow> shm_available (as_shm s) = b # q \<Longrightarrow>
    circulates m (c\<lparr>ci_api := s\<lparr>as_shm := (as_shm s)\<lparr>shm_available := q\<rparr>\<rparr>, ci_clients := add_mset b (ci_clients c)\<rparr>)"
| complete: "circulates m c \<Longrightarrow> s = ci_api c \<Longrightarrow> b \<in># ci_clients c \<Longrightarrow>
    circulates m (c\<lparr>ci_api := s\<lparr>as_shm := (as_shm s)\<lparr>shm_complete := shm_complete (as_shm s) @ [(i, b)]\<rparr>\<rparr>,
      ci_clients := ci_clients c - {#b#}\<rparr>)"
| fires: "circulates m c \<Longrightarrow> s = ci_api c \<Longrightarrow>
    circulates m (c\<lparr>ci_api := s\<lparr>as_shm := (as_shm s)\<lparr>shm_triggers := shm_triggers (as_shm s) @ [t]\<rparr>\<rparr>\<rparr>)"
| crumb: "circulates m c \<Longrightarrow> s = ci_api c \<Longrightarrow>
    circulates m (c\<lparr>ci_api := s\<lparr>as_shm := (as_shm s)\<lparr>shm_breadcrumbs := shm_breadcrumbs (as_shm s) @ [(i, a)]\<rparr>\<rparr>\<rparr>)"
| loops: "circulates m c \<Longrightarrow> memory_Run_turn k (ci_api c) = Some (Inr s') \<Longrightarrow> circulates m (c\<lparr>ci_api := s'\<rparr>)"
| takes: "circulates m c \<Longrightarrow> s = ci_api c \<Longrightarrow> api_Complete (as_api s) = batch # ch \<Longrightarrow>
    circulates m (c\<lparr>ci_api := s\<lparr>as_api := (as_api s)\<lparr>api_Complete := ch\<rparr>\<rparr>, ci_agent := ci_agent c + mset (concat (map snd batch))\<rparr>)"
| returns: "circulates m c \<Longrightarrow> s = ci_api c \<Longrightarrow> mset bs \<subseteq># ci_agent c \<Longrightarrow>
    circulates m (c\<lparr>ci_api := s\<lparr>as_api := (as_api s)\<lparr>api_Available := api_Available (as_api s) @ [bs]\<rparr>\<rparr>, ci_agent := ci_agent c - mset bs\<rparr>)"

text \<open>All buffers, wherever they are.\<close>

definition everywhere :: "circulation \<Rightarrow> int multiset" where
  "everywhere c = (let s = ci_api c in
     mset (shm_available (as_shm s)) + ci_clients c + mset (map snd (shm_complete (as_shm s))) +
     mset (concat (map snd (concat (api_Complete (as_api s))))) + ci_agent c + mset (concat (api_Available (as_api s))))"

declare everywhere_def [circulation_defs] backoffs_ok_def [circulation_defs] Let_def [circulation_defs]

text \<open>A buffer id that fits a C \<^verbatim>\<open>int\<close> survives \<^verbatim>\<open>PutAvailable\<close>.\<close>

lemma c_int_id: "is_int32 x \<Longrightarrow> c_int x = x"
  using sint_int32_of [of x] by (simp add: c_int_def int32_of_def)

lemma put_available_id:
  assumes "\<forall>b\<in>set bs. is_int32 b"
  shows "concat (PutAvailable bs) = bs"
proof -
  have "map c_int bs = map id bs" using assms by (intro map_cong) (simp_all add: c_int_id)
  then show ?thesis by (simp add: PutAvailable_ok(1))
qed

definition all_int32 :: "int multiset \<Rightarrow> bool" where
  "all_int32 M \<longleftrightarrow> (\<forall>b. b \<in># M \<longrightarrow> is_int32 b)"

lemma memory_Run_turn_ok:
  assumes "all_int32 (mset (concat (api_Available (as_api s))))" and "backoffs_ok s"
    and "memory_Run_turn k s = Some r"
  shows "yields r (\<lambda>s'. backoffs_ok s' \<and> everywhere (c\<lparr>ci_api := s'\<rparr>) = everywhere (c\<lparr>ci_api := s\<rparr>))"
proof (cases k)
  case AvailableLoop
  then obtain bs ch where b: "api_Available (as_api s) = bs # ch" "r = Inr (s\<lparr>as_api := (as_api s)\<lparr>api_Available := ch\<rparr>,
      as_shm := (as_shm s)\<lparr>shm_available := shm_available (as_shm s) @ concat (PutAvailable bs)\<rparr>\<rparr>)"
    using assms(3) by (auto simp: availableLoop_turn_def split: list.splits)
  have "concat (PutAvailable bs) = bs" using assms(1) b(1) by (intro put_available_id) (auto simp: all_int32_def)
  then show ?thesis using b assms(2) by (simp add: circulation_defs ac_simps)
next
  case CompleteLoop
  show ?thesis
    using completeLoop_turn_ok [of "shm_complete (as_shm s)" "api_Complete (as_api s)" "as_complete_backoff s"] CompleteLoop assms(2,3)
    by (elim yieldsE) (auto simp: circulation_defs next_backoff_bounds ac_simps)
next
  case TriggerLoop
  show ?thesis
    using triggerLoop_turn_ok [of "shm_triggers (as_shm s)" "api_Triggers (as_api s)" "as_trigger_backoff s"] TriggerLoop assms(2,3)
    by (elim yieldsE) (auto simp: circulation_defs next_backoff_bounds)
next
  case BreadcrumbsLoop
  show ?thesis
    using breadcrumbsLoop_turn_ok [of "shm_breadcrumbs (as_shm s)" "api_Breadcrumbs (as_api s)" "as_crumbs_backoff s"] BreadcrumbsLoop assms(2,3)
    by (elim yieldsE) (auto simp: circulation_defs next_backoff_bounds)
qed

lemma circulates_ok:
  assumes "circulates m c" and "\<forall>b\<in>set (shm_available m). is_int32 b"
  shows "backoffs_ok (ci_api c) \<and> everywhere c = mset (shm_available m)"
  using assms(1)
proof (induction rule: circulates.induct)
  case start
  then show ?case by (simp add: everywhere_def api_state_Init_def GoAgentAPI_Init_def backoffs_ok_def)
next
  case (loops c k s')
  have "set (concat (api_Available (as_api (ci_api c)))) \<subseteq> set_mset (everywhere c)" by (auto simp: circulation_defs)
  then have "all_int32 (mset (concat (api_Available (as_api (ci_api c)))))" using loops.IH assms(2) by (auto simp: all_int32_def)
  from memory_Run_turn_ok [OF this _ loops.hyps(2), of c] loops.IH show ?case by simp
next
  case (complete c s b i)
  then show ?case by (auto simp: circulation_defs ac_simps dest: multi_member_split)
next
  case (returns c s bs)
  then obtain X where "ci_agent c = mset bs + X" by (auto simp: subset_mset.le_iff_add)
  then show ?case using returns by (auto simp: circulation_defs ac_simps)
qed (auto simp: circulation_defs ac_simps)

end
