(* ===== verification/IOProps.thy ===== *)
theory IOProps
  imports Reporting Collector Delayer ShmApi
begin

text \<open>
  The properties of the parts that move data: reporting to the collector, the collector's files, the
  polling of the shared memory, and the delayer.
\<close>

section \<open>Helper lemmas\<close>

lemma buffer_data_length:
  assumes "buffer_data p b = Inr data"
  shows "length data < 2 ^ 32"
proof -
  obtain header start end1 where x: "ExtractBuffer p b = Inr (header, start, end1)"
    using assms by (cases "ExtractBuffer p b") (auto simp: buffer_data_def)
  let ?size = "uint (hd_Size header)"
  have s: "?size \<le> 2 ^ 30 - start" and d: "pool_bytes p start (start + ?size) = Inr data"
    using assms x by (auto simp: buffer_data_def Let_def split: if_splits)
  have "length data \<le> nat ?size" "0 \<le> start" using d by (auto simp: pool_bytes_def split: if_splits)
  moreover have "nat ?size \<le> nat (2 ^ 30)" using s \<open>0 \<le> start\<close> by (intro nat_mono) linarith
  ultimately have "length data \<le> nat (2 ^ 30)" by (meson order_trans)
  then show ?thesis by simp
qed

lemma write_buffers_prefix:
  assumes "list_all2 (\<lambda>b data. buffer_data p b = Inr data) bs datas"
  shows "yields (write_buffers p bs conn) (\<lambda>(err, conn'). \<exists>n. w_out conn' = w_out conn @ take n (concat (map frame datas)) \<and>
     (err = None \<longrightarrow> w_out conn' = w_out conn @ concat (map frame datas)))"
  using assms
proof (induction arbitrary: conn rule: list_all2_induct)
  case (Cons b bs data datas)
  obtain e c1 where w: "writeLengthPrefixed data conn = (e, c1)" by fastforce
  obtain e0 c0 where h: "doWrite (PutUint32 (of_nat (length data))) conn = (e0, c0)" by fastforce
  obtain k where k: "w_out c0 = w_out conn @ take k (PutUint32 (of_nat (length data)))"
      "e0 = None \<longrightarrow> length (PutUint32 (of_nat (length data))) \<le> k"
    using doWrite_prefix [OF h] by blast
  have f: "\<exists>n. w_out c1 = w_out conn @ take n (frame data) \<and> (e = None \<longrightarrow> length (frame data) \<le> n)"
  proof (cases e0)
    case None
    then obtain j where j: "w_out c1 = w_out c0 @ take j data" "e = None \<longrightarrow> length data \<le> j"
      using w h doWrite_prefix [of data c0 e c1] by (auto simp: writeLengthPrefixed_def)
    then show ?thesis using k None by (intro exI [of _ "4 + j"]) (auto simp: frame_def)
  next
    case (Some x)
    have "c1 = c0" "e \<noteq> None" using w h Some by (auto simp: writeLengthPrefixed_def)
    moreover have "take (min k 4) (frame data) = take k (PutUint32 (of_nat (length data)))"
      by (simp add: frame_def take_append min_def)
    ultimately show ?thesis using k(1) by metis
  qed
  then obtain n where n: "w_out c1 = w_out conn @ take n (frame data)" "e = None \<longrightarrow> length (frame data) \<le> n" by blast
  show ?case
  proof (cases e)
    case None
    then have o: "w_out c1 = w_out conn @ frame data" using n by simp
    from Cons.IH [of c1] show ?thesis
    proof (elim yieldsE, clarify)
      fix err conn' m
      assume "write_buffers p bs c1 = Inr (err, conn')" "w_out conn' = w_out c1 @ take m (concat (map frame datas))"
        "err = None \<longrightarrow> w_out conn' = w_out c1 @ concat (map frame datas)"
      then show ?thesis using Cons(1) w None o by (auto intro!: exI [of _ "length (frame data) + m"])
    qed
  next
    case (Some x)
    then show ?thesis using Cons(1) w n by (auto intro!: exI [of _ "min n (length (frame data))"] simp: min_def)
  qed
qed simp

lemma ReportData_arrives:
  assumes "w_good conn" and "w_out conn = []" and "rp_enabled r" and "length (agent_addr r) < 2 ^ 32"
    and "list_all2 (\<lambda>b data. buffer_data p b = Inr data) (concat (rp_data r)) datas"
  shows "\<exists>r' conn'. ReportData bk clk p r conn available = Inr (None, r', conn', available @ filter (\<lambda>b. b \<noteq> []) (rp_data r)) \<and>
     (\<forall>c. r_good c \<longrightarrow> r_in c = w_out conn' \<longrightarrow> handleConnection c incoming =
        Inr (EndOfFile, incoming @ map (received (agent_addr r)) (filter (\<lambda>d. 32 \<le> length d) datas)))"
proof -
  obtain c1 where c1: "writeLengthPrefixed (bytes_of (agent_addr r)) conn = (None, c1)"
      "w_out c1 = frame (bytes_of (agent_addr r))" "w_good c1"
    using writeLengthPrefixed_good [OF assms(1), of "bytes_of (agent_addr r)"] assms(2) by auto
  obtain r' conn' where r': "report_batches bk clk p (rp_data r) r c1 available = Inr (None, r', conn', available @ filter (\<lambda>b. b \<noteq> []) (rp_data r))"
      "w_out conn' = frame (bytes_of (agent_addr r)) @ concat (map frame datas)"
    using report_batches_good [OF c1(3) assms(5,3), of bk clk available] c1(2) by auto
  have "\<forall>d\<in>set datas. length d < 2 ^ 32"
    using assms(5) buffer_data_length by (auto simp: list_all2_conv_all_nth in_set_conv_nth) (metis)
  then show ?thesis
    using r' c1(1) handleConnection_good [of _ "agent_addr r" datas incoming] assms(4)
    by (simp add: ReportData_def writeConnectionHandshake_def)
qed

section \<open>A small pool\<close>

text \<open>Two buffers of 40 bytes; the first holds 36 bytes of the trace 7, the second only 8.\<close>

definition ex_pool :: shm_pool where
  "ex_pool = \<lparr>pool = le_put 8 7 @ replicate 16 0 @ le_put 4 36 @ replicate 12 0 @
                     le_put 8 9 @ replicate 16 0 @ le_put 4 8 @ replicate 12 0, buffer_size = 40\<rparr>"

definition ex_reporting :: "unit Reporting" where
  "ex_reporting = (InitReporting \<lparr>bk_new = \<lambda>_ _. (), bk_available = \<lambda>_ _. 1, bk_take = \<lambda>_ _ _. ()\<rparr> ex_pool 0 True ''c'' ''host'' ''50'')
     \<lparr>rp_data := [[0], [1]]\<rparr>"

definition ex_datas :: "byte list list" where
  "ex_datas = [take 36 (pool ex_pool), take 8 (drop 40 (pool ex_pool))]"

lemma ex_pool_data: "list_all2 (\<lambda>b data. buffer_data ex_pool b = Inr data) [0, 1] ex_datas"
proof -
  have "buffer_data ex_pool 0 = Inr (take 36 (pool ex_pool))" by code_simp
  moreover have "buffer_data ex_pool 1 = Inr (take 8 (drop 40 (pool ex_pool)))" by code_simp
  ultimately show ?thesis by (simp add: ex_datas_def)
qed

definition ex_wconn :: wconn where
  "ex_wconn = \<lparr>w_out = [], w_plan = [Writes 3, Writes 0, Writes 50]\<rparr>"

lemma ex_wconn_good: "w_good ex_wconn" "w_out ex_wconn = []"
  by (simp_all add: ex_wconn_def w_good_def)

section \<open>Properties\<close>

text \<open>
  Reported data arrives. However writes and reads are split, if the connection does not fail the
  collector receives, in order and under the agent's address, exactly the contents of the buffers
  that were pending, without those too short to hold a header, and the agent returns every batch.
\<close>

theorem reported_buffers_arrive:
  assumes "w_good conn" and "w_out conn = []" and "rp_enabled r" and "length (agent_addr r) < 2 ^ 32"
    and "list_all2 (\<lambda>b data. buffer_data p b = Inr data) (concat (rp_data r)) datas"
  shows "\<exists>r' conn'. ReportData bk clk p r conn available = Inr (None, r', conn', available @ filter (\<lambda>b. b \<noteq> []) (rp_data r)) \<and>
     (\<forall>c. r_good c \<longrightarrow> r_in c = w_out conn' \<longrightarrow> handleConnection c incoming =
        Inr (EndOfFile, incoming @ map (received (agent_addr r)) (filter (\<lambda>d. 32 \<le> length d) datas)))"
  by (rule ReportData_arrives [OF assms])

theorem reported_buffers_arrive_witness:
  "\<exists>r' conn'. ReportData \<lparr>bk_new = \<lambda>_ _. (), bk_available = \<lambda>_ _. 1, bk_take = \<lambda>_ _ _. ()\<rparr> (\<lambda>_. 0) ex_pool ex_reporting ex_wconn []
     = Inr (None, r', conn', [[0], [1]])"
  using reported_buffers_arrive [OF ex_wconn_good, of ex_reporting ex_pool ex_datas
      "\<lparr>bk_new = \<lambda>_ _. (), bk_available = \<lambda>_ _. 1, bk_take = \<lambda>_ _ _. ()\<rparr>" "\<lambda>_. 0" "[]" "[]"] ex_pool_data
  by (auto simp: ex_reporting_def InitReporting_def Let_def)

text \<open>
  If a write fails, the error is passed on, what has been sent is a prefix of what was to be
  sent, and the batch is returned to the available queue all the same.
\<close>

theorem reportData_on_error:
  assumes "list_all2 (\<lambda>b data. buffer_data p b = Inr data) buffers datas"
  shows "yields (reportData bk t p buffers r conn available) (\<lambda>(err, r', conn', available').
     concat available' = concat available @ buffers \<and>
     (\<exists>n. w_out conn' = w_out conn @ take n (concat (map frame datas))) \<and>
     (rp_enabled r \<and> err = None \<longrightarrow> w_out conn' = w_out conn @ concat (map frame datas)))"
proof (cases "rp_enabled r")
  case True
  obtain err c1 where c1: "write_buffers p buffers conn = Inr (err, c1)"
      "\<exists>n. w_out c1 = w_out conn @ take n (concat (map frame datas))"
      "err = None \<longrightarrow> w_out c1 = w_out conn @ concat (map frame datas)"
    using write_buffers_prefix [OF assms, of conn] by (elim yieldsE) auto
  then show ?thesis using True by (simp add: reportData_def Let_def)
next
  case False
  then show ?thesis by (simp add: reportData_def Let_def exI [of _ 0])
qed

theorem reportData_on_error_witness:
  "yields (reportData \<lparr>bk_new = \<lambda>_ _. (), bk_available = \<lambda>_ _. 1, bk_take = \<lambda>_ _ _. ()\<rparr> 0 ex_pool [0, 1] ex_reporting
       \<lparr>w_out = [], w_plan = [Writes 4, WriteFails 2]\<rparr> [[5]])
     (\<lambda>(err, r', conn', available'). concat available' = [5, 0, 1])"
  using reportData_on_error [OF ex_pool_data, of "\<lparr>bk_new = \<lambda>_ _. (), bk_available = \<lambda>_ _. 1, bk_take = \<lambda>_ _ _. ()\<rparr>" 0 ex_reporting
      "\<lparr>w_out = [], w_plan = [Writes 4, WriteFails 2]\<rparr>" "[[5]]"]
  by (elim yieldsE) auto

text \<open>
  What the collector writes to its file can be read back: buffer by buffer, with the agent that
  sent it, as long as none is longer than 100 MB. A longer buffer is written all the same, and reading
  it is an error.
\<close>

theorem file_roundtrip:
  assumes "w_good f" and "w_out f = []" and "f_good c" and "r_in c = w_out (snd (fileWriter rs 0 f))"
    and "\<forall>b\<in>set rs. length (source_agent b) \<le> 1024 * 1024 * 100 \<and> length (rb_buffer b) < 2 ^ 32"
  shows "((\<forall>b\<in>set rs. length (rb_buffer b) \<le> 1024 * 1024 * 100) \<longrightarrow>
       read_all (length rs) c = map (\<lambda>b. (source_agent b, rb_buffer b)) rs) \<and>
     (rs \<noteq> [] \<and> 1024 * 1024 * 100 < length (rb_buffer (hd rs)) \<longrightarrow>
       fst (ReadFromFile c) = Inl (InvalidRead (length (rb_buffer (hd rs)))))"
proof (rule conjI)
  have i: "r_in c = concat (map (\<lambda>b. frame (bytes_of (source_agent b)) @ frame (rb_buffer b)) rs)"
    using fileWriter_good [OF assms(1), of rs 0] assms(2,4) by simp
  show "(\<forall>b\<in>set rs. length (rb_buffer b) \<le> 1024 * 1024 * 100) \<longrightarrow>
       read_all (length rs) c = map (\<lambda>b. (source_agent b, rb_buffer b)) rs"
    using read_all_good [OF assms(3) i] assms(5) by blast
  show "rs \<noteq> [] \<and> 1024 * 1024 * 100 < length (rb_buffer (hd rs)) \<longrightarrow>
       fst (ReadFromFile c) = Inl (InvalidRead (length (rb_buffer (hd rs))))"
    using ReadFromFile_good [OF assms(3), of "hd rs"] i assms(5) by (cases rs) auto
qed

theorem file_roundtrip_witness:
  "read_all 1 \<lparr>r_in = w_out (snd (fileWriter [received ''a'' [1, 2, 3]] 0 ex_wconn)), r_plan = [Reads 2]\<rparr> = [(''a'', [1, 2, 3])]"
  using file_roundtrip [OF ex_wconn_good, of "\<lparr>r_in = w_out (snd (fileWriter [received ''a'' [1, 2, 3]] 0 ex_wconn)), r_plan = [Reads 2]\<rparr>"
      "[received ''a'' [1, 2, 3]]"]
  by (simp add: f_good_def received_def)

text \<open>
  A turn of a polling loop ends and empties the queue: every element is put into the channel, in
  batches in the order of the queue, grouped by trace where the loop groups. The backoff stays between
  0 and 100 ms; once it is 0 it stays 0 unless more than 100 elements arrive at once.
\<close>

theorem polling_turn:
  assumes "0 \<le> backoff" and "backoff \<le> 100000"
  shows "yields (completeLoop_turn q ch backoff) (\<lambda>(q', ch', backoff'). q' = [] \<and> 0 \<le> backoff' \<and> backoff' \<le> 100000 \<and>
       (\<exists>bs. concat bs = q \<and> ch' = ch @ map (\<lambda>b. group_by b []) bs \<and>
          (\<forall>b\<in>set bs. \<forall>i. group_of (group_by b []) i = map snd (filter (\<lambda>x. fst x = i) b)) \<and>
          mset (concat (map snd (concat (map (\<lambda>b. group_by b []) bs)))) = mset (map snd q)) \<and>
       (backoff = 0 \<and> length q \<le> 100 \<longrightarrow> backoff' = 0))
     \<and> yields (triggerLoop_turn tq tch backoff) (\<lambda>(q', ch', backoff'). q' = [] \<and> concat ch' = concat tch @ tq)"
proof (rule conjI)
  have b: "0 \<le> next_backoff k backoff" "next_backoff k backoff \<le> 100000"
      "backoff = 0 \<Longrightarrow> k \<le> 100 \<Longrightarrow> next_backoff k backoff = 0" for k
    using assms by (auto simp: next_backoff_def Let_def)
  obtain q' ch' bs where r: "drainBatches 20 q ch = Inr (length q, q', ch')" "q' = []" "ch' = ch @ map (\<lambda>b. group_by b []) bs"
      "concat bs = q"
    using drain_ok [OF gets_calls(1), of 20 q "Suc (length q)" 0 ch] by (auto simp: drainBatches_def BATCHSIZE_def elim!: yieldsE)
  have "mset (concat (map snd (concat (map (\<lambda>b. group_by b []) bs)))) = mset (map snd (concat bs))"
    by (induction bs) (simp_all add: mset_group_by)
  then show "yields (completeLoop_turn q ch backoff) (\<lambda>(q', ch', backoff'). q' = [] \<and> 0 \<le> backoff' \<and> backoff' \<le> 100000 \<and>
       (\<exists>bs. concat bs = q \<and> ch' = ch @ map (\<lambda>b. group_by b []) bs \<and>
          (\<forall>b\<in>set bs. \<forall>i. group_of (group_by b []) i = map snd (filter (\<lambda>x. fst x = i) b)) \<and>
          mset (concat (map snd (concat (map (\<lambda>b. group_by b []) bs)))) = mset (map snd q)) \<and>
       (backoff = 0 \<and> length q \<le> 100 \<longrightarrow> backoff' = 0))"
    using r b [of "int (length q)"] group_by_ok [where m = "[]"]
    by (simp add: completeLoop_turn_def) (auto simp: group_of_def [of "[]"] intro!: exI [of _ bs])
next
  show "yields (triggerLoop_turn tq tch backoff) (\<lambda>(q', ch', backoff'). q' = [] \<and> concat ch' = concat tch @ tq)"
    using drain_ok [OF gets_calls(2), of 20 tq "Suc (length tq)" 0 tch]
    by (auto simp: triggerLoop_turn_def drainTriggers_def BATCHSIZE_def elim!: yieldsE)
qed

theorem polling_turn_witness:
  "yields (completeLoop_turn [(7, 1), (8, 2), (7, 3)] [] 0) (\<lambda>(q', ch', backoff'). q' = [] \<and> backoff' = 0)"
  using polling_turn [of 0 "[(7, 1), (8, 2), (7, 3)]" "[]" "[]" "[]"] by (auto elim!: yieldsE)

text \<open>
  Buffers circulate without loss. Whatever clients and agent do and in whatever order the loops of
  the shared memory take their turns, every buffer that was available at the start is in exactly one
  place: available, with a client, completed, in one of the channels, or with the agent. No loop
  panics or runs forever, and their pauses stay within 100 ms.
\<close>

theorem buffers_circulate:
  assumes "circulates m c" and "\<forall>b\<in>set (shm_available m). is_int32 b"
  shows "everywhere c = mset (shm_available m) \<and> backoffs_ok (ci_api c) \<and>
    (\<forall>k r. memory_Run_turn k (ci_api c) = Some r \<longrightarrow> yields r (\<lambda>s'. everywhere (c\<lparr>ci_api := s'\<rparr>) = mset (shm_available m)))"
proof (intro conjI allI impI)
  note ok = circulates_ok [OF assms]
  then show "everywhere c = mset (shm_available m)" "backoffs_ok (ci_api c)" by simp_all
  fix k r assume r: "memory_Run_turn k (ci_api c) = Some r"
  have "set (concat (api_Available (as_api (ci_api c)))) \<subseteq> set_mset (everywhere c)" by (auto simp: everywhere_def Let_def)
  then have "all_int32 (mset (concat (api_Available (as_api (ci_api c)))))" using ok assms(2) by (auto simp: all_int32_def)
  from memory_Run_turn_ok [OF this _ r, of c] ok show "yields r (\<lambda>s'. everywhere (c\<lparr>ci_api := s'\<rparr>) = mset (shm_available m))"
    by (auto elim!: yieldsE)
qed

text \<open>A client takes the buffer 4 and completes it for the trace 7.\<close>

definition ex_shm :: shm where
  "ex_shm = \<lparr>shm_available = [4, 5], shm_complete = [], shm_triggers = [], shm_breadcrumbs = [], shm_buffers = ex_pool, shm_capacity = 2\<rparr>"

definition ex_used :: circulation where
  "ex_used = \<lparr>ci_api = (api_state_Init ex_shm)\<lparr>as_shm := ex_shm\<lparr>shm_available := [5], shm_complete := [(7, 4)]\<rparr>\<rparr>,
     ci_clients = {#}, ci_agent = {#}\<rparr>"

lemma ex_used_reach: "circulates ex_shm ex_used"
proof -
  have "circulates ex_shm \<lparr>ci_api = api_state_Init ex_shm, ci_clients = {#}, ci_agent = {#}\<rparr>"
    by (rule circulates.start) (simp add: ex_shm_def)
  from circulates.acquire [OF this refl, of 4 "[5]"]
  have "circulates ex_shm \<lparr>ci_api = (api_state_Init ex_shm)\<lparr>as_shm := ex_shm\<lparr>shm_available := [5]\<rparr>\<rparr>, ci_clients = {#4#}, ci_agent = {#}\<rparr>"
    by (simp add: ex_shm_def api_state_Init_def)
  from circulates.complete [OF this refl, of 4 7] show ?thesis by (simp add: ex_used_def ex_shm_def api_state_Init_def)
qed

theorem buffers_circulate_witness:
  "\<exists>s'. memory_Run_turn CompleteLoop (ci_api ex_used) = Some (Inr s') \<and> shm_complete (as_shm s') = [] \<and>
     everywhere (ex_used\<lparr>ci_api := s'\<rparr>) = {#4, 5#}"
proof -
  have "map_option (\<lambda>r. case r of Inl _ \<Rightarrow> None | Inr s \<Rightarrow> Some (shm_complete (as_shm s))) (memory_Run_turn CompleteLoop (ci_api ex_used))
      = Some (Some [])" by code_simp
  then obtain s' where s': "memory_Run_turn CompleteLoop (ci_api ex_used) = Some (Inr s')" "shm_complete (as_shm s') = []"
    by (auto split: sum.splits)
  have "\<forall>b\<in>set (shm_available ex_shm). is_int32 b" by (simp add: ex_shm_def is_int32_def)
  then have "yields (Inr s') (\<lambda>s'. everywhere (ex_used\<lparr>ci_api := s'\<rparr>) = mset (shm_available ex_shm))"
    using buffers_circulate [OF ex_used_reach] s'(1) by blast
  then show ?thesis using s' by (intro exI [of _ s']) (simp add: ex_shm_def)
qed

text \<open>
  C39. The delayer loses nothing, keeps the order and does not let a batch pass before its delay is
  over; while something is delayed a timer runs that fires by the first deadline, and when it fires
  after that deadline the batch is passed on.
\<close>

theorem delayer_correct:
  assumes "del_ok n d" and "n \<le> n'" and "applyDelay n' e d = Some d'"
  shows "del_ok n' d' \<and> all_batches d' = all_batches d @ (case e of Arrives b \<Rightarrow> [b] | TimerFires \<Rightarrow> []) \<and>
     (\<exists>k. Outgoing d' = Outgoing d @ map dt_triggers (take k (delayed d)) \<and>
        (\<forall>t\<in>set (take k (delayed d)). trigger_at t < n') \<and>
        (e = TimerFires \<and> trigger_at (hd (delayed d)) < n' \<longrightarrow> 0 < k))"
proof (cases e)
  case (Arrives b)
  then have "d' = addTriggers n' b d" using assms(3) by simp
  moreover have "trigger_at t \<le> n' + delay d" if "t \<in> set (delayed d)" for t
    using assms(1,2) that by (fastforce simp: del_ok_def)
  ultimately show ?thesis
    using assms(1) Arrives
    by (cases "delayed d") (auto simp: addTriggers_def Let_def del_ok_def all_batches_def sorted_append intro!: exI [of _ 0])
next
  case TimerFires
  then have d': "d' = check_timeouts_loop n' (delayed d) (d\<lparr>timer := None\<rparr>)" "delayed d \<noteq> []"
    using assms(3) by (auto simp: checkTimeouts_def split: option.splits if_splits)
  obtain k where k: "Outgoing d' = Outgoing d @ map dt_triggers (take k (delayed d))" "delayed d' = drop k (delayed d)"
      "delay d' = delay d" "\<forall>t\<in>set (take k (delayed d)). trigger_at t < n'"
      "k < length (delayed d) \<longrightarrow> n' \<le> trigger_at (delayed d ! k) \<and> timer d' = Some (n' + time_sub (trigger_at (delayed d ! k)) n')"
    using loop_split [of n' "delayed d" "d\<lparr>timer := None\<rparr>"] d'(1) by auto
  have "sorted (map trigger_at (delayed d'))" using assms(1) k(2) by (simp add: del_ok_def drop_map [symmetric] sorted_wrt_drop)
  moreover have "\<forall>t\<in>set (delayed d'). trigger_at t \<le> n' + delay d'"
    using assms(1,2) k(2,3) by (fastforce simp: del_ok_def dest: in_set_dropD)
  moreover have "\<exists>m. timer d' = Some m \<and> m \<le> trigger_at t" if "delayed d' = t # ts" for t ts
  proof -
    have l: "k < length (delayed d)" using that k(2) by (metis drop_all leI list.distinct(1))
    then have "t = delayed d ! k" using that k(2) by (metis hd_drop_conv_nth list.sel(1))
    then show ?thesis using k(5) l by (auto simp: time_sub_def)
  qed
  ultimately have "del_ok n' d'" by (simp add: del_ok_def)
  moreover have "all_batches d' = all_batches d"
    using k(1,2) by (simp add: all_batches_def) (metis append_take_drop_id map_append)
  moreover have "0 < k" if "trigger_at (hd (delayed d)) < n'"
    using k(5) that d'(2) by (cases k) (auto simp: hd_conv_nth)
  ultimately show ?thesis using k(1,4) TimerFires by auto
qed

theorem delayer_correct_witness:
  "del_ok 5 (addTriggers 5 [] (delayTriggers 3))"
  using delayer_correct [of 0 "delayTriggers 3" 5 "Arrives []"] by (simp add: del_ok_def delayTriggers_def)

end
