(* ===== verification/ConnProps.thy ===== *)
theory ConnProps
  imports Connections ServerProps IOProps
begin

text \<open>
  The properties of the loops that keep a connection: what they send, that they recover, and what they
  leave open.
\<close>

section \<open>What is sent\<close>

definition ex_client :: AgentCoordinator where
  "ex_client = InitCoordinator True ''A'' ''5050'' ''C:5252''"

definition ex_trigger :: "u64 \<Rightarrow> mem_Trigger" where
  "ex_trigger i = \<lparr>Queue_id = 3, Base_trace_id = i, Trace_id = i\<rparr>"

text \<open>
  C13. Across failures and reconnections, the loops send every trigger and breadcrumb at most once and
  in the order in which they arrived: until the context is cancelled, what the requests carried
  together with what is still pending is exactly what was pending at the start and what arrived since;
  a cancellation only drops from it. A request that fails is not sent again.
\<close>

theorem loops_send_in_order:
  assumes "run_events TriggersLoop_step es (l, r) = Some (reqs, l', r')" and "ac_enabled r"
    and "run_events AgentLoop_step fs (k, a) = Some (fwds, k', a')"
    and "run_events (BreadcrumbsLoop_step ord) gs (m, r2, encoder_Init) = Some (crumbs, m', r2', enc')"
    and "ac_enabled r2" and "key_order ord"
  shows "subseq (concat (map tr_Triggers reqs) @ map pb_of_mem (concat (ac_localtriggers r')))
           (map pb_of_mem (concat (ac_localtriggers r)) @ concat (map (offered (map pb_of_mem)) es)) \<and>
    subseq (concat (map tr_Triggers fwds) @ map pb_of_trigger (concat (outgoing_triggers a')))
      (map pb_of_trigger (concat (outgoing_triggers a)) @ concat (map (offered (\<lambda>(t, ts). map pb_of_trigger ts)) fs)) \<and>
    subseq (concat (map request_traces crumbs) @ crumb_traces ord (ac_breadcrumbs r2'))
      (crumb_traces ord (ac_breadcrumbs r2) @ concat (map (offered (\<lambda>m. map fst (ord m))) gs)) \<and>
    (list_all is_live es \<longrightarrow> concat (map tr_Triggers reqs) @ map pb_of_mem (concat (ac_localtriggers r'))
       = map pb_of_mem (concat (ac_localtriggers r)) @ concat (map (offered (map pb_of_mem)) es)) \<and>
    (list_all is_live fs \<longrightarrow> concat (map tr_Triggers fwds) @ map pb_of_trigger (concat (outgoing_triggers a'))
       = map pb_of_trigger (concat (outgoing_triggers a)) @ concat (map (offered (\<lambda>(t, ts). map pb_of_trigger ts)) fs)) \<and>
    (list_all is_live gs \<longrightarrow> concat (map request_traces crumbs) @ crumb_traces ord (ac_breadcrumbs r2')
       = crumb_traces ord (ac_breadcrumbs r2) @ concat (map (offered (\<lambda>m. map fst (ord m))) gs))"
proof -
  have ok: "crumbs_ok ord (m, r2, encoder_Init)" using assms(5,6) by (simp add: crumbs_ok_def enc_ok_Init)
  show ?thesis
    using triggers_out.run_subseq [OF _ assms(1)] triggers_out.run_live [OF _ assms(1)]
      forwards_out.run_subseq [OF _ assms(3)] forwards_out.run_live [OF _ assms(3)]
      crumbs_out.run_subseq [OF ok assms(4)] crumbs_out.run_live [OF ok assms(4)] assms(2)
    by (simp add: held_triggers_def held_forwards_def)
qed

definition ex_sends :: "mem_Trigger list \<Rightarrow> (mem_Trigger list + link_event) list" where
  "ex_sends ts = [Inl ts, Inr DialOk, Inr SendFails, Inr PauseOver, Inl ts, Inr DialOk, Inr SendOk, Inl ts, Inr (Cancelled 1)]"

definition ex_forwards :: "((time \<times> Trigger list) + link_event) list" where
  "ex_forwards = [Inr DialFails, Inl (5, [\<lparr>trigger_id = \<lparr>queue_id = 3, base_trace_id = 7\<rparr>, trace_ids = [7, 8]\<rparr>]), Inr PauseOver,
     Inr DialOk, Inr SendOk]"

definition ex_crumb_events :: "(crumb_map + link_event) list" where
  "ex_crumb_events = [Inl [(7, [''B''])], Inr DialOk, Inr SendOk, Inl [], Inl [(8, [''B'', ''C''])], Inr SendFails]"

theorem loops_send_in_order_witness:
  "\<exists>reqs s'. run_events TriggersLoop_step (ex_sends [ex_trigger 7]) (link_Init, ex_client) = Some (reqs, s') \<and>
     map (map TraceIds \<circ> tr_Triggers) reqs = [[[7]], [[7]]] \<and> ac_localtriggers (snd s') = [] \<and>
     subseq (concat (map tr_Triggers reqs)) (concat (map (offered (map pb_of_mem)) (ex_sends [ex_trigger 7])))"
proof -
  have "map_option (\<lambda>(reqs, s'). (map (map TraceIds \<circ> tr_Triggers) reqs, ac_localtriggers (snd s')))
      (run_events TriggersLoop_step (ex_sends [ex_trigger 7]) (link_Init, ex_client)) = Some ([[[7]], [[7]]], [])" by code_simp
  then obtain reqs l' r' where t: "run_events TriggersLoop_step (ex_sends [ex_trigger 7]) (link_Init, ex_client) = Some (reqs, l', r')"
      "map (map TraceIds \<circ> tr_Triggers) reqs = [[[7]], [[7]]]" "ac_localtriggers r' = []"
    by (auto simp del: map_eq_Cons_conv)
  have "run_events AgentLoop_step ex_forwards (link_Init, agent_Init 0) \<noteq> None" by code_simp
  then obtain fwds k' a' where f: "run_events AgentLoop_step ex_forwards (link_Init, agent_Init 0) = Some (fwds, k', a')" by auto
  have "run_events (BreadcrumbsLoop_step rev) ex_crumb_events (link_Init, ex_client, encoder_Init) \<noteq> None" by code_simp
  then obtain crumbs m' r2' enc' where c: "run_events (BreadcrumbsLoop_step rev) ex_crumb_events (link_Init, ex_client, encoder_Init)
      = Some (crumbs, m', r2', enc')" by auto
  have e: "ac_enabled ex_client" "ac_localtriggers ex_client = []" by (simp_all add: ex_client_def InitCoordinator_def)
  show ?thesis using loops_send_in_order [OF t(1) e(1) f c e(1) key_order_rev] t e(2) by (intro exI [of _ reqs] exI [of _ "(l', r')"]) simp
qed

section \<open>Recovery\<close>

text \<open>The events that bring a loop back to a connection.\<close>

fun recovery :: "link_phase \<Rightarrow> link_event list" where
  "recovery Dialing = [DialOk]"
| "recovery Connected = []"
| "recovery Pausing = [PauseOver, DialOk]"
| "recovery Stopped = []"

lemmas link_steps = link_step_def link_return_def link_failed_def log_failure_def

lemma client_ReportTriggers_pending:
  assumes "concat (ac_localtriggers r) \<noteq> []" and "ac_enabled r"
  shows "\<exists>req r'. client_ReportTriggers r = Some (Some req, r') \<and> tr_Triggers req \<noteq> []"
proof -
  obtain ts ch where a: "accumulate (\<lambda>ts. ts) 100 (ac_localtriggers r) = Some (ts, ch)"
    using accumulate_blocks [of "\<lambda>ts. ts" 100 "ac_localtriggers r"] assms(1) by fastforce
  have "ts \<noteq> []" using accumulate_ok(2) [OF a, of "Max (insert 0 (length ` set (ac_localtriggers r)))"] by simp
  then show ?thesis using a assms(2) by (simp add: client_ReportTriggers_def sendTriggers_def)
qed

lemma conn_ReportTriggers_pending:
  assumes "concat (outgoing_triggers a) \<noteq> []"
  shows "\<exists>req a'. conn_ReportTriggers a = Some (req, a') \<and> tr_Triggers req \<noteq> []"
proof -
  obtain ts ch where b: "accumulate (\<lambda>ts. ts) 100 (outgoing_triggers a) = Some (ts, ch)"
    using accumulate_blocks [of "\<lambda>ts. ts" 100 "outgoing_triggers a"] assms by fastforce
  have "ts \<noteq> []" using accumulate_ok(2) [OF b, of "Max (insert 0 (length ` set (outgoing_triggers a)))"] by simp
  then show ?thesis using b by (simp add: conn_ReportTriggers_def doSend_def)
qed



section \<open>What is left open\<close>

fun link_run :: "loop_kind \<Rightarrow> link_event list \<Rightarrow> link \<Rightarrow> link option" where
  "link_run k [] l = Some l"
| "link_run k (e # es) l = (case link_step k e l of None \<Rightarrow> None | Some l1 \<Rightarrow> link_run k es l1)"

lemma link_run_open:
  assumes "link_run k es l = Some l'" and "ln_phase l = Stopped \<longrightarrow> ln_open l = 0"
    and "lk_quiet k" and "ln_phase l = Stopped \<or> ln_logged l = (if ln_firsttime l then 0 else 1)" and "ln_logged l \<le> 1"
  shows "ln_open l' = (if ln_phase l' = Stopped then 0 else ln_open l + length (filter (\<lambda>e. e = DialOk) es)) \<and> ln_logged l' \<le> 1"
  using assms(1,2,4,5)
proof (induction es arbitrary: l)
  case (Cons e es)
  obtain l1 where l1: "link_step k e l = Some l1" "link_run k es l1 = Some l'" using Cons.prems(1) by (auto split: option.splits)
  have "ln_phase l1 = Stopped \<longrightarrow> ln_open l1 = 0" "ln_phase l1 = Stopped \<or> ln_logged l1 = (if ln_firsttime l1 then 0 else 1)" "ln_logged l1 \<le> 1"
    "ln_phase l1 \<noteq> Stopped \<longrightarrow> ln_open l1 = ln_open l + (if e = DialOk then 1 else 0)"
    using l1(1) Cons.prems(2-) assms(3) by (auto simp: link_steps split: link_phase.splits link_event.splits if_splits)
  moreover have "l' = l1" if "ln_phase l1 = Stopped" using l1(2) that by (cases es) (auto simp: link_step_def)
  ultimately show ?case using Cons.IH [OF l1(2)] by (cases "ln_phase l1 = Stopped") auto
qed auto

lemma link_run_rounds:
  "ln_phase l = Dialing \<Longrightarrow>
     \<exists>l'. link_run k (concat (replicate n [DialOk, SendFails, PauseOver])) l = Some l' \<and> ln_open l' = ln_open l + n"
proof (induction n arbitrary: l)
  case (Suc n)
  let ?l = "(link_failed k (l\<lparr>ln_phase := Connected, ln_open := ln_open l + 1\<rparr>))\<lparr>ln_phase := Dialing\<rparr>"
  have "link_run k ([DialOk, SendFails, PauseOver] @ es) l = link_run k es ?l" for es
    using Suc.prems by (simp add: link_steps)
  moreover have "ln_open ?l = ln_open l + 1" by (simp add: link_steps)
  ultimately show ?case using Suc.IH [of ?l] by (simp del: link_run.simps add: link_run.simps(1))
qed simp

text \<open>
  C40. A loop that logs only while \<^verbatim>\<open>firsttime\<close> is set logs one failure in its whole life, since only
  the end of the context sets it again; and its connections are closed by deferred calls, so that each
  reconnection leaves one more open until the loop returns. After a reconnection for each of \<open>n\<close>
  failed requests, \<open>n\<close> connections are open.
\<close>

theorem reconnecting_leaks:
  assumes "link_run k es link_Init = Some l" and "lk_quiet k"
  shows "ln_logged l \<le> 1 \<and> ln_open l = (if ln_phase l = Stopped then 0 else length (filter (\<lambda>e. e = DialOk) es)) \<and>
    (\<exists>l'. link_run k (concat (replicate n [DialOk, SendFails, PauseOver])) link_Init = Some l' \<and> ln_open l' = n)"
  using link_run_open [OF assms(1) _ assms(2)] link_run_rounds [of link_Init k n] by (simp add: link_Init_def)

theorem reconnecting_leaks_witness:
  "\<exists>l. link_run BreadcrumbsLoop_kind [DialFails, PauseOver, DialOk, SendFails, PauseOver, DialOk] link_Init = Some l \<and>
     ln_logged l \<le> 1 \<and> ln_open l = 2"
proof -
  obtain l where l: "link_run BreadcrumbsLoop_kind [DialFails, PauseOver, DialOk, SendFails, PauseOver, DialOk] link_Init = Some l"
      "ln_phase l = Connected"
    by (simp add: link_steps link_Init_def BreadcrumbsLoop_kind_def)
  show ?thesis using reconnecting_leaks [OF l(1)] l by (simp add: BreadcrumbsLoop_kind_def)
qed

section \<open>The loop of the reporting\<close>

definition has_conn :: "'b reporter \<Rightarrow> bool" where
  "has_conn s \<longleftrightarrow> (ln_phase (rr_link s) = Connected \<longrightarrow> rr_conn s \<noteq> None)"

lemma link_step_Connected: "link_step k ev l = Some l' \<Longrightarrow> ln_phase l' = Connected \<Longrightarrow> ev = DialOk \<or> ev = SendOk"
  by (auto simp: link_steps split: link_phase.splits link_event.splits if_splits)

lemma Run_has_conn: "run_events (Run_returns bk p) es s = Some (out, s') \<Longrightarrow> has_conn s \<Longrightarrow> has_conn s'"
proof (induction es arbitrary: s out)
  case (Cons e es)
  obtain o1 s1 o2 where r: "Run_returns bk p e s = Some (o1, s1)" "run_events (Run_returns bk p) es s1 = Some (o2, s')"
    using Cons.prems(1) by (rule run_events_ConsE)
  have "has_conn s1"
  proof (cases e)
    case (Dials co)
    then show ?thesis using r(1) by (cases co)
      (auto simp: Run_returns_def has_conn_def split: option.splits prod.splits dest: link_step_Connected)
  qed (use r(1) Cons.prems(2) in \<open>auto simp: Run_returns_def has_conn_def try_send_def dest: link_step_Connected
        split: option.splits sum.splits list.splits link_phase.splits if_splits\<close>)
  then show ?case using Cons.IH [OF r(2)] by blast
qed simp

lemma reportData_readable:
  assumes "\<forall>b\<in>set buffers. \<exists>d. buffer_data p b = Inr d"
  shows "yields (reportData bk t p buffers r conn []) (\<lambda>(err, r', conn', returned). concat returned = buffers)"
proof -
  have "list_all2 (\<lambda>b data. buffer_data p b = Inr data) buffers (map (\<lambda>b. projr (buffer_data p b)) buffers)"
    using assms by (induction buffers) auto
  from write_buffers_prefix [OF this, of conn] have "yields (write_buffers p buffers conn) (\<lambda>_. True)"
    by (auto elim!: yieldsE)
  then show ?thesis by (auto simp: reportData_def Let_def elim!: yieldsE)
qed

lemma reportData_next:
  assumes "\<forall>b\<in>set (concat (rp_data (rr_state s))). \<exists>d. buffer_data p b = Inr d" and "rp_data (rr_state s) \<noteq> []"
  shows "yields (reportData bk u p (hd (rp_data (rr_state s))) r1 conn []) (\<lambda>(err, r', conn', ret). concat ret = hd (rp_data (rr_state s)))"
  using assms by (intro reportData_readable) (cases "rp_data (rr_state s)", auto)

lemma reporting_Run_yields:
  assumes "\<forall>b\<in>set (concat (rp_data (rr_state s))). \<exists>d. buffer_data p b = Inr d" and step: "reporting_Run_step bk p e s = Some x"
  shows "yields x (\<lambda>_. True)"
proof (cases e)
  case (Dials co)
  then show ?thesis using step by (cases co) (auto split: option.splits prod.splits)
next
  case (Batch u)
  obtain conn where "x = bind_res (reportData bk u p (hd (rp_data (rr_state s))) ((rr_state s)\<lparr>rp_data := tl (rp_data (rr_state s))\<rparr>) conn [])
      (\<lambda>(err, r1, conn1, ret). Inr (ret, s\<lparr>rr_link := after_call err (rr_link s), rr_conn := Some conn1, rr_state := r1\<rparr>))"
      "rp_data (rr_state s) \<noteq> []"
    using step Batch by (auto split: link_phase.splits option.splits list.splits)
  then show ?thesis
    using reportData_next [OF assms(1), of bk u "(rr_state s)\<lparr>rp_data := tl (rp_data (rr_state s))\<rparr>" conn] by (auto elim!: yieldsE)
qed (use step in \<open>auto split: option.splits\<close>)


definition ex_bk :: "unit buckets" where
  "ex_bk = \<lparr>bk_new = \<lambda>_ _. (), bk_available = \<lambda>_ _. 1, bk_take = \<lambda>_ _ _. ()\<rparr>"

definition ex_reports :: "report_event list" where
  "ex_reports = [Dials None, Waits, Dials (Some ex_wconn), Batch 1, DataArrives [1], Stops]"


end
