(* ===== verification/Reconnect.thy ===== *)
theory Reconnect
  imports ConnProps
begin

text \<open>
  An agent's breadcrumbs and the coordinator together. The agent replaces addresses by identifiers
  that are valid for one connection; the coordinator keeps one table for the agent, whatever its
  connections, and handles requests later than it accepts them. This theory follows both, with any
  other agents beside them, through failures and reconnections.
\<close>

section \<open>Runs\<close>

type_synonym crumb_link = "link \<times> AgentCoordinator \<times> encoder"

text \<open>
  \<open>crumb_reach ord co src G s cs\<close>: the breadcrumbs loop of the agent \<open>src\<close> can be in the state \<open>s\<close> and
  the server in \<open>cs\<close>, after the agent was given the breadcrumbs \<open>G\<close>. A request that the agent tries to
  send is queued, whether or not its reply comes in time; or it is lost, which the agent notices. Other
  agents send what they want. Not covered is a request that the server drops because its queue is
  full, which the agent takes for a success. Identifiers of one connection are at most \<open>2 ^ 32\<close>.
\<close>

inductive crumb_reach ::
  "(crumb_map \<Rightarrow> crumb_map) \<Rightarrow> coord_orders \<Rightarrow> string \<Rightarrow> crumb_map set \<Rightarrow> crumb_link \<Rightarrow> CoordinatorServer \<Rightarrow> bool"
  for ord co src where
  start: "local_addr r = src \<Longrightarrow> ac_enabled r \<Longrightarrow> ac_breadcrumbs r = [] \<Longrightarrow>
    crumb_reach ord co src {} (link_Init, r, encoder_Init) (server_Init t with_log)"
| arrives: "crumb_reach ord co src G s cs \<Longrightarrow> BreadcrumbsLoop_step ord (Inl m) s = Some (out, s') \<Longrightarrow>
    crumb_reach ord co src (insert m G) s' cs"
| control: "crumb_reach ord co src G s cs \<Longrightarrow> BreadcrumbsLoop_step ord (Inr ev) s = Some ([], s') \<Longrightarrow>
    crumb_reach ord co src G s' cs"
| queued: "crumb_reach ord co src G s cs \<Longrightarrow> BreadcrumbsLoop_step ord (Inr ev) s = Some ([req], l, r, enc) \<Longrightarrow>
    length (addr_to_id enc) \<le> 2 ^ 32 \<Longrightarrow> Breadcrumbs lock t t' req cs = (True, cs') \<Longrightarrow>
    crumb_reach ord co src G (l, r, enc) cs'"
| lost: "crumb_reach ord co src G s cs \<Longrightarrow> BreadcrumbsLoop_step ord (Inr SendFails) s = Some ([req], s') \<Longrightarrow>
    crumb_reach ord co src G s' cs"
| other_crumbs: "crumb_reach ord co src G s cs \<Longrightarrow> br_Src breq \<noteq> src \<Longrightarrow>
    crumb_reach ord co src G s (snd (Breadcrumbs lock t t' breq cs))"
| triggers: "crumb_reach ord co src G s cs \<Longrightarrow> crumb_reach ord co src G s (snd (LocalTrigger lock t t' treq cs))"
| turn: "crumb_reach ord co src G s cs \<Longrightarrow> clock_ok ck cs \<Longrightarrow> runCoordinator_turn co ck sev cs = Some (Inr cs') \<Longrightarrow>
    crumb_reach ord co src G s cs'"

section \<open>The invariant\<close>

text \<open>The table after a request, and the requests of the agent that are queued.\<close>

definition learn_table :: "BreadcrumbsRequest \<Rightarrow> (32 word \<rightharpoonup> string) \<Rightarrow> 32 word \<rightharpoonup> string" where
  "learn_table q = fold (\<lambda>b f. f(ba_Id b \<mapsto> ba_Addr b)) (br_Addresses q)"

definition mine :: "string \<Rightarrow> BreadcrumbsRequest list \<Rightarrow> BreadcrumbsRequest list" where
  "mine src qs = filter (\<lambda>q. br_Src q = src) qs"

text \<open>A request that the table decodes to breadcrumbs the agent was given, and a queue of such requests.\<close>

definition decodes :: "(crumb_map \<Rightarrow> crumb_map) \<Rightarrow> crumb_map set \<Rightarrow> (32 word \<rightharpoonup> string) \<Rightarrow> BreadcrumbsRequest \<Rightarrow> bool" where
  "decodes ord G T q \<longleftrightarrow> (\<forall>b\<in>set (br_Breadcrumbs q). set (bc_Addrs b) \<subseteq> dom T) \<and>
     (\<exists>ms. set ms \<subseteq> G \<and> crumbs_at T (br_Breadcrumbs q) = crumbs_in (map ord ms))"

fun queue_ok :: "(crumb_map \<Rightarrow> crumb_map) \<Rightarrow> crumb_map set \<Rightarrow> (32 word \<rightharpoonup> string) \<Rightarrow> BreadcrumbsRequest list \<Rightarrow> bool" where
  "queue_ok ord G T [] \<longleftrightarrow> True"
| "queue_ok ord G T (q # qs) \<longleftrightarrow> decodes ord G (learn_table q T) q \<and> queue_ok ord G (learn_table q T) qs"

lemma decodes_mono: "decodes ord G T q \<Longrightarrow> G \<subseteq> H \<Longrightarrow> decodes ord H T q"
  unfolding decodes_def by (meson subset_trans)

lemma queue_ok_mono: "queue_ok ord G T qs \<Longrightarrow> G \<subseteq> H \<Longrightarrow> queue_ok ord H T qs"
  by (induction qs arbitrary: T) (auto intro: decodes_mono)

lemma queue_ok_snoc:
  "queue_ok ord G T (qs @ [q]) \<longleftrightarrow> queue_ok ord G T qs \<and> decodes ord G (learn_table q (fold learn_table qs T)) q"
  by (induction qs arbitrary: T) simp_all

text \<open>
  The identifiers of a connected agent agree with the table that the server will have once it has
  handled all that is queued.
\<close>

definition crumb_inv :: "(crumb_map \<Rightarrow> crumb_map) \<Rightarrow> string \<Rightarrow> crumb_map set \<Rightarrow> crumb_link \<Rightarrow> CoordinatorServer \<Rightarrow> bool" where
  "crumb_inv ord src G s cs \<longleftrightarrow>
     (let (l, r, enc) = s; T = table (conn_of cs src); qs = mine src (incoming_breadcrumbs cs) in
      srv_ok cs \<and> local_addr r = src \<and> ac_enabled r \<and> set (ac_breadcrumbs r) \<subseteq> G \<and> enc_ok enc \<and>
      queue_ok ord G T qs \<and> (ln_phase l = Connected \<longrightarrow> agrees enc (fold learn_table qs T)))"

text \<open>What a step of the agent's loop can do: control, or a request for some of the pending maps.\<close>

lemma ReportBreadcrumbs_encodes:
  assumes "ReportBreadcrumbs ord (r, enc) = Some (req, r1, enc1)" and "ac_enabled r"
  shows "\<exists>q ms ch. req = Some q \<and> encode_request ord (local_addr r) ms enc = (q, enc1) \<and> set ms \<subseteq> set (ac_breadcrumbs r) \<and>
     r1 = r\<lparr>ac_breadcrumbs := ch\<rparr> \<and> set ch \<subseteq> set (ac_breadcrumbs r)"
proof -
  let ?f = "\<lambda>m. if m = [] then [] else [m]"
  obtain ms ch q where a: "accumulate ?f 100 (ac_breadcrumbs r) = Some (ms, ch)"
      "encode_request ord (local_addr r) ms enc = (q, enc1)" "req = Some q" "r1 = r\<lparr>ac_breadcrumbs := ch\<rparr>"
    using assms by (auto simp: ReportBreadcrumbs_def split: option.splits prod.splits)
  have "set ms \<subseteq> set (concat (map ?f (ac_breadcrumbs r)))" by (simp flip: accumulate_sends [OF a(1)] del: set_concat)
  also have "\<dots> \<subseteq> set (ac_breadcrumbs r)" by auto
  finally have "set ms \<subseteq> set (ac_breadcrumbs r)" .
  moreover have "set ch \<subseteq> set (ac_breadcrumbs r)" using a(1) by (rule accumulate_rest(1))
  ultimately show ?thesis using a by blast
qed

lemma crumb_step_cases:
  assumes "BreadcrumbsLoop_step ord (Inr ev) (l, r, enc) = Some (out, l', r', enc')" and "ac_enabled r"
  obtains (Control) ch where "out = []" "r' = r\<lparr>ac_breadcrumbs := ch\<rparr>" "set ch \<subseteq> set (ac_breadcrumbs r)"
      "enc' = encoder_Init \<or> enc' = enc \<and> ln_phase l' \<noteq> Connected"
  | (Request) q ms ch where "out = [q]" "ln_phase l = Connected" "encode_request ord (local_addr r) ms enc = (q, enc')"
      "set ms \<subseteq> set (ac_breadcrumbs r)" "r' = r\<lparr>ac_breadcrumbs := ch\<rparr>" "set ch \<subseteq> set (ac_breadcrumbs r)"
      "ev = SendFails \<longrightarrow> ln_phase l' \<noteq> Connected"
proof (cases "sends ev")
  case True
  obtain l1 req r1 enc1 where s: "link_step BreadcrumbsLoop_kind ev l = Some l1" "ReportBreadcrumbs ord (r, enc) = Some (req, r1, enc1)"
      "(l', r', enc') = (l1, r1, enc1)" "out = (case req of None \<Rightarrow> [] | Some q \<Rightarrow> [q])"
    using assms(1) True by (auto simp: sends_def split: option.splits if_splits)
  obtain q ms ch where q: "req = Some q" "encode_request ord (local_addr r) ms enc = (q, enc1)" "set ms \<subseteq> set (ac_breadcrumbs r)"
      "r1 = r\<lparr>ac_breadcrumbs := ch\<rparr>" "set ch \<subseteq> set (ac_breadcrumbs r)"
    using ReportBreadcrumbs_encodes [OF s(2) assms(2)] by blast
  show ?thesis
    by (rule Request [of q ms ch])
      (use s q True in \<open>auto simp: link_steps sends_def split: link_phase.splits link_event.splits\<close>)
next
  case False
  obtain l1 where l1: "link_step BreadcrumbsLoop_kind ev l = Some l1" using assms(1) by (auto split: option.splits)
  show ?thesis
  proof (cases ev)
    case (Cancelled n)
    then show ?thesis using assms(1) l1 link_step_Connected [OF l1]
      by (intro Control [of "drop n (ac_breadcrumbs r)"]) (auto split: if_splits dest: in_set_dropD)
  qed (use assms(1) l1 link_step_Connected [OF l1] False in \<open>auto simp: sends_def intro!: Control [of "ac_breadcrumbs r"]\<close>)
qed

text \<open>What a turn of the server does to the tables and to the queue of breadcrumbs.\<close>

lemma turn_tables:
  assumes s: "srv_ok cs" and co: "coord_orders_ok co" and ck: "clock_ok ck cs" and r: "runCoordinator_turn co ck sev cs = Some (Inr cs')"
  obtains (Same) "incoming_breadcrumbs cs' = incoming_breadcrumbs cs" "\<And>a. table (conn_of cs' a) = table (conn_of cs a)"
  | (Learns) q ch where "incoming_breadcrumbs cs = q # ch" "incoming_breadcrumbs cs' = ch"
      "\<And>a. table (conn_of cs' a) = (if a = br_Src q then learn_table q (table (conn_of cs a)) else table (conn_of cs a))"
proof (cases sev)
  case ShutDown
  have "queues (log_finished fin (cs\<lparr>cs_c := c\<rparr>)) = queues cs" "conn_of (log_finished fin (cs\<lparr>cs_c := c\<rparr>)) = conn_of cs" for fin c
    by (simp_all add: queues_def [of cs] queues_def [of "cs\<lparr>cs_c := c\<rparr>"]) (auto simp: log_finished_def split: option.splits)
  then have "queues cs' = queues cs \<and> conn_of cs' = conn_of cs" using r ShutDown by (auto split: if_splits)
  then show ?thesis using Same by (simp add: queues_def)
next
  case TakeTriggers
  then obtain req ch where q: "incoming_triggers cs = req # ch" "processTriggersRequest co ck req (cs\<lparr>incoming_triggers := ch\<rparr>) = Inr cs'"
    using r by (auto split: list.splits)
  have ok: "srv_ok (cs\<lparr>incoming_triggers := ch\<rparr>)" using s q(1) by (simp add: srv_ok_def)
  have "\<forall>a. let out = sp_forwards (tr_Src req) (map trigger_of_pb (tr_Triggers req)) ((spec_of (cs_c cs))\<lparr>sp_now := ck_start ck\<rparr>) a
      in if out = [] then conn_of cs' a = conn_of cs a else sent (conn_of cs a) out (conn_of cs' a)"
    using processTriggersRequest_ok [OF ok co, of ck req] ck q(2) by (auto simp: clock_ok_def Let_def elim!: yieldsE cong: if_cong)
  then have "table (conn_of cs' a) = table (conn_of cs a)" for a
    by (auto simp: Let_def sent_def dest!: spec [of _ a] split: if_splits)
  then show ?thesis using Same process_queues(1) [OF q(2)] by (simp add: queues_def)
next
  case TakeBreadcrumbs
  then obtain q ch res where q: "incoming_breadcrumbs cs = q # ch"
      "processBreadcrumbRequest co ck q (cs\<lparr>incoming_breadcrumbs := ch\<rparr>) = Inr (res, cs')"
    using r by (auto split: list.splits)
  have ok: "srv_ok (cs\<lparr>incoming_breadcrumbs := ch\<rparr>)" using s q(1) by (simp add: srv_ok_def)
  have c: "crumbs_result co ck q (cs\<lparr>incoming_breadcrumbs := ch\<rparr>) res cs'"
    using processBreadcrumbRequest_ok [OF ok co, of ck q] ck q(2) by (auto simp: clock_ok_def elim!: yieldsE)
  have "incoming_breadcrumbs cs' = ch" using process_queues(2) [OF q(2)] by (simp add: queues_def)
  then show ?thesis
    by (rule Learns [OF q(1)]) (use c in \<open>simp add: crumbs_result_def Let_def learned_def learn_table_def\<close>)
qed

lemma mine_simps [simp]: "mine src [] = []" "mine src (q # qs) = (if br_Src q = src then q # mine src qs else mine src qs)"
  "mine src (qs @ qs') = mine src qs @ mine src qs'"
  by (simp_all add: mine_def)

lemma crumb_inv_turn:
  assumes "crumb_inv ord src G s cs" and "coord_orders_ok co" and "clock_ok ck cs"
    and "runCoordinator_turn co ck sev cs = Some (Inr cs')"
  shows "crumb_inv ord src G s cs'"
proof -
  have s: "srv_ok cs" using assms(1) by (auto simp: crumb_inv_def Let_def)
  have s': "srv_ok cs'" using turn_ok [OF s assms(2,3,4)] by simp
  show ?thesis
  proof (rule turn_tables [OF s assms(2-4)], goal_cases)
    case 1
    then show ?thesis using assms(1) s' by (auto simp: crumb_inv_def Let_def)
  next
    case (2 q ch)
    then show ?thesis using assms(1) s' by (cases "br_Src q = src") (auto simp: crumb_inv_def Let_def)
  qed
qed

lemma crumb_inv_rpcs:
  assumes "crumb_inv ord src G s cs"
  shows "crumb_inv ord src G s (snd (LocalTrigger lock t t' treq cs))"
    and "br_Src breq \<noteq> src \<Longrightarrow> crumb_inv ord src G s (snd (Breadcrumbs lock t t' breq cs))"
proof -
  have c: "conn_of (snd (LocalTrigger lock t t' treq cs)) = conn_of cs" "conn_of (snd (Breadcrumbs lock t t' breq cs)) = conn_of cs"
    "incoming_breadcrumbs (snd (LocalTrigger lock t t' treq cs)) = incoming_breadcrumbs cs"
    by (auto simp: LocalTrigger_def Breadcrumbs_def Let_def conn_of_def split: option.splits)
  show "crumb_inv ord src G s (snd (LocalTrigger lock t t' treq cs))"
    using assms c(1,3) rpc_ok(1) by (auto simp: crumb_inv_def Let_def)
  assume "br_Src breq \<noteq> src"
  then have "mine src (incoming_breadcrumbs (snd (Breadcrumbs lock t t' breq cs))) = mine src (incoming_breadcrumbs cs)"
    by (auto simp: Breadcrumbs_def Let_def try_send_def)
  then show "crumb_inv ord src G s (snd (Breadcrumbs lock t t' breq cs))"
    using assms c(2) rpc_ok(2) by (auto simp: crumb_inv_def Let_def)
qed

text \<open>A request joins the queue: it decodes with the table the requests before it leave.\<close>

lemma crumb_inv_queued:
  assumes i: "crumb_inv ord src G (l, r, enc) cs" and st: "BreadcrumbsLoop_step ord (Inr ev) (l, r, enc) = Some ([req], l', r', enc')"
    and n: "length (addr_to_id enc') \<le> 2 ^ 32" and q: "Breadcrumbs lock t t' req cs = (True, cs')"
  shows "crumb_inv ord src G (l', r', enc') cs'"
proof -
  let ?T = "table (conn_of cs src)" and ?qs = "mine src (incoming_breadcrumbs cs)"
  have inv: "srv_ok cs" "local_addr r = src" "ac_enabled r" "set (ac_breadcrumbs r) \<subseteq> G" "enc_ok enc" "queue_ok ord G ?T ?qs"
      "ln_phase l = Connected \<Longrightarrow> agrees enc (fold learn_table ?qs ?T)"
    using i by (auto simp: crumb_inv_def Let_def)
  from st inv(3) show ?thesis
  proof (cases rule: crumb_step_cases)
    case (Request q0 ms ch)
    then have e: "encode_request ord src ms enc = (req, enc')" using inv(2) by simp
    note ok = encode_request_ok [OF inv(5) inv(7) [OF Request(2)] e n]
    have "decodes ord G (learn_table req (fold learn_table ?qs ?T)) req"
      using ok(4,5) Request(4) inv(4) unfolding decodes_def learn_table_def by (meson subset_trans)
    moreover have cs': "conn_of cs' = conn_of cs" "incoming_breadcrumbs cs' = incoming_breadcrumbs cs @ [req]"
      using q by (auto simp: Breadcrumbs_def try_send_def Let_def conn_of_def split: if_splits)
    moreover have "srv_ok cs'" using rpc_ok(2) [OF inv(1), of lock t t' req] q by simp
    moreover have "mine src [req] = [req]" using ok(1) by simp
    ultimately show ?thesis
      using inv(2-4,6) Request(5,6) ok(2,3) unfolding crumb_inv_def Let_def learn_table_def [symmetric]
      by (simp add: queue_ok_snoc del: mine_simps(2))
  qed simp
qed

lemma crumb_inv_control:
  assumes i: "crumb_inv ord src G (l, r, enc) cs" and st: "BreadcrumbsLoop_step ord (Inr ev) (l, r, enc) = Some (out, l', r', enc')"
    and o: "out = [] \<or> ev = SendFails"
  shows "crumb_inv ord src G (l', r', enc') cs"
proof -
  have inv: "ac_enabled r" "set (ac_breadcrumbs r) \<subseteq> G" "enc_ok enc" using i by (auto simp: crumb_inv_def Let_def)
  from st inv(1) show ?thesis
  proof (cases rule: crumb_step_cases)
    case (Control ch)
    then show ?thesis using i by (auto simp: crumb_inv_def Let_def enc_ok_Init agrees_Init)
  next
    case (Request q ms ch)
    have "enc_ok enc'" using encode_crumbs_ok [OF inv(3), of "concat (map ord ms)" "[]" "[]"] Request(3)
      by (auto simp: encode_request_def extends_def)
    then show ?thesis using i o Request(1,5,6,7) by (auto simp: crumb_inv_def Let_def)
  qed
qed

lemma crumb_reach_inv:
  assumes "crumb_reach ord co src G s cs" and "coord_orders_ok co"
  shows "crumb_inv ord src G s cs"
  using assms(1)
proof (induction rule: crumb_reach.induct)
  case (start r t with_log)
  then show ?case
    using server_Init_ok [of t with_log] by (simp add: crumb_inv_def Let_def server_Init_def enc_ok_Init link_Init_def)
next
  case (arrives G s cs m out s')
  obtain l r enc where s: "s = (l, r, enc)" by (cases s)
  then have "s' = (l, r\<lparr>ac_breadcrumbs := ac_breadcrumbs r @ [m]\<rparr>, enc)" using arrives(2) by (auto simp: try_send_def split: if_splits)
  then show ?case using arrives.IH s by (auto simp: crumb_inv_def Let_def intro: queue_ok_mono)
next
  case (control G s cs ev s')
  then show ?case by (cases s; cases s') (auto intro: crumb_inv_control)
next
  case (queued G s cs ev req l r enc lock t t' cs')
  then show ?case by (cases s) (auto intro: crumb_inv_queued)
next
  case (lost G s cs req s')
  then show ?case by (cases s; cases s') (auto intro: crumb_inv_control)
next
  case (turn G s cs ck sev cs')
  then show ?case by (auto intro: crumb_inv_turn [OF _ assms(2)])
qed (simp_all add: crumb_inv_rpcs)

section \<open>The property\<close>


text \<open>
  The agent's first request is queued but its reply is late; it reconnects and announces another
  address under the identifier 0. Both requests wait at the server.
\<close>

definition next_state :: "crumb_map + link_event \<Rightarrow> crumb_link \<Rightarrow> crumb_link" where
  "next_state e s = snd (the (BreadcrumbsLoop_step (\<lambda>m. m) e s))"

definition ex_late :: crumb_link where
  "ex_late = next_state (Inr DialOk) (next_state (Inl [(7, [''B''])]) (link_Init, ex_client, encoder_Init))"

definition ex_again :: crumb_link where
  "ex_again = next_state (Inr DialOk) (next_state (Inl [(8, [''C''])]) (next_state (Inr PauseOver) (next_state (Inr SendFails) ex_late)))"

definition ex_crumb_request :: "string \<Rightarrow> u64 \<Rightarrow> BreadcrumbsRequest" where
  "ex_crumb_request addr i = \<lparr>br_Src = ''A:5050'', br_Addresses = [\<lparr>ba_Id = 0, ba_Addr = addr\<rparr>],
     br_Breadcrumbs = [\<lparr>bc_TraceId = i, bc_Addrs = [0]\<rparr>]\<rparr>"

definition ex_waiting :: CoordinatorServer where
  "ex_waiting = (server_Init 0 False)\<lparr>incoming_breadcrumbs := [ex_crumb_request ''B'' 7, ex_crumb_request ''C'' 8]\<rparr>"

lemma next_stateI:
  "map_option fst (BreadcrumbsLoop_step (\<lambda>m. m) e s) = Some out \<Longrightarrow> BreadcrumbsLoop_step (\<lambda>m. m) e s = Some (out, next_state e s)"
  by (cases "BreadcrumbsLoop_step (\<lambda>m. m) e s") (auto simp: next_state_def)

lemma ex_waiting_reach:
  "crumb_reach (\<lambda>m. m) ex_co ''A:5050'' {[(8, [''C''])], [(7, [''B''])]} (next_state (Inr SendOk) ex_again) ex_waiting"
proof -
  let ?R = "crumb_reach (\<lambda>m. m) ex_co ''A:5050''" and ?s0 = "(link_Init, ex_client, encoder_Init)"
  let ?s1 = "next_state (Inl [(7, [''B''])]) ?s0" and ?cs = "server_Init 0 False"
  let ?cs1 = "?cs\<lparr>incoming_breadcrumbs := [ex_crumb_request ''B'' 7]\<rparr>"
  have "?R {} ?s0 ?cs" by (rule crumb_reach.start) (simp_all add: ex_client_def InitCoordinator_def)
  moreover have "map_option fst (BreadcrumbsLoop_step (\<lambda>m. m) (Inl [(7, [''B''])]) ?s0) = Some []" by code_simp
  ultimately have "?R {[(7, [''B''])]} ?s1 ?cs" by (rule crumb_reach.arrives [OF _ next_stateI])
  moreover have "map_option fst (BreadcrumbsLoop_step (\<lambda>m. m) (Inr DialOk) ?s1) = Some []" by code_simp
  ultimately have "?R {[(7, [''B''])]} ex_late ?cs" unfolding ex_late_def by (rule crumb_reach.control [OF _ next_stateI])
  moreover have "map_option fst (BreadcrumbsLoop_step (\<lambda>m. m) (Inr SendFails) ex_late) = Some [ex_crumb_request ''B'' 7]" by code_simp
  note q1 = next_stateI [OF this]
  have "length (addr_to_id (snd (snd (next_state (Inr SendFails) ex_late)))) = 1" by code_simp
  then have "length (addr_to_id (snd (snd (next_state (Inr SendFails) ex_late)))) \<le> 2 ^ 32" by simp
  moreover have "Breadcrumbs True 0 0 (ex_crumb_request ''B'' 7) ?cs = (True, ?cs1)" by (simp add: Breadcrumbs_def try_send_def server_Init_def)
  ultimately have "?R {[(7, [''B''])]} (next_state (Inr SendFails) ex_late) ?cs1"
    using crumb_reach.queued [of "\<lambda>m. m" ex_co "''A:5050''" _ ex_late ?cs "SendFails"] q1 by (metis prod.collapse)
  moreover have "map_option fst (BreadcrumbsLoop_step (\<lambda>m. m) (Inr PauseOver) (next_state (Inr SendFails) ex_late)) = Some []" by code_simp
  ultimately have "?R {[(7, [''B''])]} (next_state (Inr PauseOver) (next_state (Inr SendFails) ex_late)) ?cs1"
    by (rule crumb_reach.control [OF _ next_stateI])
  moreover have "map_option fst (BreadcrumbsLoop_step (\<lambda>m. m) (Inl [(8, [''C''])]) (next_state (Inr PauseOver) (next_state (Inr SendFails) ex_late))) = Some []"
    by code_simp
  ultimately have "?R {[(8, [''C''])], [(7, [''B''])]} (next_state (Inl [(8, [''C''])]) (next_state (Inr PauseOver) (next_state (Inr SendFails) ex_late))) ?cs1"
    by (rule crumb_reach.arrives [OF _ next_stateI])
  moreover have "map_option fst (BreadcrumbsLoop_step (\<lambda>m. m) (Inr DialOk)
      (next_state (Inl [(8, [''C''])]) (next_state (Inr PauseOver) (next_state (Inr SendFails) ex_late)))) = Some []" by code_simp
  ultimately have "?R {[(8, [''C''])], [(7, [''B''])]} ex_again ?cs1" unfolding ex_again_def by (rule crumb_reach.control [OF _ next_stateI])
  moreover have "map_option fst (BreadcrumbsLoop_step (\<lambda>m. m) (Inr SendOk) ex_again) = Some [ex_crumb_request ''C'' 8]" by code_simp
  note q2 = next_stateI [OF this]
  have "length (addr_to_id (snd (snd (next_state (Inr SendOk) ex_again)))) = 1" by code_simp
  then have "length (addr_to_id (snd (snd (next_state (Inr SendOk) ex_again)))) \<le> 2 ^ 32" by simp
  moreover have "Breadcrumbs True 0 0 (ex_crumb_request ''C'' 8) ?cs1 = (True, ex_waiting)"
    by (simp add: Breadcrumbs_def try_send_def ex_waiting_def)
  ultimately show ?thesis
    using crumb_reach.queued [of "\<lambda>m. m" ex_co "''A:5050''" _ ex_again ?cs1 "SendOk"] q2 by (metis prod.collapse)
qed


end
