(* ===== verification/System.thy ===== *)
theory System
  imports Reconnect
begin

text \<open>
  All agents and the coordinator together, as far as triggers are concerned: a step relation in which
  the clients of the agents, the network and the server take turns in any order, with requests lost,
  dropped and delayed. The set of the triggers that were fired is carried along as a ghost.
\<close>

section \<open>Runs\<close>

record system =
  sy_srv :: CoordinatorServer
  sy_agents :: "string \<Rightarrow> AgentCoordinator"
  sy_fired :: "mem_Trigger set"

definition put_agent :: "string \<Rightarrow> AgentCoordinator \<Rightarrow> system \<Rightarrow> system" where
  "put_agent a r s = s\<lparr>sy_agents := (sy_agents s)(a := r)\<rparr>"

text \<open>
  The steps of the clients, the network and the server: a client sends a request, which reaches the
  server or is lost; breadcrumbs of any kind reach the server; the server takes a turn; it sends a
  request to an agent, which arrives or is lost.
\<close>

inductive net_step :: "coord_orders \<Rightarrow> system \<Rightarrow> system \<Rightarrow> bool" for co where
  reports: "client_ReportTriggers (sy_agents s a) = Some (Some req, r) \<Longrightarrow>
    net_step co s ((put_agent a r s)\<lparr>sy_srv := snd (LocalTrigger lock t t' req (sy_srv s))\<rparr>)"
| report_lost: "client_ReportTriggers (sy_agents s a) = Some (req, r) \<Longrightarrow> net_step co s (put_agent a r s)"
| crumbs: "net_step co s (s\<lparr>sy_srv := snd (Breadcrumbs lock t t' breq (sy_srv s))\<rparr>)"
| turn: "clock_ok ck (sy_srv s) \<Longrightarrow> runCoordinator_turn co ck ev (sy_srv s) = Some (Inr cs) \<Longrightarrow>
    net_step co s (s\<lparr>sy_srv := cs\<rparr>)"
| forwards: "conn_of (sy_srv s) a = Some c \<Longrightarrow> conn_ReportTriggers c = Some (req, c') \<Longrightarrow>
    net_step co s ((put_agent a (RemoteTrigger req (sy_agents s a)) s)\<lparr>sy_srv := put_conn a c' (sy_srv s)\<rparr>)"
| forward_lost: "conn_of (sy_srv s) a = Some c \<Longrightarrow> conn_ReportTriggers c = Some (req, c') \<Longrightarrow>
    net_step co s (s\<lparr>sy_srv := put_conn a c' (sy_srv s)\<rparr>)"

text \<open>
  The agents at the other end of the channels: one fires triggers, whose queues are numbered with 32
  bits; one takes remote triggers from its channel.
\<close>

inductive system_reach :: "coord_orders \<Rightarrow> system \<Rightarrow> bool" for co where
  start: "(\<And>a. ac_localtriggers (rs a) = [] \<and> ac_remotetriggers (rs a) = []) \<Longrightarrow>
    system_reach co \<lparr>sy_srv = server_Init t with_log, sy_agents = rs, sy_fired = {}\<rparr>"
| fires: "system_reach co s \<Longrightarrow> \<forall>u\<in>set ts. is_int32 (Queue_id u) \<Longrightarrow> try_send 500 ts (ac_localtriggers (sy_agents s a)) = Some ch \<Longrightarrow>
    system_reach co ((put_agent a ((sy_agents s a)\<lparr>ac_localtriggers := ch\<rparr>) s)\<lparr>sy_fired := sy_fired s \<union> set ts\<rparr>)"
| network: "system_reach co s \<Longrightarrow> net_step co s s' \<Longrightarrow> system_reach co s'"
| takes: "system_reach co s \<Longrightarrow> ac_remotetriggers (sy_agents s a) = ts # ch \<Longrightarrow>
    system_reach co (put_agent a ((sy_agents s a)\<lparr>ac_remotetriggers := ch\<rparr>) s)"

section \<open>The invariant\<close>

text \<open>The triggers, one for each trace, that a trigger of the coordinator and one of a message stand for.\<close>

definition as_mem :: "TriggerID \<Rightarrow> u64 \<Rightarrow> mem_Trigger" where
  "as_mem x i = \<lparr>Queue_id = queue_id x, Base_trace_id = base_trace_id x, Trace_id = i\<rparr>"

definition mems :: "Trigger \<Rightarrow> mem_Trigger set" where
  "mems u = as_mem (trigger_id u) ` set (trace_ids u)"

lemma mems_trigger_of_pb: "mems (trigger_of_pb p) = set (unpack_trigger p)"
  by (auto simp: mems_def as_mem_def trigger_of_pb_def unpack_trigger_def)

lemma unpack_pb_of_mem: "is_int32 (Queue_id t) \<Longrightarrow> unpack_trigger (pb_of_mem t) = [t]"
  by (simp add: unpack_trigger_def pb_of_mem_def sint_int32_of)

text \<open>Of triggers that fit 32 bits, the numbering on the wire loses nothing.\<close>

lemma unpack_pb_of_trigger:
  assumes "\<And>t. t \<in> F \<Longrightarrow> is_int32 (Queue_id t)" and "mems u \<subseteq> F"
  shows "set (unpack_trigger (pb_of_trigger u)) \<subseteq> F"
proof (cases "trace_ids u")
  case (Cons i l)
  then have "as_mem (trigger_id u) i \<in> F" using assms(2) by (auto simp: mems_def)
  then have "is_int32 (queue_id (trigger_id u))" using assms(1) by (fastforce simp: as_mem_def)
  then show ?thesis using assms(2) by (auto simp: unpack_trigger_def pb_of_trigger_def sint_int32_of mems_def as_mem_def)
qed (simp add: unpack_trigger_def pb_of_trigger_def)

text \<open>What the server holds: the members of its triggers, requests to be handled, messages to be sent.\<close>

definition server_holds :: "mem_Trigger set \<Rightarrow> CoordinatorServer \<Rightarrow> bool" where
  "server_holds F cs \<longleftrightarrow>
     (\<forall>(x, i)\<in>sp_member (spec_of (cs_c cs)). as_mem x i \<in> F) \<and>
     (\<forall>q\<in>set (incoming_triggers cs). \<forall>p\<in>set (tr_Triggers q). set (unpack_trigger p) \<subseteq> F) \<and>
     (\<forall>a. \<forall>u\<in>set (concat (pending (conn_of cs a))). mems u \<subseteq> F)"

definition agent_holds :: "mem_Trigger set \<Rightarrow> AgentCoordinator \<Rightarrow> bool" where
  "agent_holds F r \<longleftrightarrow> set (concat (ac_localtriggers r)) \<subseteq> F \<and> set (concat (ac_remotetriggers r)) \<subseteq> F"

definition system_inv :: "system \<Rightarrow> bool" where
  "system_inv s \<longleftrightarrow> srv_ok (sy_srv s) \<and> server_holds (sy_fired s) (sy_srv s) \<and>
     (\<forall>a. agent_holds (sy_fired s) (sy_agents s a)) \<and> (\<forall>t\<in>sy_fired s. is_int32 (Queue_id t))"

lemma sp_expire_member: "sp_member (sp_expire n s) \<subseteq> sp_member s"
  by (auto simp: sp_expire_def Let_def sp_drop_triggers_def sp_drop_traces_def)

lemma fold_report_member:
  "sp_member (fold (sp_report src) us s) = sp_member s \<union> {(x, i). \<exists>u\<in>set us. x = trigger_id u \<and> i \<in> set (trace_ids u)}"
proof (induction us arbitrary: s)
  case (Cons u us)
  have "sp_member (sp_report src u s) = sp_member s \<union> {trigger_id u} \<times> set (trace_ids u)"
    by (auto simp: sp_report_defs)
  then show ?case using Cons.IH by auto
qed simp

lemma sp_forwards_sub: "set (sp_forwards src us s a) \<subseteq> set us"
  by (induction us arbitrary: s) auto

lemma sp_crumbs_member: "sp_member (sp_crumbs src f is s) = sp_member s"
  by (induction "is" arbitrary: s) (simp_all add: sp_crumbs_def)

section \<open>The server forges nothing\<close>

lemma server_holds_step:
  assumes "server_holds F cs" and "\<And>x i. (x, i) \<in> sp_member (spec_of (cs_c cs')) \<Longrightarrow> (x, i) \<in> sp_member (spec_of (cs_c cs)) \<or> as_mem x i \<in> F"
    and "set (incoming_triggers cs') \<subseteq> set (incoming_triggers cs)"
    and "\<And>a u. u \<in> set (concat (pending (conn_of cs' a))) \<Longrightarrow> u \<in> set (concat (pending (conn_of cs a))) \<or> mems u \<subseteq> F"
  shows "server_holds F cs'"
  unfolding server_holds_def
proof (intro conjI)
  show "\<forall>(x, i)\<in>sp_member (spec_of (cs_c cs')). as_mem x i \<in> F" using assms(1,2) unfolding server_holds_def by blast
  show "\<forall>q\<in>set (incoming_triggers cs'). \<forall>p\<in>set (tr_Triggers q). set (unpack_trigger p) \<subseteq> F"
    using assms(1,3) unfolding server_holds_def by blast
  show "\<forall>a. \<forall>u\<in>set (concat (pending (conn_of cs' a))). mems u \<subseteq> F" using assms(1,4) unfolding server_holds_def by blast
qed

lemma holds_triggers:
  assumes cs: "srv_ok cs" and co: "coord_orders_ok co" and ck: "clock_ok ck cs" and h: "server_holds F cs"
    and q: "\<forall>p\<in>set (tr_Triggers req). set (unpack_trigger p) \<subseteq> F" and r: "processTriggersRequest co ck req cs = Inr cs'"
  shows "server_holds F cs'"
proof -
  let ?us = "map trigger_of_pb (tr_Triggers req)" and ?s = "(spec_of (cs_c cs))\<lparr>sp_now := ck_start ck\<rparr>"
  have us: "mems u \<subseteq> F" if "u \<in> set ?us" for u using q that by (fastforce simp: mems_trigger_of_pb)
  have e: "spec_of (cs_c cs') = sp_expire (ck_expire ck + cs_timeout cs) ((fold (sp_report (tr_Src req)) ?us ?s)\<lparr>sp_now := ck_expire ck\<rparr>)"
      "\<And>a. let out = sp_forwards (tr_Src req) ?us ?s a
           in if out = [] then conn_of cs' a = conn_of cs a else sent (conn_of cs a) out (conn_of cs' a)"
    using processTriggersRequest_ok [OF cs co, of ck req] ck r by (auto simp: clock_ok_def elim!: yieldsE)
  have "sp_member (spec_of (cs_c cs')) \<subseteq> sp_member (fold (sp_report (tr_Src req)) ?us ?s)"
    unfolding e(1) by (rule order_trans [OF sp_expire_member]) simp
  then have "sp_member (spec_of (cs_c cs')) \<subseteq> sp_member (spec_of (cs_c cs)) \<union> {(x, i). \<exists>u\<in>set ?us. x = trigger_id u \<and> i \<in> set (trace_ids u)}"
    unfolding fold_report_member by simp
  moreover have "as_mem (trigger_id u) i \<in> F" if "u \<in> set ?us" "i \<in> set (trace_ids u)" for u i
    using us [OF that(1)] that(2) by (auto simp: mems_def)
  ultimately have m: "(x, i) \<in> sp_member (spec_of (cs_c cs)) \<or> as_mem x i \<in> F" if "(x, i) \<in> sp_member (spec_of (cs_c cs'))" for x i
    using that by fastforce
  have p: "set (concat (pending (conn_of cs' a))) \<subseteq> set (concat (pending (conn_of cs a))) \<union> set ?us" for a
    using e(2) [of a] sp_forwards_sub [of "tr_Src req" ?us ?s a]
    by (auto simp: Let_def sent_def sent_pending_def split: if_splits simp del: set_map)
  show ?thesis
    by (rule server_holds_step [OF h m]) (use process_queues(1) [OF r] p us in \<open>auto simp: queues_def simp del: set_concat set_map\<close>)
qed

lemma holds_crumbs:
  assumes cs: "srv_ok cs" and co: "coord_orders_ok co" and ck: "clock_ok ck cs" and h: "server_holds F cs"
    and r: "processBreadcrumbRequest co ck req cs = Inr (res, cs')"
  shows "server_holds F cs'"
proof -
  let ?s = "(spec_of (cs_c cs))\<lparr>sp_now := ck_start ck\<rparr>"
  have c: "crumbs_result co ck req cs res cs'"
    using processBreadcrumbRequest_ok [OF cs co, of ck req] ck r by (auto simp: clock_ok_def elim!: yieldsE)
  have "sp_member (spec_of (cs_c cs')) \<subseteq> sp_member (spec_of (cs_c cs)) \<and>
      (\<forall>a. \<exists>tss. pending (conn_of cs' a) = pending (conn_of cs a) @ tss \<and> told_by ?s (concat tss))"
  proof (cases res)
    case (Inl e)
    then show ?thesis using c by (auto simp: crumbs_result_def Let_def intro: exI [of _ "[]"])
  next
    case (Inr u)
    then obtain f "is" where s': "spec_of (cs_c cs') = sp_expire (ck_expire ck + cs_timeout cs) ((sp_crumbs (br_Src req) f is ?s)\<lparr>sp_now := ck_expire ck\<rparr>)"
        "\<forall>a. \<exists>tss. pending (conn_of cs' a) = pending (conn_of cs a) @ tss \<and> told_by ?s (concat tss)"
      using c by (auto simp: crumbs_result_def Let_def)
    then show ?thesis
      using sp_expire_member [of _ "(sp_crumbs (br_Src req) f is ?s)\<lparr>sp_now := ck_expire ck\<rparr>"] by (simp add: sp_crumbs_member)
  qed
  moreover have "mems u \<subseteq> F" if "told_by ?s ts" "u \<in> set ts" for u ts
    using that h by (fastforce simp: told_by_def mems_def server_holds_def)
  ultimately have m: "sp_member (spec_of (cs_c cs')) \<subseteq> sp_member (spec_of (cs_c cs))"
    and p: "\<And>a u. u \<in> set (concat (pending (conn_of cs' a))) \<Longrightarrow> u \<in> set (concat (pending (conn_of cs a))) \<or> mems u \<subseteq> F"
    by (blast, metis Un_iff concat_append set_append)
  show ?thesis by (rule server_holds_step [OF h _ _ p]) (use m process_queues(2) [OF r] in \<open>auto simp: queues_def\<close>)
qed

lemma holds_turn:
  assumes cs: "srv_ok cs" and co: "coord_orders_ok co" and ck: "clock_ok ck cs" and h: "server_holds F cs"
    and r: "runCoordinator_turn co ck ev cs = Some (Inr cs')"
  shows "server_holds F cs'"
proof (cases ev)
  case ShutDown
  have sel: "cs_c (log_finished fin x) = cs_c x" "conn_of (log_finished fin x) = conn_of x"
      "incoming_triggers (log_finished fin x) = incoming_triggers x" for fin x
    by (simp_all add: log_finished_def split: option.splits)
  have "sp_member (spec_of c') \<subseteq> sp_member (spec_of (cs_c cs))"
    if "checkTriggerExpiration co (ck_start ck + second) (cs_c cs) = Inr (fin, c')" for fin c'
    using expire_triggers_ok [OF _ co order_refl, of "cs_c cs" "ck_start ck + second" "[]"] cs that
    by (auto simp: checkTriggerExpiration_def srv_ok_def sp_drop_triggers_def elim!: yieldsE)
  then have "sp_member (spec_of (cs_c cs')) \<subseteq> sp_member (spec_of (cs_c cs)) \<and> conn_of cs' = conn_of cs \<and> incoming_triggers cs' = incoming_triggers cs"
    using r ShutDown by (auto simp: sel split: if_splits)
  then show ?thesis by (intro server_holds_step [OF h]) auto
next
  case TakeTriggers
  then obtain req ch where q: "incoming_triggers cs = req # ch" "processTriggersRequest co ck req (cs\<lparr>incoming_triggers := ch\<rparr>) = Inr cs'"
    using r by (auto split: list.splits)
  show ?thesis
    by (rule holds_triggers [OF _ co _ _ _ q(2)]) (use cs ck h q(1) in \<open>auto simp: srv_ok_def clock_ok_def server_holds_def\<close>)
next
  case TakeBreadcrumbs
  then obtain q ch res where q: "incoming_breadcrumbs cs = q # ch"
      "processBreadcrumbRequest co ck q (cs\<lparr>incoming_breadcrumbs := ch\<rparr>) = Inr (res, cs')"
    using r by (auto split: list.splits)
  show ?thesis
    by (rule holds_crumbs [OF _ co _ _ q(2)]) (use cs ck h q(1) in \<open>auto simp: srv_ok_def clock_ok_def server_holds_def\<close>)
qed

section \<open>The steps keep the invariant\<close>

lemma client_reports:
  assumes "client_ReportTriggers r = Some (ro, r')"
  obtains ch where "r' = r\<lparr>ac_localtriggers := ch\<rparr>" "set (concat ch) \<subseteq> set (concat (ac_localtriggers r))"
    "case ro of None \<Rightarrow> True | Some req \<Rightarrow> set (tr_Triggers req) \<subseteq> pb_of_mem ` set (concat (ac_localtriggers r))"
proof -
  obtain ts ch where a: "accumulate (\<lambda>ts. ts) 100 (ac_localtriggers r) = Some (ts, ch)" "ro = sendTriggers ts r" "r' = r\<lparr>ac_localtriggers := ch\<rparr>"
    using assms by (auto simp: client_ReportTriggers_def split: option.splits)
  have c: "set (concat (ac_localtriggers r)) = set ts \<union> set (concat ch)" using accumulate_sends [OF a(1)] by (metis list.map_ident set_append)
  show ?thesis by (rule that [OF a(3)]) (use c a(2) in \<open>auto simp: sendTriggers_def split: if_splits\<close>)
qed

lemma conn_forwards:
  assumes "conn_ReportTriggers c = Some (req, c')"
  obtains ts ch where "req = doSend ts" "c' = c\<lparr>outgoing_triggers := ch\<rparr>" "length ch \<le> length (outgoing_triggers c)"
    "set (concat (outgoing_triggers c)) = set ts \<union> set (concat ch)"
proof -
  obtain ts ch where a: "accumulate (\<lambda>ts. ts) 100 (outgoing_triggers c) = Some (ts, ch)" "req = doSend ts" "c' = c\<lparr>outgoing_triggers := ch\<rparr>"
    using assms by (auto simp: conn_ReportTriggers_def split: option.splits)
  have "set (concat (outgoing_triggers c)) = set ts \<union> set (concat ch)" using accumulate_sends [OF a(1)] by (metis list.map_ident set_append)
  then show ?thesis using that a accumulate_rest(2) [OF a(1)] by blast
qed

lemma holds_LocalTrigger:
  assumes "server_holds F cs" and "set (tr_Triggers req) \<subseteq> pb_of_mem ` T" and "T \<subseteq> F" and "\<forall>t\<in>F. is_int32 (Queue_id t)"
  shows "server_holds F (snd (LocalTrigger lock t t' req cs))"
proof -
  have "set (unpack_trigger p) \<subseteq> F" if p: "p \<in> set (tr_Triggers req)" for p
  proof -
    obtain u where "u \<in> F" "p = pb_of_mem u" using assms(2,3) p by auto
    then show ?thesis using assms(4) by (simp add: unpack_pb_of_mem)
  qed
  then show ?thesis
    using assms(1) by (auto simp: server_holds_def LocalTrigger_def try_send_def Let_def conn_of_def)
qed

lemma holds_Breadcrumbs: "server_holds F cs \<Longrightarrow> server_holds F (snd (Breadcrumbs lock t t' breq cs))"
  by (auto simp: server_holds_def Breadcrumbs_def try_send_def Let_def conn_of_def)

lemma holds_sent:
  assumes "server_holds F cs" and "srv_ok cs" and "conn_of cs a = Some c" and "conn_ReportTriggers c = Some (req, c')"
  shows "server_holds F (put_conn a c' cs)" and "srv_ok (put_conn a c' cs)"
    and "\<forall>t\<in>F. is_int32 (Queue_id t) \<Longrightarrow> agent_holds F r \<Longrightarrow> agent_holds F (RemoteTrigger req r)"
proof -
  obtain ts ch where s: "req = doSend ts" "c' = c\<lparr>outgoing_triggers := ch\<rparr>" "length ch \<le> length (outgoing_triggers c)"
      "set (concat (outgoing_triggers c)) = set ts \<union> set (concat ch)"
    using assms(4) by (rule conn_forwards)
  have p: "set (concat (pending (conn_of (put_conn a c' cs) b))) \<subseteq> set (concat (pending (conn_of cs b)))" for b
    using s(2,4) assms(3) by (simp add: pending_def del: set_concat)
  show "server_holds F (put_conn a c' cs)"
    by (rule server_holds_step [OF assms(1)]) (use p in \<open>auto simp del: conn_of_put set_concat\<close>)
  have "conn_ok c" using assms(2,3) by (auto simp: srv_ok_def all_ran_def ran_def)
  then show "srv_ok (put_conn a c' cs)" using assms(2) s(2,3) by (simp add: srv_ok_def all_ran_upd conn_ok_def)
  assume i: "\<forall>t\<in>F. is_int32 (Queue_id t)" and r: "agent_holds F r"
  have ts: "mems u \<subseteq> F" if "u \<in> set ts" for u
  proof -
    have "u \<in> set (concat (pending (conn_of cs a)))" using s(4) assms(3) that by (auto simp: pending_def)
    then show ?thesis using assms(1) unfolding server_holds_def by blast
  qed
  have "set (concat (map unpack_trigger (tr_Triggers req))) \<subseteq> F"
    using unpack_pb_of_trigger [OF _ ts] i by (fastforce simp: s(1) doSend_def)
  then show "agent_holds F (RemoteTrigger req r)"
    using r by (auto simp: agent_holds_def RemoteTrigger_def Let_def try_send_def split: option.splits simp del: set_concat)
qed

lemma agent_holds_mono: "agent_holds F r \<Longrightarrow> F \<subseteq> G \<Longrightarrow> agent_holds G r"
  unfolding agent_holds_def by blast

lemma server_holds_mono: "server_holds F cs \<Longrightarrow> F \<subseteq> G \<Longrightarrow> server_holds G cs"
  unfolding server_holds_def by blast

lemma system_inv_put:
  assumes "system_inv s" and "agent_holds F r" and "sy_fired s \<subseteq> F" and "\<forall>t\<in>F. is_int32 (Queue_id t)"
    and "srv_ok cs" and "server_holds F cs"
  shows "system_inv ((put_agent a r s)\<lparr>sy_fired := F, sy_srv := cs\<rparr>)"
  using assms agent_holds_mono [OF _ assms(3)] by (auto simp: system_inv_def put_agent_def)

lemma net_step_inv:
  assumes "net_step co s s'" and inv: "system_inv s" and co: "coord_orders_ok co"
  shows "system_inv s'"
proof -
  have i: "\<forall>t\<in>sy_fired s. is_int32 (Queue_id t)" "srv_ok (sy_srv s)" "server_holds (sy_fired s) (sy_srv s)"
      "\<And>a. agent_holds (sy_fired s) (sy_agents s a)"
    using inv by (simp_all add: system_inv_def)
  have l: "set (concat (ac_localtriggers (sy_agents s a))) \<subseteq> sy_fired s" for a using i(4) unfolding agent_holds_def by blast
  have keep: "agent_holds (sy_fired s) ((sy_agents s a)\<lparr>ac_localtriggers := ch\<rparr>)"
    if "set (concat ch) \<subseteq> set (concat (ac_localtriggers (sy_agents s a)))" for a ch
    using that i(4) [of a] by (auto simp: agent_holds_def simp del: set_concat)
  from assms(1) show ?thesis
  proof cases
    case (reports a req r lock t t')
    obtain ch where r: "r = (sy_agents s a)\<lparr>ac_localtriggers := ch\<rparr>" "set (concat ch) \<subseteq> set (concat (ac_localtriggers (sy_agents s a)))"
        "set (tr_Triggers req) \<subseteq> pb_of_mem ` set (concat (ac_localtriggers (sy_agents s a)))"
      by (rule client_reports [OF reports(2)]) simp
    show ?thesis
      using system_inv_put [OF inv keep [OF r(2)] order_refl i(1), of "snd (LocalTrigger lock t t' req (sy_srv s))" a]
        rpc_ok(1) [OF i(2)] holds_LocalTrigger [OF i(3) r(3) l i(1)] by (simp add: put_agent_def r(1) reports(1))
  next
    case (report_lost a req r)
    obtain ch where r: "r = (sy_agents s a)\<lparr>ac_localtriggers := ch\<rparr>" "set (concat ch) \<subseteq> set (concat (ac_localtriggers (sy_agents s a)))"
      by (rule client_reports [OF report_lost(2)])
    show ?thesis using inv keep [OF r(2)] by (simp add: system_inv_def put_agent_def r(1) report_lost(1))
  next
    case (crumbs lock t t' breq)
    then show ?thesis using inv by (simp add: system_inv_def rpc_ok holds_Breadcrumbs)
  next
    case (turn ck ev cs)
    then show ?thesis using inv turn_ok [OF i(2) co turn(2,3)] holds_turn [OF i(2) co turn(2) i(3) turn(3)] by (simp add: system_inv_def)
  next
    case (forwards a c req c')
    note h = holds_sent [OF i(3,2) forwards(2,3)]
    from system_inv_put [OF inv h(3) [OF i(1,4)] order_refl i(1) h(2,1), of a a] show ?thesis by (simp add: put_agent_def forwards(1))
  next
    case (forward_lost a c req c')
    then show ?thesis using inv holds_sent(1,2) [OF i(3,2) forward_lost(2,3)] by (simp add: system_inv_def)
  qed
qed

lemma server_Init_holds: "server_holds F (server_Init t with_log)"
  by (auto simp: server_holds_def server_Init_def coord_Init_def spec_of_def in_rel trig_of_def conn_of_def pending_def)

lemma system_reach_inv:
  assumes "system_reach co s" and co: "coord_orders_ok co"
  shows "system_inv s"
  using assms(1)
proof (induction rule: system_reach.induct)
  case (start rs t with_log)
  then show ?case using server_Init_ok server_Init_holds by (simp add: system_inv_def agent_holds_def)
next
  case (fires s ts a ch)
  have "agent_holds (sy_fired s) (sy_agents s a)" using fires.IH by (simp add: system_inv_def)
  then have "agent_holds (sy_fired s \<union> set ts) ((sy_agents s a)\<lparr>ac_localtriggers := ch\<rparr>)"
    using fires(3) by (auto simp: agent_holds_def try_send_def split: if_splits simp del: set_concat)
  moreover have i: "\<forall>t\<in>sy_fired s \<union> set ts. is_int32 (Queue_id t)" "srv_ok (sy_srv s)" "server_holds (sy_fired s \<union> set ts) (sy_srv s)"
    using fires.IH fires(2) server_holds_mono [of "sy_fired s" "sy_srv s" "sy_fired s \<union> set ts"] by (auto simp: system_inv_def)
  ultimately show ?case using system_inv_put [OF fires.IH _ Un_upper1 i, of _ a] by (simp add: put_agent_def)
next
  case (network s s')
  then show ?case using net_step_inv co by blast
next
  case (takes s a ts ch)
  then have "agent_holds (sy_fired s) (sy_agents s a)" by (simp add: system_inv_def)
  then have "agent_holds (sy_fired s) ((sy_agents s a)\<lparr>ac_remotetriggers := ch\<rparr>)" using takes(2) by (simp add: agent_holds_def)
  then show ?case using takes.IH by (simp add: system_inv_def put_agent_def)
qed

section \<open>The property\<close>

text \<open>
  C6. No trigger is made up. Whatever the order of events and whatever is lost or dropped, each remote
  trigger that waits in the channel of an agent, each trace that the coordinator has for a trigger and
  each message it has queued stands for triggers that some agent has fired.
\<close>

theorem no_forged_triggers:
  assumes "system_reach co s" and "coord_orders_ok co"
  shows "set (concat (ac_remotetriggers (sy_agents s a))) \<subseteq> sy_fired s \<and>
    (\<forall>(x, i)\<in>sp_member (spec_of (cs_c (sy_srv s))). as_mem x i \<in> sy_fired s) \<and>
    (\<Union>u\<in>set (concat (pending (conn_of (sy_srv s) a))). mems u) \<subseteq> sy_fired s"
  using system_reach_inv [OF assms] unfolding system_inv_def agent_holds_def server_holds_def by blast

text \<open>The agent A fires a trigger for the trace 7 and reports it; the coordinator handles the request.\<close>

definition ex_world :: system where
  "ex_world = \<lparr>sy_srv = server_Init 0 False, sy_agents = (\<lambda>a. InitCoordinator True a ''5050'' ''C:5252''), sy_fired = {}\<rparr>"

definition ex_report :: TriggerRequest where
  "ex_report = \<lparr>tr_Src = ''A:5050'', tr_Triggers = [pb_of_mem (ex_trigger 7)]\<rparr>"

definition ex_handled :: CoordinatorServer where
  "ex_handled = projr (processTriggersRequest ex_co (ex_clock 5) ex_report (server_Init 0 False))"

lemma ex_world_reach: "\<exists>s. system_reach ex_co s \<and> sy_fired s = {ex_trigger 7} \<and> sy_srv s = ex_handled"
proof -
  let ?r = "InitCoordinator True ''A'' ''5050'' ''C:5252''" and ?cs = "(server_Init 0 False)\<lparr>incoming_triggers := [ex_report]\<rparr>"
  have "system_reach ex_co ex_world" unfolding ex_world_def by (rule system_reach.start) (simp add: InitCoordinator_def)
  from system_reach.fires [OF this, of "[ex_trigger 7]" "''A''" "[[ex_trigger 7]]"]
  have 1: "system_reach ex_co ((put_agent ''A'' (?r\<lparr>ac_localtriggers := [[ex_trigger 7]]\<rparr>) ex_world)\<lparr>sy_fired := {ex_trigger 7}\<rparr>)"
    by (simp add: ex_world_def InitCoordinator_def try_send_def ex_trigger_def is_int32_def)
  have "client_ReportTriggers (?r\<lparr>ac_localtriggers := [[ex_trigger 7]]\<rparr>) = Some (Some ex_report, ?r)"
    by (simp add: client_ReportTriggers_def accumulate_def InitCoordinator_def sendTriggers_def ex_report_def)
  then have "system_reach ex_co ((put_agent ''A'' ?r ex_world)\<lparr>sy_fired := {ex_trigger 7}, sy_srv := ?cs\<rparr>)"
    using system_reach.network [OF 1 net_step.reports, of "''A''" ex_report ?r True 0 0]
    by (simp add: put_agent_def ex_world_def LocalTrigger_def try_send_def server_Init_def)
  moreover have "clock_ok (ex_clock 5) ?cs" by (simp add: clock_ok_def ex_clock_def server_Init_def coord_Init_def)
  moreover have "\<not> isl (processTriggersRequest ex_co (ex_clock 5) ex_report (server_Init 0 False))" by code_simp
  then have "runCoordinator_turn ex_co (ex_clock 5) TakeTriggers ?cs = Some (Inr ex_handled)"
    by (cases "processTriggersRequest ex_co (ex_clock 5) ex_report (server_Init 0 False)") (simp_all add: ex_handled_def server_Init_def)
  ultimately have "system_reach ex_co ((put_agent ''A'' ?r ex_world)\<lparr>sy_fired := {ex_trigger 7}, sy_srv := ex_handled\<rparr>)"
    using system_reach.network [OF _ net_step.turn, of ex_co "(put_agent ''A'' ?r ex_world)\<lparr>sy_fired := {ex_trigger 7}, sy_srv := ?cs\<rparr>" "ex_clock 5" TakeTriggers ex_handled]
    by simp
  then show ?thesis by (intro exI conjI, assumption) simp_all
qed

theorem no_forged_triggers_witness:
  "trig_of (cs_c ex_handled) (tid 3 7) \<noteq> None \<and> sp_member (spec_of (cs_c ex_handled)) \<subseteq> {(x, i). as_mem x i = ex_trigger 7}"
proof -
  obtain s where s: "system_reach ex_co s" "sy_fired s = {ex_trigger 7}" "sy_srv s = ex_handled" using ex_world_reach by blast
  have "map_option cg_traces (trig_of (cs_c ex_handled) (tid 3 7)) = Some [7]" by code_simp
  then show ?thesis using no_forged_triggers [OF s(1) ex_co_ok] s(2,3) by auto
qed

end
