(* ===== verification/AgentLoop.thy ===== *)
theory AgentLoop
  imports TriggerManager "HOL-Library.Sublist"
begin

text \<open>
  The agent's processing loop, \<^verbatim>\<open>agent/pkg/agent/agent.go\<close>: the handlers of the events that
  \<^verbatim>\<open>RunProcessingLoop\<close> selects from, and the loop itself as a step relation.

  Channels are lists of pending messages. A plain send (\<^verbatim>\<open>agent.api.Available <- x\<close>) appends; a send
  in a \<^verbatim>\<open>select\<close> with a \<^verbatim>\<open>default\<close> branch appends while the channel has room and counts a drop
  otherwise. Batches that arrive as Go maps are the lists of their entries in the order \<^verbatim>\<open>range\<close>
  visits them.
\<close>

section \<open>Data\<close>

record AgentMetrics =
  complete_batches :: int
  complete_buffers :: int
  event_horizon :: time
  dropped_triggers :: int
  dropped_breadcrumbs :: int

text \<open>
  \<^verbatim>\<open>Agent\<close> with the channels its loop writes to, and the local variable \<^verbatim>\<open>data_to_report\<close> of the loop.
\<close>

record 'b Agent =
  ag_dm :: DataManager
  ag_tm :: "'b TriggerManager"
  cache_capacity :: int
  triggered_capacity :: int
  trigger_timeout :: time
  metrics :: AgentMetrics
  api_Available :: "int list list"
  coord_breadcrumbs :: "crumb_map list"
  coord_localtriggers :: "mem_Trigger list list"
  reporting_data :: "int list list"
  data_to_report :: "int list"

text \<open>
  The part of \<^verbatim>\<open>InitAgent2\<close> that sets up the processing state; \<open>t\<close> is the clock, \<open>buffer_size\<close> and
  \<open>capacity\<close> what the shared memory reports.
\<close>

definition InitAgent2 ::
  "'b buckets \<Rightarrow> time \<Rightarrow> int \<Rightarrow> int \<Rightarrow> rat \<Rightarrow> (int \<times> rat) list \<Rightarrow> 'b Agent res" where
  "InitAgent2 bk t buffer_size capacity trigger_rate_limit per_trigger_rate_limits =
     bind_res (tm_Init buffer_size trigger_rate_limit) (\<lambda>tm.
     bind_res (ConfigureRateLimits bk per_trigger_rate_limits (tm, InitDataManager t)) (\<lambda>(tm1, dm1).
       Inr \<lparr>ag_dm = dm1, ag_tm = tm1,
            cache_capacity = go_div (4 * capacity) 5,
            triggered_capacity = go_div (go_div (4 * capacity) 5) 2,
            trigger_timeout = - 5 * 60 * 1000000000,
            metrics = \<lparr>complete_batches = 0, complete_buffers = 0, event_horizon = 0,
                       dropped_triggers = 0, dropped_breadcrumbs = 0\<rparr>,
            api_Available = [], coord_breadcrumbs = [], coord_localtriggers = [],
            reporting_data = [], data_to_report = []\<rparr>))"

section \<open>Handlers\<close>

definition send_available :: "int list \<Rightarrow> 'b Agent \<Rightarrow> 'b Agent" where
  "send_available bs a = (if bs \<noteq> [] then a\<lparr>api_Available := api_Available a @ [bs]\<rparr> else a)"

definition maybeEvict :: "range_orders \<Rightarrow> 'b Agent \<Rightarrow> 'b Agent res" where
  "maybeEvict ro a =
     (if buffer_count (ag_dm a) < cache_capacity a then Inr a
      else bind_res (dm_CheckIdleTriggers ro (now (ag_dm a) + trigger_timeout a) (ag_dm a)) (\<lambda>dm1.
           bind_res (EvictedTriggeredToCapacity ro (triggered_capacity a) dm1) (\<lambda>(evicted, dm2).
           bind_res (EvictToCapacity ro (cache_capacity a) dm2) (\<lambda>(evicted2, dm3).
             let a1 = send_available evicted2 (send_available evicted (a\<lparr>ag_dm := dm3\<rparr>))
             in Inr (a1\<lparr>metrics := (metrics a1)\<lparr>event_horizon :=
                    time_sub (now dm3) (event_horizion (untriggered dm3))\<rparr>\<rparr>)))))"

text \<open>The body of the loop over the batch; it returns the buffers to free.\<close>

definition complete_one :: "range_orders \<Rightarrow> u64 \<times> int list \<Rightarrow> 'b Agent \<Rightarrow> (int list \<times> 'b Agent) res" where
  "complete_one ro = (\<lambda>(trace_id, buffers) a.
     let m = metrics a;
         a1 = a\<lparr>metrics := m\<lparr>complete_buffers := complete_buffers m + int (length buffers)\<rparr>\<rparr>
     in if trace_id = 0 then Inr (buffers, a1)
        else bind_res (AddBuffers ro trace_id buffers (ag_dm a1)) (\<lambda>dm1. Inr ([], a1\<lparr>ag_dm := dm1\<rparr>)))"

definition processCompletedBuffers ::
  "range_orders \<Rightarrow> (u64 \<times> int list) list \<Rightarrow> 'b Agent \<Rightarrow> 'b Agent res" where
  "processCompletedBuffers ro batch a =
     bind_res (collect (complete_one ro) batch a) (\<lambda>(freed_buffers, a1).
     bind_res (maybeEvict ro a1) (\<lambda>a2.
       let a3 = send_available freed_buffers a2; m = metrics a3
       in Inr (a3\<lparr>metrics := m\<lparr>complete_batches := complete_batches m + 1\<rparr>\<rparr>)))"

text \<open>\<^verbatim>\<open>select { case agent.coordinator.breadcrumbs <- m: default: dropped += n }\<close>\<close>

definition forward_breadcrumbs :: "crumb_map \<Rightarrow> int \<Rightarrow> 'b Agent \<Rightarrow> 'b Agent" where
  "forward_breadcrumbs m n a =
     (if m = [] then a
      else if length (coord_breadcrumbs a) < 500
           then a\<lparr>coord_breadcrumbs := coord_breadcrumbs a @ [m]\<rparr>
           else a\<lparr>metrics := (metrics a)\<lparr>dropped_breadcrumbs := dropped_breadcrumbs (metrics a) + n\<rparr>\<rparr>)"

fun breadcrumbs_loop ::
  "(u64 \<times> string list) list \<Rightarrow> crumb_map \<Rightarrow> int \<Rightarrow> DataManager \<Rightarrow> ((crumb_map \<times> int) \<times> DataManager) res" where
  "breadcrumbs_loop [] to_report n dm = Inr ((to_report, n), dm)"
| "breadcrumbs_loop ((trace_id, breadcrumbs) # batch) to_report n dm =
     (if trace_id = 0 then breadcrumbs_loop batch to_report n dm
      else bind_res (AddBreadcrumbs trace_id breadcrumbs dm) (\<lambda>(crumbs, dm1).
             if crumbs \<noteq> []
             then breadcrumbs_loop batch (AList.update trace_id crumbs to_report) (n + int (length crumbs)) dm1
             else breadcrumbs_loop batch to_report n dm1))"

definition processBreadcrumbs :: "(u64 \<times> string list) list \<Rightarrow> 'b Agent \<Rightarrow> 'b Agent res" where
  "processBreadcrumbs batch a =
     bind_res (breadcrumbs_loop batch [] 0 (ag_dm a)) (\<lambda>((to_report, n), dm1).
       Inr (forward_breadcrumbs to_report n (a\<lparr>ag_dm := dm1\<rparr>)))"

text \<open>Accumulate the breadcrumbs of one trigger in those of the batch.\<close>

fun add_crumbs :: "crumb_map \<Rightarrow> crumb_map \<times> int \<Rightarrow> crumb_map \<times> int" where
  "add_crumbs [] acc = acc"
| "add_crumbs ((trace_id, addrs) # cs) (m, n) =
     add_crumbs cs
       (if addrs \<noteq> []
        then (AList.update trace_id ((case map_of m trace_id of None \<Rightarrow> [] | Some xs \<Rightarrow> xs) @ addrs) m,
              n + int (length addrs))
        else (m, n))"

text \<open>The loop of \<^verbatim>\<open>processTriggers\<close>; \<open>clk n\<close> is the instant at which trigger \<open>n\<close> asks its limiter.\<close>

fun triggers_loop ::
  "'b buckets \<Rightarrow> (nat \<Rightarrow> time) \<Rightarrow> nat \<Rightarrow> mem_Trigger list \<Rightarrow> mem_Trigger list \<Rightarrow> crumb_map \<times> int \<Rightarrow> 'b tm_state
     \<Rightarrow> ((mem_Trigger list \<times> crumb_map \<times> int) \<times> 'b tm_state) res" where
  "triggers_loop bk clk n [] fwd acc st = Inr ((fwd, acc), st)"
| "triggers_loop bk clk n (t # batch) fwd acc st =
     bind_res (TriggerLocal bk (clk n) (Queue_id t) (Base_trace_id t) [Trace_id t] (getQueue bk (Queue_id t) st))
       (\<lambda>((triggered, crumbs), st1).
          triggers_loop bk clk (Suc n) batch (if triggered then fwd @ [t] else fwd) (add_crumbs crumbs acc) st1)"

definition forward_triggers :: "mem_Trigger list \<Rightarrow> 'b Agent \<Rightarrow> 'b Agent" where
  "forward_triggers ts a =
     (if ts = [] then a
      else if length (coord_localtriggers a) < 500
           then a\<lparr>coord_localtriggers := coord_localtriggers a @ [ts]\<rparr>
           else a\<lparr>metrics := (metrics a)\<lparr>dropped_triggers := dropped_triggers (metrics a) + int (length ts)\<rparr>\<rparr>)"

definition processTriggers ::
  "'b buckets \<Rightarrow> (nat \<Rightarrow> time) \<Rightarrow> mem_Trigger list \<Rightarrow> 'b Agent \<Rightarrow> 'b Agent res" where
  "processTriggers bk clk batch a =
     bind_res (triggers_loop bk clk 0 batch [] ([], 0) (ag_tm a, ag_dm a)) (\<lambda>((fwd, (m, n)), (tm1, dm1)).
       Inr (forward_breadcrumbs m n (forward_triggers fwd (a\<lparr>ag_tm := tm1, ag_dm := dm1\<rparr>))))"

fun remote_loop ::
  "'b buckets \<Rightarrow> mem_Trigger list \<Rightarrow> crumb_map \<times> int \<Rightarrow> 'b tm_state \<Rightarrow> ((crumb_map \<times> int) \<times> 'b tm_state) res" where
  "remote_loop bk [] acc st = Inr (acc, st)"
| "remote_loop bk (t # batch) acc st =
     bind_res (TriggerRemote (Queue_id t) (Base_trace_id t) [Trace_id t] (getQueue bk (Queue_id t) st))
       (\<lambda>(crumbs, st1). remote_loop bk batch (add_crumbs crumbs acc) st1)"

definition processRemoteTriggers :: "'b buckets \<Rightarrow> mem_Trigger list \<Rightarrow> 'b Agent \<Rightarrow> 'b Agent res" where
  "processRemoteTriggers bk batch a =
     bind_res (remote_loop bk batch ([], 0) (ag_tm a, ag_dm a)) (\<lambda>((m, n), (tm1, dm1)).
       Inr (forward_breadcrumbs m n (a\<lparr>ag_tm := tm1, ag_dm := dm1\<rparr>)))"

section \<open>The loop\<close>

text \<open>
  What an iteration of \<^verbatim>\<open>RunProcessingLoop\<close> can select; cancellation of the context ends the loop.
\<close>

datatype agent_event =
    TimerFired
  | DataSent
  | RemoteTriggers "mem_Trigger list"
  | LocalTriggers "mem_Trigger list"
  | CompleteBuffers "(u64 \<times> int list) list"
  | BreadcrumbsReceived "(u64 \<times> string list) list"

text \<open>The clock readings of an iteration, and the passes the report loop is given.\<close>

record iteration =
  it_now :: time
  it_trigger_clk :: "nat \<Rightarrow> time"
  it_report_clk :: "nat \<Rightarrow> int \<Rightarrow> time"
  it_passes :: nat

definition next_batch :: "range_orders \<Rightarrow> 'b buckets \<Rightarrow> iteration \<Rightarrow> 'b Agent \<Rightarrow> 'b Agent res" where
  "next_batch ro bk it a =
     bind_res (GetNextBatchToReport (it_passes it) ro bk (it_report_clk it) (ag_tm a, ag_dm a))
       (\<lambda>(bs, (tm1, dm1)). Inr (a\<lparr>ag_tm := tm1, ag_dm := dm1, data_to_report := bs\<rparr>))"

text \<open>
  The select is enabled for the timer only without data to report, and for the send only with data
  and room in the channel; \<open>None\<close>: not enabled.
\<close>

definition loop_iteration ::
  "range_orders \<Rightarrow> 'b buckets \<Rightarrow> iteration \<Rightarrow> agent_event \<Rightarrow> 'b Agent \<Rightarrow> 'b Agent res option" where
  "loop_iteration ro bk it ev a0 =
     (let a = a0\<lparr>ag_dm := (ag_dm a0)\<lparr>now := it_now it\<rparr>\<rparr> in
      case ev of
        TimerFired \<Rightarrow> if data_to_report a = [] then Some (next_batch ro bk it a) else None
      | DataSent \<Rightarrow>
          if data_to_report a \<noteq> [] \<and> length (reporting_data a) < 4
          then Some (next_batch ro bk it (a\<lparr>reporting_data := reporting_data a @ [data_to_report a]\<rparr>))
          else None
      | RemoteTriggers ts \<Rightarrow> Some (processRemoteTriggers bk ts a)
      | LocalTriggers ts \<Rightarrow> Some (processTriggers bk (it_trigger_clk it) ts a)
      | CompleteBuffers batch \<Rightarrow> Some (processCompletedBuffers ro batch a)
      | BreadcrumbsReceived batch \<Rightarrow> Some (processBreadcrumbs batch a))"

section \<open>The invariant of the agent and the buffers it owns\<close>

definition ag_ok :: "'b Agent \<Rightarrow> bool" where
  "ag_ok a \<longleftrightarrow> tm_ok (ag_tm a, ag_dm a) \<and>
     length (coord_breadcrumbs a) \<le> 500 \<and> length (coord_localtriggers a) \<le> 500 \<and> length (reporting_data a) \<le> 4"

definition owned :: "'b Agent \<Rightarrow> int multiset" where
  "owned a = held (ag_dm a) + mset (data_to_report a) + mset (concat (reporting_data a)) +
     mset (concat (api_Available a))"

text \<open>Updates of the agent that concern neither the invariant nor the buffers.\<close>

lemma ag_ok_metrics [simp]: "ag_ok (a\<lparr>metrics := m\<rparr>) = ag_ok a"
  by (simp add: ag_ok_def)

lemma owned_metrics [simp]: "owned (a\<lparr>metrics := m\<rparr>) = owned a"
  by (simp add: owned_def)

lemma send_available_ok [simp]:
  "ag_ok (send_available bs a) = ag_ok a"
  "owned (send_available bs a) = owned a + mset bs"
  "ag_dm (send_available bs a) = ag_dm a" "ag_tm (send_available bs a) = ag_tm a"
  "metrics (send_available bs a) = metrics a" "cache_capacity (send_available bs a) = cache_capacity a"
  by (simp_all add: send_available_def ag_ok_def owned_def ac_simps)

lemma forward_breadcrumbs_ok [simp]:
  "ag_ok a \<Longrightarrow> ag_ok (forward_breadcrumbs m n a)"
  "owned (forward_breadcrumbs m n a) = owned a"
  "ag_dm (forward_breadcrumbs m n a) = ag_dm a" "ag_tm (forward_breadcrumbs m n a) = ag_tm a"
  by (simp_all add: forward_breadcrumbs_def ag_ok_def owned_def)

lemma forward_triggers_ok [simp]:
  "ag_ok a \<Longrightarrow> ag_ok (forward_triggers ts a)"
  "owned (forward_triggers ts a) = owned a"
  "ag_dm (forward_triggers ts a) = ag_dm a" "ag_tm (forward_triggers ts a) = ag_tm a"
  by (simp_all add: forward_triggers_def ag_ok_def owned_def)

lemma ag_ok_dm: "ag_ok a \<Longrightarrow> tm_ok (tm, dm) \<Longrightarrow> ag_ok (a\<lparr>ag_tm := tm, ag_dm := dm\<rparr>)"
  "ag_ok a \<Longrightarrow> tm_ok (ag_tm a, dm) \<Longrightarrow> ag_ok (a\<lparr>ag_dm := dm\<rparr>)"
  by (simp_all add: ag_ok_def)

lemma owned_dm:
  "held dm = held (ag_dm a) \<Longrightarrow> owned (a\<lparr>ag_tm := tm, ag_dm := dm\<rparr>) = owned a"
  "held dm = held (ag_dm a) \<Longrightarrow> owned (a\<lparr>ag_dm := dm\<rparr>) = owned a"
  "owned (a\<lparr>ag_tm := tm\<rparr>) = owned a"
  by (simp_all add: owned_def)

lemma ag_ok_now [simp]: "ag_ok (a\<lparr>ag_dm := (ag_dm a)\<lparr>now := t\<rparr>\<rparr>) = ag_ok a"
  by (simp add: ag_ok_def tm_ok_def)

lemma owned_now [simp]: "owned (a\<lparr>ag_dm := (ag_dm a)\<lparr>now := t\<rparr>\<rparr>) = owned a"
  using held_cong [of "(ag_dm a)\<lparr>now := t\<rparr>" "ag_dm a"] by (simp add: owned_def)

section \<open>Handlers keep every buffer\<close>

lemma maybeEvict_ok:
  assumes a: "ag_ok a" and ro: "orders_ok ro"
  shows "yields (maybeEvict ro a) (\<lambda>a'. ag_ok a' \<and> owned a' = owned a \<and> ag_tm a' = ag_tm a \<and>
     cache_capacity a' = cache_capacity a)"
proof (cases "buffer_count (ag_dm a) < cache_capacity a")
  case False
  have tm: "tm_ok (ag_tm a, ag_dm a)" using a by (simp add: ag_ok_def)
  show ?thesis
    unfolding maybeEvict_def if_not_P [OF False]
  proof (rule store.reclaim_ok [OF ro tm])
    fix o1 o2 dm3
    assume "tm_ok (ag_tm a, dm3)" "held (ag_dm a) = held dm3 + mset o1 + mset o2"
    then show "yields (let a1 = send_available o2 (send_available o1 (a\<lparr>ag_dm := dm3\<rparr>))
        in Inr (a1\<lparr>metrics := (metrics a1)\<lparr>event_horizon := time_sub (now dm3) (event_horizion (untriggered dm3))\<rparr>\<rparr>))
      (\<lambda>a'. ag_ok a' \<and> owned a' = owned a \<and> ag_tm a' = ag_tm a \<and> cache_capacity a' = cache_capacity a)"
      using a ag_ok_dm(2) [OF a] by (simp add: Let_def) (simp add: owned_def ac_simps)
  qed
qed (use a in \<open>simp add: maybeEvict_def\<close>)

text \<open>After an eviction pass the cache is within its capacity, or no untriggered trace is left.\<close>

lemma maybeEvict_capacity:
  assumes a: "ag_ok a" and ro: "orders_ok ro" and cap: "0 \<le> cache_capacity a"
  shows "yields (maybeEvict ro a) (\<lambda>a'. buffer_count (ag_dm a') \<le> cache_capacity a \<or>
     lru (untriggered (ag_dm a')) = [])"
proof (cases "buffer_count (ag_dm a) < cache_capacity a")
  case False
  have tm: "tm_ok (ag_tm a, ag_dm a)" using a by (simp add: ag_ok_def)
  let ?Q = "\<lambda>a'. buffer_count (ag_dm a') \<le> cache_capacity a \<or> lru (untriggered (ag_dm a')) = []"
  have trim: "yields (EvictToCapacity ro (cache_capacity a) dm2) (\<lambda>(out, dm3).
      buffer_count dm3 \<le> cache_capacity a \<or> lru (untriggered dm3) = [])" if "tm_ok (ag_tm a, dm2)" for dm2
  proof (cases "cache_capacity a < buffer_count dm2")
    case True
    have "dm_inv dm2" using that by (simp add: tm_ok_def)
    from EvictToCapacity_ok [OF this cap True, of ro] show ?thesis by (elim yieldsE) auto
  qed (simp add: EvictToCapacity_def)
  obtain dm1 where 1: "dm_CheckIdleTriggers ro (now (ag_dm a) + trigger_timeout a) (ag_dm a) = Inr dm1"
    "tm_ok (ag_tm a, dm1)" using store.expire_ok [OF ro tm] by (blast elim: yieldsE)
  obtain o1 dm2 where 2: "EvictedTriggeredToCapacity ro (triggered_capacity a) dm1 = Inr (o1, dm2)"
    "tm_ok (ag_tm a, dm2)" using store.shed_ok [OF ro 1(2), of "triggered_capacity a"] by (auto elim!: yieldsE)
  show ?thesis
    using False 1(1) 2(1) trim [OF 2(2)] by (auto simp: maybeEvict_def Let_def elim!: yieldsE)
qed (simp add: maybeEvict_def)

locale accounted_loop =
  fixes ok :: "'p \<Rightarrow> bool" and invar :: "'s \<Rightarrow> bool" and owns :: "'s \<Rightarrow> int multiset"
    and body :: "'p \<Rightarrow> 'k \<Rightarrow> 's \<Rightarrow> (int list \<times> 's) res" and given :: "'k \<Rightarrow> int list"
  assumes body_ok: "ok p \<Longrightarrow> invar s \<Longrightarrow>
      yields (body p x s) (\<lambda>(out, s'). invar s' \<and> owns s' + mset out = owns s + mset (given x))"
begin

lemma collect_ok:
  "ok p \<Longrightarrow> invar s \<Longrightarrow> yields (collect (body p) xs s) (\<lambda>(out, s'). invar s' \<and>
     owns s' + mset out = owns s + mset (concat (map given xs)))"
proof (induction xs arbitrary: s)
  case (Cons x xs)
  obtain o1 s1 where b: "body p x s = Inr (o1, s1)" "invar s1" "owns s1 + mset o1 = owns s + mset (given x)"
    using body_ok [OF Cons.prems, of x] by (auto elim!: yieldsE)
  obtain o2 s2 where c: "collect (body p) xs s1 = Inr (o2, s2)" "invar s2"
    "owns s2 + mset o2 = owns s1 + mset (concat (map given xs))"
    using Cons.IH [OF Cons.prems(1) b(2)] by (auto elim!: yieldsE)
  have "owns s2 + mset (o1 @ o2) = owns s + mset (concat (map given (x # xs)))"
    using b(3) c(3) by simp (metis add.assoc add.commute)
  then show ?case using b c by simp
qed simp

end

interpretation completed: accounted_loop orders_ok ag_ok owned complete_one snd
proof (unfold_locales, clarify)
  fix ro :: range_orders and a :: "'b Agent" and i :: u64 and bs :: "int list"
  assume ro: "orders_ok ro" and a: "ag_ok a"
  have "tm_ok (ag_tm a, ag_dm a)" using a by (simp add: ag_ok_def)
  from store.add_ok [OF ro this, of i bs] a
  show "yields (complete_one ro (i, bs) a) (\<lambda>(out, s'). ag_ok s' \<and> owned s' + mset out = owned a + mset (snd (i, bs)))"
    by (elim yieldsE) (auto simp: complete_one_def Let_def ag_ok_def owned_def ac_simps)
qed

lemma processCompletedBuffers_ok:
  assumes a: "ag_ok a" and ro: "orders_ok ro"
  shows "yields (processCompletedBuffers ro batch a) (\<lambda>a'. ag_ok a' \<and>
     owned a' = owned a + mset (concat (map snd batch)))"
proof -
  obtain freed a1 where c: "collect (complete_one ro) batch a = Inr (freed, a1)" "ag_ok a1"
    "owned a1 + mset freed = owned a + mset (concat (map snd batch))"
    using completed.collect_ok [OF ro a, of batch] by (auto elim!: yieldsE)
  show ?thesis
    using maybeEvict_ok [OF c(2) ro] c by (auto simp: processCompletedBuffers_def Let_def elim!: yieldsE)
qed

lemma breadcrumbs_loop_ok:
  assumes "tm_ok (tm, dm)"
  shows "yields (breadcrumbs_loop batch m n dm) (\<lambda>(r, dm'). tm_ok (tm, dm') \<and> held dm' = held dm)"
  using assms
proof (induction batch arbitrary: m n dm)
  case (Cons x batch)
  obtain i cs where x: "x = (i, cs)" by (cases x)
  show ?case
  proof (cases "i = 0")
    case False
    have "dm_inv dm" using Cons.prems by (simp add: tm_ok_def)
    from AddBreadcrumbs_ok [OF this, of i cs]
    obtain out dm1 where b: "AddBreadcrumbs i cs dm = Inr (out, dm1)" "dm_inv dm1" "held dm1 = held dm"
      "same_objects dm dm1" by (elim yieldsE) auto
    have "tm_ok (tm, dm1)" using tm_ok_shrink [OF Cons.prems b(2)] b(4) by (simp add: same_objects_def)
    from Cons.IH [OF this] show ?thesis using False b(1,3) by (simp add: x)
  qed (use Cons in \<open>simp add: x\<close>)
qed simp

lemma processBreadcrumbs_ok:
  assumes a: "ag_ok a"
  shows "yields (processBreadcrumbs batch a) (\<lambda>a'. ag_ok a' \<and> owned a' = owned a)"
proof -
  have "tm_ok (ag_tm a, ag_dm a)" using a by (simp add: ag_ok_def)
  from breadcrumbs_loop_ok [OF this, of batch "[]" 0] show ?thesis
    using ag_ok_dm(2) [OF a] by (auto simp: processBreadcrumbs_def owned_dm elim!: yieldsE)
qed

lemma triggers_loop_ok:
  assumes "tm_ok st"
  shows "yields (triggers_loop bk clk n batch fwd acc st) (\<lambda>((fwd', acc'), st'). tm_ok st' \<and>
     held (snd st') = held (snd st) \<and> (\<exists>ts. fwd' = fwd @ ts \<and> subseq ts batch))"
  using assms
proof (induction bk clk n batch fwd acc st rule: triggers_loop.induct)
  case (2 bk clk n t batch fwd acc st)
  obtain tm dm where st: "st = (tm, dm)" by (cases st)
  obtain tm1 dm1 mq where g: "getQueue bk (Queue_id t) st = (tm1, dm1)" "tm_ok (tm1, dm1)"
    "mq_of tm1 (Queue_id t) = Some mq" "held dm1 = held dm"
    using getQueue_ok [of tm dm bk "Queue_id t"] 2(2) st by auto
  obtain r crumbs tm2 dm2 where l: "TriggerLocal bk (clk n) (Queue_id t) (Base_trace_id t) [Trace_id t] (tm1, dm1) =
      Inr ((r, crumbs), (tm2, dm2))" "tm_ok (tm2, dm2)" "held dm2 = held dm1"
    using TriggerLocal_ok [OF g(2,3), of bk "clk n" "Base_trace_id t" "[Trace_id t]"] by (elim yieldsE) auto
  have "yields (triggers_loop bk clk (Suc n) batch (if r then fwd @ [t] else fwd) (add_crumbs crumbs acc) (tm2, dm2))
      (\<lambda>((fwd', acc'), st'). tm_ok st' \<and> held (snd st') = held (snd (tm2, dm2)) \<and>
        (\<exists>ts. fwd' = (if r then fwd @ [t] else fwd) @ ts \<and> subseq ts batch))"
    using l(2) by (intro "2.IH") (auto simp: g l(1))
  then show ?case
    using g(1,4) l(1,3) st by (auto elim!: yieldsE split: if_splits)
qed simp

lemma processTriggers_ok:
  assumes a: "ag_ok a"
  shows "yields (processTriggers bk clk batch a) (\<lambda>a'. ag_ok a' \<and> owned a' = owned a)"
proof -
  have "tm_ok (ag_tm a, ag_dm a)" using a by (simp add: ag_ok_def)
  from triggers_loop_ok [OF this, of bk clk 0 batch "[]" "([], 0)"] show ?thesis
    using ag_ok_dm(1) [OF a] by (auto simp: processTriggers_def owned_dm elim!: yieldsE)
qed

lemma remote_loop_ok:
  assumes "tm_ok st"
  shows "yields (remote_loop bk batch acc st) (\<lambda>(acc', st'). tm_ok st' \<and> held (snd st') = held (snd st) \<and>
     (\<forall>i s. trace_of (snd st) i = Some s \<longrightarrow> (\<exists>s'. trace_of (snd st') i = Some s' \<and> trigs s \<subseteq> trigs s')) \<and>
     (\<forall>t \<in> set batch. \<exists>s. trace_of (snd st') (Trace_id t) = Some s \<and> tid (Queue_id t) (Base_trace_id t) \<in> trigs s))"
  using assms
proof (induction batch arbitrary: acc st)
  case (Cons t batch)
  obtain tm dm where st: "st = (tm, dm)" by (cases st)
  obtain tm1 dm1 mq where g: "getQueue bk (Queue_id t) st = (tm1, dm1)" "tm_ok (tm1, dm1)"
    "mq_of tm1 (Queue_id t) = Some mq" "held dm1 = held dm" "trace_of dm1 = trace_of dm"
    using getQueue_ok [of tm dm bk "Queue_id t"] Cons.prems st by auto
  obtain crumbs tm2 dm2 where l: "TriggerRemote (Queue_id t) (Base_trace_id t) [Trace_id t] (tm1, dm1) =
      Inr (crumbs, (tm2, dm2))" "tm_ok (tm2, dm2)" "held dm2 = held dm1" "grows dm1 dm2"
    "\<exists>s. trace_of dm2 (Trace_id t) = Some s \<and> tid (Queue_id t) (Base_trace_id t) \<in> trigs s"
    using TriggerRemote_ok [OF g(2,3), of "Base_trace_id t" "[Trace_id t]"] by (elim yieldsE) auto
  obtain acc' st' where r: "remote_loop bk batch (add_crumbs crumbs acc) (tm2, dm2) = Inr (acc', st')" "tm_ok st'"
    "held (snd st') = held dm2"
    "\<forall>i s. trace_of dm2 i = Some s \<longrightarrow> (\<exists>s'. trace_of (snd st') i = Some s' \<and> trigs s \<subseteq> trigs s')"
    "\<forall>t \<in> set batch. \<exists>s. trace_of (snd st') (Trace_id t) = Some s \<and> tid (Queue_id t) (Base_trace_id t) \<in> trigs s"
    using Cons.IH [OF l(2), of "add_crumbs crumbs acc"] by (elim yieldsE) (simp split: prod.splits)
  have "\<exists>s'. trace_of (snd st') i = Some s' \<and> trigs s \<subseteq> trigs s'" if "trace_of dm i = Some s" for i s
    using that l(4) r(4) g(5) unfolding grows_def by (metis order_trans)
  moreover have "\<exists>s. trace_of (snd st') (Trace_id t) = Some s \<and> tid (Queue_id t) (Base_trace_id t) \<in> trigs s"
    using l(5) r(4) by blast
  ultimately show ?case using g(1,4) l(1,3) r st by auto
qed simp

lemma processRemoteTriggers_ok:
  assumes a: "ag_ok a"
  shows "yields (processRemoteTriggers bk batch a) (\<lambda>a'. ag_ok a' \<and> owned a' = owned a \<and>
     (\<forall>t \<in> set batch. \<exists>s. trace_of (ag_dm a') (Trace_id t) = Some s \<and>
        tid (Queue_id t) (Base_trace_id t) \<in> trigs s))"
proof -
  have "tm_ok (ag_tm a, ag_dm a)" using a by (simp add: ag_ok_def)
  from remote_loop_ok [OF this, of bk batch "([], 0)"]
  obtain m n tm1 dm1 where r: "remote_loop bk batch ([], 0) (ag_tm a, ag_dm a) = Inr ((m, n), (tm1, dm1))"
    "tm_ok (tm1, dm1)" "held dm1 = held (ag_dm a)"
    "\<forall>t \<in> set batch. \<exists>s. trace_of dm1 (Trace_id t) = Some s \<and> tid (Queue_id t) (Base_trace_id t) \<in> trigs s"
    by (elim yieldsE) (clarsimp; blast)
  then show ?thesis using ag_ok_dm(1) [OF a r(2)] by (simp add: processRemoteTriggers_def owned_dm)
qed

section \<open>The loop as a whole\<close>

lemma InitAgent2_ok:
  assumes "buffer_size \<noteq> 0"
  shows "yields (InitAgent2 bk t buffer_size capacity trigger_rate_limit limits) (\<lambda>a. ag_ok a \<and> owned a = {#})"
proof -
  obtain tm :: "'a TriggerManager" where tm: "tm_Init buffer_size trigger_rate_limit = Inr tm"
    using assms by (auto simp: tm_Init_def)
  have "held (InitDataManager t) = {#}" by (simp add: held_def trace_of_def InitDataManager_def)
  then show ?thesis
    using ConfigureRateLimits_ok [OF tm_ok_Init [OF tm, of t], of bk limits] tm
    by (auto simp: InitAgent2_def ag_ok_def owned_def elim!: yieldsE)
qed

lemma next_batch_ok:
  assumes a: "ag_ok a" and ro: "orders_ok ro"
  shows "case next_batch ro bk it a of
      Inl e \<Rightarrow> e = NonTermination
    | Inr a' \<Rightarrow> ag_ok a' \<and> owned a' + mset (data_to_report a) = owned a"
proof -
  have tm: "tm_ok (ag_tm a, ag_dm a)" using a by (simp add: ag_ok_def)
  show ?thesis
  proof (cases "GetNextBatchToReport (it_passes it) ro bk (it_report_clk it) (ag_tm a, ag_dm a)")
    case (Inl e)
    then show ?thesis
      using batch_loop_ok [OF tm ro, where fuel = "it_passes it" and n = 0 and bk = bk and clk = "it_report_clk it" and buffers = "[]"]
      by (simp add: next_batch_def GetNextBatchToReport_def)
  next
    case (Inr r)
    obtain bs tm1 dm1 where r: "r = (bs, (tm1, dm1))" by (metis surj_pair)
    have "batch_done [] (ag_tm a, ag_dm a) bs (tm1, dm1)"
      using batch_loop_ok [OF tm ro, where fuel = "it_passes it" and n = 0 and bk = bk and clk = "it_report_clk it" and buffers = "[]"] Inr
      by (simp add: GetNextBatchToReport_def r)
    then show ?thesis
      using Inr a by (auto simp: next_batch_def r batch_done_def ag_ok_def owned_def ac_simps)
  qed
qed

text \<open>The buffers that an event brings in.\<close>

fun arrivals :: "agent_event \<Rightarrow> int list" where
  "arrivals (CompleteBuffers batch) = concat (map snd batch)"
| "arrivals _ = []"

lemma loop_iteration_ok:
  assumes a: "ag_ok a" and ro: "orders_ok ro" and it: "loop_iteration ro bk it ev a = Some r"
  shows "case r of
      Inl e \<Rightarrow> e = NonTermination \<and> (ev = TimerFired \<or> ev = DataSent)
    | Inr a' \<Rightarrow> ag_ok a' \<and> owned a' = owned a + mset (arrivals ev)"
proof -
  define a1 where "a1 = a\<lparr>ag_dm := (ag_dm a)\<lparr>now := it_now it\<rparr>\<rparr>"
  have a1: "ag_ok a1" and o1: "owned a1 = owned a" using a by (simp_all add: a1_def)
  show ?thesis
  proof (cases ev)
    case TimerFired
    then show ?thesis
      using it next_batch_ok [OF a1 ro, of bk it] o1
      by (auto simp: loop_iteration_def a1_def [symmetric] Let_def split: sum.splits if_splits)
  next
    case DataSent
    let ?a = "a1\<lparr>reporting_data := reporting_data a1 @ [data_to_report a1]\<rparr>"
    have c: "length (reporting_data a1) < 4" and r: "r = next_batch ro bk it ?a"
      using it DataSent by (auto simp: loop_iteration_def a1_def [symmetric] Let_def split: if_splits)
    have "ag_ok ?a" "owned ?a = owned a + mset (data_to_report a1)"
      using a1 c o1 by (simp_all add: ag_ok_def) (simp add: owned_def ac_simps)
    then show ?thesis using next_batch_ok [of ?a ro bk it] ro DataSent r by (auto split: sum.splits)
  next
    case (RemoteTriggers ts)
    then show ?thesis
      using it processRemoteTriggers_ok [OF a1, of bk ts] o1
      by (auto simp: loop_iteration_def a1_def [symmetric] Let_def elim!: yieldsE)
  next
    case (LocalTriggers ts)
    then show ?thesis
      using it processTriggers_ok [OF a1, of bk "it_trigger_clk it" ts] o1
      by (auto simp: loop_iteration_def a1_def [symmetric] Let_def elim!: yieldsE)
  next
    case (CompleteBuffers batch)
    then show ?thesis
      using it processCompletedBuffers_ok [OF a1 ro, of batch] o1
      by (auto simp: loop_iteration_def a1_def [symmetric] Let_def elim!: yieldsE)
  next
    case (BreadcrumbsReceived batch)
    then show ?thesis
      using it processBreadcrumbs_ok [OF a1, of batch] o1
      by (auto simp: loop_iteration_def a1_def [symmetric] Let_def elim!: yieldsE)
  qed
qed

text \<open>
  Runs of the agent: iterations of the loop, interleaved with the goroutines that empty its channels.
  The reporting goroutine (\<^verbatim>\<open>reportData\<close>) sends the buffers of a batch and gives them back whether or
  not the connection fails; the shared-memory goroutine returns them to the pool. The run records the
  buffers that came in and the buffers that went back to the pool.
\<close>

inductive agent_run ::
  "range_orders \<Rightarrow> 'b buckets \<Rightarrow> 'b Agent \<Rightarrow> int multiset \<Rightarrow> int multiset \<Rightarrow> 'b Agent \<Rightarrow> bool"
  for ro bk a0 where
  start: "agent_run ro bk a0 {#} {#} a0"
| iterate: "agent_run ro bk a0 came went a \<Longrightarrow> loop_iteration ro bk it ev a = Some (Inr a') \<Longrightarrow>
     agent_run ro bk a0 (came + mset (arrivals ev)) went a'"
| report: "agent_run ro bk a0 came went a \<Longrightarrow> reporting_data a = bs # rest \<Longrightarrow>
     agent_run ro bk a0 came went (send_available bs (a\<lparr>reporting_data := rest\<rparr>))"
| recycle: "agent_run ro bk a0 came went a \<Longrightarrow> api_Available a = bs # rest \<Longrightarrow>
     agent_run ro bk a0 came (went + mset bs) (a\<lparr>api_Available := rest\<rparr>)"
| send_breadcrumbs: "agent_run ro bk a0 came went a \<Longrightarrow> coord_breadcrumbs a = m # rest \<Longrightarrow>
     agent_run ro bk a0 came went (a\<lparr>coord_breadcrumbs := rest\<rparr>)"
| send_triggers: "agent_run ro bk a0 came went a \<Longrightarrow> coord_localtriggers a = ts # rest \<Longrightarrow>
     agent_run ro bk a0 came went (a\<lparr>coord_localtriggers := rest\<rparr>)"

lemma agent_run_ok:
  assumes "agent_run ro bk a0 came went a" and ro: "orders_ok ro" and a0: "ag_ok a0"
  shows "ag_ok a \<and> owned a + went = owned a0 + came"
  using assms(1)
proof (induction rule: agent_run.induct)
  case (iterate came went a it ev a')
  then have a: "ag_ok a" by simp
  from loop_iteration_ok [OF a ro iterate.hyps(2)] iterate.IH show ?case
    by (simp add: ac_simps)
next
  case (report came went a bs rest)
  let ?a = "a\<lparr>reporting_data := rest\<rparr>"
  have "ag_ok ?a" "owned ?a + mset bs = owned a" using report by (auto simp: ag_ok_def owned_def ac_simps)
  then show ?case using report.IH by simp
qed (use a0 in \<open>auto simp: ag_ok_def owned_def ac_simps\<close>)

end
