(* ===== verification/DataLinks.thy ===== *)
theory DataLinks
  imports AgentLoop
begin

text \<open>
  Where triggers and data come from. \<open>links dm\<close> says, for each trace, which triggers the data manager
  counts it to and which buffers it keeps for it. Only a trigger adds triggers, and only a completed
  batch adds buffers; whatever the state, no operation of the data manager, of the trigger manager or
  of the agent's loop makes up a trigger, adds a trace to one that was not named with it, or moves a
  buffer to another trace. So what is reported was completed for a trace that was named in a trigger.
\<close>

section \<open>Steps that are related\<close>

text \<open>A relation between the state before and after, which loops inherit from their bodies.\<close>

locale stepwise =
  fixes R :: "'s \<Rightarrow> 's \<Rightarrow> bool"
  assumes step_refl: "R s s"
    and step_trans: "R s s1 \<Longrightarrow> R s1 s2 \<Longrightarrow> R s s2"
begin

lemma foreach_steps:
  "foreach body ks s = Inr s' \<Longrightarrow> (\<And>k s s'. body k s = Inr s' \<Longrightarrow> R s s') \<Longrightarrow> R s s'"
proof (induction ks arbitrary: s)
  case (Cons k ks)
  obtain s1 where "body k s = Inr s1" "foreach body ks s1 = Inr s'" using Cons.prems(1) by auto
  then show ?case using Cons.IH [of s1] Cons.prems(2) step_trans by blast
qed (simp add: step_refl)

lemma collect_steps:
  "collect body ks s = Inr (out, s') \<Longrightarrow> 
     (\<And>k s out s'. k \<in> set ks \<Longrightarrow> body k s = Inr (out, s') \<Longrightarrow> R s s') \<Longrightarrow> R s s'"
proof (induction ks arbitrary: s out)
  case (Cons k ks)
  obtain o1 s1 o2 where 1: "body k s = Inr (o1, s1)" "collect body ks s1 = Inr (o2, s')" using Cons.prems(1) by auto
  have "R s1 s'" by (rule Cons.IH [OF 1(2)]) (use Cons.prems(2) in auto)
  then show ?case using step_trans [OF Cons.prems(2) [OF _ 1(1)]] by simp
qed (simp add: step_refl)

end

definition same_traces :: "DataManager \<Rightarrow> DataManager \<Rightarrow> bool" where
  "same_traces dm dm' \<longleftrightarrow> trace_of dm' = trace_of dm"

interpretation same: stepwise same_traces
  by unfold_locales (simp_all add: same_traces_def)

fun entries :: "tracestate \<Rightarrow> (TriggerID + int) set" where
  "entries (UntriggeredTrace bs _ _) = Inr ` set bs"
| "entries (TriggeredTrace ts) = Inl ` set ts"
| "entries (ReportingTrace bs ts) = Inl ` set ts \<union> Inr ` set bs"

lemma entries_iff [simp]: "Inl t \<in> entries s \<longleftrightarrow> t \<in> trigs s" "Inr b \<in> entries s \<longleftrightarrow> b \<in> set (bufs s)"
  by (cases s; auto)+

type_synonym links = "(u64 \<times> (TriggerID + int)) set"

definition links :: "DataManager \<Rightarrow> links" where
  "links dm = {(i, x). \<exists>s. trace_of dm i = Some s \<and> x \<in> entries s}"

definition no_new :: "links \<Rightarrow> DataManager \<Rightarrow> DataManager \<Rightarrow> bool" where
  "no_new N dm dm' \<longleftrightarrow> links dm' \<subseteq> links dm \<union> N"

interpretation no_new: stepwise "no_new N" for N
  by unfold_locales (auto simp: no_new_def)

lemma no_new_trans: "no_new M a b \<Longrightarrow> no_new N b c \<Longrightarrow> no_new (M \<union> N) a c"
  by (auto simp: no_new_def)

lemma no_new_mono: "no_new M a b \<Longrightarrow> M \<subseteq> N \<Longrightarrow> no_new N a b"
  by (auto simp: no_new_def)

lemma links_cong: "trace_of dm' = trace_of dm \<Longrightarrow> links dm' = links dm"
  by (simp add: links_def)

lemma no_new_same: "trace_of dm' = trace_of dm \<Longrightarrow> no_new N dm dm'"
  using links_cong [of dm' dm] by (simp add: no_new_def)

lemma no_new_put:
  assumes "trace_of dm1 = trace_of dm" and "entries s \<subseteq> {x. (i, x) \<in> links dm \<union> N}"
  shows "no_new N dm (put_trace i s dm1)"
  using assms by (auto simp: no_new_def links_def split: if_splits)

lemma no_new_del:
  assumes "trace_of dm1 = trace_of dm"
  shows "no_new N dm (del_trace i dm1)"
  using assms by (auto simp: no_new_def links_def split: if_splits)

lemma link_iff: "(i, x) \<in> links dm \<longleftrightarrow> (\<exists>s. trace_of dm i = Some s \<and> x \<in> entries s)"
  by (simp add: links_def)

section \<open>Traces\<close>

lemma deref_traceE:
  assumes "bind_res (deref_trace dm i) f = Inr y"
  obtains bs cs m where "trace_of dm i = Some (UntriggeredTrace bs cs m)" "f (UntriggeredTrace bs cs m) = Inr y"
  | ts where "trace_of dm i = Some (TriggeredTrace ts)" "f (TriggeredTrace ts) = Inr y"
  | bs ts where "trace_of dm i = Some (ReportingTrace bs ts)" "f (ReportingTrace bs ts) = Inr y"
proof -
  obtain s where "trace_of dm i = Some s" "f s = Inr y"
    using assms by (auto simp: deref_trace_def split: option.split_asm)
  then show ?thesis using that by (cases s) auto
qed

lemma buffersAdded_traces: "buffersAdded t n dm = Inr dm' \<Longrightarrow> trace_of dm' = trace_of dm"
  by (auto simp: buffersAdded_def Let_def case_prod_beta)

lemma buffersRemoved_traces: "buffersRemoved t n dm = Inr dm' \<Longrightarrow> trace_of dm' = trace_of dm"
  by (auto simp: buffersRemoved_def Let_def)

lemma add_queue_traces_traces: "add_queue_traces k n dm = Inr dm' \<Longrightarrow> trace_of dm' = trace_of dm"
  by (auto simp: add_queue_traces_def)

lemma counted_traces:
  "foreach (\<lambda>t. buffersAdded t n) ts dm = Inr dm' \<Longrightarrow> trace_of dm' = trace_of dm"
  "foreach (\<lambda>t. buffersRemoved t n) ts dm = Inr dm' \<Longrightarrow> trace_of dm' = trace_of dm"
  using same.foreach_steps [of "\<lambda>t. buffersAdded t n" ts dm dm'] same.foreach_steps [of "\<lambda>t. buffersRemoved t n" ts dm dm']
  by (auto simp: same_traces_def buffersAdded_traces buffersRemoved_traces)

lemmas traces_kept = buffersAdded_traces buffersRemoved_traces add_queue_traces_traces counted_traces

lemma getOrCreateTrace_links: "links (getOrCreateTrace i dm) = links dm"
  by (auto simp: getOrCreateTrace_def initUntriggeredTrace_def links_def split: option.splits if_splits)

lemma trace_AddBuffers_links: "trace_AddBuffers ro i bs dm = Inr dm' \<Longrightarrow> no_new ({i} \<times> Inr ` set bs) dm dm'"
  unfolding trace_AddBuffers_def
  by (erule deref_traceE) (auto simp: trace_AddBuffers_defs link_iff intro!: no_new_put dest!: traces_kept)

lemma trace_AddBreadcrumbs_links: "trace_AddBreadcrumbs i cs dm = Inr (out, dm') \<Longrightarrow> no_new {} dm dm'"
  unfolding trace_AddBreadcrumbs_def
  by (erule deref_traceE) (auto simp: untriggeredTrace_addBreadcrumbs_def link_iff intro!: no_new_put intro: no_new_same)

lemma trace_AddTrigger_links: "trace_AddTrigger i t dm = Inr (out, dm') \<Longrightarrow> no_new {(i, Inl t)} dm dm'"
  unfolding trace_AddTrigger_def
  by (erule deref_traceE) (auto simp: trace_AddTrigger_defs Let_def link_iff split: if_split_asm
      intro!: no_new_put dest!: traces_kept intro: no_new_same)

lemma trace_RemoveTrigger_links: "trace_RemoveTrigger i t dm = Inr (out, dm') \<Longrightarrow> no_new {} dm dm'"
  unfolding trace_RemoveTrigger_def
  by (erule deref_traceE) (auto simp: trace_RemoveTrigger_defs Let_def link_iff split: if_split_asm
      intro!: no_new_put no_new_del dest!: traces_kept)

lemma trace_TakeBuffers_links: "trace_TakeBuffers ro i dm = Inr (out, dm') \<Longrightarrow> no_new {} dm dm'"
  unfolding trace_TakeBuffers_def
  by (erule deref_traceE) (auto simp: trace_TakeBuffers_defs Let_def link_iff
      intro!: no_new_put no_new_del dest!: traces_kept intro: no_new_same)


section \<open>Fired triggers and their queues\<close>

lemma no_newI_same: "no_new N dm1 dm2 \<Longrightarrow> trace_of dm1 = trace_of dm \<Longrightarrow> no_new N dm dm2"
  using links_cong [of dm1 dm] by (simp add: no_new_def)

lemma no_new_links: "no_new N dm1 dm2 \<Longrightarrow> links dm1 = links dm \<Longrightarrow> no_new N dm dm2"
  by (simp add: no_new_def)

lemma no_newE_same: "no_new N dm dm1 \<Longrightarrow> trace_of dm2 = trace_of dm1 \<Longrightarrow> no_new N dm dm2"
  using links_cong [of dm2 dm1] by (simp add: no_new_def)

lemma no_new_between:
  "no_new N dm1 dm2 \<Longrightarrow> trace_of dm1 = trace_of dm \<Longrightarrow> trace_of dm3 = trace_of dm2 \<Longrightarrow> no_new N dm dm3"
  using no_newE_same no_newI_same by blast

lemma fired_AddTrace_links: "fired_AddTrace t i dm = Inr (out, dm') \<Longrightarrow> no_new {(i, Inl t)} dm dm'"
  by (auto simp: fired_AddTrace_def Let_def dest!: trace_AddTrigger_links elim!: no_newI_same)

lemma collect_links:
  "collect (trace_TakeBuffers ro) trs dm = Inr (out, dm') \<Longrightarrow> no_new {} dm dm'"
  "collect (\<lambda>i. trace_RemoveTrigger i t) trs dm = Inr (out, dm') \<Longrightarrow> no_new {} dm dm'"
  by (erule no_new.collect_steps, erule trace_TakeBuffers_links) (erule no_new.collect_steps, erule trace_RemoveTrigger_links)

lemma deref_firedE:
  assumes "bind_res (deref_fired dm t) f = Inr y"
  obtains q g m where "ft_state g = IdleTrigger m" "f (q, g) = Inr y"
  | q g where "ft_state g = ReportingTrigger" "f (q, g) = Inr y"
proof -
  obtain q g where "f (q, g) = Inr y" using assms by auto
  then show ?thesis using that by (cases "ft_state g") auto
qed

lemma fired_GetBuffersForReport_links: "fired_GetBuffersForReport ro t dm = Inr (out, dm') \<Longrightarrow> no_new {} dm dm'"
  unfolding fired_GetBuffersForReport_def
  by (erule deref_firedE) (auto simp: fired_state_defs split: if_split_asm dest!: collect_links elim!: no_newE_same)

lemma fired_Evict_links: "fired_Evict ro t dm = Inr (out, dm') \<Longrightarrow> no_new {} dm dm'"
  unfolding fired_Evict_def
  by (erule deref_firedE) (auto simp: fired_state_defs split: if_split_asm dest!: collect_links elim!: no_newE_same)

lemma fired_CheckTimeout_links: "fired_CheckTimeout ro t before dm = Inr (out, dm') \<Longrightarrow> no_new {} dm dm'"
  unfolding fired_CheckTimeout_def
  by (erule deref_firedE) (auto simp: fired_state_defs split: if_split_asm dest!: collect_links elim!: no_newE_same
      intro: no_new_same)

lemma pop_reporting_traces: "pop_reporting pop k dm = Inr (b, dm') \<Longrightarrow> trace_of dm' = trace_of dm"
  by (auto simp: pop_reporting_def)

lemma GetQueue_traces [simp]: "trace_of (GetQueue k dm) = trace_of dm"
  by (simp add: GetQueue_def initTriggerQueue_def split: option.split)

lemma getOrCreateTrigger_traces: "getOrCreateTrigger k b dm = Inr dm' \<Longrightarrow> trace_of dm' = trace_of dm"
  by (auto simp: getOrCreateTrigger_def split: option.split_asm)

lemma trigger_loop_links: "trigger_loop t is crumbs dm = Inr (out, dm') \<Longrightarrow> no_new (set is \<times> {Inl t}) dm dm'"
proof (induction "is" arbitrary: crumbs dm)
  case (Cons i "is")
  obtain cs dm1 where a: "fired_AddTrace t i (getOrCreateTrace i dm) = Inr (cs, dm1)"
    "no_new (set is \<times> {Inl t}) dm1 dm'" using Cons by auto
  have "no_new {(i, Inl t)} dm dm1" using no_new_links [OF fired_AddTrace_links [OF a(1)]] by (simp add: getOrCreateTrace_links)
  from no_new_mono [OF no_new_trans [OF this a(2)]] show ?case by auto
qed (simp add: no_new_same)

lemma queue_Trigger_links:
  "queue_Trigger k b is dm = Inr (out, dm') \<Longrightarrow> no_new (set is \<times> {Inl \<lparr>queue_id = k, base_trace_id = b\<rparr>}) dm dm'"
  by (auto simp: queue_Trigger_def dest!: trigger_loop_links getOrCreateTrigger_traces elim!: no_newI_same)

lemma queue_evict_loop_links: "queue_evict_loop fuel ro k num ev cnt dm = Inr (out, dm') \<Longrightarrow> no_new {} dm dm'"
proof (induction fuel arbitrary: ev cnt dm)
  case 0
  then show ?case by (auto simp: queue_evict_loop.simps split: if_split_asm intro: no_new_same)
next
  case (Suc fuel)
  show ?case
    using Suc.prems unfolding queue_evict_loop.simps [of "Suc fuel"]
    by (auto split: if_split_asm intro: no_new_same
      dest!: pop_reporting_traces fired_Evict_links Suc.IH intro: no_newI_same no_new.step_trans)
qed

lemma queue_EvictToCapacity_links: "queue_EvictToCapacity ro k c dm = Inr (out, dm') \<Longrightarrow> no_new {} dm dm'"
  by (auto simp: queue_EvictToCapacity_def Let_def split: if_split_asm intro: no_new_same
      dest!: queue_evict_loop_links elim!: no_newE_same)

lemma queue_ReportNext_links: "queue_ReportNext ro k dm = Inr (out, dm') \<Longrightarrow> no_new {} dm dm'"
  by (auto simp: queue_ReportNext_def Let_def split: option.split_asm
      dest!: pop_reporting_traces fired_GetBuffersForReport_links intro: no_new_same elim: no_new_between)

lemma check_idle_loop_links: "check_idle_loop fuel ro k before cnt dm = Inr (out, dm') \<Longrightarrow> no_new {} dm dm'"
proof (induction fuel arbitrary: cnt dm)
  case 0
  then show ?case by (auto simp: check_idle_loop.simps split: if_split_asm intro: no_new_same)
next
  case (Suc fuel)
  show ?case
    using Suc.prems unfolding check_idle_loop.simps [of "Suc fuel"]
    by (auto split: if_split_asm intro: no_new_same dest!: fired_CheckTimeout_links Suc.IH intro: no_new.step_trans)
qed

section \<open>The data manager\<close>

lemma AddBuffers_links: "AddBuffers ro i bs dm = Inr dm' \<Longrightarrow> no_new ({i} \<times> Inr ` set bs) dm dm'"
  by (auto simp: AddBuffers_def getOrCreateTrace_links dest!: trace_AddBuffers_links elim!: no_new_links)

lemma AddBreadcrumbs_links: "AddBreadcrumbs i cs dm = Inr (out, dm') \<Longrightarrow> no_new {} dm dm'"
  by (auto simp: AddBreadcrumbs_def getOrCreateTrace_links dest!: trace_AddBreadcrumbs_links elim!: no_new_links)

lemma evict_loop_links: "evict_loop fuel ro num ev dm = Inr (out, dm') \<Longrightarrow> no_new {} dm dm'"
proof (induction fuel arbitrary: ev dm)
  case 0
  then show ?case by (auto simp: evict_loop.simps split: if_split_asm intro: no_new_same)
next
  case (Suc fuel)
  show ?case
    using Suc.prems unfolding evict_loop.simps [of "Suc fuel"]
    by (auto split: if_split_asm intro: no_new_same dest!: trace_TakeBuffers_links Suc.IH intro: no_new.step_trans)
qed

lemma EvictToCapacity_links: "EvictToCapacity ro c dm = Inr (out, dm') \<Longrightarrow> no_new {} dm dm'"
  by (auto simp: EvictToCapacity_def split: if_split_asm intro: no_new_same dest!: evict_loop_links)

lemma EvictedTriggeredToCapacity_links: "EvictedTriggeredToCapacity ro c dm = Inr (out, dm') \<Longrightarrow> no_new {} dm dm'"
  by (auto simp: EvictedTriggeredToCapacity_def split: if_split_asm option.split_asm intro: no_new_same
      dest!: queue_EvictToCapacity_links)

lemma dm_CheckIdleTriggers_links: "dm_CheckIdleTriggers ro before dm = Inr dm' \<Longrightarrow> no_new {} dm dm'"
  unfolding dm_CheckIdleTriggers_def
  by (erule no_new.foreach_steps) (auto simp: queue_CheckIdleTriggers_def dest!: check_idle_loop_links)


section \<open>The trigger manager and the agent's loop\<close>

lemma getQueue_traces [simp]: "trace_of (snd (getQueue bk k st)) = trace_of (snd st)"
  by (simp add: getQueue_def split: prod.split option.split)

lemma upd_metrics_traces: "upd_metrics k g dm = Inr dm' \<Longrightarrow> trace_of dm' = trace_of dm"
  by (auto simp: upd_metrics_def)

text \<open>The pair of trigger and trace that a trigger message stands for.\<close>

definition link_of :: "mem_Trigger \<Rightarrow> u64 \<times> (TriggerID + int)" where
  "link_of t = (Trace_id t, Inl \<lparr>queue_id = Queue_id t, base_trace_id = Base_trace_id t\<rparr>)"

lemma TriggerLocal_links:
  "TriggerLocal bk at_t k b is st = Inr (out, st') \<Longrightarrow>
     no_new (set is \<times> {Inl \<lparr>queue_id = k, base_trace_id = b\<rparr>}) (snd st) (snd st')"
  by (auto simp: TriggerLocal_def Let_def split: prod.split_asm if_split_asm
      dest!: upd_metrics_traces queue_Trigger_links intro: no_new_same no_newI_same)

lemma TriggerRemote_links:
  "TriggerRemote k b is st = Inr (out, st') \<Longrightarrow>
     no_new (set is \<times> {Inl \<lparr>queue_id = k, base_trace_id = b\<rparr>}) (snd st) (snd st')"
  by (auto simp: TriggerRemote_def split: prod.split_asm
      dest!: upd_metrics_traces queue_Trigger_links intro: no_newI_same)

lemma getNextBuffersToReport_links:
  "getNextBuffersToReport ro bk clk st = Inr (out, st') \<Longrightarrow> no_new {} (snd st) (snd st')"
  by (auto simp: getNextBuffersToReport_def Let_def split: prod.split_asm option.split_asm if_split_asm
      dest!: queue_ReportNext_links intro: no_new_same)

lemma batch_loop_links:
  "batch_loop fuel n ro bk clk bs st = Inr (out, st') \<Longrightarrow> no_new {} (snd st) (snd st')"
proof (induction fuel arbitrary: n bs st)
  case 0
  then show ?case by (auto simp: batch_loop.simps split: if_split_asm intro: no_new_same)
next
  case (Suc fuel)
  show ?case
    using Suc.prems unfolding batch_loop.simps [of "Suc fuel"]
    by (auto split: if_split_asm intro: no_new_same dest!: getNextBuffersToReport_links Suc.IH intro: no_new.step_trans)
qed

lemma triggers_loop_links:
  "triggers_loop bk clk n batch fwd acc st = Inr (out, st') \<Longrightarrow>
     no_new (link_of ` set batch) (snd st) (snd st') \<and> set (fst out) \<subseteq> set fwd \<union> set batch"
proof (induction batch arbitrary: n fwd acc st)
  case (Cons t batch)
  obtain r crumbs st1 where a:
      "TriggerLocal bk (clk n) (Queue_id t) (Base_trace_id t) [Trace_id t] (getQueue bk (Queue_id t) st) = Inr ((r, crumbs), st1)"
      "triggers_loop bk clk (Suc n) batch (if r then fwd @ [t] else fwd) (add_crumbs crumbs acc) st1 = Inr (out, st')"
    using Cons.prems by auto
  have "no_new {link_of t} (snd st) (snd st1)"
    using no_newI_same [OF TriggerLocal_links [OF a(1)] getQueue_traces] by (simp add: link_of_def)
  note l = this and r = Cons.IH [OF a(2)]
  have "no_new (link_of ` set (t # batch)) (snd st) (snd st')" using no_new_trans [OF l conjunct1 [OF r]] by simp
  then show ?case using r by (auto split: if_split_asm)
qed (auto simp: no_new_same)

lemma remote_loop_links:
  "remote_loop bk batch acc st = Inr (out, st') \<Longrightarrow> no_new (link_of ` set batch) (snd st) (snd st')"
proof (induction batch arbitrary: acc st)
  case (Cons t batch)
  obtain crumbs st1 where a:
      "TriggerRemote (Queue_id t) (Base_trace_id t) [Trace_id t] (getQueue bk (Queue_id t) st) = Inr (crumbs, st1)"
      "remote_loop bk batch (add_crumbs crumbs acc) st1 = Inr (out, st')"
    using Cons.prems by auto
  have "no_new {link_of t} (snd st) (snd st1)"
    using no_newI_same [OF TriggerRemote_links [OF a(1)] getQueue_traces] by (simp add: link_of_def)
  from no_new_mono [OF no_new_trans [OF this Cons.IH [OF a(2)]]] show ?case by auto
qed (simp add: no_new_same)

lemma breadcrumbs_loop_links:
  "breadcrumbs_loop batch m n dm = Inr (out, dm') \<Longrightarrow> no_new {} dm dm'"
proof (induction batch m n dm rule: breadcrumbs_loop.induct)
  case (2 i cs batch m n dm)
  then show ?case by (auto split: if_split_asm dest!: AddBreadcrumbs_links intro: no_new.step_trans)
qed (simp add: no_new_same)


section \<open>What is reported\<close>

text \<open>The buffers of the traces that are counted to a trigger.\<close>

definition reportable :: "links \<Rightarrow> int set" where
  "reportable L = {b. \<exists>i t. (i, Inl t) \<in> L \<and> (i, Inr b) \<in> L}"

lemma reportable_mono: "L \<subseteq> M \<Longrightarrow> reportable L \<subseteq> reportable M"
  by (auto simp: reportable_def)

lemma no_new_reportable: "no_new {} dm dm' \<Longrightarrow> reportable (links dm') \<subseteq> reportable (links dm)"
  by (rule reportable_mono) (simp add: no_new_def)

lemma trigger_buffers_reportable:
  assumes dm: "dm_inv dm" and ro: "orders_ok ro"
  shows "set (trigger_buffers ro dm t) \<subseteq> reportable (links dm)"
proof (cases "fired_of dm t")
  case (Some f)
  have core: "core {} (trace_of dm) (fired_of dm)" using dm by (simp add: dm_inv_def dm_ok_def)
  have ks: "set (ro_trace ro (ft_traces f)) = set (ft_traces f)"
    using ro coreD(3) [OF core Some] by (auto simp: orders_ok_def fired_ok_def key_order_set)
  have "\<exists>s. trace_of dm i = Some s \<and> t \<in> trigs s" if "i \<in> set (ft_traces f)" for i
    using coreD(2) [OF core, of t i] Some that by (auto simp: linked_def incl_def flinks_def)
  then show ?thesis unfolding trigger_buffers_def by (fastforce simp: Some ks reportable_def link_iff)
qed (simp add: trigger_buffers_def)

lemma getNextBuffersToReport_reportable:
  assumes "getNextBuffersToReport ro bk clk st = Inr (out, st')" and "tm_ok st" and "orders_ok ro"
  shows "set out \<subseteq> reportable (links (snd st)) \<and> tm_ok st'"
proof -
  obtain tm dm where st: "st = (tm, dm)" by (cases st)
  have "dm_inv dm" using assms(2) by (simp add: st tm_ok_def)
  from trigger_buffers_reportable [OF this assms(3)] show ?thesis
    using getNextBuffersToReport_ok [of tm dm ro bk clk] assms by (auto simp: st passed_def)
qed

lemma batch_loop_reportable:
  "batch_loop fuel n ro bk clk bs st = Inr (out, st') \<Longrightarrow> tm_ok st \<Longrightarrow> orders_ok ro \<Longrightarrow>
     set out \<subseteq> set bs \<union> reportable (links (snd st))"
proof (induction fuel arbitrary: n bs st)
  case 0
  then show ?case by (auto simp: batch_loop.simps split: if_split_asm)
next
  case (Suc fuel)
  show ?case
  proof (cases "int (length bs) < tm_batch_size (fst st) \<and> 0 < td_buffer_count (triggered (snd st))")
    case True
    then obtain o1 st1 where 1: "getNextBuffersToReport ro bk (clk n) st = Inr (o1, st1)"
        "batch_loop fuel (Suc n) ro bk clk (bs @ o1) st1 = Inr (out, st')"
      using Suc.prems(1) by (auto simp: batch_loop.simps [of "Suc fuel"])
    note g = getNextBuffersToReport_reportable [OF 1(1) Suc.prems(2,3)]
    show ?thesis using Suc.IH [OF 1(2)] g Suc.prems(3) no_new_reportable [OF getNextBuffersToReport_links [OF 1(1)]] by auto
  qed (use Suc.prems(1) in \<open>auto simp: batch_loop.simps [of "Suc fuel"]\<close>)
qed


section \<open>The agent's loop\<close>

text \<open>
  What an event of the loop brings: the triggers that applications of this agent fired, and the links
  it adds. Trace 0 stands for no trace.
\<close>

fun fired_triggers :: "agent_event \<Rightarrow> mem_Trigger list" where
  "fired_triggers (LocalTriggers ts) = ts"
| "fired_triggers _ = []"

definition completed_links :: "(u64 \<times> int list) list \<Rightarrow> links" where
  "completed_links batch = {(i, Inr b) | i b bs. (i, bs) \<in> set batch \<and> i \<noteq> 0 \<and> b \<in> set bs}"

fun event_links :: "agent_event \<Rightarrow> links" where
  "event_links (RemoteTriggers ts) = link_of ` set ts"
| "event_links (LocalTriggers ts) = link_of ` set ts"
| "event_links (CompleteBuffers batch) = completed_links batch"
| "event_links _ = {}"

definition adds_only :: "links \<Rightarrow> mem_Trigger set \<Rightarrow> 'b Agent \<Rightarrow> 'b Agent \<Rightarrow> bool" where
  "adds_only N F a a' \<longleftrightarrow> no_new N (ag_dm a) (ag_dm a') \<and>
     set (concat (coord_localtriggers a')) \<subseteq> set (concat (coord_localtriggers a)) \<union> F \<and>
     reporting_data a' = reporting_data a \<and> data_to_report a' = data_to_report a"

interpretation adds_only: stepwise "adds_only N F" for N F
  by unfold_locales (auto simp: adds_only_def no_new_same intro: no_new.step_trans simp del: set_concat)

lemma forward_sel [simp]:
  "coord_localtriggers (send_available bs a) = coord_localtriggers a"
  "coord_localtriggers (forward_breadcrumbs m n a) = coord_localtriggers a"
  "reporting_data (send_available bs a) = reporting_data a" "data_to_report (send_available bs a) = data_to_report a"
  "reporting_data (forward_breadcrumbs m n a) = reporting_data a" "data_to_report (forward_breadcrumbs m n a) = data_to_report a"
  "reporting_data (forward_triggers ts a) = reporting_data a" "data_to_report (forward_triggers ts a) = data_to_report a"
  by (simp_all add: send_available_def forward_breadcrumbs_def forward_triggers_def)

lemma adds_only_cong:
  "adds_only N L a (a'\<lparr>metrics := m\<rparr>) = adds_only N L a a'"
  "adds_only N L a (send_available bs a') = adds_only N L a a'"
  "adds_only N L (a\<lparr>ag_dm := (ag_dm a)\<lparr>now := t\<rparr>\<rparr>) a' = adds_only N L a a'"
  by (simp_all add: adds_only_def no_new_def links_def trace_of_def)

lemma maybeEvict_adds: "maybeEvict ro a = Inr a' \<Longrightarrow> adds_only {} {} a a'"
  by (auto simp: maybeEvict_def Let_def adds_only_def split: if_split_asm intro: no_new_same
      dest!: dm_CheckIdleTriggers_links EvictedTriggeredToCapacity_links EvictToCapacity_links intro: no_new.step_trans)

lemma complete_one_adds:
  "complete_one ro x a = Inr (out, a') \<Longrightarrow> x \<in> set batch \<Longrightarrow> adds_only (completed_links batch) {} a a'"
  by (auto simp: complete_one_def Let_def adds_only_def split: prod.split_asm if_split_asm intro: no_new_same
      dest!: AddBuffers_links elim!: no_new_mono) (auto simp: completed_links_def)

lemma processCompletedBuffers_adds:
  assumes "processCompletedBuffers ro batch a = Inr a'"
  shows "adds_only (completed_links batch) {} a a'"
proof -
  obtain freed a1 a2 where c: "collect (complete_one ro) batch a = Inr (freed, a1)" "maybeEvict ro a1 = Inr a2"
      "a' = (send_available freed a2)\<lparr>metrics := (metrics a2)\<lparr>complete_batches := complete_batches (metrics a2) + 1\<rparr>\<rparr>"
    using assms by (auto simp: processCompletedBuffers_def Let_def)
  have "adds_only (completed_links batch) {} a a1" by (rule adds_only.collect_steps [OF c(1)]) (rule complete_one_adds)
  moreover have "adds_only (completed_links batch) {} a1 a2"
    using maybeEvict_adds [OF c(2)] no_new_mono [OF _ empty_subsetI] by (auto simp: adds_only_def)
  ultimately have "adds_only (completed_links batch) {} a a2" by (rule adds_only.step_trans)
  then show ?thesis by (simp add: c(3) adds_only_cong)
qed

lemma processBreadcrumbs_adds: "processBreadcrumbs batch a = Inr a' \<Longrightarrow> adds_only {} {} a a'"
  by (auto simp: processBreadcrumbs_def adds_only_def dest!: breadcrumbs_loop_links)

lemma processTriggers_adds:
  "processTriggers bk clk batch a = Inr a' \<Longrightarrow> adds_only (link_of ` set batch) (set batch) a a'"
  by (auto simp: processTriggers_def adds_only_def forward_triggers_def dest!: triggers_loop_links split: if_split_asm)

lemma processRemoteTriggers_adds:
  "processRemoteTriggers bk batch a = Inr a' \<Longrightarrow> adds_only (link_of ` set batch) {} a a'"
  by (auto simp: processRemoteTriggers_def adds_only_def dest!: remote_loop_links)

text \<open>
  The data that is on its way to the collector, and the provenance invariant: all that the agent knows
  is among the given links, and what it reports is data of a triggered trace.
\<close>

definition outgoing :: "'b Agent \<Rightarrow> int set" where
  "outgoing a = set (data_to_report a) \<union> set (concat (reporting_data a))"

definition sourced :: "links \<Rightarrow> 'b Agent \<Rightarrow> bool" where
  "sourced L a \<longleftrightarrow> links (ag_dm a) \<subseteq> L \<and> outgoing a \<subseteq> reportable L"

lemma sourced_adds: "sourced L a \<Longrightarrow> adds_only N F a a' \<Longrightarrow> sourced (L \<union> N) a'"
  using reportable_mono [of L "L \<union> N"] by (auto simp: sourced_def adds_only_def no_new_def outgoing_def)

lemma sourced_next_batch:
  assumes "next_batch ro bk it a = Inr a'" and "sourced L a" and "tm_ok (ag_tm a, ag_dm a)" and "orders_ok ro"
  shows "sourced L a' \<and> coord_localtriggers a' = coord_localtriggers a"
proof -
  obtain bs tm1 dm1 where b: "batch_loop (it_passes it) 0 ro bk (it_report_clk it) [] (ag_tm a, ag_dm a) = Inr (bs, (tm1, dm1))"
      "a' = a\<lparr>ag_tm := tm1, ag_dm := dm1, data_to_report := bs\<rparr>"
    using assms(1) by (auto simp: next_batch_def GetNextBatchToReport_def)
  have "links dm1 \<subseteq> links (ag_dm a)" using batch_loop_links [OF b(1)] by (simp add: no_new_def)
  moreover have "set bs \<subseteq> reportable L"
    using batch_loop_reportable [OF b(1) assms(3,4)] reportable_mono [of "links (ag_dm a)" L] assms(2) by (auto simp: sourced_def)
  ultimately show ?thesis using assms(2) by (auto simp: b(2) sourced_def outgoing_def)
qed

lemma loop_iteration_sourced:
  assumes it: "loop_iteration ro bk it ev a = Some (Inr a')" and ok: "ag_ok a" "orders_ok ro" and L: "sourced L a"
  shows "sourced (L \<union> event_links ev) a' \<and>
    set (concat (coord_localtriggers a')) \<subseteq> set (concat (coord_localtriggers a)) \<union> set (fired_triggers ev)"
proof -
  let ?a = "a\<lparr>ag_dm := (ag_dm a)\<lparr>now := it_now it\<rparr>\<rparr>" and ?ch = "reporting_data a @ [data_to_report a]"
  have t: "sourced L ?a" "sourced L (?a\<lparr>reporting_data := ?ch\<rparr>)"
    using L by (auto simp: sourced_def outgoing_def links_def trace_of_def)
  have tm: "tm_ok (ag_tm ?a, ag_dm ?a)" using ok(1) ag_ok_now [where t = "it_now it" and a = a] by (simp add: ag_ok_def)
  have adds: "?thesis" if "adds_only (event_links ev) (set (fired_triggers ev)) ?a a'"
    using sourced_adds [OF t(1) that] that by (auto simp: adds_only_def)
  show ?thesis
  proof (cases ev)
    case TimerFired
    then have "next_batch ro bk it ?a = Inr a'" using it by (auto simp: loop_iteration_def Let_def split: if_split_asm)
    from sourced_next_batch [OF this t(1) tm ok(2)] show ?thesis using TimerFired by auto
  next
    case DataSent
    then have "next_batch ro bk it (?a\<lparr>reporting_data := ?ch\<rparr>) = Inr a'" using it by (auto simp: loop_iteration_def Let_def split: if_split_asm)
    from sourced_next_batch [OF this t(2) _ ok(2)] show ?thesis using DataSent tm by auto
  qed (use it adds processRemoteTriggers_adds [of bk _ ?a a'] processTriggers_adds [of bk _ _ ?a a']
      processCompletedBuffers_adds [of ro _ ?a a'] processBreadcrumbs_adds [of _ ?a a']
    in \<open>auto simp: loop_iteration_def Let_def\<close>)
qed

end
