(* ===== verification/Process.thy ===== *)
theory Process
  imports System DataLinks ShmApi
begin

text \<open>
  An agent process: the goroutines that \<^verbatim>\<open>agent.Run\<close> starts, with the channels between them. The loops of
  the shared memory, the processing loop, the reporting loop and the client of the coordinator take
  turns in any order, and so do the applications on the other side of the shared memory. Each theory so
  far follows a buffer or a trigger through one of them; here they are followed through all.
\<close>

section \<open>The state\<close>

text \<open>
  The state of each goroutine. Ghosts: the buffers that applications hold, the trace for which a buffer
  was completed last, and the triggers that applications have fired.
\<close>

record 'b process =
  pr_agent :: "'b Agent"
  pr_api :: api_state
  pr_rep :: "'b reporter"
  pr_client :: AgentCoordinator
  pr_users :: "int multiset"
  pr_owner :: "int \<Rightarrow> u64"
  pr_fired :: "mem_Trigger set"

text \<open>
  The processing loop writes to channels that the other goroutines read: it sees their content, and what
  it leaves there is what they see.
\<close>

definition attach :: "'b process \<Rightarrow> 'b Agent" where
  "attach p = (pr_agent p)
     \<lparr>Agent.api_Available := GoAgentAPI.api_Available (as_api (pr_api p)),
      reporting_data := rp_data (rr_state (pr_rep p)),
      coord_localtriggers := ac_localtriggers (pr_client p),
      coord_breadcrumbs := ac_breadcrumbs (pr_client p)\<rparr>"

definition detach :: "'b Agent \<Rightarrow> 'b process \<Rightarrow> 'b process" where
  "detach a p = p
     \<lparr>pr_agent := a,
      pr_api := (pr_api p)\<lparr>as_api := (as_api (pr_api p))\<lparr>GoAgentAPI.api_Available := Agent.api_Available a\<rparr>\<rparr>,
      pr_rep := (pr_rep p)\<lparr>rr_state := (rr_state (pr_rep p))\<lparr>rp_data := reporting_data a\<rparr>\<rparr>,
      pr_client := (pr_client p)\<lparr>ac_localtriggers := coord_localtriggers a, ac_breadcrumbs := coord_breadcrumbs a\<rparr>\<rparr>"

lemma attach_detach [simp]: "attach (detach a p) = a"
  by (simp add: attach_def detach_def)

section \<open>Steps\<close>

text \<open>
  What the select of the processing loop receives. A batch that is a Go map is visited in any order.
\<close>

inductive receives :: "agent_event \<Rightarrow> 'b process \<Rightarrow> 'b process \<Rightarrow> bool" where
  timer: "receives TimerFired p p"
| sent: "receives DataSent p p"
| remote: "ac_remotetriggers (pr_client p) = ts # ch \<Longrightarrow>
    receives (RemoteTriggers ts) p (p\<lparr>pr_client := (pr_client p)\<lparr>ac_remotetriggers := ch\<rparr>\<rparr>)"
| local: "api_Triggers (as_api (pr_api p)) = ts # ch \<Longrightarrow>
    receives (LocalTriggers ts) p (p\<lparr>pr_api := (pr_api p)\<lparr>as_api := (as_api (pr_api p))\<lparr>api_Triggers := ch\<rparr>\<rparr>\<rparr>)"
| complete: "api_Complete (as_api (pr_api p)) = m # ch \<Longrightarrow> mset batch = mset m \<Longrightarrow>
    receives (CompleteBuffers batch) p (p\<lparr>pr_api := (pr_api p)\<lparr>as_api := (as_api (pr_api p))\<lparr>api_Complete := ch\<rparr>\<rparr>\<rparr>)"
| crumbs: "api_Breadcrumbs (as_api (pr_api p)) = m # ch \<Longrightarrow> mset batch = mset m \<Longrightarrow>
    receives (BreadcrumbsReceived batch) p (p\<lparr>pr_api := (pr_api p)\<lparr>as_api := (as_api (pr_api p))\<lparr>api_Breadcrumbs := ch\<rparr>\<rparr>\<rparr>)"

definition upd_shm :: "(shm \<Rightarrow> shm) \<Rightarrow> 'b process \<Rightarrow> 'b process" where
  "upd_shm g p = p\<lparr>pr_api := (pr_api p)\<lparr>as_shm := g (as_shm (pr_api p))\<rparr>\<rparr>"

definition give_back :: "int list list \<Rightarrow> 'b process \<Rightarrow> 'b process" where
  "give_back bss p = p\<lparr>pr_api := (pr_api p)\<lparr>as_api := (as_api (pr_api p))
     \<lparr>GoAgentAPI.api_Available := GoAgentAPI.api_Available (as_api (pr_api p)) @ bss\<rparr>\<rparr>\<rparr>"

text \<open>
  The steps of the applications (taking a buffer, writing to the pool, completing a buffer for a trace,
  firing a trigger, leaving a breadcrumb), of the loops of the shared memory, of the processing loop, of
  the reporting loop, and of the client that sends breadcrumbs.
\<close>

inductive process_step :: "'b buckets \<Rightarrow> 'b process \<Rightarrow> 'b process \<Rightarrow> bool" for bk where
  acquires: "shm_available (as_shm (pr_api p)) = b # q \<Longrightarrow>
    process_step bk p ((upd_shm (\<lambda>m. m\<lparr>shm_available := q\<rparr>) p)\<lparr>pr_users := add_mset b (pr_users p)\<rparr>)"
| writes: "length bytes = length (pool (shm_buffers (as_shm (pr_api p)))) \<Longrightarrow>
    process_step bk p (upd_shm (\<lambda>m. m\<lparr>shm_buffers := (shm_buffers m)\<lparr>pool := bytes\<rparr>\<rparr>) p)"
| completes: "b \<in># pr_users p \<Longrightarrow>
    process_step bk p ((upd_shm (\<lambda>m. m\<lparr>shm_complete := shm_complete m @ [(i, b)]\<rparr>) p)
      \<lparr>pr_users := pr_users p - {#b#}, pr_owner := (pr_owner p)(b := i)\<rparr>)"
| fires: "is_int32 (Queue_id t) \<Longrightarrow>
    process_step bk p ((upd_shm (\<lambda>m. m\<lparr>shm_triggers := shm_triggers m @ [t]\<rparr>) p)\<lparr>pr_fired := insert t (pr_fired p)\<rparr>)"
| leaves: "process_step bk p (upd_shm (\<lambda>m. m\<lparr>shm_breadcrumbs := shm_breadcrumbs m @ [(i, addr)]\<rparr>) p)"
| loops: "memory_Run_turn k (pr_api p) = Some (Inr s) \<Longrightarrow> process_step bk p (p\<lparr>pr_api := s\<rparr>)"
| iterates: "receives ev p p1 \<Longrightarrow> orders_ok ro \<Longrightarrow> loop_iteration ro bk it ev (attach p1) = Some (Inr a) \<Longrightarrow>
    process_step bk p (detach a p1)"
| reports: "(\<And>bs. e \<noteq> DataArrives bs) \<Longrightarrow>
    reporting_Run_step bk (shm_buffers (as_shm (pr_api p))) e (pr_rep p) = Some (Inr (out, r)) \<Longrightarrow>
    process_step bk p ((give_back out p)\<lparr>pr_rep := r\<rparr>)"
| tells: "ReportBreadcrumbs ord (pr_client p, enc) = Some (req, c, enc1) \<Longrightarrow> process_step bk p (p\<lparr>pr_client := c\<rparr>)"

section \<open>The invariant\<close>

text \<open>Where the buffers are: all places together.\<close>

definition all_buffers :: "'b process \<Rightarrow> int multiset" where
  "all_buffers p = (let s = pr_api p in
     mset (shm_available (as_shm s)) + pr_users p + mset (map snd (shm_complete (as_shm s))) +
     mset (concat (map snd (concat (api_Complete (as_api s))))) + owned (attach p))"

definition owner_links :: "(int \<Rightarrow> u64) \<Rightarrow> links" where
  "owner_links ow = {(ow b, Inr b) | b. True}"

definition known :: "mem_Trigger set \<Rightarrow> (int \<Rightarrow> u64) \<Rightarrow> links" where
  "known F ow = link_of ` F \<union> owner_links ow"

lemma link_of_iff: "link_of u = (i, x) \<longleftrightarrow> (\<exists>t. x = Inl t \<and> u = as_mem t i)"
  by (cases u) (auto simp: link_of_def as_mem_def)

lemma known_iff:
  "(i, Inl t) \<in> known F ow \<longleftrightarrow> as_mem t i \<in> F" "(i, Inr b) \<in> known F ow \<longleftrightarrow> ow b = i"
proof -
  have "(i, x) \<in> link_of ` F \<longleftrightarrow> (\<exists>t. x = Inl t \<and> as_mem t i \<in> F)" for x
    unfolding image_iff by (metis link_of_iff)
  then show "(i, Inl t) \<in> known F ow \<longleftrightarrow> as_mem t i \<in> F" "(i, Inr b) \<in> known F ow \<longleftrightarrow> ow b = i"
    by (auto simp: known_def owner_links_def)
qed

text \<open>Completed buffers and the traces they were completed for; triggers that have been fired and wait.\<close>

definition batch_labels :: "(u64 \<times> int list) list \<Rightarrow> (u64 \<times> int) set" where
  "batch_labels m = {(i, b) | i b bs. (i, bs) \<in> set m \<and> b \<in> set bs}"

lemma batch_labels_append [simp]: "batch_labels (m @ m') = batch_labels m \<union> batch_labels m'"
  by (auto simp: batch_labels_def)

definition labels :: "api_state \<Rightarrow> (u64 \<times> int) set" where
  "labels s = set (shm_complete (as_shm s)) \<union> batch_labels (concat (api_Complete (as_api s)))"

definition waiting_triggers :: "api_state \<Rightarrow> mem_Trigger set" where
  "waiting_triggers s = set (shm_triggers (as_shm s)) \<union> set (concat (api_Triggers (as_api s)))"

text \<open>
  \<open>M\<close>: the buffers of the pool; \<open>F\<close>: the triggers fired anywhere. No buffer is lost or duplicated, labels
  are right, what the data manager knows and what is reported comes from the labels and from \<open>F\<close>.
\<close>

definition proc_inv :: "int multiset \<Rightarrow> mem_Trigger set \<Rightarrow> 'b process \<Rightarrow> bool" where
  "proc_inv M F p \<longleftrightarrow> ag_ok (attach p) \<and> backoffs_ok (pr_api p) \<and> all_buffers p = M \<and>
     labels (pr_api p) \<subseteq> {(i, b). pr_owner p b = i} \<and> sourced (known F (pr_owner p)) (attach p) \<and>
     waiting_triggers (pr_api p) \<subseteq> F \<and> agent_holds F (pr_client p)"

declare proc_inv_def [process_defs] all_buffers_def [process_defs] labels_def [process_defs]
  waiting_triggers_def [process_defs] backoffs_ok_def [process_defs] upd_shm_def [process_defs]
  owned_def [process_defs] Let_def [process_defs]

lemma known_mono: "F \<subseteq> G \<Longrightarrow> known F ow \<subseteq> known G ow"
  by (auto simp: known_def)

lemma sourced_mono: "sourced L a \<Longrightarrow> L \<subseteq> L' \<Longrightarrow> sourced L' a"
  using reportable_mono [of L L'] by (auto simp: sourced_def)

lemma proc_inv_mono: "proc_inv M F p \<Longrightarrow> F \<subseteq> G \<Longrightarrow> proc_inv M G p"
  using sourced_mono [OF _ known_mono [of F G]] agent_holds_mono [of F _ G] by (auto simp: proc_inv_def)

text \<open>The agent with other contents of its channels.\<close>

lemma attach_upd [simp]:
  "attach (upd_shm g p) = attach p" "attach (p\<lparr>pr_users := u\<rparr>) = attach p" "attach (p\<lparr>pr_owner := ow\<rparr>) = attach p"
  "attach (p\<lparr>pr_fired := f\<rparr>) = attach p"
  "attach (p\<lparr>pr_api := s\<rparr>) = (attach p)\<lparr>Agent.api_Available := GoAgentAPI.api_Available (as_api s)\<rparr>"
  "attach (p\<lparr>pr_rep := r\<rparr>) = (attach p)\<lparr>reporting_data := rp_data (rr_state r)\<rparr>"
  "attach (p\<lparr>pr_client := c\<rparr>) = (attach p)\<lparr>coord_localtriggers := ac_localtriggers c, coord_breadcrumbs := ac_breadcrumbs c\<rparr>"
  by (simp_all add: attach_def upd_shm_def)

lemma attach_sel [simp]:
  "Agent.api_Available (attach p) = GoAgentAPI.api_Available (as_api (pr_api p))"
  "reporting_data (attach p) = rp_data (rr_state (pr_rep p))"
  "coord_localtriggers (attach p) = ac_localtriggers (pr_client p)" "coord_breadcrumbs (attach p) = ac_breadcrumbs (pr_client p)"
  by (simp_all add: attach_def)

lemma sourced_upd [simp]:
  "sourced L (a\<lparr>Agent.api_Available := x\<rparr>) = sourced L a"
  "sourced L (a\<lparr>coord_localtriggers := y\<rparr>) = sourced L a" "sourced L (a\<lparr>coord_breadcrumbs := z\<rparr>) = sourced L a"
  by (simp_all add: sourced_def outgoing_def)

lemma ag_ok_upd [simp]: "ag_ok (a\<lparr>Agent.api_Available := x\<rparr>) = ag_ok a"
  by (simp add: ag_ok_def)

lemma owned_upd [simp]:
  "owned (a\<lparr>coord_localtriggers := y\<rparr>) = owned a" "owned (a\<lparr>coord_breadcrumbs := z\<rparr>) = owned a"
  by (simp_all add: owned_def)

section \<open>Buffers keep their labels\<close>

lemma links_held: "dm_inv dm \<Longrightarrow> (i, Inr b) \<in> links dm \<Longrightarrow> b \<in># held dm"
proof -
  assume dm: "dm_inv dm" and l: "(i, Inr b) \<in> links dm"
  then obtain s where s: "trace_of dm i = Some s" "b \<in> set (bufs s)" by (auto simp: link_iff)
  have "held dm = held (del_trace i dm) + mset (bufs s)"
    using held_upd [of "del_trace i dm" dm i None] s(1) by simp
  then show ?thesis using s(2) by simp
qed

text \<open>A buffer that the agent does not own may be completed for another trace.\<close>

lemma sourced_relabel:
  assumes "sourced (known F ow) a" and "b \<notin># owned a" and "ag_ok a"
  shows "sourced (known F (ow(b := i))) a"
proof -
  have dm: "dm_inv (ag_dm a)" using assms(3) by (simp add: ag_ok_def tm_ok_def)
  have l: "(j, Inr c) \<in> known F (ow(b := i))" if "(j, Inr c) \<in> known F ow" "c \<in># owned a" for j c
    using that assms(2) by (auto simp: known_iff)
  have t: "(j, Inl t) \<in> known F (ow(b := i)) \<longleftrightarrow> (j, Inl t) \<in> known F ow" for j t by (simp add: known_iff)
  have "links (ag_dm a) \<subseteq> known F (ow(b := i))"
  proof clarify
    fix j x assume x: "(j, x) \<in> links (ag_dm a)"
    then have k: "(j, x) \<in> known F ow" using assms(1) by (auto simp: sourced_def)
    show "(j, x) \<in> known F (ow(b := i))"
    proof (cases x)
      case (Inr c)
      then show ?thesis using l k links_held [OF dm] x by (auto simp: owned_def)
    qed (use k t in simp)
  qed
  moreover have "c \<in># owned a" if "c \<in> outgoing a" for c using that by (auto simp: outgoing_def owned_def)
  ultimately show ?thesis using assms(1) l t unfolding sourced_def reportable_def by blast
qed

lemma group_by_labels:
  assumes "(i, l) \<in> set (group_by q [])" and "b \<in> set l"
  shows "(i, b) \<in> set q"
proof -
  have "distinct (map fst (group_by q []))" by (rule distinct_group_by) simp
  then have "group_of (group_by q []) i = l" using assms(1) by (simp add: group_of_def)
  then have "l = map snd (filter (\<lambda>x. fst x = i) q)" using group_by_ok [of q "[]" i] by (simp add: group_of_def)
  then show ?thesis using assms(2) by auto
qed

lemma completeLoop_labels:
  assumes "completeLoop_turn q ch b = Inr (q', ch', b')"
  shows "batch_labels (concat ch') \<subseteq> set q \<union> batch_labels (concat ch)"
proof -
  obtain n ch1 bs where r: "drainBatches 20 q ch = Inr (n, [], ch1)" "ch1 = ch @ map (\<lambda>b. group_by b []) bs" "concat bs = q"
    using drain_ok [OF gets_calls(1), of 20 q "Suc (length q)" 0 ch] by (auto simp: drainBatches_def BATCHSIZE_def elim!: yieldsE)
  then have "ch' = ch @ map (\<lambda>b. group_by b []) bs" using assms by (simp add: completeLoop_turn_def)
  then show ?thesis using group_by_labels r(3) by (fastforce simp: batch_labels_def)
qed

lemma memory_Run_turn_labels:
  assumes "memory_Run_turn k s = Some (Inr s')"
  shows "labels s' \<subseteq> labels s \<and> waiting_triggers s' \<subseteq> waiting_triggers s"
proof (cases k)
  case AvailableLoop
  then show ?thesis using assms by (auto simp: availableLoop_turn_def labels_def waiting_triggers_def simp del: set_concat split: list.splits)
next
  case CompleteLoop
  obtain q ch b where c: "completeLoop_turn (shm_complete (as_shm s)) (api_Complete (as_api s)) (as_complete_backoff s) = Inr (q, ch, b)" "q = []"
    using completeLoop_turn_ok [of "shm_complete (as_shm s)" "api_Complete (as_api s)" "as_complete_backoff s"] by (auto elim!: yieldsE)
  show ?thesis using assms CompleteLoop completeLoop_labels [OF c(1)] c by (auto simp: labels_def waiting_triggers_def simp del: set_concat)
next
  case TriggerLoop
  show ?thesis using assms TriggerLoop triggerLoop_turn_ok [of "shm_triggers (as_shm s)" "api_Triggers (as_api s)" "as_trigger_backoff s"]
    by (auto simp: labels_def waiting_triggers_def simp del: set_concat elim!: yieldsE)
next
  case BreadcrumbsLoop
  then show ?thesis using assms by (auto simp: labels_def waiting_triggers_def simp del: set_concat)
qed


section \<open>Steps keep the invariant\<close>

text \<open>A step of the shared memory, seen as a step of the circulation of \<open>ShmApi\<close>.\<close>

definition as_circulation :: "'b process \<Rightarrow> circulation" where
  "as_circulation p = \<lparr>ci_api = pr_api p, ci_clients = pr_users p,
     ci_agent = held (ag_dm (pr_agent p)) + mset (data_to_report (pr_agent p)) + mset (concat (rp_data (rr_state (pr_rep p))))\<rparr>"

lemma all_buffers_circulation: "all_buffers p = everywhere (as_circulation p)"
  by (simp add: all_buffers_def everywhere_def as_circulation_def owned_def attach_def Let_def ac_simps)

lemma proc_inv_loops:
  assumes "proc_inv M F p" and "\<forall>b\<in>#M. is_int32 b" and "memory_Run_turn k (pr_api p) = Some (Inr s)"
  shows "proc_inv M F (p\<lparr>pr_api := s\<rparr>)"
proof -
  have "set (concat (GoAgentAPI.api_Available (as_api (pr_api p)))) \<subseteq> set_mset (all_buffers p)"
    by (auto simp: all_buffers_def owned_def Let_def)
  then have a: "all_int32 (mset (concat (GoAgentAPI.api_Available (as_api (pr_api p)))))"
    using assms(1,2) by (auto simp: proc_inv_def all_int32_def)
  have "backoffs_ok (pr_api p)" using assms(1) by (simp add: proc_inv_def)
  from memory_Run_turn_ok [OF a this assms(3), of "as_circulation p"]
  have "backoffs_ok s" "all_buffers (p\<lparr>pr_api := s\<rparr>) = all_buffers p"
    by (simp_all add: all_buffers_circulation) (simp_all add: as_circulation_def)
  then show ?thesis using assms(1) memory_Run_turn_labels [OF assms(3)] by (auto simp: proc_inv_def)
qed

lemma proc_inv_completes:
  assumes p: "proc_inv M F p" and M: "\<forall>b. count M b \<le> 1" and b: "b \<in># pr_users p"
  shows "proc_inv M F ((upd_shm (\<lambda>m. m\<lparr>shm_complete := shm_complete m @ [(i, b)]\<rparr>) p)
      \<lparr>pr_users := pr_users p - {#b#}, pr_owner := (pr_owner p)(b := i)\<rparr>)"
proof -
  let ?p = "(upd_shm (\<lambda>m. m\<lparr>shm_complete := shm_complete m @ [(i, b)]\<rparr>) p)
      \<lparr>pr_users := pr_users p - {#b#}, pr_owner := (pr_owner p)(b := i)\<rparr>"
  obtain U where U: "pr_users p = add_mset b U" using b by (meson multi_member_split)
  let ?rest = "mset (map snd (shm_complete (as_shm (pr_api p)))) +
     mset (concat (map snd (concat (api_Complete (as_api (pr_api p)))))) + owned (attach p)"
  have "M = add_mset b U + mset (shm_available (as_shm (pr_api p))) + ?rest"
    using p U by (simp add: proc_inv_def all_buffers_def Let_def ac_simps)
  then have "count ?rest b = 0" using M [rule_format, of b] by (simp only: count_union count_add_mset) simp
  then have n: "b \<notin># ?rest" by (simp only: count_eq_zero_iff not_False_eq_True)
  have l: "labels (pr_api ?p) = insert (i, b) (labels (pr_api p))" by (auto simp: labels_def upd_shm_def)
  have "(j, b) \<notin> labels (pr_api p)" for j using n by (force simp: labels_def batch_labels_def)
  then have 1: "labels (pr_api ?p) \<subseteq> {(i, b). pr_owner ?p b = i}" using p unfolding l by (auto simp: proc_inv_def)
  have 2: "sourced (known F ((pr_owner p)(b := i))) (attach p)"
    using p n by (intro sourced_relabel) (simp_all add: proc_inv_def)
  have 3: "all_buffers ?p = all_buffers p" by (simp add: all_buffers_def U Let_def upd_shm_def owned_def)
  show ?thesis using p 1 2 3 unfolding proc_inv_def by (simp add: upd_shm_def backoffs_ok_def waiting_triggers_def)
qed

lemma proc_inv_reports:
  assumes p: "proc_inv M F p" and e: "\<And>bs. e \<noteq> DataArrives bs"
    and r: "reporting_Run_step bk P e (pr_rep p) = Some (Inr (out, r))"
  shows "proc_inv M F ((give_back out p)\<lparr>pr_rep := r\<rparr>)"
proof -
  have rr: "Run_returns bk P e (pr_rep p) = Some (out, r)" using r by (simp add: Run_returns_def)
  have c: "concat out @ concat (rp_data (rr_state r)) = concat (rp_data (rr_state (pr_rep p)))"
    using buffers_out.step_live [OF _ rr] by (cases e) (simp_all add: batch_of_def e)
  have l: "length (rp_data (rr_state r)) \<le> length (rp_data (rr_state (pr_rep p)))"
  proof (cases e)
    case (Dials co)
    then show ?thesis using r by (cases co) (auto simp: Let_def split: option.splits prod.splits)
  qed (use r e in \<open>auto split: option.splits list.splits link_phase.splits dest!: reportData_data\<close>)
  have 1: "ag_ok ((attach p)\<lparr>Agent.api_Available := x, reporting_data := rp_data (rr_state r)\<rparr>)" for x
    using p l by (simp add: proc_inv_def ag_ok_def)
  have 2: "all_buffers ((give_back out p)\<lparr>pr_rep := r\<rparr>) = all_buffers p"
    using arg_cong [OF c [symmetric], of mset] by (simp add: all_buffers_def give_back_def owned_def Let_def ac_simps)
  have 3: "sourced L ((attach p)\<lparr>Agent.api_Available := x, reporting_data := rp_data (rr_state r)\<rparr>)" if "sourced L (attach p)" for L x
    using that arg_cong [OF c, of set] by (auto simp: sourced_def outgoing_def simp del: set_concat)
  show ?thesis using p 1 2 3 unfolding proc_inv_def by (simp add: give_back_def backoffs_ok_def waiting_triggers_def labels_def)
qed


text \<open>The client may replace its channels by others that are not longer.\<close>

lemma proc_inv_client:
  assumes "proc_inv M F p" and "agent_holds F c"
    and "length (ac_localtriggers c) \<le> length (ac_localtriggers (pr_client p))"
    and "length (ac_breadcrumbs c) \<le> length (ac_breadcrumbs (pr_client p))"
  shows "proc_inv M F (p\<lparr>pr_client := c\<rparr>)"
  using assms by (auto simp: proc_inv_def all_buffers_def ag_ok_def)

lemma mset_batch: "mset batch = mset m \<Longrightarrow> mset (concat (map snd batch)) = mset (concat (map snd m))"
  by (simp add: mset_concat comp_def flip: sum_mset_sum_list)

text \<open>What a message that the processing loop receives takes from the channels.\<close>

lemma receives_inv:
  assumes "receives ev p p1" and p: "proc_inv (M + mset (arrivals ev)) F p"
  shows "proc_inv M F p1 \<and> event_links ev \<subseteq> known F (pr_owner p1) \<and> set (fired_triggers ev) \<subseteq> F"
  using assms(1)
proof cases
  case (remote ts ch)
  then show ?thesis using p proc_inv_client [of M F p] by (auto simp: proc_inv_def agent_holds_def known_def)
next
  case (local ts ch)
  then show ?thesis using p by (auto simp: process_defs known_def)
next
  case (complete m ch batch)
  have "batch_labels batch = batch_labels m" using mset_eq_setD [OF complete(4)] by (simp add: batch_labels_def)
  then have b: "batch_labels batch \<subseteq> {(i, b). pr_owner p b = i}" using p complete(3) by (simp add: proc_inv_def labels_def)
  have "completed_links batch \<subseteq> known F (pr_owner p)"
    using b by (force simp: completed_links_def batch_labels_def known_def owner_links_def)
  then show ?thesis using p complete mset_batch [OF complete(4)]
    by (auto simp: process_defs)
next
  case (crumbs m ch batch)
  then show ?thesis using p by (auto simp: process_defs)
qed (use p in simp_all)

lemma arrivals_in_pool:
  assumes "receives ev p p1" and "proc_inv M F p"
  obtains M1 where "M = M1 + mset (arrivals ev)"
proof -
  have "mset (arrivals ev) \<subseteq># M"
    using assms by cases (auto simp: proc_inv_def all_buffers_def Let_def dest: mset_batch)
  then show ?thesis using that by (metis subset_mset.add_diff_inverse add.commute)
qed

lemma detach_sel [simp]:
  "labels (pr_api (detach a p)) = labels (pr_api p)" "waiting_triggers (pr_api (detach a p)) = waiting_triggers (pr_api p)"
  "backoffs_ok (pr_api (detach a p)) = backoffs_ok (pr_api p)" "pr_owner (detach a p) = pr_owner p"
  "pr_fired (detach a p) = pr_fired p"
  "agent_holds F (pr_client (detach a p)) \<longleftrightarrow> set (concat (coord_localtriggers a)) \<subseteq> F \<and> set (concat (ac_remotetriggers (pr_client p))) \<subseteq> F"
  by (simp_all add: detach_def labels_def waiting_triggers_def backoffs_ok_def agent_holds_def)

lemma all_buffers_detach: "owned a = owned (attach p) + N \<Longrightarrow> all_buffers (detach a p) = all_buffers p + N"
  by (simp add: all_buffers_def Let_def) (simp add: detach_def)

lemma proc_inv_iterates:
  assumes "receives ev p p1" and ro: "orders_ok ro" and it: "loop_iteration ro bk it ev (attach p1) = Some (Inr a)"
    and p: "proc_inv M F p"
  shows "proc_inv M F (detach a p1)"
proof -
  obtain M1 where M: "M = M1 + mset (arrivals ev)" by (rule arrivals_in_pool [OF assms(1) p])
  note r = receives_inv [OF assms(1) p [unfolded M]]
  have ok: "ag_ok (attach p1)" "sourced (known F (pr_owner p1)) (attach p1)" using r by (simp_all add: proc_inv_def)
  have 1: "ag_ok a" "owned a = owned (attach p1) + mset (arrivals ev)" using loop_iteration_ok [OF ok(1) ro it] by simp_all
  have "known F (pr_owner p1) \<union> event_links ev = known F (pr_owner p1)" using r by auto
  then have "sourced (known F (pr_owner p1)) a" "set (concat (coord_localtriggers a)) \<subseteq> F"
    using loop_iteration_sourced [OF it ok(1) ro ok(2)] r by (auto simp: proc_inv_def agent_holds_def simp del: set_concat)
  moreover have "set (concat (ac_remotetriggers (pr_client p1))) \<subseteq> F" using r by (simp add: proc_inv_def agent_holds_def)
  ultimately show ?thesis using r 1 all_buffers_detach [OF 1(2)] by (simp add: proc_inv_def M)
qed


lemma proc_inv_tells:
  assumes "ReportBreadcrumbs ord (pr_client p, enc) = Some (req, c, enc1)" and "proc_inv M F p"
  shows "proc_inv M F (p\<lparr>pr_client := c\<rparr>)"
proof -
  obtain ms ch where c: "accumulate (\<lambda>m. if m = [] then [] else [m]) 100 (ac_breadcrumbs (pr_client p)) = Some (ms, ch)"
      "c = (pr_client p)\<lparr>ac_breadcrumbs := ch\<rparr>"
    using assms(1) by (auto simp: ReportBreadcrumbs_def split: option.splits prod.splits)
  have "agent_holds F c" using assms(2) by (simp add: c(2) proc_inv_def agent_holds_def)
  then show ?thesis using accumulate_rest(2) [OF c(1)] by (intro proc_inv_client [OF assms(2)]) (simp_all add: c(2))
qed

lemma process_step_inv:
  assumes "process_step bk p p'" and "proc_inv M F p" and "\<forall>b. count M b \<le> 1" and "\<forall>b\<in>#M. is_int32 b"
  shows "proc_inv M (F \<union> pr_fired p') p'"
  using assms(1)
proof cases
  case (fires t)
  have "proc_inv M (F \<union> pr_fired p') p" using proc_inv_mono [OF assms(2)] by simp
  then show ?thesis
    by (auto simp: fires process_defs)
next
  case (completes b i)
  then show ?thesis using proc_inv_mono [OF proc_inv_completes [OF assms(2,3) completes(2)]] by simp
next
  case (loops k s)
  then show ?thesis using proc_inv_mono [OF proc_inv_loops [OF assms(2,4) loops(2)]] by simp
next
  case (iterates ev p1 ro it a)
  then show ?thesis using proc_inv_mono [OF proc_inv_iterates [OF iterates(2-4) assms(2)]] by simp
next
  case (reports e out r)
  then show ?thesis using proc_inv_mono [OF proc_inv_reports [OF assms(2) reports(2,3)]] by simp
next
  case (tells ord enc req c enc1)
  then show ?thesis using proc_inv_mono [OF proc_inv_tells [OF tells(2) assms(2)]] by simp
qed (use proc_inv_mono [OF assms(2), of "F \<union> pr_fired p'"] in \<open>auto simp: process_defs\<close>)


section \<open>Nothing panics\<close>

lemma proc_loops_yield:
  assumes "proc_inv M F p" and "\<forall>b\<in>#M. is_int32 b" and "memory_Run_turn k (pr_api p) = Some x"
  shows "yields x (\<lambda>_. True)"
proof -
  have "all_int32 (mset (concat (GoAgentAPI.api_Available (as_api (pr_api p)))))" "backoffs_ok (pr_api p)"
    using assms(1,2) by (auto simp: proc_inv_def all_int32_def all_buffers_def owned_def Let_def)
  from memory_Run_turn_ok [OF this assms(3), of "as_circulation p"] show ?thesis by (auto elim!: yieldsE)
qed

lemma proc_iteration_yields:
  assumes "proc_inv M F p" and "receives ev p p1" and "orders_ok ro" and "loop_iteration ro bk it ev (attach p1) = Some x"
  shows "yields x (\<lambda>_. True) \<or> x = Inl NonTermination \<and> (ev = TimerFired \<or> ev = DataSent)"
proof -
  obtain M1 where M: "M = M1 + mset (arrivals ev)" by (rule arrivals_in_pool [OF assms(2,1)])
  have "ag_ok (attach p1)" using receives_inv [OF assms(2) assms(1) [unfolded M]] by (simp add: proc_inv_def)
  from loop_iteration_ok [OF this assms(3,4)] show ?thesis by (cases x) auto
qed

lemma proc_reporting_yields:
  assumes "proc_inv M F p" and "\<forall>b\<in>#M. \<exists>d. buffer_data P b = Inr d" and "reporting_Run_step bk P e (pr_rep p) = Some x"
  shows "yields x (\<lambda>_. True)"
proof (rule reporting_Run_yields [OF _ assms(3)])
  have "set (concat (rp_data (rr_state (pr_rep p)))) \<subseteq> set_mset M"
    using assms(1) by (auto simp: process_defs)
  then show "\<forall>b\<in>set (concat (rp_data (rr_state (pr_rep p)))). \<exists>d. buffer_data P b = Inr d" using assms(2) by auto
qed

end
