(* ===== verification/DataProps.thy ===== *)
theory DataProps
  imports DataLimits
begin

text \<open>
  The properties of the data manager, each with a witness on a small store: trace 5 holds two
  buffers and is triggered by queue 1, trace 6 holds one buffer and is untriggered.
\<close>

section \<open>A small store\<close>

definition ex_orders :: range_orders where
  "ex_orders = \<lparr>ro_trigger = (\<lambda>ks. ks), ro_trace = (\<lambda>ks. ks), ro_queue = (\<lambda>ks. ks)\<rparr>"

lemma ex_orders_ok [simp]: "orders_ok ex_orders"
  by (simp add: orders_ok_def ex_orders_def)

fun ok_value :: "'a res \<Rightarrow> 'a option" where
  "ok_value (Inr a) = Some a"
| "ok_value (Inl e) = None"

definition ex_store1 :: DataManager where
  "ex_store1 = the (ok_value (AddBuffers ex_orders 5 [1, 2] (InitDataManager 0)))"

definition ex_store2 :: DataManager where
  "ex_store2 = the (ok_value (AddBuffers ex_orders 6 [3] ex_store1))"

definition ex_store :: DataManager where
  "ex_store = snd (the (ok_value (dm_Trigger 1 5 [5] ex_store2)))"

lemma the_ok_value: "yields m P \<Longrightarrow> P (the (ok_value m))"
  by (auto elim!: yieldsE)

lemma ex_store1_inv: "dm_inv ex_store1"
  using the_ok_value [OF AddBuffers_ok [OF InitDataManager_ok ex_orders_ok, of 5 "[1, 2]"]] by (simp add: ex_store1_def)

lemma ex_store2_inv: "dm_inv ex_store2"
  using the_ok_value [OF AddBuffers_ok [OF ex_store1_inv ex_orders_ok, of 6 "[3]"]] by (simp add: ex_store2_def)

lemma ex_store_inv: "dm_inv ex_store"
  using the_ok_value [OF dm_Trigger_ok [OF ex_store2_inv, of 1 5 "[5]"]] by (simp add: ex_store_def split: prod.splits)

lemma ex_store_eval:
  "td_buffer_count (triggered ex_store) = 2" "buffer_count ex_store = 3"
  "lru (untriggered ex_store) = [6]"
  "trace_of ex_store 5 = Some (ReportingTrace [1, 2] [tid 1 5])"
  "fired_of ex_store (tid 1 5) = Some \<lparr>ft_id = tid 1 5, ft_traces = [5], ft_buffer_count = 2, ft_state = ReportingTrigger\<rparr>"
  by code_simp+

lemma ex_store_rep: "rep ex_store 1 \<noteq> {}"
proof -
  have "5 \<in> rep ex_store 1" by (simp add: rep_def ex_store_eval)
  then show ?thesis by blast
qed

lemma ex_store_queue: "queue_of ex_store 1 \<noteq> None"
  using ex_store_eval(5) by (auto simp: fired_of_def split: option.splits)

section \<open>Properties\<close>

text \<open>
  C18. \<^verbatim>\<open>AddBuffers\<close> on a well-formed store returns, keeps the invariant, appends the buffers to the one
  trace it is about, keeps that trace's triggers, and makes an untriggered trace the most recently
  used one.
\<close>

theorem AddBuffers_correct:
  assumes "dm_inv dm" and "orders_ok ro"
  shows "yields (AddBuffers ro i bs dm) (\<lambda>dm'. dm_inv dm' \<and> held dm' = held dm + mset bs \<and>
     (\<exists>s'. trace_of dm' = (trace_of dm)(i \<mapsto> s') \<and> bufs s' = obufs (trace_of dm i) @ bs \<and>
        trigs s' = (case trace_of dm i of None \<Rightarrow> {} | Some s \<Rightarrow> trigs s) \<and>
        (trigs s' = {} \<longrightarrow> hd (lru (untriggered dm')) = i)))"
  using AddBuffers_ok [OF assms, of i bs] by (elim yieldsE) auto

theorem AddBuffers_correct_witness:
  "dm_inv ex_store \<and> yields (AddBuffers ex_orders 5 [9] ex_store) (\<lambda>dm'. dm_inv dm' \<and>
     held dm' = held ex_store + {#9#})"
  using AddBuffers_correct [OF ex_store_inv ex_orders_ok, of 5 "[9]"] ex_store_inv by (auto elim!: yieldsE)

text \<open>
  C19. A trigger fires: every trace it names exists afterwards and names the trigger, all traces keep
  their buffers and the triggers they had, and the trigger is the only one that may be new.
\<close>

theorem Trigger_correct:
  assumes "dm_inv dm"
  shows "yields (dm_Trigger k b is dm) (\<lambda>(crumbs, dm'). dm_inv dm' \<and> held dm' = held dm \<and>
     (\<forall>i \<in> set is. \<exists>s. trace_of dm' i = Some s \<and> tid k b \<in> trigs s) \<and>
     (\<forall>i s. trace_of dm i = Some s \<longrightarrow> (\<exists>s'. trace_of dm' i = Some s' \<and> trigs s \<subseteq> trigs s' \<and> bufs s' = bufs s)) \<and>
     dom (fired_of dm') = insert (tid k b) (dom (fired_of dm)))"
  using dm_Trigger_ok [OF assms, of k b "is"] by (elim yieldsE) (auto simp: grows_def)

theorem Trigger_correct_witness:
  "yields (dm_Trigger 2 6 [6, 5] ex_store) (\<lambda>(crumbs, dm'). dm_inv dm' \<and> held dm' = held ex_store \<and>
     (\<forall>i \<in> {5, 6}. \<exists>s. trace_of dm' i = Some s \<and> tid 2 6 \<in> trigs s))"
  using Trigger_correct [OF ex_store_inv, of 2 6 "[6, 5]"] by (elim yieldsE) auto

text \<open>
  C23. \<^verbatim>\<open>ReportNext\<close> on a queue with a reporting trigger takes the trigger with the smallest trace id,
  hands out exactly the buffers of its traces, and leaves those traces triggered and empty; every
  other trace is as it was.
\<close>

theorem ReportNext_correct:
  assumes "dm_inv dm" and "orders_ok ro" and "queue_of dm k \<noteq> None" and "rep dm k \<noteq> {}"
  shows "yields (queue_ReportNext ro k dm) (\<lambda>(out, dm'). dm_inv dm' \<and> held dm = held dm' + mset out \<and>
     (\<exists>f. fired_of dm (tid k (Min (rep dm k))) = Some f \<and>
        out = concat (map (\<lambda>i. obufs (trace_of dm i)) (ro_trace ro (ft_traces f)))) \<and>
     trace_of dm' = (\<lambda>i. map_option (\<lambda>s. if tid k (Min (rep dm k)) \<in> trigs s then emptied s else s) (trace_of dm i)))"
proof -
  obtain q where q: "queue_of dm k = Some q" using assms(3) by auto
  have "finite (rep dm k)" using dm_inv_keys(2) [OF assms(1) q] ppt.finite_keys by metis
  then have "Min (rep dm k) \<in> rep dm k" using assms(4) by simp
  then obtain f where f: "fired_of dm (tid k (Min (rep dm k))) = Some f" using rep_fired by blast
  from queue_ReportNext_ok [OF assms(1,2) q assms(4)] show ?thesis
    by (elim yieldsE) (auto simp: f trigger_buffers_def reported_trigger_def)
qed

theorem ReportNext_correct_witness:
  "yields (queue_ReportNext ex_orders 1 ex_store) (\<lambda>(out, dm'). dm_inv dm' \<and> held ex_store = held dm' + mset out)"
  using ReportNext_correct [OF ex_store_inv ex_orders_ok ex_store_queue ex_store_rep] by (elim yieldsE) auto

text \<open>
  C20. Evicting a trigger takes it out of every trace: a trace that it alone held is deleted and its
  buffers are handed out, a trace that another trigger holds keeps its buffers, and no untriggered
  trace is touched.
\<close>

theorem EvictNext_correct:
  assumes "dm_inv dm" and "orders_ok ro" and "queue_of dm k \<noteq> None" and "rep dm k \<noteq> {}"
  shows "yields (queue_EvictNext ro k dm) (\<lambda>(out, dm'). dm_inv dm' \<and> held dm = held dm' + mset out \<and>
     (\<exists>b \<in> rep dm k. fired_of dm' = (fired_of dm)(tid k b := None) \<and>
        (\<forall>i s. trace_of dm i = Some s \<longrightarrow>
           (if trigs s = {tid k b} then trace_of dm' i = None
            else \<exists>s'. trace_of dm' i = Some s' \<and> bufs s' = bufs s \<and> trigs s' = trigs s - {tid k b}))))"
proof -
  obtain q where q: "queue_of dm k = Some q" using assms(3) by auto
  have core: "core {} (trace_of dm) (fired_of dm)" using dm_okD(1) assms(1) by (simp add: dm_inv_def)
  have strip: "if trigs s = {t} then strip t s = None
      else \<exists>s'. strip t s = Some s' \<and> bufs s' = bufs s \<and> trigs s' = trigs s - {t}" if "trace_of dm i = Some s" for i s t
  proof (cases "t \<in> trigs s")
    case True
    have wf: "trace_wf s" by (rule coreD(1) [OF core that])
    have "strip t s = None \<longleftrightarrow> trigs s = {t}"
      using True wf by (cases s) (auto simp: removeAll_Nil_iff)
    then show ?thesis using strip_cases [OF True wf] by (cases "strip t s") auto
  next
    case False
    then show ?thesis using strip_other [OF coreD(1) [OF core that] False] by auto
  qed
  from queue_EvictNext_ok [OF assms(1,2) q assms(4)] show ?thesis
  proof (rule yields_mono, clarify)
    fix out dm' b
    assume a: "dm_inv dm'" "held dm = held dm' + mset out" "b \<in> rep dm k" "evicted_trigger (tid k b) dm dm'"
    have "if trigs s = {tid k b} then trace_of dm' i = None
        else \<exists>s'. trace_of dm' i = Some s' \<and> bufs s' = bufs s \<and> trigs s' = trigs s - {tid k b}"
      if "trace_of dm i = Some s" for i s
      using strip [OF that, of "tid k b"] a(4) that by (simp add: evicted_trigger_def)
    then show "\<exists>b \<in> rep dm k. fired_of dm' = (fired_of dm)(tid k b := None) \<and>
        (\<forall>i s. trace_of dm i = Some s \<longrightarrow>
           (if trigs s = {tid k b} then trace_of dm' i = None
            else \<exists>s'. trace_of dm' i = Some s' \<and> bufs s' = bufs s \<and> trigs s' = trigs s - {tid k b}))"
      using a(3,4) unfolding evicted_trigger_def by blast
  qed
qed

theorem EvictNext_correct_witness:
  "yields (queue_EvictNext ex_orders 1 ex_store) (\<lambda>(out, dm'). dm_inv dm' \<and> held ex_store = held dm' + mset out)"
  using EvictNext_correct [OF ex_store_inv ex_orders_ok ex_store_queue ex_store_rep] by (elim yieldsE) auto



text \<open>
  \<^verbatim>\<open>EvictToCapacity\<close> evicts whole untriggered traces strictly from the cold end of the LRU list, in
  order, and stops as soon as enough buffers are free (the excess, and at least one percent of the
  capacity) or no untriggered trace is left. Triggered traces are never touched.
\<close>

theorem EvictToCapacity_correct:
  assumes "dm_inv dm" and "0 \<le> cap" and "cap < buffer_count dm"
  shows "yields (EvictToCapacity ro cap dm) (\<lambda>(out, dm'). dm_inv dm' \<and> held dm = held dm' + mset out \<and>
     (\<exists>n. lru (untriggered dm') = take (length (lru (untriggered dm)) - n) (lru (untriggered dm)) \<and>
        out = lru_bufs n dm \<and> (\<forall>j < n. int (length (lru_bufs j dm)) < num_to_evict (buffer_count dm) cap)) \<and>
     (\<forall>i s. trace_of dm i = Some s \<and> \<not> is_untriggered s \<longrightarrow> trace_of dm' i = Some s) \<and>
     (buffer_count dm' \<le> cap \<and> go_div cap 100 \<le> int (length out) \<or> lru (untriggered dm') = []))"
  using EvictToCapacity_ok [OF assms, of ro]
proof (rule yields_mono, clarify)
  fix out dm' n
  assume a: "dm_inv dm'" "held dm = held dm' + mset (lru_bufs n dm)" "lru_evicted n dm dm'"
    "\<forall>j < n. int (length (lru_bufs j dm)) < num_to_evict (buffer_count dm) cap"
    "buffer_count dm' \<le> cap \<and> go_div cap 100 \<le> int (length (lru_bufs n dm)) \<or> lru (untriggered dm') = []"
  have l: "lru_ok dm" using assms(1) by (simp add: dm_inv_def dm_ok_def)
  have "trace_of dm' i = Some s" if "trace_of dm i = Some s" "\<not> is_untriggered s" for i s
  proof -
    have "i \<notin> set (lru (untriggered dm))" using that l by (auto simp: lru_ok_def)
    then have "i \<notin> set (drop m (lru (untriggered dm)))" for m using in_set_dropD by fastforce
    then show ?thesis using a(3) that(1) by (simp add: lru_evicted_def Let_def)
  qed
  then show "(\<exists>m. lru (untriggered dm') = take (length (lru (untriggered dm)) - m) (lru (untriggered dm)) \<and>
        lru_bufs n dm = lru_bufs m dm \<and> (\<forall>j < m. int (length (lru_bufs j dm)) < num_to_evict (buffer_count dm) cap)) \<and>
     (\<forall>i s. trace_of dm i = Some s \<and> \<not> is_untriggered s \<longrightarrow> trace_of dm' i = Some s) \<and>
     (buffer_count dm' \<le> cap \<and> go_div cap 100 \<le> int (length (lru_bufs n dm)) \<or> lru (untriggered dm') = [])"
    using a(3,4,5) by (auto simp: lru_evicted_def Let_def)
qed

theorem EvictToCapacity_correct_witness:
  "yields (EvictToCapacity ex_orders 2 ex_store) (\<lambda>(out, dm'). dm_inv dm' \<and> held ex_store = held dm' + mset out \<and>
     trace_of dm' 5 = Some (ReportingTrace [1, 2] [tid 1 5]))"
  using EvictToCapacity_correct [OF ex_store_inv, of 2 ex_orders]
  by (simp add: ex_store_eval) (auto elim!: yieldsE simp: ex_store_eval)



text \<open>
  The counters of the data manager are what they count: the buffer count is the number of
  buffers held, the two sections add up to it, and a trigger's count is the sum over its traces. In
  particular no count is ever negative.
\<close>

theorem counters_correct:
  assumes "dm_inv dm"
  shows "buffer_count dm = int (size (held dm)) \<and>
     buffer_count dm = ut_buffer_count (untriggered dm) + td_buffer_count (triggered dm) \<and>
     trace_count dm = int (card (dom (trace_of dm))) \<and>
     (\<forall>t f. fired_of dm t = Some f \<longrightarrow>
        ft_buffer_count f = (\<Sum>i \<in> set (ft_traces f). int (length (obufs (trace_of dm i)))) \<and> 0 \<le> ft_buffer_count f)"
proof -
  note ok = dm_okD [OF assms [unfolded dm_inv_def]]
  have "ft_buffer_count f = (\<Sum>i \<in> set (ft_traces f). int (length (obufs (trace_of dm i)))) \<and> 0 \<le> ft_buffer_count f"
    if "fired_of dm t = Some f" for t f
  proof -
    have "ft_buffer_count f = (\<Sum>i \<in> set (ft_traces f). nbufs (trace_of dm) i)"
      using coreD(3) [OF ok(1) that] by (simp add: fired_ok_def flinks_def)
    moreover have "nbufs (trace_of dm) i = int (length (obufs (trace_of dm i)))" for i
      by (simp add: nbufs_def obufs_def split: option.splits)
    ultimately show ?thesis by (simp add: sum_nonneg)
  qed
  moreover have "trace_count dm = int (card (dom (trace_of dm)))"
    using ok(3) by (simp add: counters_ok_def msum_def)
  ultimately show ?thesis using held_size [OF ok(3)] buffer_count_split [OF ok(3)] by blast
qed

theorem counters_correct_witness:
  "int (size (held ex_store)) = 3 \<and> ut_buffer_count (untriggered ex_store) = 1"
  using counters_correct [OF ex_store_inv] by (simp add: ex_store_eval)

section \<open>All operations\<close>

text \<open>
  The calls that the agent makes on the data manager: the clock is set, buffers, breadcrumbs and
  triggers are added, traces and triggers are evicted or timed out, and a queue that has a trigger to
  report reports or evicts one. The result is the state; what a call hands out is dropped.
\<close>

datatype dm_op =
    OpNow time
  | OpAddBuffers u64 "int list"
  | OpAddBreadcrumbs u64 "string list"
  | OpTrigger int u64 "u64 list"
  | OpEvict
  | OpEvictToCapacity int
  | OpEvictTriggered int
  | OpCheckIdle time
  | OpReportNext int
  | OpEvictNext int

definition keep_state :: "('a \<times> 's) res \<Rightarrow> 's res" where
  "keep_state m = bind_res m (\<lambda>(_, s). Inr s)"

definition if_reporting :: "int \<Rightarrow> (DataManager \<Rightarrow> DataManager res) \<Rightarrow> DataManager \<Rightarrow> DataManager res" where
  "if_reporting k f dm =
     (case queue_of dm k of
        None \<Rightarrow> Inr dm
      | Some q \<Rightarrow> if 0 < Size (tq_reporting q) then f dm else Inr dm)"

fun dm_apply :: "range_orders \<Rightarrow> dm_op \<Rightarrow> DataManager \<Rightarrow> DataManager res" where
  "dm_apply ro (OpNow t) dm = Inr (dm\<lparr>now := t\<rparr>)"
| "dm_apply ro (OpAddBuffers i bs) dm = AddBuffers ro i bs dm"
| "dm_apply ro (OpAddBreadcrumbs i crumbs) dm = keep_state (AddBreadcrumbs i crumbs dm)"
| "dm_apply ro (OpTrigger k b is) dm = keep_state (dm_Trigger k b is dm)"
| "dm_apply ro OpEvict dm = keep_state (dm_Evict ro dm)"
| "dm_apply ro (OpEvictToCapacity cap) dm = keep_state (EvictToCapacity ro cap dm)"
| "dm_apply ro (OpEvictTriggered cap) dm = keep_state (EvictedTriggeredToCapacity ro cap dm)"
| "dm_apply ro (OpCheckIdle t) dm = dm_CheckIdleTriggers ro t dm"
| "dm_apply ro (OpReportNext k) dm = if_reporting k (\<lambda>dm. keep_state (queue_ReportNext ro k dm)) dm"
| "dm_apply ro (OpEvictNext k) dm = if_reporting k (\<lambda>dm. keep_state (queue_EvictNext ro k dm)) dm"

lemma keep_state_ok: "yields m (\<lambda>(out, s). P s \<and> Q out s) \<Longrightarrow> yields (keep_state m) P"
  by (auto simp: keep_state_def elim!: yieldsE)

lemma if_reporting_ok:
  assumes "dm_inv dm" and "\<And>q. queue_of dm k = Some q \<Longrightarrow> rep dm k \<noteq> {} \<Longrightarrow> yields (f dm) dm_inv"
  shows "yields (if_reporting k f dm) dm_inv"
proof (cases "queue_of dm k")
  case (Some q)
  have "0 < Size (tq_reporting q) \<Longrightarrow> rep dm k \<noteq> {}"
    using dm_inv_keys [OF assms(1) Some] ppt.sz_keys by fastforce
  then show ?thesis using assms Some by (auto simp: if_reporting_def)
qed (use assms(1) in \<open>simp add: if_reporting_def\<close>)

lemma dm_apply_ok:
  assumes "dm_inv dm" and "orders_ok ro"
  shows "yields (dm_apply ro op dm) dm_inv"
proof (cases op)
  case (OpEvictToCapacity cap)
  then show ?thesis
    using assms(1) EvictToCapacity_ok [OF assms(1), of cap ro]
    by (cases "0 \<le> cap \<and> cap < buffer_count dm") (auto simp: EvictToCapacity_def keep_state_def elim!: yieldsE)
next
  case (OpEvictTriggered cap)
  then show ?thesis
    using assms(1) EvictedTriggeredToCapacity_ok [OF assms, of cap]
    by (cases "0 \<le> cap \<and> cap < td_buffer_count (triggered dm)") (auto simp: EvictedTriggeredToCapacity_def keep_state_def elim!: yieldsE)
next
  case (OpReportNext k)
  then show ?thesis using assms(1) by (auto intro!: if_reporting_ok keep_state_ok [OF queue_ReportNext_ok] assms)
next
  case (OpEvictNext k)
  then show ?thesis using assms(1) by (auto intro!: if_reporting_ok keep_state_ok [OF queue_EvictNext_ok] assms)
next
  case (OpAddBuffers i bs)
  then show ?thesis using yields_mono [OF AddBuffers_ok [OF assms]] by simp
next
  case (OpCheckIdle t)
  then show ?thesis using yields_mono [OF dm_CheckIdleTriggers_ok [OF assms]] by simp
qed (use assms(1) AddBreadcrumbs_ok [OF assms(1)] dm_Trigger_ok [OF assms(1)] dm_Evict_ok [OF assms(1)] in
    \<open>auto intro!: keep_state_ok\<close>)

text \<open>
  C15. The state of the data manager is well formed from its creation on: every sequence of calls
  returns, without a panic and without a loop that does not end, and after each of them the indices,
  queues, lists and counters describe the same traces and triggers.
\<close>

theorem data_manager_well_formed:
  assumes "orders_ok ro"
  shows "yields (foreach (dm_apply ro) ops (InitDataManager t)) dm_inv"
proof -
  have "yields (foreach (dm_apply ro) ops dm) dm_inv" if "dm_inv dm" for dm
    using that
  proof (induction ops arbitrary: dm)
    case (Cons op ops)
    then show ?case using dm_apply_ok [OF Cons.prems assms, of op] by (auto elim!: yieldsE)
  qed simp
  then show ?thesis using InitDataManager_ok by blast
qed

theorem data_manager_well_formed_witness:
  "yields (foreach (dm_apply ex_orders) [OpAddBuffers 5 [1, 2], OpTrigger 1 5 [5, 6], OpNow 7, OpReportNext 1, OpAddBuffers 6 [3],
     OpEvictNext 1, OpEvictToCapacity 0, OpCheckIdle 9] (InitDataManager 0)) dm_inv"
  by (rule data_manager_well_formed) simp

end
