(* ===== verification/AgentProps.thy ===== *)
theory AgentProps
  imports AgentLoop DataProps
begin

text \<open>
  The properties of the trigger manager and of the agent's loop, with witnesses on a small agent: a
  batch of buffers for the traces 5 and 6 has arrived, and trace 5 was triggered in queue 1.
\<close>

section \<open>A small agent\<close>

text \<open>A bucket that is a number of tokens and refills at no instant.\<close>

definition ex_buckets :: "int buckets" where
  "ex_buckets = \<lparr>bk_new = (\<lambda>rate cap. cap), bk_available = (\<lambda>t b. b), bk_take = (\<lambda>t n b. b - n)\<rparr>"

definition ex_agent0 :: "int Agent" where
  "ex_agent0 = the (ok_value (InitAgent2 ex_buckets 0 4096 10 100 []))"

definition ex_agent1 :: "int Agent" where
  "ex_agent1 = the (ok_value (processCompletedBuffers ex_orders [(5, [1, 2]), (6, [3])] ex_agent0))"

definition ex_agent :: "int Agent" where
  "ex_agent = the (ok_value (processTriggers ex_buckets (\<lambda>n. 0)
     [\<lparr>Queue_id = 1, Base_trace_id = 5, Trace_id = 5\<rparr>] ex_agent1))"

lemma ex_agent0_ok: "ag_ok ex_agent0" "owned ex_agent0 = {#}"
  using the_ok_value [OF InitAgent2_ok [of 4096 ex_buckets 0 10 100 "[]"]] by (simp_all add: ex_agent0_def)

lemma ex_agent1_ok: "ag_ok ex_agent1"
  using the_ok_value [OF processCompletedBuffers_ok [OF ex_agent0_ok(1) ex_orders_ok]] by (simp add: ex_agent1_def)

lemma ex_agent_ok: "ag_ok ex_agent"
  using the_ok_value [OF processTriggers_ok [OF ex_agent1_ok]] by (simp add: ex_agent_def)

lemma ex_agent_tm: "tm_ok (ag_tm ex_agent, ag_dm ex_agent)"
  using ex_agent_ok by (simp add: ag_ok_def)

lemma ex_agent_eval:
  "mq_of (ag_tm ex_agent) 1 = Some \<lparr>trigger_limiter = 99, reporting_limiter = 10 * 1024 * 1024 * 1024, vt = 0\<rparr>"
  "td_buffer_count (triggered (ag_dm ex_agent)) = 2" "cache_capacity ex_agent = 8"
  "tm_batch_size (ag_tm ex_agent) = 33"
  by code_simp+

section \<open>Properties of the trigger manager\<close>

text \<open>
  A local trigger is let through exactly when its queue's limiter is not in debt, and then costs
  one token. If it is dropped, no trace and no trigger changes; if it is let through, every trace it
  names is triggered.
\<close>

theorem TriggerLocal_correct:
  assumes "tm_ok (tm, dm)" and "mq_of tm k = Some mq"
  shows "yields (TriggerLocal bk t k b is (tm, dm)) (\<lambda>((fired, crumbs), (tm', dm')). tm_ok (tm', dm') \<and>
     (fired \<longleftrightarrow> 0 \<le> bk_available bk t (trigger_limiter mq)) \<and>
     mq_of tm' = (mq_of tm)(k \<mapsto> (if fired then mq\<lparr>trigger_limiter := bk_take bk t 1 (trigger_limiter mq)\<rparr> else mq)) \<and>
     (fired \<longrightarrow> (\<forall>i \<in> set is. \<exists>s. trace_of dm' i = Some s \<and> tid k b \<in> trigs s)) \<and>
     (\<not> fired \<longrightarrow> crumbs = [] \<and> trace_of dm' = trace_of dm \<and> fired_of dm' = fired_of dm))"
  using TriggerLocal_ok [OF assms, of bk t b "is"] by (elim yieldsE) auto

theorem TriggerLocal_correct_witness:
  "yields (TriggerLocal ex_buckets 0 1 6 [6] (ag_tm ex_agent, ag_dm ex_agent)) (\<lambda>((fired, crumbs), (tm', dm')).
     fired \<and> (\<exists>s. trace_of dm' 6 = Some s \<and> tid 1 6 \<in> trigs s))"
  using TriggerLocal_correct [OF ex_agent_tm ex_agent_eval(1), of ex_buckets 0 6 "[6]"]
  by (elim yieldsE) (auto simp: ex_buckets_def)

text \<open>
  C31. One step of reporting is fair: among the queues that hold buffers and are not rate limited it
  takes one with the lowest virtual time and reports that queue's smallest trigger; if there is no
  such queue it reports nothing and changes no trace and no trigger.
\<close>

theorem getNextBuffersToReport_fair:
  assumes "tm_ok (tm, dm)" and "orders_ok ro"
  shows "yields (getNextBuffersToReport ro bk clk (tm, dm)) (\<lambda>(out, (tm', dm')). tm_ok (tm', dm') \<and>
     held dm = held dm' + mset out \<and>
     ((\<forall>k. \<not> eligible bk clk dm tm k) \<and> out = [] \<and> dm' = dm \<or>
      (\<exists>k. eligible bk clk dm tm k \<and> (\<forall>j. eligible bk clk dm tm j \<longrightarrow> vt_of tm k \<le> vt_of tm j) \<and>
         out = trigger_buffers ro dm (tid k (Min (rep dm k))))))"
  using getNextBuffersToReport_ok [OF assms, of bk clk] by (elim yieldsE) (auto simp: passed_def)

theorem getNextBuffersToReport_fair_witness:
  "yields (getNextBuffersToReport ex_orders ex_buckets (\<lambda>k. 0) (ag_tm ex_agent, ag_dm ex_agent))
     (\<lambda>(out, (tm', dm')). held (ag_dm ex_agent) = held dm' + mset out)"
  using getNextBuffersToReport_fair [OF ex_agent_tm ex_orders_ok, of ex_buckets "\<lambda>k. 0"] by (elim yieldsE) auto


definition open_buckets :: "int buckets" where
  "open_buckets = ex_buckets\<lparr>bk_available := (\<lambda>t b. 1)\<rparr>"

lemma ex_agent_queues:
  "map (\<lambda>(k, q). (k, map fst (tq_fired q))) (queues (triggered (ag_dm ex_agent))) = [(1, [5])]"
  by code_simp

lemma ex_agent_reporting: "card (reporting_set (ag_dm ex_agent)) \<le> 1"
proof -
  obtain q f where q: "queues (triggered (ag_dm ex_agent)) = [(1, q)]" "tq_fired q = [(5, f)]"
    using ex_agent_queues by (auto simp: map_eq_Cons_conv)
  have "reporting_set (ag_dm ex_agent) \<subseteq> {tid 1 5}"
    by (auto simp: reporting_set_def fired_of_def queue_of_def q tid_eq_iff split: if_splits)
  then show ?thesis using card_mono [of "{tid 1 5}"] by simp
qed


text \<open>
  The same loop never returns while every limiter is in debt and triggered buffers remain: it
  keeps the processing goroutine busy, whatever number of passes it is given.
\<close>

theorem GetNextBatch_spins:
  assumes "tm_ok (tm, dm)" and "orders_ok ro" and "\<And>m k b. bk_available bk (clk m k) b < 0"
    and "0 < tm_batch_size tm" and "0 < td_buffer_count (triggered dm)"
  shows "GetNextBatchToReport fuel ro bk clk (tm, dm) = Inl NonTermination"
  using batch_loop_spins [OF assms(2), where clk = clk and bk = bk and buffers = "[]" and tm = tm and dm = dm] assms
  by (simp add: GetNextBatchToReport_def)

theorem GetNextBatch_spins_witness:
  "GetNextBatchToReport 1000 ex_orders (ex_buckets\<lparr>bk_available := (\<lambda>t b. - 1)\<rparr>) (\<lambda>m k. 0)
     (ag_tm ex_agent, ag_dm ex_agent) = Inl NonTermination"
  by (rule GetNextBatch_spins [OF ex_agent_tm ex_orders_ok]) (simp_all add: ex_agent_eval)

section \<open>Properties of the agent's loop\<close>

definition ex_iteration :: iteration where
  "ex_iteration = \<lparr>it_now = 1, it_trigger_clk = (\<lambda>n. 1), it_report_clk = (\<lambda>m k. 1), it_passes = 9\<rparr>"

text \<open>
  No iteration of the processing loop fails: no nil or dangling pointer, no index out of range,
  no fatal log. The only thing that can happen is that the report loop has not ended; otherwise the
  invariant holds again.
\<close>

theorem agent_iteration_safe:
  assumes "ag_ok a" and "orders_ok ro" and "loop_iteration ro bk it ev a = Some r"
  shows "(\<exists>a'. r = Inr a' \<and> ag_ok a') \<or> r = Inl NonTermination \<and> (ev = TimerFired \<or> ev = DataSent)"
  using loop_iteration_ok [OF assms] by (cases r) auto

theorem agent_iteration_safe_witness:
  "\<exists>r. loop_iteration ex_orders ex_buckets ex_iteration
       (CompleteBuffers [(7, [8, 9])]) ex_agent = Some r \<and> (\<exists>a'. r = Inr a' \<and> ag_ok a')"
  using agent_iteration_safe [OF ex_agent_ok ex_orders_ok, of ex_buckets ex_iteration "CompleteBuffers [(7, [8, 9])]"]
  by (auto simp: loop_iteration_def Let_def)

text \<open>
  The agent neither loses nor duplicates a buffer. In every run from the initial state, the
  buffers that came in from the shared memory are those it holds in traces, in the batch to report
  and in its channels, together with those it has given back.
\<close>

theorem agent_conserves_buffers:
  assumes "InitAgent2 bk t buffer_size capacity rate limits = Inr a0" and "buffer_size \<noteq> 0" and "orders_ok ro"
    and "agent_run ro bk a0 came went a"
  shows "came = held (ag_dm a) + mset (data_to_report a) + mset (concat (reporting_data a)) +
     mset (concat (api_Available a)) + went"
proof -
  have "ag_ok a0 \<and> owned a0 = {#}"
    using InitAgent2_ok [OF assms(2), of bk t capacity rate limits] assms(1) by simp
  then show ?thesis using agent_run_ok [OF assms(4,3)] by (auto simp: owned_def)
qed

lemma ex_agent0_init: "InitAgent2 ex_buckets 0 4096 10 100 [] = Inr ex_agent0"
  using InitAgent2_ok [of 4096 ex_buckets 0 10 100 "[]"] by (auto simp: ex_agent0_def elim!: yieldsE)

theorem agent_conserves_buffers_witness:
  "\<exists>a. agent_run ex_orders ex_buckets ex_agent0 {#8, 9#} {#} a \<and>
     {#8, 9#} = held (ag_dm a) + mset (data_to_report a) + mset (concat (reporting_data a)) +
       mset (concat (api_Available a)) + {#}"
proof -
  let ?ev = "CompleteBuffers [(7, [8, 9])]"
  let ?a = "ex_agent0\<lparr>ag_dm := (ag_dm ex_agent0)\<lparr>now := it_now ex_iteration\<rparr>\<rparr>"
  have "ag_ok ?a" using ex_agent0_ok by simp
  from processCompletedBuffers_ok [OF this ex_orders_ok, of "[(7, [8, 9])]"]
  obtain a where "loop_iteration ex_orders ex_buckets ex_iteration ?ev ex_agent0 = Some (Inr a)"
    by (auto simp: loop_iteration_def Let_def elim!: yieldsE)
  from agent_run.iterate [OF agent_run.start this]
  have "agent_run ex_orders ex_buckets ex_agent0 {#8, 9#} {#} a" by simp
  with agent_conserves_buffers [OF ex_agent0_init _ ex_orders_ok this] show ?thesis by auto
qed



text \<open>
  A batch of remote triggers is never rate limited: afterwards every trace the batch names exists
  and names its trigger, and no buffer has moved.
\<close>

theorem processRemoteTriggers_correct:
  assumes "ag_ok a"
  shows "yields (processRemoteTriggers bk batch a) (\<lambda>a'. ag_ok a' \<and> owned a' = owned a \<and>
     (\<forall>t \<in> set batch. \<exists>s. trace_of (ag_dm a') (Trace_id t) = Some s \<and>
        \<lparr>queue_id = Queue_id t, base_trace_id = Base_trace_id t\<rparr> \<in> trigs s))"
  using processRemoteTriggers_ok [OF assms, of bk batch] by (elim yieldsE) auto

theorem processRemoteTriggers_correct_witness:
  "yields (processRemoteTriggers ex_buckets [\<lparr>Queue_id = 3, Base_trace_id = 6, Trace_id = 6\<rparr>] ex_agent)
     (\<lambda>a'. \<exists>s. trace_of (ag_dm a') 6 = Some s \<and> \<lparr>queue_id = 3, base_trace_id = 6\<rparr> \<in> trigs s)"
  using processRemoteTriggers_correct [OF ex_agent_ok, of ex_buckets "[\<lparr>Queue_id = 3, Base_trace_id = 6, Trace_id = 6\<rparr>]"]
  by (elim yieldsE) auto

end
