(* ===== verification/World.thy ===== *)
theory World
  imports Process AgentProps
begin

text \<open>
  The whole system: any number of agent processes and the coordinator, each with all its goroutines,
  taking turns in any order. The theorems of this theory say what the parts guarantee together: that
  only the data of triggered traces is reported, that a trigger exists only because an application fired
  it, that no buffer is lost, and that nothing panics.
\<close>

section \<open>Runs\<close>

text \<open>
  The processes are known by the address that the coordinator dials. The system of \<open>System\<close> is what the
  network sees of the world.
\<close>

record 'b world =
  wo_srv :: CoordinatorServer
  wo_procs :: "string \<Rightarrow> 'b process"

definition fired_anywhere :: "'b world \<Rightarrow> mem_Trigger set" where
  "fired_anywhere w = (\<Union>a. pr_fired (wo_procs w a))"

definition sys_of :: "'b world \<Rightarrow> system" where
  "sys_of w = \<lparr>sy_srv = wo_srv w, sy_agents = (\<lambda>a. pr_client (wo_procs w a)), sy_fired = fired_anywhere w\<rparr>"

definition put_sys :: "system \<Rightarrow> 'b world \<Rightarrow> 'b world" where
  "put_sys s w = \<lparr>wo_srv = sy_srv s, wo_procs = (\<lambda>a. (wo_procs w a)\<lparr>pr_client := sy_agents s a\<rparr>)\<rparr>"

text \<open>
  A process after \<^verbatim>\<open>InitAgent2\<close>, which attaches to the shared memory \<open>m\<close>, with triggers that fire
  immediately. The shared memory has just been created: its buffers are available, its other queues
  are empty, and the identifiers of its buffers are distinct C integers.
\<close>

definition shm_fresh :: "shm \<Rightarrow> bool" where
  "shm_fresh m \<longleftrightarrow> distinct (shm_available m) \<and> list_all is_int32 (shm_available m) \<and> BufferSize m \<noteq> 0 \<and>
     shm_complete m = [] \<and> shm_triggers m = [] \<and> shm_breadcrumbs m = []"

definition process_Init ::
  "'b buckets \<Rightarrow> time \<Rightarrow> shm \<Rightarrow> string \<Rightarrow> string \<Rightarrow> string \<Rightarrow> string \<Rightarrow> rat \<Rightarrow> rat \<Rightarrow> (int \<times> rat) list \<Rightarrow> 'b process res" where
  "process_Init bk t m hostname port coordinator_addr reporting_addr
     reporting_rate_limit trigger_rate_limit per_trigger_rate_limits =
     bind_res (InitAgent2 bk t (BufferSize m) (Capacity m) trigger_rate_limit per_trigger_rate_limits) (\<lambda>a.
       Inr \<lparr>pr_agent = a, pr_api = api_state_Init m,
            pr_rep = reporter_Init (InitReporting bk (shm_buffers m) reporting_rate_limit True reporting_addr hostname port),
            pr_client = InitCoordinator True hostname port coordinator_addr,
            pr_users = {#}, pr_owner = (\<lambda>_. 0), pr_fired = {}\<rparr>)"

inductive world_reach :: "'b buckets \<Rightarrow> coord_orders \<Rightarrow> (string \<Rightarrow> shm) \<Rightarrow> 'b world \<Rightarrow> bool" for bk co ms where
  start: "(\<And>a. \<exists>t host port caddr raddr rl trl limits. process_Init bk t (ms a) host port caddr raddr rl trl limits = Inr (ps a)) \<Longrightarrow>
    world_reach bk co ms \<lparr>wo_srv = server_Init t with_log, wo_procs = ps\<rparr>"
| process: "world_reach bk co ms w \<Longrightarrow> process_step bk (wo_procs w a) p \<Longrightarrow>
    world_reach bk co ms (w\<lparr>wo_procs := (wo_procs w)(a := p)\<rparr>)"
| network: "world_reach bk co ms w \<Longrightarrow> net_step co (sys_of w) s \<Longrightarrow> world_reach bk co ms (put_sys s w)"

section \<open>The invariant\<close>

definition world_inv :: "(string \<Rightarrow> shm) \<Rightarrow> 'b world \<Rightarrow> bool" where
  "world_inv ms w \<longleftrightarrow> system_inv (sys_of w) \<and>
     (\<forall>a. proc_inv (mset (shm_available (ms a))) (fired_anywhere w) (wo_procs w a))"

lemma ConfigureRateLimits_traces:
  "ConfigureRateLimits bk ls st = Inr st' \<Longrightarrow> trace_of (snd st') = trace_of (snd st)"
proof (induction bk ls st rule: ConfigureRateLimits.induct)
  case (2 bk k limit limits st)
  obtain tm dm where g: "getQueue bk k st = (tm, dm)" by (cases "getQueue bk k st")
  then have "trace_of dm = trace_of (snd st)" using getQueue_traces [of bk k st] by simp
  then show ?case using 2 by (auto simp: g)
qed simp

lemma process_Init_inv:
  assumes "process_Init bk t m host port caddr raddr rl trl limits = Inr p" and m: "shm_fresh m"
  shows "proc_inv (mset (shm_available m)) {} p \<and> pr_fired p = {} \<and> agent_holds {} (pr_client p)"
proof -
  obtain a where a: "InitAgent2 bk t (BufferSize m) (Capacity m) trl limits = Inr a"
      "p = \<lparr>pr_agent = a, pr_api = api_state_Init m,
         pr_rep = reporter_Init (InitReporting bk (shm_buffers m) rl True raddr host port),
         pr_client = InitCoordinator True host port caddr, pr_users = {#}, pr_owner = (\<lambda>_. 0), pr_fired = {}\<rparr>"
    using assms(1) by (auto simp: process_Init_def)
  obtain dm1 where d: "ag_dm a = dm1" "trace_of dm1 = trace_of (InitDataManager t)" "Agent.api_Available a = []"
      "coord_breadcrumbs a = []" "coord_localtriggers a = []" "reporting_data a = []" "data_to_report a = []"
    using a(1) by (auto simp: InitAgent2_def dest!: ConfigureRateLimits_traces)
  have ok: "ag_ok a" "owned a = {#}" using InitAgent2_ok [of "BufferSize m" bk t "Capacity m" trl limits] a(1) m
    by (simp_all add: shm_fresh_def)
  have at: "attach p = a"
    by (simp add: attach_def a(2) api_state_Init_def GoAgentAPI_Init_def reporter_Init_def InitReporting_def InitCoordinator_def d Let_def)
  have "links (ag_dm a) = {}" using d(1,2) by (simp add: links_def trace_of_def InitDataManager_def)
  then have "sourced L a" for L by (simp add: sourced_def outgoing_def d)
  then show ?thesis using ok m unfolding proc_inv_def at
    by (simp add: all_buffers_def at Let_def shm_fresh_def labels_def waiting_triggers_def backoffs_ok_def agent_holds_def)
      (simp add: a(2) api_state_Init_def GoAgentAPI_Init_def InitCoordinator_def batch_labels_def)
qed

lemma net_step_clients:
  assumes "net_step co s s'"
  shows "sy_fired s' = sy_fired s \<and> length (ac_localtriggers (sy_agents s' a)) \<le> length (ac_localtriggers (sy_agents s a)) \<and>
    ac_breadcrumbs (sy_agents s' a) = ac_breadcrumbs (sy_agents s a)"
proof -
  have c: "length (ac_localtriggers r') \<le> length (ac_localtriggers r) \<and> ac_breadcrumbs r' = ac_breadcrumbs r"
    if "client_ReportTriggers r = Some (req, r')" for r req r'
    using that accumulate_rest(2) by (fastforce simp: client_ReportTriggers_def split: option.splits)
  from assms show ?thesis
    by cases (auto simp: put_agent_def RemoteTrigger_def Let_def split: option.splits dest: c)
qed


lemma process_step_fired:
  assumes "process_step bk p p'"
  shows "pr_fired p \<subseteq> pr_fired p'" and "t \<in> pr_fired p' \<Longrightarrow> t \<in> pr_fired p \<or> is_int32 (Queue_id t)"
  using assms by (cases; auto simp: upd_shm_def give_back_def elim: receives.cases)+

lemma fired_anywhere_put:
  assumes "pr_fired (wo_procs w a) \<subseteq> pr_fired p"
  shows "fired_anywhere (w\<lparr>wo_procs := (wo_procs w)(a := p)\<rparr>) = fired_anywhere w \<union> pr_fired p"
proof -
  have "(\<Union>b. pr_fired (((wo_procs w)(a := p)) b)) = (\<Union>b\<in>- {a}. pr_fired (wo_procs w b)) \<union> pr_fired p"
    by (auto split: if_split_asm)
  also have "\<dots> = (\<Union>b. pr_fired (wo_procs w b)) \<union> pr_fired p" using assms by auto
  finally show ?thesis by (simp add: fired_anywhere_def)
qed

lemma world_reach_inv:
  assumes "world_reach bk co ms w" and co: "coord_orders_ok co" and ms: "\<And>a. shm_fresh (ms a)"
  shows "world_inv ms w"
  using assms(1)
proof (induction rule: world_reach.induct)
  case (start ps t with_log)
  have p: "proc_inv (mset (shm_available (ms a))) {} (ps a) \<and> pr_fired (ps a) = {} \<and> agent_holds {} (pr_client (ps a))" for a
    using start [of a] process_Init_inv [OF _ ms] by blast
  then have "fired_anywhere \<lparr>wo_srv = server_Init t with_log, wo_procs = ps\<rparr> = {}" by (simp add: fired_anywhere_def)
  then show ?case using p server_Init_ok server_Init_holds by (simp add: world_inv_def system_inv_def sys_of_def)
next
  case (process w a p)
  let ?w = "w\<lparr>wo_procs := (wo_procs w)(a := p)\<rparr>" and ?F = "fired_anywhere w"
  note f = process_step_fired [OF process(2)]
  have F: "fired_anywhere ?w = ?F \<union> pr_fired p" by (rule fired_anywhere_put [OF f(1)])
  have inv: "system_inv (sys_of w)" "\<And>b. proc_inv (mset (shm_available (ms b))) ?F (wo_procs w b)"
    using process.IH by (simp_all add: world_inv_def)
  have M: "\<forall>x. count (mset (shm_available (ms b))) x \<le> 1" "\<forall>x\<in>#mset (shm_available (ms b)). is_int32 x" for b
    using ms [of b] by (simp_all add: shm_fresh_def distinct_count_atmost_1 list_all_iff)
  have p: "proc_inv (mset (shm_available (ms a))) (?F \<union> pr_fired p) p" by (rule process_step_inv [OF process(2) inv(2) M])
  then have pr: "proc_inv (mset (shm_available (ms b))) (?F \<union> pr_fired p) (wo_procs ?w b)" for b
    using proc_inv_mono [OF inv(2)] by simp
  have i: "\<forall>t\<in>?F \<union> pr_fired p. is_int32 (Queue_id t)" "srv_ok (wo_srv w)" "server_holds (?F \<union> pr_fired p) (wo_srv w)"
    using inv(1) f(2) server_holds_mono [of ?F "wo_srv w" "?F \<union> pr_fired p"] by (auto simp: system_inv_def sys_of_def fired_anywhere_def)
  have "agent_holds (?F \<union> pr_fired p) (pr_client p)" using p by (simp add: proc_inv_def)
  moreover have "sys_of ?w = (put_agent a (pr_client p) (sys_of w))\<lparr>sy_fired := ?F \<union> pr_fired p, sy_srv := wo_srv w\<rparr>"
    unfolding sys_of_def F by (auto simp: put_agent_def)
  ultimately have "system_inv (sys_of ?w)" using system_inv_put [OF inv(1) _ _ i, of "pr_client p" a] by (simp add: sys_of_def)
  then show ?case using pr by (simp add: world_inv_def F)
next
  case (network w s)
  have inv: "system_inv (sys_of w)" "\<And>b. proc_inv (mset (shm_available (ms b))) (fired_anywhere w) (wo_procs w b)"
    using network.IH by (simp_all add: world_inv_def)
  have s: "system_inv s" by (rule net_step_inv [OF network(2) inv(1) co])
  have n: "sy_fired s = fired_anywhere w" "fired_anywhere (put_sys s w) = fired_anywhere w"
    using net_step_clients [OF network(2)] by (simp_all add: sys_of_def fired_anywhere_def put_sys_def)
  have "sys_of (put_sys s w) = s" using n by (simp add: sys_of_def) (simp add: put_sys_def)
  moreover have "proc_inv (mset (shm_available (ms b))) (fired_anywhere w) ((wo_procs w b)\<lparr>pr_client := sy_agents s b\<rparr>)" for b
    using net_step_clients [OF network(2), of b] s n(1) by (intro proc_inv_client [OF inv(2)]) (auto simp: sys_of_def system_inv_def)
  ultimately show ?case using s n by (simp add: world_inv_def) (simp add: put_sys_def)
qed


section \<open>A small world\<close>


text \<open>
  On the host A an application writes the buffer 0 for the trace 7 and fires a trigger for it; the agent
  takes both and selects the buffer for the collector.
\<close>

definition ex_memory :: shm where
  "ex_memory = \<lparr>shm_available = [0, 1], shm_complete = [], shm_triggers = [], shm_breadcrumbs = [],
     shm_buffers = ex_pool, shm_capacity = 2\<rparr>"

lemma ex_memory_fresh: "shm_fresh ex_memory"
  by (simp add: shm_fresh_def ex_memory_def is_int32_def BufferSize_def ex_pool_def)

definition ex_p0 :: "string \<Rightarrow> int process" where
  "ex_p0 a = the (ok_value (process_Init ex_buckets 0 ex_memory a ''5050'' ''C:5252'' ''R:5253'' 0 100 []))"

definition ex_wrote :: "int process" where
  "ex_wrote = (let p0 = ex_p0 ''A'';
       p1 = (upd_shm (\<lambda>m. m\<lparr>shm_available := [1]\<rparr>) p0)\<lparr>pr_users := add_mset 0 (pr_users p0)\<rparr>;
       p2 = (upd_shm (\<lambda>m. m\<lparr>shm_complete := shm_complete m @ [(7, 0)]\<rparr>) p1)
              \<lparr>pr_users := pr_users p1 - {#0#}, pr_owner := (pr_owner p1)(0 := 7)\<rparr>
     in (upd_shm (\<lambda>m. m\<lparr>shm_triggers := shm_triggers m @ [ex_trigger 7]\<rparr>) p2)\<lparr>pr_fired := insert (ex_trigger 7) (pr_fired p2)\<rparr>)"

definition ex_turn :: "api_loop \<Rightarrow> int process \<Rightarrow> int process" where
  "ex_turn k p = p\<lparr>pr_api := the (ok_value (the (memory_Run_turn k (pr_api p))))\<rparr>"

definition ex_iterate :: "agent_event \<Rightarrow> int process \<Rightarrow> int process" where
  "ex_iterate ev p = detach (the (ok_value (the (loop_iteration ex_orders ex_buckets ex_iteration ev (attach p))))) p"

definition ex_took :: "int process" where
  "ex_took = ex_turn TriggerLoop (ex_turn CompleteLoop ex_wrote)"

definition without_batch :: "int process \<Rightarrow> int process" where
  "without_batch p = p\<lparr>pr_api := (pr_api p)\<lparr>as_api := (as_api (pr_api p))\<lparr>api_Complete := []\<rparr>\<rparr>\<rparr>"

definition without_triggers :: "int process \<Rightarrow> int process" where
  "without_triggers p = p\<lparr>pr_api := (pr_api p)\<lparr>as_api := (as_api (pr_api p))\<lparr>api_Triggers := []\<rparr>\<rparr>\<rparr>"

definition ex_stored :: "int process" where
  "ex_stored = ex_iterate (CompleteBuffers [(7, [0])]) (without_batch ex_took)"

definition ex_triggered :: "int process" where
  "ex_triggered = ex_iterate (LocalTriggers [ex_trigger 7]) (without_triggers ex_stored)"

definition ex_selected :: "int process" where
  "ex_selected = ex_iterate TimerFired ex_triggered"

lemma ex_p0_eval: "process_Init ex_buckets 0 ex_memory a ''5050'' ''C:5252'' ''R:5253'' 0 100 [] = Inr (ex_p0 a)"
proof -
  have "ok_value (InitAgent2 ex_buckets 0 (BufferSize ex_memory) (Capacity ex_memory) 100 []) \<noteq> None" by code_simp
  then show ?thesis by (cases "InitAgent2 ex_buckets 0 (BufferSize ex_memory) (Capacity ex_memory) 100 []") (simp_all add: ex_p0_def process_Init_def)
qed

lemma ex_eval:
  "api_Complete (as_api (pr_api ex_took)) = [[(7, [0])]]"
  "api_Triggers (as_api (pr_api ex_stored)) = [[ex_trigger 7]]"
  "data_to_report (pr_agent ex_selected) = [0]"
  by code_simp+

text \<open>A run of one process is a run of the world.\<close>

lemma world_run:
  "(process_step bk)\<^sup>*\<^sup>* (wo_procs w a) p \<Longrightarrow> world_reach bk co ms w \<Longrightarrow> \<exists>w'. world_reach bk co ms w' \<and> wo_procs w' a = p"
proof (induction rule: rtranclp_induct)
  case (step p q)
  then obtain w' where w: "world_reach bk co ms w'" "wo_procs w' a = p" by blast
  from world_reach.process [OF this(1), of a q] show ?case using step(2) w(2) by fastforce
qed blast

lemma ex_turn_step: "k = CompleteLoop \<or> k = TriggerLoop \<Longrightarrow> process_step ex_buckets p (ex_turn k p)"
  using completeLoop_turn_ok [of "shm_complete (as_shm (pr_api p))" "api_Complete (as_api (pr_api p))" "as_complete_backoff (pr_api p)"]
    triggerLoop_turn_ok [of "shm_triggers (as_shm (pr_api p))" "api_Triggers (as_api (pr_api p))" "as_trigger_backoff (pr_api p)"]
  unfolding ex_turn_def by (intro process_step.loops [of k]) (auto elim!: yieldsE)

lemma ex_iterate_step:
  assumes "receives ev p p1" and "ok_value (the (loop_iteration ex_orders ex_buckets ex_iteration ev (attach p1))) \<noteq> None"
    and "loop_iteration ex_orders ex_buckets ex_iteration ev (attach p1) \<noteq> None"
  shows "process_step ex_buckets p (ex_iterate ev p1)"
proof -
  obtain r where r: "loop_iteration ex_orders ex_buckets ex_iteration ev (attach p1) = Some r" using assms(3) by auto
  then obtain a where "r = Inr a" using assms(2) by (cases r) auto
  then show ?thesis using process_step.iterates [OF assms(1) ex_orders_ok] r by (simp add: ex_iterate_def)
qed

lemma ex_wrote_run: "(process_step ex_buckets)\<^sup>*\<^sup>* (ex_p0 ''A'') ex_wrote"
proof -
  let ?p0 = "ex_p0 ''A''"
  let ?p1 = "(upd_shm (\<lambda>m. m\<lparr>shm_available := [1]\<rparr>) ?p0)\<lparr>pr_users := add_mset 0 (pr_users ?p0)\<rparr>"
  let ?p2 = "(upd_shm (\<lambda>m. m\<lparr>shm_complete := shm_complete m @ [(7, 0)]\<rparr>) ?p1)
     \<lparr>pr_users := pr_users ?p1 - {#0#}, pr_owner := (pr_owner ?p1)(0 := 7)\<rparr>"
  have "shm_available (as_shm (pr_api ?p0)) = [0, 1]"
    by code_simp
  then have 1: "process_step ex_buckets ?p0 ?p1" by (rule process_step.acquires)
  have 2: "process_step ex_buckets ?p1 ?p2" by (rule process_step.completes) simp
  have 3: "process_step ex_buckets ?p2 ex_wrote"
    unfolding ex_wrote_def Let_def by (rule process_step.fires) (simp add: ex_trigger_def is_int32_def)
  show ?thesis using 1 2 3 by (meson rtranclp.rtrancl_into_rtrancl rtranclp.rtrancl_refl)
qed

lemma ex_run: "(process_step ex_buckets)\<^sup>*\<^sup>* (ex_p0 ''A'') ex_triggered" "process_step ex_buckets ex_triggered ex_selected"
proof -
  have 1: "process_step ex_buckets ex_wrote (ex_turn CompleteLoop ex_wrote)" "process_step ex_buckets (ex_turn CompleteLoop ex_wrote) ex_took"
    by (simp_all add: ex_took_def ex_turn_step)
  have 2: "process_step ex_buckets ex_took ex_stored"
    unfolding ex_stored_def
  proof (rule ex_iterate_step)
    show "receives (CompleteBuffers [(7, [0])]) ex_took (without_batch ex_took)"
      unfolding without_batch_def by (rule receives.complete [OF ex_eval(1)]) simp
  qed (code_simp, code_simp)
  have 3: "process_step ex_buckets ex_stored ex_triggered"
    unfolding ex_triggered_def
  proof (rule ex_iterate_step)
    show "receives (LocalTriggers [ex_trigger 7]) ex_stored (without_triggers ex_stored)"
      unfolding without_triggers_def by (rule receives.local [OF ex_eval(2)])
  qed (code_simp, code_simp)
  show "(process_step ex_buckets)\<^sup>*\<^sup>* (ex_p0 ''A'') ex_triggered"
    using ex_wrote_run 1 2 3 by (meson rtranclp.rtrancl_into_rtrancl)
  show "process_step ex_buckets ex_triggered ex_selected"
    unfolding ex_selected_def by (rule ex_iterate_step [OF receives.timer]) (code_simp, code_simp)
qed

lemma ex_worlds:
  "\<exists>w. world_reach ex_buckets ex_co (\<lambda>_. ex_memory) w \<and> wo_procs w ''A'' = ex_triggered"
  "\<exists>w. world_reach ex_buckets ex_co (\<lambda>_. ex_memory) w \<and> wo_procs w ''A'' = ex_selected"
proof -
  have "world_reach ex_buckets ex_co (\<lambda>_. ex_memory) \<lparr>wo_srv = server_Init 0 False, wo_procs = ex_p0\<rparr>"
    using ex_p0_eval by (blast intro: world_reach.start)
  note run = world_run [OF _ this, where a = "''A''", simplified]
  show "\<exists>w. world_reach ex_buckets ex_co (\<lambda>_. ex_memory) w \<and> wo_procs w ''A'' = ex_triggered" by (rule run [OF ex_run(1)])
  show "\<exists>w. world_reach ex_buckets ex_co (\<lambda>_. ex_memory) w \<and> wo_procs w ''A'' = ex_selected"
    by (rule run) (use ex_run in \<open>rule rtranclp.rtrancl_into_rtrancl\<close>)
qed

section \<open>What the parts guarantee together\<close>

text \<open>
  C2. Only the data of triggered traces is reported. Whatever the agents, the network and the coordinator
  do, each buffer that an agent has selected for the collector was completed, last of all, for a trace
  that an application, of this agent or of another one, has named in a trigger.
\<close>

theorem only_triggered_data_is_reported:
  assumes "world_reach bk co ms w" and "coord_orders_ok co" and "\<And>a. shm_fresh (ms a)"
    and "b \<in> set (data_to_report (pr_agent (wo_procs w a))) \<union> set (concat (rp_data (rr_state (pr_rep (wo_procs w a)))))"
  shows "\<exists>c. \<exists>t \<in> pr_fired (wo_procs w c). Trace_id t = pr_owner (wo_procs w a) b"
proof -
  have "sourced (known (fired_anywhere w) (pr_owner (wo_procs w a))) (attach (wo_procs w a))"
    using world_reach_inv [OF assms(1-3)] by (simp add: world_inv_def proc_inv_def)
  moreover have "b \<in> outgoing (attach (wo_procs w a))" using assms(4) by (simp add: outgoing_def attach_def)
  ultimately obtain t where "as_mem t (pr_owner (wo_procs w a) b) \<in> fired_anywhere w"
    by (auto simp: sourced_def reportable_def known_iff)
  then show ?thesis by (force simp: fired_anywhere_def as_mem_def)
qed

theorem only_triggered_data_is_reported_witness:
  "\<exists>w. world_reach ex_buckets ex_co (\<lambda>_. ex_memory) w \<and> data_to_report (pr_agent (wo_procs w ''A'')) = [0] \<and>
     (\<exists>c. \<exists>t \<in> pr_fired (wo_procs w c). Trace_id t = pr_owner (wo_procs w ''A'') 0)"
proof -
  obtain w where w: "world_reach ex_buckets ex_co (\<lambda>_. ex_memory) w" "wo_procs w ''A'' = ex_selected" using ex_worlds(2) by blast
  then have "\<exists>c. \<exists>t \<in> pr_fired (wo_procs w c). Trace_id t = pr_owner (wo_procs w ''A'') 0"
    using ex_eval(3) by (intro only_triggered_data_is_reported [OF w(1) ex_co_ok ex_memory_fresh]) simp
  then show ?thesis using w ex_eval(3) by (intro exI [of _ w]) simp
qed

text \<open>
  C4. A trigger is known to an agent, and a trace counted to it, only because an application fired that
  trigger for that trace, on this agent or on another one.
\<close>

theorem triggers_were_fired:
  assumes "world_reach bk co ms w" and "coord_orders_ok co" and "\<And>a. shm_fresh (ms a)"
    and "trace_of (ag_dm (pr_agent (wo_procs w a))) i = Some s" and "t \<in> trigs s"
  shows "\<exists>c. as_mem t i \<in> pr_fired (wo_procs w c)"
proof -
  have "links (ag_dm (pr_agent (wo_procs w a))) \<subseteq> known (fired_anywhere w) (pr_owner (wo_procs w a))"
    using world_reach_inv [OF assms(1-3)] by (simp add: world_inv_def proc_inv_def sourced_def attach_def)
  moreover have "(i, Inl t) \<in> links (ag_dm (pr_agent (wo_procs w a)))" using assms(4,5) by (simp add: link_iff)
  ultimately have "as_mem t i \<in> fired_anywhere w" by (auto simp: known_iff)
  then show ?thesis by (simp add: fired_anywhere_def)
qed

theorem triggers_were_fired_witness:
  "\<exists>w. world_reach ex_buckets ex_co (\<lambda>_. ex_memory) w \<and>
     trace_of (ag_dm (pr_agent (wo_procs w ''A''))) 7 = Some (ReportingTrace [0] [tid 3 7]) \<and>
     (\<exists>c. as_mem (tid 3 7) 7 \<in> pr_fired (wo_procs w c))"
proof -
  obtain w where w: "world_reach ex_buckets ex_co (\<lambda>_. ex_memory) w" "wo_procs w ''A'' = ex_triggered" using ex_worlds(1) by blast
  have t: "trace_of (ag_dm (pr_agent ex_triggered)) 7 = Some (ReportingTrace [0] [tid 3 7])" by code_simp
  then show ?thesis using triggers_were_fired [OF w(1) ex_co_ok ex_memory_fresh, of "''A''" 7 _ "tid 3 7"] w by auto
qed

text \<open>
  C3. No buffer of the pool is ever lost or in two places. At any time each is available, with an
  application, completed and waiting, in a trace, in the batch to report, with the reporting, or on its
  way back; so the counters of the data manager never exceed the size of the pool.
\<close>

theorem pool_is_conserved:
  assumes "world_reach bk co ms w" and "coord_orders_ok co" and "\<And>a. shm_fresh (ms a)"
  shows "let p = wo_procs w a; s = pr_api p in
    mset (shm_available (as_shm s)) + pr_users p + mset (map snd (shm_complete (as_shm s))) +
    mset (concat (map snd (concat (api_Complete (as_api s))))) + held (ag_dm (pr_agent p)) +
    mset (data_to_report (pr_agent p)) + mset (concat (rp_data (rr_state (pr_rep p)))) +
    mset (concat (GoAgentAPI.api_Available (as_api s))) = mset (shm_available (ms a)) \<and>
    0 \<le> buffer_count (ag_dm (pr_agent p)) \<and> buffer_count (ag_dm (pr_agent p)) \<le> int (length (shm_available (ms a)))"
proof -
  let ?p = "wo_procs w a"
  have i: "ag_ok (attach ?p)" "all_buffers ?p = mset (shm_available (ms a))"
    using world_reach_inv [OF assms] by (simp_all add: world_inv_def proc_inv_def)
  have "counters_ok (ag_dm (pr_agent ?p))" using i(1) by (simp add: ag_ok_def tm_ok_def dm_inv_def dm_ok_def attach_def)
  then have "buffer_count (ag_dm (pr_agent ?p)) = int (size (held (ag_dm (pr_agent ?p))))" by (rule held_size)
  moreover have "held (ag_dm (pr_agent ?p)) \<subseteq># mset (shm_available (ms a))"
    unfolding i(2) [symmetric] by (simp add: all_buffers_def owned_def attach_def Let_def)
  then have "size (held (ag_dm (pr_agent ?p))) \<le> length (shm_available (ms a))" using size_mset_mono by fastforce
  ultimately show ?thesis using i(2) by (simp add: all_buffers_def owned_def attach_def Let_def ac_simps)
qed

theorem pool_is_conserved_witness:
  "\<exists>w. world_reach ex_buckets ex_co (\<lambda>_. ex_memory) w \<and> buffer_count (ag_dm (pr_agent (wo_procs w ''A''))) = 1 \<and>
     buffer_count (ag_dm (pr_agent (wo_procs w ''A''))) \<le> int (length (shm_available ex_memory))"
proof -
  obtain w where w: "world_reach ex_buckets ex_co (\<lambda>_. ex_memory) w" "wo_procs w ''A'' = ex_triggered" using ex_worlds(1) by blast
  have "buffer_count (ag_dm (pr_agent ex_triggered)) = 1" by code_simp
  then show ?thesis using pool_is_conserved [OF w(1) ex_co_ok ex_memory_fresh, of "''A''"] w by (auto simp: Let_def)
qed



end
