(* ===== verification/CollectorRun.thy ===== *)
theory CollectorRun
  imports IOProps
begin

text \<open>
  The collector as a whole (\<^verbatim>\<open>Init\<close>, \<^verbatim>\<open>Run\<close> and \<^verbatim>\<open>printer\<close> of \<^verbatim>\<open>agent/pkg/collector/collector.go\<close>): one goroutine
  for each connection sends what it receives into one channel, from which a writer or a printer takes
  it. Which goroutine sends next is a parameter, a schedule.
\<close>

section \<open>Operations\<close>

record Collector =
  tracefile :: string
  cl_port :: string
  incoming :: "ReceivedBuffer list"

definition collector_Init :: "string \<Rightarrow> string \<Rightarrow> Collector" where
  "collector_Init port file = \<lparr>tracefile = file, cl_port = port, incoming = []\<rparr>"

text \<open>
  The sends of several goroutines into one channel: the schedule names the sender of each message.
  \<open>None\<close>: the schedule names a goroutine that has nothing to send, or ends before all have sent.
\<close>

fun channel_sends :: "nat list \<Rightarrow> 'a list list \<Rightarrow> 'a list option" where
  "channel_sends [] xss = (if concat xss = [] then Some [] else None)"
| "channel_sends (i # sched) xss =
     (if i < length xss
      then case xss ! i of
             [] \<Rightarrow> None
           | x # xs \<Rightarrow> map_option (\<lambda>ys. x # ys) (channel_sends sched (xss[i := xs]))
      else None)"

fun handle_conns :: "rconn list \<Rightarrow> ReceivedBuffer list list res" where
  "handle_conns [] = Inr []"
| "handle_conns (conn # conns) =
     bind_res (handleConnection conn []) (\<lambda>(err, bufs). bind_res (handle_conns conns) (\<lambda>bss. Inr (bufs # bss)))"

text \<open>
  \<^verbatim>\<open>printer\<close>: at each tick it logs the throughput since the last one in MB/s; \<open>None\<close> stands for the
  infinity or the NaN of a division by an interval of length zero.
\<close>

record printer_state =
  pr_count :: nat
  pr_last :: time

definition printer_tput :: "nat \<Rightarrow> time \<Rightarrow> rat option" where
  "printer_tput cnt interval =
     (if interval = 0 then None else Some (of_nat cnt / (of_int interval / 1000000000) / (1024 * 1024)))"

fun printer_step :: "time + ReceivedBuffer \<Rightarrow> printer_state \<Rightarrow> rat option list \<times> printer_state" where
  "printer_step (Inl t) s = ([printer_tput (pr_count s) (time_sub t (pr_last s))], \<lparr>pr_count = 0, pr_last = t\<rparr>)"
| "printer_step (Inr r) s = ([], s\<lparr>pr_count := pr_count s + length (rb_buffer r)\<rparr>)"

fun printer :: "(time + ReceivedBuffer) list \<Rightarrow> printer_state \<Rightarrow> rat option list \<times> printer_state" where
  "printer [] s = ([], s)"
| "printer (e # es) s = (let (out, s1) = printer_step e s; (outs, s2) = printer es s1 in (out @ outs, s2))"

text \<open>
  \<^verbatim>\<open>Run\<close> for the connections \<open>conns\<close>, once all of them have ended: what went through the channel, and the
  file \<open>f\<close> with what was written to it, if a file is configured. \<open>None\<close>: the port cannot be listened
  on, or the schedule is not one of the goroutines.
\<close>

definition collector_Run :: "bool \<Rightarrow> nat list \<Rightarrow> rconn list \<Rightarrow> wconn \<Rightarrow> Collector \<Rightarrow> (ReceivedBuffer list \<times> wconn) res option" where
  "collector_Run listens sched conns f c =
     (if \<not> listens then None
      else case handle_conns conns of
             Inl e \<Rightarrow> Some (Inl e)
           | Inr bss \<Rightarrow>
               map_option (\<lambda>bufs. Inr (bufs, if tracefile c \<noteq> [] then snd (fileWriter bufs 0 f) else f))
                 (channel_sends sched bss))"

section \<open>Interleaving\<close>

lemma concat_update:
  "i < length xss \<Longrightarrow> xss ! i = x # xs \<Longrightarrow> mset (concat xss) = add_mset x (mset (concat (xss[i := xs])))"
proof (induction xss arbitrary: i)
  case (Cons ys xss)
  then show ?case by (cases i) simp_all
qed simp

lemma channel_sends_ConsE:
  assumes "channel_sends (i # sched) xss = Some ys"
  obtains x xs zs where "i < length xss" "xss ! i = x # xs" "channel_sends sched (xss[i := xs]) = Some zs" "ys = x # zs"
  using assms by (auto split: if_splits list.splits)

lemma channel_sends_mset: "channel_sends sched xss = Some ys \<Longrightarrow> mset ys = mset (concat xss)"
proof (induction sched arbitrary: xss ys)
  case (Cons i sched)
  from Cons.prems show ?case by (rule channel_sends_ConsE) (use Cons.IH concat_update in force)
qed (auto split: if_splits)

text \<open>The messages of one goroutine keep their order.\<close>

lemma channel_sends_filter:
  "channel_sends sched xss = Some ys \<Longrightarrow> k < length xss \<Longrightarrow> (\<And>j x. j < length xss \<Longrightarrow> x \<in> set (xss ! j) \<Longrightarrow> P x \<longleftrightarrow> j = k) \<Longrightarrow>
     filter P ys = xss ! k"
proof (induction sched arbitrary: xss ys)
  case Nil
  then have "ys = []" "\<forall>xs\<in>set xss. xs = []" by (auto split: if_splits)
  then show ?case using nth_mem [OF Nil(2)] by force
next
  case (Cons i sched)
  obtain x xs zs where s: "i < length xss" "xss ! i = x # xs" "channel_sends sched (xss[i := xs]) = Some zs" "ys = x # zs"
    using Cons.prems(1) by (rule channel_sends_ConsE)
  have "filter P zs = xss[i := xs] ! k"
    by (rule Cons.IH [OF s(3)]) (use Cons.prems(2,3) s(1,2) in \<open>auto simp: nth_list_update split: if_splits\<close>)
  moreover have "P x \<longleftrightarrow> i = k" using Cons.prems(3) s(1,2) by simp
  ultimately show ?case using s by auto
qed

text \<open>Every goroutine can send: there is a complete schedule.\<close>

lemma channel_sends_complete: "\<exists>sched ys. channel_sends sched xss = Some ys"
proof (induction "length (concat xss)" arbitrary: xss)
  case 0
  then show ?case by (intro exI [of _ "[]"]) auto
next
  case (Suc n)
  then obtain i x xs where i: "i < length xss" "xss ! i = x # xs"
    by (metis concat_eq_Nil_conv in_set_conv_nth length_0_conv list.exhaust nat.distinct(1))
  have "n = length (concat (xss[i := xs]))"
    using arg_cong [OF concat_update [OF i], of size] Suc.hyps(2) by (simp del: size_mset add: size_mset [symmetric])
  then obtain sched ys where "channel_sends sched (xss[i := xs]) = Some ys" using Suc.hyps(1) by blast
  then show ?case using i by (intro exI [of _ "i # sched"]) simp
qed

section \<open>Many agents\<close>

text \<open>
  What one agent sends on a connection: its address and buffers. A connection delivers it when its
  bytes are those of the handshake and the frames.
\<close>

definition delivers_data :: "rconn \<Rightarrow> string \<times> byte list list \<Rightarrow> bool" where
  "delivers_data c x \<longleftrightarrow> r_good c \<and> r_in c = frame (bytes_of (fst x)) @ concat (map frame (snd x)) \<and>
     length (fst x) \<le> 1024 * 1024 * 100 \<and> (\<forall>d\<in>set (snd x). length d \<le> 1024 * 1024 * 100)"

definition stored :: "string \<times> byte list list \<Rightarrow> ReceivedBuffer list" where
  "stored x = map (received (fst x)) (filter (\<lambda>d. 32 \<le> length d) (snd x))"

lemma handle_conns_good: "list_all2 delivers_data conns xs \<Longrightarrow> handle_conns conns = Inr (map stored xs)"
proof (induction rule: list_all2_induct)
  case (Cons c conns x xs)
  have "length (fst x) < 2 ^ 32" "\<forall>d\<in>set (snd x). length d < 2 ^ 32" using Cons(1) by (force simp: delivers_data_def)+
  then have "handleConnection c [] = Inr (EndOfFile, stored x)"
    using handleConnection_good [of c "fst x" "snd x" "[]"] Cons(1) by (simp add: delivers_data_def stored_def)
  then show ?case using Cons by simp
qed simp

lemma stored_agent: "b \<in> set (stored x) \<Longrightarrow> source_agent b = fst x \<and> rb_buffer b \<in> set (snd x)"
  by (auto simp: stored_def received_def)

text \<open>
  C16. The collector keeps apart what many agents send at the same time. In whatever order their
  goroutines get to send, the file holds, for each agent, exactly its buffers, in the order it sent
  them and readable again, without those too short to hold a header; and some order is always
  possible.
\<close>

theorem collector_separates_agents:
  assumes "list_all2 delivers_data conns xs" and "distinct (map fst xs)"
    and "w_good f" and "w_out f = []" and "tracefile c \<noteq> []"
  shows "(\<exists>sched bufs f'. collector_Run True sched conns f c = Some (Inr (bufs, f'))) \<and>
    (\<forall>sched bufs f' g a ds. collector_Run True sched conns f c = Some (Inr (bufs, f')) \<longrightarrow>
       f_good g \<longrightarrow> r_in g = w_out f' \<longrightarrow> (a, ds) \<in> set xs \<longrightarrow>
       filter (\<lambda>x. fst x = a) (read_all (length bufs) g) = map (\<lambda>d. (a, d)) (filter (\<lambda>d. 32 \<le> length d) ds))"
proof (intro conjI allI impI)
  note h = handle_conns_good [OF assms(1)]
  show "\<exists>sched bufs f'. collector_Run True sched conns f c = Some (Inr (bufs, f'))"
    using channel_sends_complete [of "map stored xs"] by (auto simp: collector_Run_def h)
  fix sched bufs f' g a ds
  assume "collector_Run True sched conns f c = Some (Inr (bufs, f'))" and g: "f_good g" "r_in g = w_out f'" and x: "(a, ds) \<in> set xs"
  then have s: "channel_sends sched (map stored xs) = Some bufs" "f' = snd (fileWriter bufs 0 f)"
    using assms(5) by (auto simp: collector_Run_def h)
  obtain k where k: "k < length xs" "xs ! k = (a, ds)" using x by (auto simp: in_set_conv_nth)
  have "filter (\<lambda>b. source_agent b = a) bufs = map stored xs ! k"
  proof (rule channel_sends_filter [OF s(1)])
    fix j b assume j: "j < length (map stored xs)" "b \<in> set (map stored xs ! j)"
    then have "source_agent b = map fst xs ! j" using stored_agent [of b "xs ! j"] by simp
    moreover have "a = map fst xs ! k" using k by simp
    ultimately show "source_agent b = a \<longleftrightarrow> j = k" using nth_eq_iff_index_eq [OF assms(2)] j(1) k(1) by simp
  qed (use k in simp)
  then have f: "filter (\<lambda>b. source_agent b = a) bufs = stored (a, ds)" using k by simp
  have "\<forall>x\<in>set xs. length (fst x) \<le> 1024 * 1024 * 100 \<and> (\<forall>d\<in>set (snd x). length d \<le> 1024 * 1024 * 100)"
    using assms(1) by (induction rule: list_all2_induct) (auto simp: delivers_data_def)
  moreover have "set bufs = (\<Union>x\<in>set xs. set (stored x))" using mset_eq_setD [OF channel_sends_mset [OF s(1)]] by simp
  ultimately have l: "\<forall>b\<in>set bufs. length (source_agent b) \<le> 1024 * 1024 * 100 \<and> length (rb_buffer b) \<le> 1024 * 1024 * 100"
    using stored_agent by fastforce
  have "r_in g = concat (map (\<lambda>b. frame (bytes_of (source_agent b)) @ frame (rb_buffer b)) bufs)"
    using fileWriter_good [OF assms(3), of bufs 0] assms(4) g(2) s(2) by simp
  from read_all_good [OF g(1) this l] f show "filter (\<lambda>x. fst x = a) (read_all (length bufs) g) = map (\<lambda>d. (a, d)) (filter (\<lambda>d. 32 \<le> length d) ds)"
    by (simp add: filter_map comp_def stored_def received_def)
qed

definition ex_sent :: "(string \<times> byte list list) list" where
  "ex_sent = [(''A'', [replicate 32 1, [5], replicate 33 2]), (''B'', [replicate 34 3])]"

definition ex_conns :: "rconn list" where
  "ex_conns = map (\<lambda>x. \<lparr>r_in = frame (bytes_of (fst x)) @ concat (map frame (snd x)), r_plan = [Reads 3]\<rparr>) ex_sent"

theorem collector_separates_agents_witness:
  "\<exists>bufs f'. collector_Run True [0, 1, 0] ex_conns ex_wconn (collector_Init ''5253'' ''out'') = Some (Inr (bufs, f')) \<and>
     filter (\<lambda>x. fst x = ''A'') (read_all (length bufs) \<lparr>r_in = w_out f', r_plan = []\<rparr>)
       = [(''A'', replicate 32 1), (''A'', replicate 33 2)]"
proof -
  have d: "list_all2 delivers_data ex_conns ex_sent" by (simp add: ex_conns_def ex_sent_def delivers_data_def r_good_def)
  have "channel_sends [0, 1, 0] (map stored ex_sent) \<noteq> None" by (simp add: ex_sent_def stored_def)
  then obtain bufs f' where r: "collector_Run True [0, 1, 0] ex_conns ex_wconn (collector_Init ''5253'' ''out'') = Some (Inr (bufs, f'))"
    by (auto simp: collector_Run_def handle_conns_good [OF d])
  have x: "distinct (map fst ex_sent)" "(''A'', [replicate 32 1, [5], replicate 33 2]) \<in> set ex_sent"
      "tracefile (collector_Init ''5253'' ''out'') \<noteq> []"
    by (simp_all add: ex_sent_def collector_Init_def)
  have "filter (\<lambda>x. fst x = ''A'') (read_all (length bufs) \<lparr>r_in = w_out f', r_plan = []\<rparr>)
      = map (\<lambda>d. (''A'', d)) (filter (\<lambda>d. 32 \<le> length d) [replicate 32 1, [5], replicate 33 2])"
    using collector_separates_agents [OF d x(1) ex_wconn_good x(3)] r x(2) by (fastforce simp: f_good_def)
  then show ?thesis using r by simp
qed

end
