(* ===== verification/GoStrings.thy ===== *)
theory GoStrings
  imports Prelude "HOL-Library.Sublist"
begin

text \<open>
  What the program uses of Go's \<^verbatim>\<open>strings\<close> and \<^verbatim>\<open>strconv\<close>: searching, splitting and joining, and decimal
  numbers. A string is the list of its bytes.
\<close>

text \<open>A row of telemetry, \<^verbatim>\<open>map[string]string\<close>.\<close>

type_synonym row = "(string \<times> string) list"

section \<open>Searching, splitting and joining\<close>

text \<open>\<^verbatim>\<open>strings.Contains(s, t)\<close>\<close>

definition Contains :: "string \<Rightarrow> string \<Rightarrow> bool" where
  "Contains s t = sublist t s"

text \<open>\<^verbatim>\<open>strings.Split\<close> for a separator of one byte, the only kind the program splits by.\<close>

fun split_loop :: "char \<Rightarrow> string \<Rightarrow> string \<Rightarrow> string list" where
  "split_loop sep word [] = [word]"
| "split_loop sep word (c # s) = (if c = sep then word # split_loop sep [] s else split_loop sep (word @ [c]) s)"

definition Split :: "string \<Rightarrow> char \<Rightarrow> string list" where
  "Split s sep = split_loop sep [] s"

fun Join :: "string list \<Rightarrow> string \<Rightarrow> string" where
  "Join [] sep = []"
| "Join [s] sep = s"
| "Join (s # t # ss) sep = s @ sep @ Join (t # ss) sep"

lemma split_loop_word: "sep \<notin> set w \<Longrightarrow> split_loop sep word (w @ s) = split_loop sep (word @ w) s"
  by (induction w arbitrary: word) auto

lemma split_loop_not_Nil [simp]: "split_loop sep word s \<noteq> []"
  by (induction sep word s rule: split_loop.induct) auto

lemma Split_Join:
  "ss \<noteq> [] \<Longrightarrow> \<forall>s\<in>set ss. sep \<notin> set s \<Longrightarrow> Split (Join ss [sep]) sep = ss"
proof (induction ss "[sep]" rule: Join.induct)
  case (2 s)
  then show ?case using split_loop_word [of sep s "[]" "[]"] by (simp add: Split_def)
next
  case (3 s t ss)
  then show ?case using split_loop_word [of sep s "[]" "sep # Join (t # ss) [sep]"] by (simp add: Split_def)
qed simp

lemma Join_Split: "Join (Split s sep) [sep] = s"
proof -
  have "Join (split_loop sep word s) [sep] = word @ s" for word
  proof (induction sep word s rule: split_loop.induct)
    case (2 sep word c s)
    have "Join (word # split_loop sep [] s) [sep] = word @ [sep] @ Join (split_loop sep [] s) [sep]"
      by (cases "split_loop sep [] s") auto
    then show ?case using 2 by auto
  qed simp
  then show ?thesis by (simp add: Split_def)
qed

section \<open>Decimal numbers\<close>

definition digit_char :: "nat \<Rightarrow> char" where
  "digit_char d = char_of (48 + d)"

definition digit_value :: "char \<Rightarrow> nat option" where
  "digit_value c = (let n = of_char c :: nat in if 48 \<le> n \<and> n \<le> 57 then Some (n - 48) else None)"

fun nat_digits :: "nat \<Rightarrow> string" where
  "nat_digits n = (if n < 10 then [digit_char n] else nat_digits (n div 10) @ [digit_char (n mod 10)])"

declare nat_digits.simps [simp del]

text \<open>\<^verbatim>\<open>strconv.Itoa\<close> and \<^verbatim>\<open>strconv.FormatInt\<close> with base 10\<close>

definition Itoa :: "int \<Rightarrow> string" where
  "Itoa i = (if i < 0 then ''-'' @ nat_digits (nat (- i)) else nat_digits (nat i))"

text \<open>
  \<^verbatim>\<open>strconv.ParseInt(s, 10, 64)\<close>: digit by digit with a test for the range of \<^verbatim>\<open>uint64\<close>, then the test
  for the range of \<^verbatim>\<open>int64\<close>.
\<close>

datatype num_error = ErrSyntax | ErrRange

fun parse_digits :: "string \<Rightarrow> nat \<Rightarrow> num_error + nat" where
  "parse_digits [] n = Inr n"
| "parse_digits (c # s) n =
     (case digit_value c of
        None \<Rightarrow> Inl ErrSyntax
      | Some d \<Rightarrow> if 2 ^ 64 div 10 + 1 \<le> n \<or> 2 ^ 64 \<le> n * 10 + d then Inl ErrRange else parse_digits s (n * 10 + d))"

definition ParseUint :: "string \<Rightarrow> num_error + nat" where
  "ParseUint s = (if s = [] then Inl ErrSyntax else parse_digits s 0)"

definition ParseInt :: "string \<Rightarrow> num_error + int" where
  "ParseInt s =
     (if s = [] then Inl ErrSyntax
      else
        let neg = (hd s = CHR ''-''); digits = (if hd s = CHR ''+'' \<or> neg then tl s else s) in
        case ParseUint digits of
          Inl e \<Rightarrow> Inl e
        | Inr un \<Rightarrow>
            if (\<not> neg \<and> 2 ^ 63 \<le> un) \<or> (neg \<and> 2 ^ 63 < un) then Inl ErrRange
            else Inr (if neg then - int un else int un))"

lemma digit_value_char [simp]: "d < 10 \<Longrightarrow> digit_value (digit_char d) = Some d"
  by (simp add: digit_value_def digit_char_def Let_def)

lemma nat_digits_not_Nil [simp]: "nat_digits n \<noteq> []"
  by (subst nat_digits.simps) simp

lemma nat_digits_chars: "c \<in> set (nat_digits n) \<Longrightarrow> digit_value c \<noteq> None"
  by (induction n rule: nat_digits.induct) (subst (asm) (2) nat_digits.simps, auto split: if_splits)

lemma parse_digits_append:
  "parse_digits s n = Inr m \<Longrightarrow> parse_digits (s @ t) n = parse_digits t m"
  by (induction s arbitrary: n) (auto split: option.splits if_splits)

lemma parse_nat_digits: "n < 2 ^ 64 \<Longrightarrow> parse_digits (nat_digits n) 0 = Inr n"
proof (induction n rule: nat_digits.induct)
  case (1 n)
  show ?case
  proof (cases "n < 10")
    case True
    then show ?thesis by (subst nat_digits.simps) simp
  next
    case False
    then have "parse_digits (nat_digits (n div 10)) 0 = Inr (n div 10)" using 1 by simp
    from parse_digits_append [OF this, of "[digit_char (n mod 10)]"] show ?thesis
      using False 1(2) by (subst nat_digits.simps) simp
  qed
qed

lemma sign_no_digit: "digit_value CHR ''-'' = None" "digit_value CHR ''+'' = None" "digit_value CHR '','' = None"
  "digit_value CHR '' '' = None"
  by code_simp+

lemma ParseInt_Itoa: "- (2 ^ 63) \<le> i \<Longrightarrow> i < 2 ^ 63 \<Longrightarrow> ParseInt (Itoa i) = Inr i"
proof (cases "i < 0")
  case True
  assume "- (2 ^ 63) \<le> i"
  then have "nat (- i) \<le> 2 ^ 63" by (simp add: nat_le_iff)
  then have "nat (- i) < 2 ^ 64" "\<not> 2 ^ 63 < nat (- i)" by simp_all
  then show ?thesis using True parse_nat_digits [of "nat (- i)"]
    by (simp add: ParseInt_def Itoa_def ParseUint_def)
next
  case False
  assume "i < 2 ^ 63"
  then have n: "nat i < 2 ^ 63" using False by (simp add: nat_less_iff)
  have "hd (nat_digits (nat i)) \<in> set (nat_digits (nat i))" by simp
  from nat_digits_chars [OF this] have "hd (nat_digits (nat i)) \<noteq> CHR ''-''" "hd (nat_digits (nat i)) \<noteq> CHR ''+''"
    by (auto simp: sign_no_digit)
  moreover have "nat i < 2 ^ 64" using n by simp
  ultimately show ?thesis using False n parse_nat_digits [of "nat i"]
    by (simp add: ParseInt_def Itoa_def ParseUint_def not_le)
qed

lemma Itoa_chars: "c \<in> set (Itoa i) \<Longrightarrow> c \<noteq> CHR '','' \<and> c \<noteq> CHR '' ''"
  using nat_digits_chars [of c] sign_no_digit by (auto simp: Itoa_def split: if_splits)

end
