(* ===== verification/Telemetry.thy ===== *)
theory Telemetry
  imports GoStrings
begin

text \<open>
  Telemetry, \<^verbatim>\<open>agent/pkg/telemetry\<close>: receivers that turn rows into records, and the reporter that ties a
  generator to a receiver.

  What is written is kept in the receiver: the lines of the terminal, and for a csv file the records
  that are in the file and those still in the buffer of the \<^verbatim>\<open>csv.Writer\<close>. Whether an operation on a
  file succeeds is a parameter of the receiver, the outcomes of its operations in order; with no
  outcome left they succeed. Of a flush that fails nothing counts as written.
\<close>

section \<open>Receivers\<close>

datatype tele_error =
    FileError
  | ManyErrors string "tele_error list"
  | Uninitialized

record csv_file =
  written :: "string list list"
  buffered :: "string list list"
  outcomes :: "bool list"
  file_closed :: bool

datatype Receiver =
    NullReceiver
  | StdoutReceiver (so_headers: "string list") (so_separator: string) (so_lines: "string list")
  | CsvReceiver (csv_headers: "string list") (csv_out: csv_file)
  | MultiReceiver (multi: "Receiver list")

text \<open>An operation on a file that may fail.\<close>

definition attempt :: "csv_file \<Rightarrow> bool \<times> csv_file" where
  "attempt f = (case outcomes f of [] \<Rightarrow> (True, f) | b # bs \<Rightarrow> (b, f\<lparr>outcomes := bs\<rparr>))"

text \<open>\<^verbatim>\<open>csv.Writer\<close>: \<^verbatim>\<open>Write\<close> fills the buffer, \<^verbatim>\<open>WriteAll\<close> writes records and flushes.\<close>

definition csv_Write :: "string list \<Rightarrow> csv_file \<Rightarrow> csv_file" where
  "csv_Write record f = f\<lparr>buffered := buffered f @ [record]\<rparr>"

definition csv_WriteAll :: "string list list \<Rightarrow> csv_file \<Rightarrow> tele_error option \<times> csv_file" where
  "csv_WriteAll records f =
     (case attempt f of
        (True, f1) \<Rightarrow> (None, f1\<lparr>written := written f1 @ buffered f1 @ records, buffered := []\<rparr>)
      | (False, f1) \<Rightarrow> (Some FileError, f1\<lparr>buffered := buffered f1 @ records\<rparr>))"

definition file_Close :: "csv_file \<Rightarrow> tele_error option \<times> csv_file" where
  "file_Close f =
     (case attempt f of
        (True, f1) \<Rightarrow> (None, f1\<lparr>file_closed := True\<rparr>)
      | (False, f1) \<Rightarrow> (Some FileError, f1))"

definition NewCsvReceiver :: "bool list \<Rightarrow> tele_error + Receiver" where
  "NewCsvReceiver plan =
     (case attempt \<lparr>written = [], buffered = [], outcomes = plan, file_closed = False\<rparr> of
        (True, f) \<Rightarrow> Inr (CsvReceiver [] f)
      | (False, f) \<Rightarrow> Inl FileError)"

definition NewStdoutReceiver :: "string \<Rightarrow> Receiver" where
  "NewStdoutReceiver separator = StdoutReceiver [] separator []"

text \<open>The values of a row in the order of the headers; a missing column is empty.\<close>

definition record_of :: "string list \<Rightarrow> row \<Rightarrow> string list" where
  "record_of headers row1 = map (\<lambda>h. case map_of row1 h of Some v \<Rightarrow> v | None \<Rightarrow> []) headers"

text \<open>The error of a \<^verbatim>\<open>MultiReceiver\<close>: none if no receiver fails, else all their errors.\<close>

definition many :: "string \<Rightarrow> (tele_error option \<times> Receiver) list \<Rightarrow> tele_error option \<times> Receiver" where
  "many doing rs =
     (let errors = List.map_filter fst rs
      in (if errors \<noteq> [] then Some (ManyErrors doing errors) else None, MultiReceiver (map snd rs)))"

definition Stdout_Init :: "string list \<Rightarrow> string \<Rightarrow> string list \<Rightarrow> tele_error option \<times> Receiver" where
  "Stdout_Init headers sep out =
     (None, StdoutReceiver headers sep (out @ [''TelemetryHeaders: '' @ Join headers sep]))"

definition Stdout_Report :: "row list \<Rightarrow> string list \<Rightarrow> string \<Rightarrow> string list \<Rightarrow> tele_error option \<times> Receiver" where
  "Stdout_Report rows hs sep out =
     (None, StdoutReceiver hs sep (out @ map (\<lambda>row1. ''Telemetry: '' @ Join (record_of hs row1) sep) rows))"

definition Csv_Init :: "string list \<Rightarrow> csv_file \<Rightarrow> tele_error option \<times> Receiver" where
  "Csv_Init headers f = (None, CsvReceiver headers (csv_Write headers f))"

definition Csv_Close :: "string list \<Rightarrow> csv_file \<Rightarrow> tele_error option \<times> Receiver" where
  "Csv_Close hs f = (let (e, f1) = file_Close f in (e, CsvReceiver hs f1))"

definition Csv_Report :: "row list \<Rightarrow> string list \<Rightarrow> csv_file \<Rightarrow> tele_error option \<times> Receiver" where
  "Csv_Report rows hs f = (let (e, f1) = csv_WriteAll (map (record_of hs) rows) f in (e, CsvReceiver hs f1))"

lemmas simple_receivers = Stdout_Init_def Stdout_Report_def Csv_Init_def Csv_Close_def Csv_Report_def

text \<open>The operations of the interface, with those of a \<^verbatim>\<open>MultiReceiver\<close> as their last case.\<close>

fun receiver_Init :: "string list \<Rightarrow> Receiver \<Rightarrow> tele_error option \<times> Receiver" where
  "receiver_Init headers NullReceiver = (None, NullReceiver)"
| "receiver_Init headers (StdoutReceiver hs sep out) = Stdout_Init headers sep out"
| "receiver_Init headers (CsvReceiver hs f) = Csv_Init headers f"
| "receiver_Init headers (MultiReceiver rs) = many ''initializing'' (map (receiver_Init headers) rs)"

fun receiver_Close :: "Receiver \<Rightarrow> tele_error option \<times> Receiver" where
  "receiver_Close NullReceiver = (None, NullReceiver)"
| "receiver_Close (StdoutReceiver hs sep out) = (None, StdoutReceiver hs sep out)"
| "receiver_Close (CsvReceiver hs f) = Csv_Close hs f"
| "receiver_Close (MultiReceiver rs) = many ''closing'' (map receiver_Close rs)"

fun receiver_Report :: "row list \<Rightarrow> Receiver \<Rightarrow> tele_error option \<times> Receiver" where
  "receiver_Report rows NullReceiver = (None, NullReceiver)"
| "receiver_Report rows (StdoutReceiver hs sep out) = Stdout_Report rows hs sep out"
| "receiver_Report rows (CsvReceiver hs f) = Csv_Report rows hs f"
| "receiver_Report rows (MultiReceiver rs) = many ''reporting'' (map (receiver_Report rows) rs)"

section \<open>The receivers of an agent\<close>

text \<open>
  \<^verbatim>\<open>initTelemetry\<close>: the receivers that are asked for, one alone as it is, several in a \<^verbatim>\<open>MultiReceiver\<close>;
  \<open>file\<close>: the outcomes of the operations on the file if a file name is given.
\<close>

definition initTelemetry :: "bool list option \<Rightarrow> bool \<Rightarrow> tele_error + Receiver" where
  "initTelemetry file verbose =
     (case (case file of None \<Rightarrow> Inr [] | Some plan \<Rightarrow> (case NewCsvReceiver plan of Inl e \<Rightarrow> Inl e | Inr r \<Rightarrow> Inr [r])) of
        Inl e \<Rightarrow> Inl e
      | Inr rs \<Rightarrow>
          let rs1 = rs @ (if verbose then [NewStdoutReceiver '' ''] else []);
              rs2 = (if rs1 = [] then [NullReceiver] else rs1)
          in Inr (if length rs2 = 1 then hd rs2 else MultiReceiver rs2))"

section \<open>The reporter\<close>

text \<open>
  \<^verbatim>\<open>Reporter.Run\<close> from \<open>last_report\<close> on, over the events of its \<^verbatim>\<open>select\<close>: a tick at an instant, and the
  end of the context. The generator is \<open>gen now interval\<close> on its own state. While no event is left the
  reporter waits, with \<open>None\<close> for the error and the instant of its last report.
\<close>

datatype reporter_event = Tick time | Done

datatype reporter_result =
    Waiting time
  | Returned "tele_error option"

fun reporter_loop ::
  "(time \<Rightarrow> time \<Rightarrow> 'g \<Rightarrow> row list \<times> 'g) \<Rightarrow> reporter_event list \<Rightarrow> time \<Rightarrow> 'g \<Rightarrow> Receiver
     \<Rightarrow> reporter_result \<times> 'g \<times> Receiver" where
  "reporter_loop gen [] last_report g r = (Waiting last_report, g, r)"
| "reporter_loop gen (Done # es) last_report g r =
     (let (e, r1) = receiver_Close r in (Returned e, g, r1))"
| "reporter_loop gen (Tick now1 # es) last_report g r =
     (let (rows, g1) = gen now1 (time_sub now1 last_report) g in
      case receiver_Report rows r of
        (Some e, r1) \<Rightarrow> (Returned (Some e), g1, r1)
      | (None, r1) \<Rightarrow> reporter_loop gen es now1 g1 r1)"

definition reporter_Run ::
  "string list \<Rightarrow> (time \<Rightarrow> time \<Rightarrow> 'g \<Rightarrow> row list \<times> 'g) option \<Rightarrow> reporter_event list \<Rightarrow> time \<Rightarrow> 'g \<Rightarrow> Receiver option
     \<Rightarrow> reporter_result \<times> 'g \<times> Receiver option" where
  "reporter_Run headers generator es start g receiver =
     (case (generator, receiver) of
        (Some gen, Some r) \<Rightarrow>
          (case receiver_Init headers r of
             (Some e, r1) \<Rightarrow> (Returned (Some e), g, Some r1)
           | (None, r1) \<Rightarrow> (let (res1, g1, r2) = reporter_loop gen es start g r1 in (res1, g1, Some r2)))
      | _ \<Rightarrow> (Returned (Some Uninitialized), g, receiver))"

end
