(* ===== verification/Metrics.thy ===== *)
theory Metrics
  imports AgentLoop GoStrings
begin

text \<open>
  The agent's statistics, \<^verbatim>\<open>agent/pkg/agent/metrics.go\<close>: at every tick of the telemetry reporter the
  counters of the agent and of its trigger queues are read, reset, summed up and made into rows.

  The arithmetic of \<^verbatim>\<open>float64\<close> and its formatting are a parameter \<open>fl\<close>: the results hold whatever they
  are. Integers that are multiplied wrap at 64 bits.
\<close>

section \<open>Numbers\<close>

record 'f floats =
  fl_of :: "int \<Rightarrow> 'f"
  fl_add :: "'f \<Rightarrow> 'f \<Rightarrow> 'f"
  fl_mul :: "'f \<Rightarrow> 'f \<Rightarrow> 'f"
  fl_div :: "'f \<Rightarrow> 'f \<Rightarrow> 'f"
  fl_pos :: "'f \<Rightarrow> bool"
  fl_fmt :: "nat \<Rightarrow> 'f \<Rightarrow> string"

definition int64 :: "int \<Rightarrow> int" where
  "int64 x = (x + 2 ^ 63) mod 2 ^ 64 - 2 ^ 63"

definition uint64 :: "int \<Rightarrow> int" where
  "uint64 x = x mod 2 ^ 64"

text \<open>\<^verbatim>\<open>float64(n * 1000000000) / duration_nanos\<close> and \<^verbatim>\<open>(x * float64(buffer_size)) / (1024 * 1024)\<close>\<close>

definition per_second :: "'f floats \<Rightarrow> int \<Rightarrow> 'f \<Rightarrow> 'f" where
  "per_second fl n duration_nanos = fl_div fl (fl_of fl (int64 (n * 1000000000))) duration_nanos"

definition in_mb :: "'f floats \<Rightarrow> 'f \<Rightarrow> int \<Rightarrow> 'f" where
  "in_mb fl x buffer_size = fl_div fl (fl_mul fl x (fl_of fl buffer_size)) (fl_of fl (1024 * 1024))"

section \<open>Statistics\<close>

record 'f QueueDiagnostics =
  qd_buffers :: int
  qd_buffers_percent :: 'f
  qd_pending_reports :: int
  qd_lru_size :: int
  qd_lru_percent :: 'f

record 'f Diagnostics =
  di_cache_size :: int
  di_cache_percent :: 'f
  di_triggered_size :: int
  di_triggered_percent :: 'f
  di_lru_size :: int

record 'f QueueStats =
  qs_trigger_count :: int
  qs_eviction_count :: int
  qs_local_trigger_count :: int
  qs_remote_trigger_count :: int
  qs_dropped_count :: int
  qs_buffers :: int
  qs_reported_buffers :: int
  qs_evicted_buffers :: int
  qs_queue_throughput :: 'f
  qs_reported_buffer_throughput :: 'f
  qs_reported_buffer_throughput_mb :: 'f
  qs_evicted_buffer_throughput :: 'f
  qs_evicted_buffer_throughput_mb :: 'f
  qs_eviction_percent :: 'f
  qs_diagnostics :: "'f QueueDiagnostics option"

record 'f Stats =
  st_complete_batches :: int
  st_complete_buffers :: int
  st_buffer_throughput :: 'f
  st_buffer_throughput_mb :: 'f
  st_mean_batchsize :: 'f
  st_event_horizon :: time
  st_dropped_triggers :: int
  st_dropped_breadcrumbs :: int
  st_queue_totals :: "'f QueueStats"
  st_queue_ids :: "int list"
  st_queues :: "'f QueueStats list"
  st_diagnostics :: "'f Diagnostics option"

definition zero_QueueStats :: "'f floats \<Rightarrow> 'f QueueStats" where
  "zero_QueueStats fl =
     \<lparr>qs_trigger_count = 0, qs_eviction_count = 0, qs_local_trigger_count = 0, qs_remote_trigger_count = 0,
      qs_dropped_count = 0, qs_buffers = 0, qs_reported_buffers = 0, qs_evicted_buffers = 0,
      qs_queue_throughput = fl_of fl 0, qs_reported_buffer_throughput = fl_of fl 0,
      qs_reported_buffer_throughput_mb = fl_of fl 0, qs_evicted_buffer_throughput = fl_of fl 0,
      qs_evicted_buffer_throughput_mb = fl_of fl 0, qs_eviction_percent = fl_of fl 0, qs_diagnostics = None\<rparr>"

definition zero_QueueDiagnostics :: "'f floats \<Rightarrow> 'f QueueDiagnostics" where
  "zero_QueueDiagnostics fl =
     \<lparr>qd_buffers = 0, qd_buffers_percent = fl_of fl 0, qd_pending_reports = 0, qd_lru_size = 0, qd_lru_percent = fl_of fl 0\<rparr>"

definition QueueDiagnostics_add :: "'f floats \<Rightarrow> 'f QueueDiagnostics \<Rightarrow> 'f QueueDiagnostics \<Rightarrow> 'f QueueDiagnostics" where
  "QueueDiagnostics_add fl other d =
     \<lparr>qd_buffers = qd_buffers d + qd_buffers other,
      qd_buffers_percent = fl_add fl (qd_buffers_percent d) (qd_buffers_percent other),
      qd_pending_reports = qd_pending_reports d + qd_pending_reports other,
      qd_lru_size = qd_lru_size d + qd_lru_size other,
      qd_lru_percent = fl_add fl (qd_lru_percent d) (qd_lru_percent other)\<rparr>"

definition eviction_percent_of :: "'f floats \<Rightarrow> 'f \<Rightarrow> 'f \<Rightarrow> 'f" where
  "eviction_percent_of fl reported evicted =
     (if fl_pos fl (fl_add fl reported evicted)
      then fl_div fl (fl_mul fl (fl_of fl 100) evicted) (fl_add fl reported evicted)
      else fl_of fl 0)"

definition QueueStats_add :: "'f floats \<Rightarrow> 'f QueueStats \<Rightarrow> 'f QueueStats \<Rightarrow> 'f QueueStats res" where
  "QueueStats_add fl other stats =
     (let s = stats
        \<lparr>qs_trigger_count := qs_trigger_count stats + qs_trigger_count other,
         qs_eviction_count := qs_eviction_count stats + qs_eviction_count other,
         qs_local_trigger_count := qs_local_trigger_count stats + qs_local_trigger_count other,
         qs_remote_trigger_count := qs_remote_trigger_count stats + qs_remote_trigger_count other,
         qs_dropped_count := qs_dropped_count stats + qs_dropped_count other,
         qs_buffers := qs_buffers stats + qs_buffers other,
         qs_reported_buffers := qs_reported_buffers stats + qs_reported_buffers other,
         qs_queue_throughput := fl_add fl (qs_queue_throughput stats) (qs_queue_throughput other),
         qs_reported_buffer_throughput :=
           fl_add fl (qs_reported_buffer_throughput stats) (qs_reported_buffer_throughput other),
         qs_reported_buffer_throughput_mb :=
           fl_add fl (qs_reported_buffer_throughput_mb stats) (qs_reported_buffer_throughput_mb other),
         qs_evicted_buffer_throughput :=
           fl_add fl (qs_evicted_buffer_throughput stats) (qs_evicted_buffer_throughput other),
         qs_evicted_buffer_throughput_mb :=
           fl_add fl (qs_evicted_buffer_throughput_mb stats) (qs_evicted_buffer_throughput_mb other)\<rparr>;
        s1 = s\<lparr>qs_eviction_percent :=
           eviction_percent_of fl (qs_reported_buffer_throughput s) (qs_evicted_buffer_throughput s)\<rparr>
      in case qs_diagnostics s1 of
           None \<Rightarrow> Inr s1
         | Some d \<Rightarrow>
             (case qs_diagnostics other of
                None \<Rightarrow> Inl NilDereference
              | Some o1 \<Rightarrow> Inr (s1\<lparr>qs_diagnostics := Some (QueueDiagnostics_add fl o1 d)\<rparr>)))"

definition zero_metrics :: TriggerMetrics where
  "zero_metrics = \<lparr>m_count = 0, m_local = 0, m_remote = 0, m_dropped = 0, m_evicted = 0,
     m_buffers = 0, m_reported_buffers = 0, m_evicted_buffers = 0\<rparr>"

definition zero_AgentMetrics :: AgentMetrics where
  "zero_AgentMetrics = \<lparr>complete_batches = 0, complete_buffers = 0, event_horizon = 0, dropped_triggers = 0,
     dropped_breadcrumbs = 0\<rparr>"

text \<open>The statistics of queue \<open>k\<close>, whose counters are reset.\<close>

definition calculateQueueStats :: "'f floats \<Rightarrow> 'f \<Rightarrow> int \<Rightarrow> 'b Agent \<Rightarrow> ('f QueueStats \<times> 'b Agent) res" where
  "calculateQueueStats fl duration_nanos k a =
     bind_res (deref_queue (ag_dm a) k) (\<lambda>q.
       let m = tq_metrics q;
           buffer_size = tm_buffer_size (ag_tm a);
           reported = per_second fl (m_reported_buffers m) duration_nanos;
           evicted = per_second fl (m_evicted_buffers m) duration_nanos
       in Inr ((zero_QueueStats fl)
            \<lparr>qs_trigger_count := m_count m, qs_eviction_count := m_evicted m, qs_local_trigger_count := m_local m,
             qs_remote_trigger_count := m_remote m, qs_dropped_count := m_dropped m, qs_buffers := m_buffers m,
             qs_reported_buffers := m_reported_buffers m,
             qs_queue_throughput := per_second fl (m_count m) duration_nanos,
             qs_reported_buffer_throughput := reported,
             qs_reported_buffer_throughput_mb := in_mb fl reported buffer_size,
             qs_evicted_buffer_throughput := evicted,
             qs_evicted_buffer_throughput_mb := in_mb fl evicted buffer_size,
             qs_eviction_percent := eviction_percent_of fl reported evicted\<rparr>,
           a\<lparr>ag_dm := put_queue k (q\<lparr>tq_metrics := zero_metrics\<rparr>) (ag_dm a)\<rparr>))"

definition calculateQueueDiagnostics :: "'f floats \<Rightarrow> int \<Rightarrow> 'b Agent \<Rightarrow> 'f QueueDiagnostics res" where
  "calculateQueueDiagnostics fl k a =
     bind_res (deref_queue (ag_dm a) k) (\<lambda>q.
       Inr \<lparr>qd_buffers = tq_buffer_count q,
            qd_buffers_percent =
              fl_div fl (fl_mul fl (fl_of fl 100) (fl_of fl (tq_buffer_count q))) (fl_of fl (triggered_capacity a)),
            qd_pending_reports = Size (tq_reporting q), qd_lru_size = int (length (tq_idle q)),
            qd_lru_percent = fl_div fl (fl_of fl 1) (fl_of fl 1000)\<rparr>)"

definition calculateDiagnostics :: "'f floats \<Rightarrow> 'b Agent \<Rightarrow> 'f Diagnostics" where
  "calculateDiagnostics fl a =
     \<lparr>di_cache_size = buffer_count (ag_dm a),
      di_cache_percent =
        fl_div fl (fl_mul fl (fl_of fl 100) (fl_of fl (buffer_count (ag_dm a)))) (fl_of fl (cache_capacity a)),
      di_triggered_size = td_buffer_count (triggered (ag_dm a)),
      di_triggered_percent =
        fl_div fl (fl_mul fl (fl_of fl 100) (fl_of fl (td_buffer_count (triggered (ag_dm a))))) (fl_of fl (triggered_capacity a)),
      di_lru_size = int (length (lru (untriggered (ag_dm a))))\<rparr>"

text \<open>The loop of \<^verbatim>\<open>calculateAgentStats\<close> over the queues: their statistics and the totals.\<close>

fun stats_loop ::
  "'f floats \<Rightarrow> 'f \<Rightarrow> bool \<Rightarrow> int list \<Rightarrow> 'f QueueStats list \<Rightarrow> 'f QueueStats \<Rightarrow> 'b Agent
     \<Rightarrow> (('f QueueStats list \<times> 'f QueueStats) \<times> 'b Agent) res" where
  "stats_loop fl dur debug [] qs totals a = Inr ((qs, totals), a)"
| "stats_loop fl dur debug (k # ks) qs totals a =
     bind_res (deref_mq (ag_tm a) k) (\<lambda>_.
     bind_res (calculateQueueStats fl dur k a) (\<lambda>(s, a1).
     bind_res (if debug then bind_res (calculateQueueDiagnostics fl k a1) (\<lambda>d. Inr (s\<lparr>qs_diagnostics := Some d\<rparr>)) else Inr s) (\<lambda>s1.
     bind_res (QueueStats_add fl s1 totals) (\<lambda>totals1.
       stats_loop fl dur debug ks (qs @ [s1]) totals1 a1))))"

definition calculateAgentStats ::
  "'f floats \<Rightarrow> range_orders \<Rightarrow> 'f \<Rightarrow> bool \<Rightarrow> 'b Agent \<Rightarrow> ('f Stats \<times> 'b Agent) res" where
  "calculateAgentStats fl ro duration_nanos debug a0 =
     (let m = metrics a0;
          a = a0\<lparr>metrics := zero_AgentMetrics\<rparr>;
          throughput = fl_div fl (fl_of fl (uint64 (uint64 (complete_buffers m) * 1000000000))) duration_nanos;
          queue_ids = sort (ro_queue ro (map fst (tm_queues (ag_tm a))));
          totals = (zero_QueueStats fl)\<lparr>qs_diagnostics := if debug then Some (zero_QueueDiagnostics fl) else None\<rparr>
      in bind_res (stats_loop fl duration_nanos debug queue_ids [] totals a) (\<lambda>((qs, totals1), a1).
           Inr (\<lparr>st_complete_batches = complete_batches m, st_complete_buffers = complete_buffers m,
                 st_buffer_throughput = throughput,
                 st_buffer_throughput_mb = in_mb fl throughput (tm_buffer_size (ag_tm a)),
                 st_mean_batchsize =
                   (if 0 < complete_batches m then fl_div fl (fl_of fl (complete_buffers m)) (fl_of fl (complete_batches m))
                    else fl_of fl 0),
                 st_event_horizon = event_horizon m, st_dropped_triggers = dropped_triggers m,
                 st_dropped_breadcrumbs = dropped_breadcrumbs m, st_queue_totals = totals1,
                 st_queue_ids = queue_ids, st_queues = qs,
                 st_diagnostics = (if debug then Some (calculateDiagnostics fl a) else None)\<rparr>, a1)))"

section \<open>Rows\<close>

definition Headers :: "string list" where
  "Headers =
     [''t'', ''interval_ms'', ''queue_id'', ''data_mb'', ''reported_mb'', ''evicted_mb'', ''triggers'',
      ''local_triggers'', ''remote_triggers'', ''dropped_triggers'', ''evicted_triggers'', ''tput_data_mb'',
      ''tput_reported_mb'', ''tput_evicted_mb'', ''tput_triggers'', ''tput_local_triggers'',
      ''tput_remote_triggers'', ''tput_dropped_triggers'', ''tput_evicted_triggers'', ''cache_occupancy'',
      ''eviction_percent'', ''internal_bottleneck'', ''event_horizon_ms'', ''report_horizon_ms'']"

text \<open>\<^verbatim>\<open>time.Time.UnixNano\<close>: the Unix epoch is 62135596800 s after the zero time.\<close>

definition UnixNano :: "time \<Rightarrow> int" where
  "UnixNano t = int64 (t - 62135596800 * 1000000000)"

definition mb_of :: "'f floats \<Rightarrow> int \<Rightarrow> int \<Rightarrow> 'f" where
  "mb_of fl buffers buffer_size = fl_div fl (fl_of fl (int64 (buffers * buffer_size))) (fl_of fl (1024 * 1024))"

definition generateDataRow :: "'f floats \<Rightarrow> int \<Rightarrow> time \<Rightarrow> time \<Rightarrow> 'f QueueStats \<Rightarrow> string \<Rightarrow> row" where
  "generateDataRow fl buffer_size now1 interval queue queueid =
     (let data_mb = mb_of fl (qs_buffers queue) buffer_size;
          reported_mb = mb_of fl (qs_reported_buffers queue) buffer_size;
          evicted_mb = mb_of fl (qs_evicted_buffers queue) buffer_size;
          interval_s = fl_div fl (fl_of fl interval) (fl_of fl 1000000000);
          per_s = (\<lambda>n. fl_fmt fl 0 (fl_div fl (fl_of fl n) interval_s))
      in [(''t'', Itoa (UnixNano now1)), (''interval_ms'', Itoa (go_div interval 1000000)), (''queue_id'', queueid),
          (''data_mb'', fl_fmt fl 2 data_mb), (''reported_mb'', fl_fmt fl 2 reported_mb),
          (''evicted_mb'', fl_fmt fl 2 evicted_mb), (''triggers'', Itoa (qs_trigger_count queue)),
          (''local_triggers'', Itoa (qs_local_trigger_count queue)),
          (''remote_triggers'', Itoa (qs_remote_trigger_count queue)),
          (''dropped_triggers'', Itoa (qs_dropped_count queue)),
          (''evicted_triggers'', Itoa (qs_eviction_count queue)),
          (''tput_data_mb'', fl_fmt fl 2 (fl_div fl data_mb interval_s)),
          (''tput_reported_mb'', fl_fmt fl 2 (fl_div fl reported_mb interval_s)),
          (''tput_evicted_mb'', fl_fmt fl 2 (fl_div fl evicted_mb interval_s)),
          (''tput_triggers'', per_s (qs_trigger_count queue)),
          (''tput_local_triggers'', per_s (qs_local_trigger_count queue)),
          (''tput_remote_triggers'', per_s (qs_remote_trigger_count queue)),
          (''tput_dropped_triggers'', per_s (qs_dropped_count queue)),
          (''tput_evicted_triggers'', per_s (qs_eviction_count queue))] @
         (case qs_diagnostics queue of
            None \<Rightarrow> []
          | Some d \<Rightarrow> [(''cache_occupancy'', fl_fmt fl 1 (qd_buffers_percent d))]) @
         [(''eviction_percent'', fl_fmt fl 1 (qs_eviction_percent queue))])"

definition generateTotalsRow :: "'f floats \<Rightarrow> int \<Rightarrow> time \<Rightarrow> time \<Rightarrow> 'f Stats \<Rightarrow> row" where
  "generateTotalsRow fl buffer_size now1 interval stats =
     (let row1 = generateDataRow fl buffer_size now1 interval (st_queue_totals stats) ''total'';
          data_mb = mb_of fl (st_complete_buffers stats) buffer_size;
          interval_s = fl_div fl (fl_of fl interval) (fl_of fl 1000000000);
          internal_bottleneck =
            fl_div fl (fl_mul fl (fl_of fl 100) (fl_of fl (st_dropped_triggers stats)))
              (fl_of fl (qs_trigger_count (st_queue_totals stats)))
      in AList.update ''event_horizon_ms'' (fl_fmt fl 0 (fl_div fl (fl_of fl (st_event_horizon stats)) (fl_of fl 1000000)))
         (AList.update ''internal_bottleneck'' (fl_fmt fl 1 internal_bottleneck)
         (AList.update ''tput_data_mb'' (fl_fmt fl 2 (fl_div fl data_mb interval_s))
         (AList.update ''data_mb'' (fl_fmt fl 2 data_mb) row1))))"

definition NextData ::
  "'f floats \<Rightarrow> range_orders \<Rightarrow> bool \<Rightarrow> time \<Rightarrow> time \<Rightarrow> 'b Agent \<Rightarrow> (row list \<times> 'b Agent) res" where
  "NextData fl ro debug now1 interval a =
     bind_res (calculateAgentStats fl ro (fl_of fl interval) debug a) (\<lambda>(stats, a1).
       let buffer_size = tm_buffer_size (ag_tm a)
       in Inr (generateTotalsRow fl buffer_size now1 interval stats #
               map (\<lambda>(k, s). generateDataRow fl buffer_size now1 interval s (Itoa k)) (zip (st_queue_ids stats) (st_queues stats)), a1))"

end
