(* ===== verification/MetricsProps.thy ===== *)
theory MetricsProps
  imports Metrics AgentProps
begin

text \<open>
  The properties of the agent's statistics: what is counted is reported once, whatever the arithmetic
  of floating point numbers is, and the agent is left as it was but for its counters.
\<close>

section \<open>The counters of a queue\<close>

datatype column = Triggers | Evictions | Locals | Remotes | Drops | Buffers | Reported

fun qs_col :: "column \<Rightarrow> 'f QueueStats \<Rightarrow> int" where
  "qs_col Triggers s = qs_trigger_count s"
| "qs_col Evictions s = qs_eviction_count s"
| "qs_col Locals s = qs_local_trigger_count s"
| "qs_col Remotes s = qs_remote_trigger_count s"
| "qs_col Drops s = qs_dropped_count s"
| "qs_col Buffers s = qs_buffers s"
| "qs_col Reported s = qs_reported_buffers s"

fun m_col :: "column \<Rightarrow> TriggerMetrics \<Rightarrow> int" where
  "m_col Triggers m = m_count m"
| "m_col Evictions m = m_evicted m"
| "m_col Locals m = m_local m"
| "m_col Remotes m = m_remote m"
| "m_col Drops m = m_dropped m"
| "m_col Buffers m = m_buffers m"
| "m_col Reported m = m_reported_buffers m"

definition metrics_of :: "DataManager \<Rightarrow> int \<Rightarrow> TriggerMetrics" where
  "metrics_of dm k = (case queue_of dm k of None \<Rightarrow> zero_metrics | Some q \<Rightarrow> tq_metrics q)"

lemma metrics_of_put [simp]: "metrics_of (put_queue k (q\<lparr>tq_metrics := m\<rparr>) dm) = (metrics_of dm)(k := m)"
  by (auto simp: metrics_of_def)

lemma m_col_zero [simp]: "m_col c zero_metrics = 0"
  by (cases c) (simp_all add: zero_metrics_def)

lemma qs_col_zero [simp]: "qs_col c (zero_QueueStats fl\<lparr>qs_diagnostics := d\<rparr>) = 0"
  by (cases c) (simp_all add: zero_QueueStats_def)

text \<open>The statistics \<open>s\<close> of a queue show its counters \<open>m\<close>.\<close>

definition shows_counters :: "bool \<Rightarrow> TriggerMetrics \<Rightarrow> 'f QueueStats \<Rightarrow> bool" where
  "shows_counters debug m s \<longleftrightarrow>
     (\<forall>c. qs_col c s = m_col c m) \<and> qs_evicted_buffers s = 0 \<and> (qs_diagnostics s \<noteq> None \<longleftrightarrow> debug)"

lemma column_all: "(\<forall>c. P c) \<longleftrightarrow> P Triggers \<and> P Evictions \<and> P Locals \<and> P Remotes \<and> P Drops \<and> P Buffers \<and> P Reported"
  by (metis column.exhaust)

lemma calculateQueueDiagnostics_ok:
  assumes "ag_ok a" and "mq_of (ag_tm a) k \<noteq> None"
  shows "\<exists>d. calculateQueueDiagnostics fl k a = Inr d"
  using assms by (auto simp: ag_ok_def tm_ok_def calculateQueueDiagnostics_def)

lemma QueueStats_add_ok:
  assumes "qs_diagnostics totals \<noteq> None \<Longrightarrow> qs_diagnostics s \<noteq> None"
  shows "\<exists>t. QueueStats_add fl s totals = Inr t \<and> (\<forall>c. qs_col c t = qs_col c totals + qs_col c s) \<and>
     qs_evicted_buffers t = qs_evicted_buffers totals \<and> (qs_diagnostics t \<noteq> None \<longleftrightarrow> qs_diagnostics totals \<noteq> None)"
  using assms by (cases "qs_diagnostics totals"; cases "qs_diagnostics s") (auto simp: QueueStats_add_def Let_def column_all)

text \<open>What a telemetry tick may change of an agent.\<close>

definition only_counters :: "'b Agent \<Rightarrow> 'b Agent \<Rightarrow> bool" where
  "only_counters a a' \<longleftrightarrow> ag_ok a' \<and> (\<exists>m dm. a' = a\<lparr>metrics := m, ag_dm := dm\<rparr>) \<and>
     queues_only (ag_dm a) (ag_dm a') \<and> fired_of (ag_dm a') = fired_of (ag_dm a)"

lemma only_counters_refl: "ag_ok a \<Longrightarrow> only_counters a a"
  unfolding only_counters_def by (intro conjI exI [of _ "metrics a"] exI [of _ "ag_dm a"]) simp_all

lemma only_countersD:
  assumes "only_counters a a'"
  shows "ag_ok a'" and "ag_tm a' = ag_tm a" and "owned a' = owned a" and "trace_of (ag_dm a') = trace_of (ag_dm a)"
proof -
  obtain m dm where e: "a' = a\<lparr>metrics := m, ag_dm := dm\<rparr>" using assms by (auto simp: only_counters_def)
  show "ag_ok a'" using assms by (simp add: only_counters_def)
  show "ag_tm a' = ag_tm a" by (simp add: e)
  show t: "trace_of (ag_dm a') = trace_of (ag_dm a)"
    using queues_only_views(1) [of "ag_dm a" "ag_dm a'"] assms by (simp add: only_counters_def)
  show "owned a' = owned a" using held_cong [OF t] by (simp add: e owned_def)
qed

lemma only_counters_trans: "only_counters a b \<Longrightarrow> only_counters b c \<Longrightarrow> only_counters a c"
  unfolding only_counters_def using queues_only_trans by fastforce

lemma calculateQueueStats_ok:
  assumes "ag_ok a" and "mq_of (ag_tm a) k \<noteq> None"
  shows "\<exists>s a'. calculateQueueStats fl dur k a = Inr (s, a') \<and> shows_counters False (metrics_of (ag_dm a) k) s \<and>
     only_counters a a' \<and> metrics a' = metrics a \<and>
     metrics_of (ag_dm a') = (metrics_of (ag_dm a))(k := zero_metrics)"
proof -
  have tm: "tm_ok (ag_tm a, ag_dm a)" using assms(1) by (simp add: ag_ok_def)
  then obtain q where q: "queue_of (ag_dm a) k = Some q" using assms(2) by (auto simp: tm_ok_def)
  have dm: "dm_inv (ag_dm a)" using tm by (simp add: tm_ok_def)
  note m = dm_inv_put_metrics [OF dm q, of zero_metrics]
  let ?dm = "put_queue k (q\<lparr>tq_metrics := zero_metrics\<rparr>) (ag_dm a)"
  have "tm_ok (ag_tm a, ?dm)" using tm m by (auto simp: tm_ok_def)
  then have "ag_ok (a\<lparr>ag_dm := ?dm\<rparr>)" by (rule ag_ok_dm(2) [OF assms(1)])
  moreover have "metrics_of (ag_dm a) k = tq_metrics q" using q by (simp add: metrics_of_def)
  moreover from calculation(1) have "only_counters a (a\<lparr>ag_dm := ?dm\<rparr>)"
    using m(2) by (auto simp: only_counters_def intro!: exI [of _ "metrics a"] exI [of _ ?dm])
  ultimately show ?thesis
    using q by (simp add: calculateQueueStats_def Let_def shows_counters_def column_all zero_QueueStats_def)
qed

lemma stats_loop_ok:
  assumes "ag_ok a" and "set ks \<subseteq> dom (mq_of (ag_tm a))" and "distinct ks" and "qs_diagnostics totals \<noteq> None \<longleftrightarrow> debug"
  shows "yields (stats_loop fl dur debug ks qs totals a) (\<lambda>((qs', totals'), a'). only_counters a a' \<and> metrics a' = metrics a \<and>
     (\<exists>ss. qs' = qs @ ss \<and> list_all2 (\<lambda>k. shows_counters debug (metrics_of (ag_dm a) k)) ks ss) \<and>
     (\<forall>c. qs_col c totals' = qs_col c totals + (\<Sum>k\<leftarrow>ks. m_col c (metrics_of (ag_dm a) k))) \<and>
     qs_evicted_buffers totals' = qs_evicted_buffers totals \<and> (qs_diagnostics totals' \<noteq> None \<longleftrightarrow> debug) \<and>
     (\<forall>k. metrics_of (ag_dm a') k = (if k \<in> set ks then zero_metrics else metrics_of (ag_dm a) k)))"
  using assms
proof (induction ks arbitrary: qs totals a)
  case Nil
  then show ?case using only_counters_refl by auto
next
  case (Cons k ks)
  have k: "mq_of (ag_tm a) k \<noteq> None" using Cons.prems(2) by auto
  obtain s a1 where s: "calculateQueueStats fl dur k a = Inr (s, a1)" "shows_counters False (metrics_of (ag_dm a) k) s"
      "only_counters a a1" "metrics a1 = metrics a" "metrics_of (ag_dm a1) = (metrics_of (ag_dm a))(k := zero_metrics)"
    using calculateQueueStats_ok [OF Cons.prems(1) k, of fl dur] by blast
  have t1: "ag_tm a1 = ag_tm a" by (rule only_countersD(2) [OF s(3)])
  obtain d where d: "calculateQueueDiagnostics fl k a1 = Inr d"
    using calculateQueueDiagnostics_ok [OF only_countersD(1) [OF s(3)], of k fl] k t1 by auto
  define s1 where "s1 = (if debug then s\<lparr>qs_diagnostics := Some d\<rparr> else s)"
  have sc: "shows_counters debug (metrics_of (ag_dm a) k) s1"
    using s(2) by (auto simp: s1_def shows_counters_def column_all)
  obtain t where t: "QueueStats_add fl s1 totals = Inr t" "\<forall>c. qs_col c t = qs_col c totals + qs_col c s1"
      "qs_evicted_buffers t = qs_evicted_buffers totals" "qs_diagnostics t \<noteq> None \<longleftrightarrow> qs_diagnostics totals \<noteq> None"
    using QueueStats_add_ok [of totals s1 fl] Cons.prems(4) sc by (auto simp: shows_counters_def)
  have e: "stats_loop fl dur debug (k # ks) qs totals a = stats_loop fl dur debug ks (qs @ [s1]) t a1"
    using k s(1) d t(1) by (auto simp: s1_def)
  have n: "metrics_of (ag_dm a1) j = metrics_of (ag_dm a) j" if "j \<in> set ks" for j
    using that Cons.prems(3) s(5) by auto
  have p: "ag_ok a1" "set ks \<subseteq> dom (mq_of (ag_tm a1))" "distinct ks" "qs_diagnostics t \<noteq> None \<longleftrightarrow> debug"
    using only_countersD(1) [OF s(3)] Cons.prems t(4) t1 by simp_all
  obtain qs' totals' a' ss where r: "stats_loop fl dur debug ks (qs @ [s1]) t a1 = Inr ((qs', totals'), a')"
      "only_counters a1 a'" "metrics a' = metrics a1" "qs' = (qs @ [s1]) @ ss"
      "list_all2 (\<lambda>k. shows_counters debug (metrics_of (ag_dm a1) k)) ks ss"
      "\<forall>c. qs_col c totals' = qs_col c t + (\<Sum>k\<leftarrow>ks. m_col c (metrics_of (ag_dm a1) k))"
      "qs_evicted_buffers totals' = qs_evicted_buffers t" "qs_diagnostics totals' \<noteq> None \<longleftrightarrow> debug"
      "\<forall>k. metrics_of (ag_dm a') k = (if k \<in> set ks then zero_metrics else metrics_of (ag_dm a1) k)"
    using Cons.IH [OF p, of "qs @ [s1]"] by (elim yieldsE) auto
  have "list_all2 (\<lambda>k. shows_counters debug (metrics_of (ag_dm a) k)) ks ss"
    using r(5) n by (auto simp: list_all2_conv_all_nth)
  then have "list_all2 (\<lambda>k. shows_counters debug (metrics_of (ag_dm a) k)) (k # ks) (s1 # ss)" using sc by simp
  moreover have "(\<Sum>k\<leftarrow>ks. m_col c (metrics_of (ag_dm a1) k)) = (\<Sum>k\<leftarrow>ks. m_col c (metrics_of (ag_dm a) k))" for c
    using n by (auto intro!: arg_cong [where f = sum_list])
  moreover have "\<forall>c. qs_col c s1 = m_col c (metrics_of (ag_dm a) k)" using sc by (simp add: shows_counters_def)
  ultimately show ?case
    unfolding e r(1) using r(3,4,6-9) t(2,3) only_counters_trans [OF s(3) r(2)] s(4,5)
    by (auto intro!: exI [of _ "s1 # ss"])
qed

lemma queue_ids_ok:
  assumes "ag_ok a" and "orders_ok ro"
  shows "sort (ro_queue ro (map fst (tm_queues (ag_tm a)))) = sorted_list_of_set (dom (mq_of (ag_tm a)))"
proof -
  let ?ids = "ro_queue ro (map fst (tm_queues (ag_tm a)))"
  have "set ?ids = dom (mq_of (ag_tm a))" "distinct ?ids"
    using assms by (simp_all add: orders_ok_def key_order_set key_order_distinct ag_ok_def tm_ok_def mq_of_def dom_map_of_conv_image_fst)
  then show ?thesis by (metis sorted_list_of_set_sort_remdups distinct_remdups_id)
qed

lemma calculateAgentStats_ok:
  assumes "ag_ok a" and "orders_ok ro"
  shows "yields (calculateAgentStats fl ro dur debug a) (\<lambda>(st, a'). ag_ok a' \<and> owned a' = owned a \<and>
     trace_of (ag_dm a') = trace_of (ag_dm a) \<and> fired_of (ag_dm a') = fired_of (ag_dm a) \<and>
     st_complete_buffers st = complete_buffers (metrics a) \<and> metrics a' = zero_AgentMetrics \<and>
     st_queue_ids st = sorted_list_of_set (dom (mq_of (ag_tm a))) \<and>
     list_all2 (\<lambda>k. shows_counters debug (metrics_of (ag_dm a) k)) (st_queue_ids st) (st_queues st) \<and>
     (\<forall>c. qs_col c (st_queue_totals st) = (\<Sum>k\<in>dom (mq_of (ag_tm a)). m_col c (metrics_of (ag_dm a) k))) \<and>
     ag_tm a' = ag_tm a \<and> (\<forall>k\<in>dom (mq_of (ag_tm a)). metrics_of (ag_dm a') k = zero_metrics) \<and> qs_evicted_buffers (st_queue_totals st) = 0)"
proof -
  let ?a = "a\<lparr>metrics := zero_AgentMetrics\<rparr>" and ?D = "dom (mq_of (ag_tm a))"
  let ?t = "(zero_QueueStats fl)\<lparr>qs_diagnostics := if debug then Some (zero_QueueDiagnostics fl) else None\<rparr>"
  have f: "finite ?D" by (simp add: mq_of_def finite_dom_map_of)
  have l: "distinct (sorted_list_of_set ?D)" "set (sorted_list_of_set ?D) = ?D" using f by simp_all
  have p: "ag_ok ?a" "set (sorted_list_of_set ?D) \<subseteq> dom (mq_of (ag_tm ?a))" "distinct (sorted_list_of_set ?D)"
      "qs_diagnostics ?t \<noteq> None \<longleftrightarrow> debug"
    using assms(1) l by simp_all
  obtain qs' totals' a' where r: "stats_loop fl dur debug (sorted_list_of_set ?D) [] ?t ?a = Inr ((qs', totals'), a')"
      "only_counters ?a a'" "metrics a' = zero_AgentMetrics"
      "list_all2 (\<lambda>k. shows_counters debug (metrics_of (ag_dm a) k)) (sorted_list_of_set ?D) qs'"
      "\<forall>c. qs_col c totals' = qs_col c ?t + (\<Sum>k\<leftarrow>sorted_list_of_set ?D. m_col c (metrics_of (ag_dm a) k))"
      "qs_evicted_buffers totals' = qs_evicted_buffers ?t"
      "\<forall>k\<in>?D. metrics_of (ag_dm a') k = zero_metrics"
    using stats_loop_ok [OF p, of fl dur "[]"] l(2) by (elim yieldsE) auto
  have "(\<Sum>k\<leftarrow>sorted_list_of_set ?D. h k) = (\<Sum>k\<in>?D. h k)" for h :: "int \<Rightarrow> int"
    using sum_list_distinct_conv_sum_set [OF l(1)] l(2) by simp
  moreover have "qs_evicted_buffers ?t = 0" by (simp add: zero_QueueStats_def)
  moreover note only_countersD [OF r(2)]
  moreover have "fired_of (ag_dm a') = fired_of (ag_dm a)" using r(2) by (simp add: only_counters_def)
  ultimately show ?thesis
    using r queue_ids_ok [OF assms] by (simp add: calculateAgentStats_def Let_def)
qed

lemma row_keys:
  "map fst (generateDataRow fl bs t interval s name) \<in>
     {take 19 Headers @ [''eviction_percent''], take 19 Headers @ [''cache_occupancy'', ''eviction_percent'']}"
  by (auto simp: generateDataRow_def Let_def Headers_def split: option.splits)

text \<open>A row that may be reported: it has no column twice and no column without a header.\<close>

definition row_ok :: "row \<Rightarrow> bool" where
  "row_ok r \<longleftrightarrow> distinct (map fst r) \<and> set (map fst r) \<subseteq> set Headers \<and> ''report_horizon_ms'' \<notin> set (map fst r)"

lemma row_ok_update: "row_ok r \<Longrightarrow> k \<in> set Headers \<Longrightarrow> k \<noteq> ''report_horizon_ms'' \<Longrightarrow> row_ok (AList.update k v r)"
  by (auto simp: row_ok_def distinct_update dom_update)

lemma generateDataRow_ok: "row_ok (generateDataRow fl bs t interval s name)"
  using row_keys [of fl bs t interval s name] by (auto simp: row_ok_def Headers_def)

lemma generateTotalsRow_ok: "row_ok (generateTotalsRow fl bs t interval st)"
  unfolding generateTotalsRow_def Let_def by (intro row_ok_update generateDataRow_ok) (simp_all add: Headers_def)

text \<open>The column in which the row shows a counter.\<close>

fun header_of :: "column \<Rightarrow> string option" where
  "header_of Triggers = Some ''triggers''"
| "header_of Evictions = Some ''evicted_triggers''"
| "header_of Locals = Some ''local_triggers''"
| "header_of Remotes = Some ''remote_triggers''"
| "header_of Drops = Some ''dropped_triggers''"
| "header_of Buffers = None"
| "header_of Reported = None"

lemma data_row_fields:
  shows "header_of c = Some h \<Longrightarrow> map_of (generateDataRow fl bs t interval s name) h = Some (Itoa (qs_col c s))"
    and "map_of (generateDataRow fl bs t interval s name) ''queue_id'' = Some name"
    and "map_of (generateDataRow fl bs t interval s name) ''evicted_mb'' = Some (fl_fmt fl 2 (mb_of fl (qs_evicted_buffers s) bs))"
proof -
  have d: "distinct (map fst (generateDataRow fl bs t interval s name))"
    using generateDataRow_ok [of fl bs t interval s name] by (simp add: row_ok_def)
  show "map_of (generateDataRow fl bs t interval s name) h = Some (Itoa (qs_col c s))" if "header_of c = Some h"
    by (rule map_of_is_SomeI [OF d]) (use that in \<open>cases c; simp add: generateDataRow_def Let_def\<close>)
  show "map_of (generateDataRow fl bs t interval s name) ''queue_id'' = Some name"
    by (rule map_of_is_SomeI [OF d]) (simp add: generateDataRow_def Let_def)
  show "map_of (generateDataRow fl bs t interval s name) ''evicted_mb'' = Some (fl_fmt fl 2 (mb_of fl (qs_evicted_buffers s) bs))"
    by (rule map_of_is_SomeI [OF d]) (simp add: generateDataRow_def Let_def)
qed

text \<open>The columns of the totals that are computed as for a queue.\<close>

lemma totals_row_same:
  "h \<notin> {''data_mb'', ''tput_data_mb'', ''internal_bottleneck'', ''event_horizon_ms''} \<Longrightarrow>
     map_of (generateTotalsRow fl bs t interval st) h = map_of (generateDataRow fl bs t interval (st_queue_totals st) ''total'') h"
  by (simp add: generateTotalsRow_def Let_def)

lemma header_of_totals: "header_of c = Some h \<Longrightarrow> h \<notin> {''data_mb'', ''tput_data_mb'', ''internal_bottleneck'', ''event_horizon_ms''}"
  by (cases c) auto

lemma totals_row_fields:
  "header_of c = Some h \<Longrightarrow> map_of (generateTotalsRow fl bs t interval st) h = Some (Itoa (qs_col c (st_queue_totals st)))"
  "map_of (generateTotalsRow fl bs t interval st) ''queue_id'' = Some ''total''"
  "map_of (generateTotalsRow fl bs t interval st) ''evicted_mb'' =
     Some (fl_fmt fl 2 (mb_of fl (qs_evicted_buffers (st_queue_totals st)) bs))"
  using totals_row_same [OF header_of_totals, of c h] by (simp_all add: totals_row_same data_row_fields)

lemma NextData_ok:
  assumes "ag_ok a" and "orders_ok ro"
  shows "\<exists>st a'. NextData fl ro debug t interval a =
       Inr (generateTotalsRow fl (tm_buffer_size (ag_tm a)) t interval st #
            map (\<lambda>(k, s). generateDataRow fl (tm_buffer_size (ag_tm a)) t interval s (Itoa k)) (zip (st_queue_ids st) (st_queues st)), a') \<and>
     ag_ok a' \<and> owned a' = owned a \<and> st_queue_ids st = sorted_list_of_set (dom (mq_of (ag_tm a))) \<and>
     list_all2 (\<lambda>k. shows_counters debug (metrics_of (ag_dm a) k)) (st_queue_ids st) (st_queues st) \<and>
     (\<forall>c. qs_col c (st_queue_totals st) = (\<Sum>k\<in>dom (mq_of (ag_tm a)). m_col c (metrics_of (ag_dm a) k))) \<and>
     qs_evicted_buffers (st_queue_totals st) = 0"
  using calculateAgentStats_ok [OF assms, of fl "fl_of fl interval" debug] by (elim yieldsE) (auto simp: NextData_def Let_def)

lemma NextData_rows_ok:
  assumes "ag_ok a" and "orders_ok ro"
  shows "yields (NextData fl ro debug t interval a) (\<lambda>(rows, a'). ag_ok a' \<and> owned a' = owned a \<and>
     length rows = Suc (card (dom (mq_of (ag_tm a)))) \<and> (\<forall>row\<in>set rows. row_ok row) \<and>
     map_of (rows ! 0) ''queue_id'' = Some ''total'' \<and>
     (\<forall>c h. header_of c = Some h \<longrightarrow>
        map_of (rows ! 0) h = Some (Itoa (\<Sum>k\<in>dom (mq_of (ag_tm a)). m_col c (metrics_of (ag_dm a) k)))) \<and>
     (\<forall>n < card (dom (mq_of (ag_tm a))). let k = sorted_list_of_set (dom (mq_of (ag_tm a))) ! n in
        map_of (rows ! Suc n) ''queue_id'' = Some (Itoa k) \<and>
        (\<forall>c h. header_of c = Some h \<longrightarrow> map_of (rows ! Suc n) h = Some (Itoa (m_col c (metrics_of (ag_dm a) k))))))"
proof -
  obtain st a' where n: "NextData fl ro debug t interval a =
       Inr (generateTotalsRow fl (tm_buffer_size (ag_tm a)) t interval st #
            map (\<lambda>(k, s). generateDataRow fl (tm_buffer_size (ag_tm a)) t interval s (Itoa k)) (zip (st_queue_ids st) (st_queues st)), a')"
      "ag_ok a'" "owned a' = owned a" "st_queue_ids st = sorted_list_of_set (dom (mq_of (ag_tm a)))"
      "list_all2 (\<lambda>k. shows_counters debug (metrics_of (ag_dm a) k)) (st_queue_ids st) (st_queues st)"
      "\<forall>c. qs_col c (st_queue_totals st) = (\<Sum>k\<in>dom (mq_of (ag_tm a)). m_col c (metrics_of (ag_dm a) k))"
    using NextData_ok [OF assms] by metis
  have l: "length (st_queues st) = card (dom (mq_of (ag_tm a)))" "length (st_queue_ids st) = card (dom (mq_of (ag_tm a)))"
    using list_all2_lengthD [OF n(5)] n(4) by simp_all
  have q: "qs_col c (st_queues st ! j) = m_col c (metrics_of (ag_dm a) (st_queue_ids st ! j))" if "j < card (dom (mq_of (ag_tm a)))" for c j
    using list_all2_nthD [OF n(5), of j] that l by (simp add: shows_counters_def)
  show ?thesis
    unfolding n(1) n(4) [symmetric] Let_def
    using n(2,3,6) l q generateDataRow_ok generateTotalsRow_ok
    by (auto simp: data_row_fields totals_row_fields dest: set_zip_rightD)
qed

lemma NextData_tm:
  assumes "ag_ok a" and "orders_ok ro" and "NextData fl ro debug t interval a = Inr (rows, a')"
  shows "ag_tm a' = ag_tm a"
  using calculateAgentStats_ok [OF assms(1,2), of fl "fl_of fl interval" debug] assms(3)
  by (elim yieldsE) (auto simp: NextData_def Let_def)

lemma evicted_column_ok:
  assumes "ag_ok a" and "orders_ok ro"
  shows "yields (NextData fl ro debug t interval a) (\<lambda>(rows, a').
     \<forall>row\<in>set rows. map_of row ''evicted_mb'' = Some (fl_fmt fl 2 (mb_of fl 0 (tm_buffer_size (ag_tm a)))))"
proof -
  obtain st a' where n: "NextData fl ro debug t interval a =
       Inr (generateTotalsRow fl (tm_buffer_size (ag_tm a)) t interval st #
            map (\<lambda>(k, s). generateDataRow fl (tm_buffer_size (ag_tm a)) t interval s (Itoa k)) (zip (st_queue_ids st) (st_queues st)), a')"
      "list_all2 (\<lambda>k. shows_counters debug (metrics_of (ag_dm a) k)) (st_queue_ids st) (st_queues st)"
      "qs_evicted_buffers (st_queue_totals st) = 0"
    using NextData_ok [OF assms] by metis
  have "qs_evicted_buffers s = 0" if "(k, s) \<in> set (zip (st_queue_ids st) (st_queues st))" for k s
    using n(2) that by (auto simp: list_all2_iff shows_counters_def)
  then show ?thesis unfolding n(1) using n(3) by (auto simp: data_row_fields totals_row_fields)
qed

section \<open>Properties\<close>

text \<open>
  Statistics are exact and taken once. A tick reads every counter of every trigger queue, in the
  order of the queue ids, adds them up in the totals and resets them; nothing else of the agent
  changes: no trace, no trigger, no buffer.
\<close>

theorem calculateAgentStats_correct:
  assumes "ag_ok a" and "orders_ok ro"
  shows "yields (calculateAgentStats fl ro dur debug a) (\<lambda>(st, a'). ag_ok a' \<and> owned a' = owned a \<and>
     trace_of (ag_dm a') = trace_of (ag_dm a) \<and> fired_of (ag_dm a') = fired_of (ag_dm a) \<and>
     st_complete_buffers st = complete_buffers (metrics a) \<and> metrics a' = zero_AgentMetrics \<and>
     st_queue_ids st = sorted_list_of_set (dom (mq_of (ag_tm a))) \<and>
     list_all2 (\<lambda>k. shows_counters debug (metrics_of (ag_dm a) k)) (st_queue_ids st) (st_queues st) \<and>
     (\<forall>c. qs_col c (st_queue_totals st) = (\<Sum>k\<in>dom (mq_of (ag_tm a)). m_col c (metrics_of (ag_dm a) k))) \<and>
     ag_tm a' = ag_tm a \<and> (\<forall>k\<in>dom (mq_of (ag_tm a)). metrics_of (ag_dm a') k = zero_metrics) \<and> qs_evicted_buffers (st_queue_totals st) = 0)"
  by (rule calculateAgentStats_ok [OF assms])

text \<open>Integers in place of floating point numbers.\<close>

definition ex_floats :: "int floats" where
  "ex_floats = \<lparr>fl_of = \<lambda>i. i, fl_add = (+), fl_mul = (*), fl_div = (div), fl_pos = \<lambda>x. 0 < x, fl_fmt = \<lambda>n x. Itoa x\<rparr>"

lemma ex_agent_queue_ids: "dom (mq_of (ag_tm ex_agent)) = {1}"
proof -
  have "map fst (tm_queues (ag_tm ex_agent)) = [1]" by code_simp
  then show ?thesis by (simp add: mq_of_def dom_map_of_conv_image_fst flip: list.set_map)
qed

theorem calculateAgentStats_correct_witness:
  "yields (calculateAgentStats ex_floats ex_orders 10 True ex_agent) (\<lambda>(st, a'). ag_ok a' \<and> st_queue_ids st = [1] \<and>
     qs_local_trigger_count (st_queue_totals st) = 1)"
proof -
  have "m_local (metrics_of (ag_dm ex_agent) 1) = 1" by code_simp
  then show ?thesis
    using calculateAgentStats_correct [OF ex_agent_ok ex_orders_ok, of ex_floats 10 True]
    by (elim yieldsE) (auto simp: ex_agent_queue_ids column_all)
qed


lemma Itoa_values: "Itoa 0 = ''0''" "Itoa 1 = ''1''" "Itoa 2 = ''2''"
  by code_simp+

definition ex_pressed :: "int Agent" where
  "ex_pressed = ex_agent\<lparr>ag_dm := the (ok_value (upd_metrics 1 (\<lambda>m. m\<lparr>m_evicted_buffers := 1000\<rparr>) (ag_dm ex_agent)))\<rparr>"

lemma ex_pressed_ok: "ag_ok ex_pressed" "m_evicted_buffers (metrics_of (ag_dm ex_pressed) 1) = 1000"
proof -
  have tm: "tm_ok (ag_tm ex_agent, ag_dm ex_agent)" by (rule ex_agent_tm)
  have "1 \<in> dom (mq_of (ag_tm ex_agent))" using ex_agent_queue_ids by simp
  then have q: "queue_of (ag_dm ex_agent) 1 \<noteq> None" and dm: "dm_inv (ag_dm ex_agent)" using tm by (auto simp: tm_ok_def)
  let ?r = "upd_metrics 1 (\<lambda>m. m\<lparr>m_evicted_buffers := 1000\<rparr>) (ag_dm ex_agent)"
  obtain dm' where d: "?r = Inr dm'" "dm_inv dm'" "queues_only (ag_dm ex_agent) dm'" "fired_of dm' = fired_of (ag_dm ex_agent)"
    using upd_metrics_ok [OF dm q, of "\<lambda>m. m\<lparr>m_evicted_buffers := 1000\<rparr>"] by (auto elim!: yieldsE)
  have "tm_ok (ag_tm ex_agent, dm')" using tm d(2,4) queues_only_views(8) [OF d(3)] by (simp add: tm_ok_def) blast
  then have "ag_ok (ex_agent\<lparr>ag_dm := dm'\<rparr>)" by (rule ag_ok_dm(2) [OF ex_agent_ok])
  then show "ag_ok ex_pressed" using d(1) by (simp add: ex_pressed_def)
  show "m_evicted_buffers (metrics_of (ag_dm ex_pressed) 1) = 1000" by code_simp
qed


text \<open>The trigger of the small agent fires again.\<close>

definition ex_twice :: "int Agent" where
  "ex_twice = the (ok_value (processTriggers ex_buckets (\<lambda>n. 0)
     [\<lparr>Queue_id = 1, Base_trace_id = 5, Trace_id = 6\<rparr>] ex_agent))"

lemma ex_twice_ok: "ag_ok ex_twice" "dom (mq_of (ag_tm ex_twice)) = {1}"
  "metrics_of (ag_dm ex_twice) 1 = \<lparr>m_count = 1, m_local = 2, m_remote = 0, m_dropped = 0, m_evicted = 0,
     m_buffers = 3, m_reported_buffers = 0, m_evicted_buffers = 0\<rparr>"
proof -
  show "ag_ok ex_twice" using the_ok_value [OF processTriggers_ok [OF ex_agent_ok]] by (simp add: ex_twice_def)
  have "map fst (tm_queues (ag_tm ex_twice)) = [1]" by code_simp
  then show "dom (mq_of (ag_tm ex_twice)) = {1}" by (simp add: mq_of_def dom_map_of_conv_image_fst flip: list.set_map)
  show "metrics_of (ag_dm ex_twice) 1 = \<lparr>m_count = 1, m_local = 2, m_remote = 0, m_dropped = 0, m_evicted = 0,
     m_buffers = 3, m_reported_buffers = 0, m_evicted_buffers = 0\<rparr>" by code_simp
qed

text \<open>
  The column \<open>triggers\<close> is documented as the sum of local, remote and dropped triggers; it counts
  the triggers that are new to their queue. After a local trigger has fired twice, the row of its queue
  shows one trigger and two local triggers.
\<close>

theorem triggers_column_counts_new_triggers:
  "yields (NextData ex_floats ex_orders False 7 1000000000 ex_twice) (\<lambda>(rows, a').
     map_of (rows ! 1) ''triggers'' = Some ''1'' \<and> map_of (rows ! 1) ''local_triggers'' = Some ''2'' \<and>
     map_of (rows ! 1) ''remote_triggers'' = Some ''0'' \<and> map_of (rows ! 1) ''dropped_triggers'' = Some ''0'')"
proof -
  have c: "(\<forall>c h. header_of c = Some h \<longrightarrow> P c h) \<Longrightarrow> P Triggers ''triggers'' \<and> P Locals ''local_triggers'' \<and>
     P Remotes ''remote_triggers'' \<and> P Drops ''dropped_triggers''" for P
    by simp
  show ?thesis
    using NextData_rows_ok [OF ex_twice_ok(1) ex_orders_ok, of ex_floats False 7 1000000000]
    unfolding ex_twice_ok(2) by (elim yieldsE) (auto simp: ex_twice_ok(3) Itoa_values dest!: c)
qed

end
