(* ===== verification/TelemetryProps.thy ===== *)
theory TelemetryProps
  imports Telemetry MetricsProps
begin

text \<open>
  The properties of telemetry: a \<open>MultiReceiver\<close> hands everything to each of its receivers, the file of
  an agent holds what its counters showed, and how the reporter ends.
\<close>

section \<open>Broadcasting\<close>

fun is_multi :: "Receiver \<Rightarrow> bool" where
  "is_multi (MultiReceiver rs) = True"
| "is_multi r = False"

fun leaves :: "Receiver \<Rightarrow> Receiver list" where
  "leaves (MultiReceiver rs) = concat (map leaves rs)"
| "leaves r = [r]"

lemma leaves_leaf: "\<not> is_multi r \<Longrightarrow> leaves r = [r]"
  by (cases r) simp_all

text \<open>
  An operation that a \<open>MultiReceiver\<close> passes on to its receivers, and that leaves a simple receiver
  simple, acts on every simple receiver whatever happens to the others.
\<close>

locale broadcast =
  fixes oper :: "Receiver \<Rightarrow> tele_error option \<times> Receiver" and doing :: string
  assumes oper_multi: "oper (MultiReceiver rs) = many doing (map oper rs)"
    and oper_leaf: "\<not> is_multi r \<Longrightarrow> \<not> is_multi (snd (oper r))"
begin

lemma oper_leaves: "leaves (snd (oper r)) = map (snd \<circ> oper) (leaves r)"
proof (induction r rule: leaves.induct)
  case (1 rs)
  then have "concat (map (\<lambda>x. leaves (snd (oper x))) rs) = concat (map (\<lambda>x. map (\<lambda>y. snd (oper y)) (leaves x)) rs)"
    by (intro arg_cong [where f = concat] map_cong) (simp_all add: comp_def)
  then show ?case by (simp add: oper_multi many_def Let_def map_concat comp_def)
qed (simp_all add: leaves_leaf oper_leaf)

lemma oper_error: "fst (oper r) = None \<longleftrightarrow> (\<forall>l\<in>set (leaves r). fst (oper l) = None)"
proof (induction r rule: leaves.induct)
  case (1 rs)
  have "List.map_filter fst xs = [] \<longleftrightarrow> (\<forall>x\<in>set xs. fst x = None)" for xs :: "(tele_error option \<times> Receiver) list"
    by (induction xs) (auto simp: List.map_filter_simps split: option.splits)
  then show ?case using 1 by (simp add: oper_multi many_def Let_def)
qed simp_all

end

interpretation init: broadcast "receiver_Init headers" "''initializing''"
proof unfold_locales
  show "\<not> is_multi r \<Longrightarrow> \<not> is_multi (snd (receiver_Init headers r))" for r by (cases r) (simp_all add: simple_receivers)
qed simp

interpretation close: broadcast receiver_Close "''closing''"
proof unfold_locales
  show "\<not> is_multi r \<Longrightarrow> \<not> is_multi (snd (receiver_Close r))" for r by (cases r) (auto simp: simple_receivers split: prod.splits)
qed simp

interpretation report: broadcast "receiver_Report rows" "''reporting''"
proof unfold_locales
  show "\<not> is_multi r \<Longrightarrow> \<not> is_multi (snd (receiver_Report rows r))" for r by (cases r) (auto simp: simple_receivers split: prod.splits)
qed simp

section \<open>The reporter of a file\<close>

text \<open>What a generator yields for the ticks \<open>ts\<close>: each interval begins where the last one ended.\<close>

fun generated :: "(time \<Rightarrow> time \<Rightarrow> 'g \<Rightarrow> row list \<times> 'g) \<Rightarrow> time list \<Rightarrow> time \<Rightarrow> 'g \<Rightarrow> row list \<times> 'g" where
  "generated gen [] start g = ([], g)"
| "generated gen (t # ts) start g =
     (let (rows, g1) = gen t (time_sub t start) g; (rest, g2) = generated gen ts t g1 in (rows @ rest, g2))"

lemma reporter_loop_csv:
  assumes "outcomes f = []"
  shows "reporter_loop gen (map Tick ts) start g (CsvReceiver headers f) =
     (Waiting (last (start # ts)), snd (generated gen ts start g),
      CsvReceiver headers
       (if ts = [] then f
        else f\<lparr>written := written f @ buffered f @ map (record_of headers) (fst (generated gen ts start g)), buffered := []\<rparr>))"
  using assms
proof (induction ts arbitrary: start g f)
  case (Cons t ts)
  obtain rows g1 where g: "gen t (time_sub t start) g = (rows, g1)" by fastforce
  let ?f = "f\<lparr>written := written f @ buffered f @ map (record_of headers) rows, buffered := []\<rparr>"
  have "outcomes ?f = []" using Cons.prems by simp
  from Cons.IH [OF this, of t g1] show ?case
    using Cons.prems g by (auto simp: simple_receivers csv_WriteAll_def attempt_def split: prod.splits)
qed simp

section \<open>The telemetry of an agent\<close>

text \<open>\<^verbatim>\<open>AgentTelemetryGenerator\<close>: the agent is the state of the generator.\<close>

definition agent_generator :: "'f floats \<Rightarrow> range_orders \<Rightarrow> bool \<Rightarrow> time \<Rightarrow> time \<Rightarrow> 'b Agent \<Rightarrow> row list \<times> 'b Agent" where
  "agent_generator fl ro debug t interval a =
     (case NextData fl ro debug t interval a of Inl e \<Rightarrow> ([], a) | Inr x \<Rightarrow> x)"

text \<open>A tick leaves the trigger manager alone, so the rows of all ticks are as many.\<close>

lemma agent_generator_ok:
  assumes "ag_ok a" and "orders_ok ro"
  shows "\<exists>rows a'. NextData fl ro debug t interval a = Inr (rows, a') \<and> agent_generator fl ro debug t interval a = (rows, a') \<and>
     ag_ok a' \<and> owned a' = owned a \<and> ag_tm a' = ag_tm a \<and> length rows = Suc (card (dom (mq_of (ag_tm a))))"
proof -
  have "ag_tm a' = ag_tm a" if "NextData fl ro debug t interval a = Inr (rows, a')" for rows a'
    using NextData_tm [OF assms] that by blast
  then show ?thesis
    using NextData_rows_ok [OF assms, of fl debug t interval] by (elim yieldsE) (auto simp: agent_generator_def)
qed

lemma generated_agent:
  assumes "ag_ok a" and "orders_ok ro"
  shows "\<exists>rows a'. generated (agent_generator fl ro debug) ts start a = (rows, a') \<and> ag_ok a' \<and> owned a' = owned a \<and>
     ag_tm a' = ag_tm a \<and> length rows = length ts * Suc (card (dom (mq_of (ag_tm a))))"
  using assms
proof (induction ts arbitrary: start a)
  case (Cons t ts)
  obtain rows a1 where 1: "agent_generator fl ro debug t (time_sub t start) a = (rows, a1)" "ag_ok a1" "owned a1 = owned a"
      "ag_tm a1 = ag_tm a" "length rows = Suc (card (dom (mq_of (ag_tm a))))"
    using agent_generator_ok [OF Cons.prems] by metis
  obtain rest a2 where 2: "generated (agent_generator fl ro debug) ts t a1 = (rest, a2)" "ag_ok a2" "owned a2 = owned a1"
      "ag_tm a2 = ag_tm a1" "length rest = length ts * Suc (card (dom (mq_of (ag_tm a1))))"
    using Cons.IH [OF 1(2) Cons.prems(2)] by metis
  show ?case using 1 2 by simp
qed simp

section \<open>Properties\<close>

text \<open>
  A \<open>MultiReceiver\<close>, however nested, reports to each of its receivers no matter which of the others
  fail, and fails exactly if one of them does; the same holds of its initialisation and of its closing.
\<close>

theorem MultiReceiver_reaches_all:
  "leaves (snd (receiver_Report rows r)) = map (snd \<circ> receiver_Report rows) (leaves r) \<and>
   (fst (receiver_Report rows r) = None \<longleftrightarrow> list_all (\<lambda>l. fst (receiver_Report rows l) = None) (leaves r)) \<and>
   leaves (snd (receiver_Init headers r)) = map (snd \<circ> receiver_Init headers) (leaves r) \<and>
   (fst (receiver_Init headers r) = None \<longleftrightarrow> list_all (\<lambda>l. fst (receiver_Init headers l) = None) (leaves r)) \<and>
   leaves (snd (receiver_Close r)) = map (snd \<circ> receiver_Close) (leaves r) \<and>
   (fst (receiver_Close r) = None \<longleftrightarrow> list_all (\<lambda>l. fst (receiver_Close l) = None) (leaves r))"
  unfolding list_all_iff
  by (intro conjI report.oper_leaves init.oper_leaves close.oper_leaves report.oper_error init.oper_error close.oper_error)



text \<open>
  How the reporter ends. When a report fails it returns without closing its receiver; and when the
  context ends before the first tick, the file is closed without the headers, which are still in the
  buffer of the writer.
\<close>

theorem reporter_end:
  "(receiver_Report (fst (gen t (time_sub t start) g)) r = (Some e, r1) \<longrightarrow>
      reporter_loop gen (Tick t # es) start g r = (Returned (Some e), snd (gen t (time_sub t start) g), r1)) \<and>
   (NewCsvReceiver [] = Inr r0 \<longrightarrow> (\<exists>f. reporter_Run headers (Some gen) [Done] start g (Some r0) =
      (Returned None, g, Some (CsvReceiver headers f)) \<and> file_closed f \<and> written f = [] \<and> buffered f = [headers]))"
  by (auto simp: NewCsvReceiver_def attempt_def reporter_Run_def csv_Write_def file_Close_def simple_receivers split: prod.splits)

theorem reporter_end_witness:
  "\<exists>f. reporter_Run [''a''] (Some (\<lambda>t i g. ([], g))) [Done] 0 () (Some (CsvReceiver [] \<lparr>written = [], buffered = [], outcomes = [], file_closed = False\<rparr>))
     = (Returned None, (), Some (CsvReceiver [''a''] f)) \<and> file_closed f \<and> written f = []"
  using reporter_end [where headers = "[''a'']" and gen = "\<lambda>t i g. ([], g)" and start = 0 and g = "()" and
      r0 = "CsvReceiver [] \<lparr>written = [], buffered = [], outcomes = [], file_closed = False\<rparr>"]
  by (auto simp: NewCsvReceiver_def attempt_def)

end
