(* ===== verification/CoordLog.thy ===== *)
theory CoordLog
  imports ServerProps GoStrings
begin

text \<open>
  The coordinator's log, \<^verbatim>\<open>agent/pkg/coordinator/logger.go\<close>, and how the server shuts down with it
  (\<^verbatim>\<open>CoordinatorServer.Run\<close>): finished triggers are queued for the logger, which writes a csv record for
  each.

  The file is the list of its records; errors of the writer are ignored by the code, and a file that
  can be written is assumed. Formatting seconds (\<^verbatim>\<open>%.0f\<close>) is a parameter \<open>fmt_s\<close> on durations.
\<close>

record log_file =
  log_begin :: time
  log_records :: "string list list"
  log_closed :: bool

text \<open>\<^verbatim>\<open>NewCsvLogger\<close>; the channel is part of the server's record.\<close>

definition NewCsvLogger :: "time \<Rightarrow> log_file" where
  "NewCsvLogger t = \<lparr>log_begin = t, log_records = [[''t'', ''queue'', ''total_agents'', ''dissemination_time_ms'']], log_closed = False\<rparr>"

definition log_row :: "string \<Rightarrow> FinishedTrigger \<Rightarrow> string list" where
  "log_row now1 t = [now1, Itoa (fin_queue_id t), Itoa (total_agents t), Itoa (go_div (dissemination_time t) 1000000)]"

definition log_write :: "(time \<Rightarrow> string) \<Rightarrow> time \<Rightarrow> FinishedTrigger list \<Rightarrow> log_file \<Rightarrow> log_file" where
  "log_write fmt_s t finished f =
     f\<lparr>log_records := log_records f @ map (log_row (fmt_s (time_sub t (log_begin f)))) finished\<rparr>"

text \<open>The inner loop after cancellation: write what is queued, then close; \<open>clk\<close>: the instants of the writes.\<close>

fun log_drain :: "(time \<Rightarrow> string) \<Rightarrow> (nat \<Rightarrow> time) \<Rightarrow> FinishedTrigger list list \<Rightarrow> log_file \<Rightarrow> log_file" where
  "log_drain fmt_s clk [] f = f\<lparr>log_closed := True\<rparr>"
| "log_drain fmt_s clk (x # ch) f = log_drain fmt_s clk ch (log_write fmt_s (clk (length ch)) x f)"

text \<open>A turn of \<^verbatim>\<open>CsvLogger.Run\<close>: it takes a message, or the context is done and it drains the channel.\<close>

datatype log_event = LogTake time | LogDone "nat \<Rightarrow> time"

fun logger_turn :: "(time \<Rightarrow> string) \<Rightarrow> log_event \<Rightarrow> CsvLogger \<times> log_file \<Rightarrow> (CsvLogger \<times> log_file) option" where
  "logger_turn fmt_s (LogTake t) (l, f) =
     (case Finished l of
        [] \<Rightarrow> None
      | x # ch \<Rightarrow> Some (l\<lparr>Finished := ch\<rparr>, log_write fmt_s t x f))"
| "logger_turn fmt_s (LogDone clk) (l, f) = Some (l\<lparr>Finished := []\<rparr>, log_drain fmt_s clk (Finished l) f)"

text \<open>
  The end of \<^verbatim>\<open>CoordinatorServer.Run\<close>: the main goroutine has seen the cancellation and returned; only
  then is the logger cancelled and awaited.
\<close>

definition server_shutdown ::
  "coord_orders \<Rightarrow> server_clock \<Rightarrow> (time \<Rightarrow> string) \<Rightarrow> (nat \<Rightarrow> time) \<Rightarrow> CoordinatorServer \<times> log_file
     \<Rightarrow> (CoordinatorServer \<times> log_file) res option" where
  "server_shutdown co ck fmt_s clk = (\<lambda>(cs, f).
     case runCoordinator_turn co ck ShutDown cs of
       None \<Rightarrow> None
     | Some (Inl e) \<Rightarrow> Some (Inl e)
     | Some (Inr cs1) \<Rightarrow>
         (case logger cs1 of
            None \<Rightarrow> Some (Inr (cs1, f))
          | Some l \<Rightarrow>
              (case logger_turn fmt_s (LogDone clk) (l, f) of
                 None \<Rightarrow> None
               | Some (l1, f1) \<Rightarrow> Some (Inr (cs1\<lparr>logger := Some l1\<rparr>, f1)))))"

section \<open>What is logged\<close>

text \<open>A record without its time.\<close>

definition logged :: "log_file \<Rightarrow> string list list" where
  "logged f = map tl (log_records f)"

definition log_entry :: "FinishedTrigger \<Rightarrow> string list" where
  "log_entry t = [Itoa (fin_queue_id t), Itoa (total_agents t), Itoa (go_div (dissemination_time t) 1000000)]"

lemma logged_write [simp]: "logged (log_write fmt_s t x f) = logged f @ map log_entry x"
  by (simp add: logged_def log_write_def log_row_def log_entry_def comp_def)

lemma log_drain_ok: "logged (log_drain fmt_s clk ch f) = logged f @ map log_entry (concat ch) \<and> log_closed (log_drain fmt_s clk ch f)"
  by (induction ch arbitrary: f) (simp_all add: logged_def [of "_\<lparr>log_closed := _\<rparr>"] flip: logged_def)

lemma co_ok_all_expired:
  assumes "co_ok c" and "c_now c \<le> cutoff"
  shows "expired cutoff (sp_trigger_time (spec_of c)) = dom (sp_trigger_time (spec_of c))"
proof -
  have "\<forall>v\<in>ran (sp_trigger_time (spec_of c)). v \<le> c_now c" using assms(1) by (simp add: co_ok_def timed_def spec_of_def)
  then show ?thesis using assms(2) by (fastforce simp: expired_def ran_def)
qed

section \<open>Properties\<close>

text \<open>
  C37. On shutdown nothing is lost that the log's queue has room for: the server returns, no trigger is
  left, and the closed file has, after what it held, a record for every finished trigger that was
  queued and one for every trigger that was still being disseminated.
\<close>

theorem shutdown_logs_everything:
  assumes "srv_ok cs" and "coord_orders_ok co" and "c_now (cs_c cs) \<le> ck_start ck" and "logger cs = Some l"
    and "length (Finished l) < 1000"
  shows "\<exists>cs' f' ts. server_shutdown co ck fmt_s clk (cs, f) = Some (Inr (cs', f')) \<and> log_closed f' \<and>
     sp_trigger_time (spec_of (cs_c cs')) = Map.empty \<and>
     distinct ts \<and> set ts = dom (sp_trigger_time (spec_of (cs_c cs))) \<and>
     logged f' = logged f @ map log_entry (concat (Finished l)) @ map (log_entry \<circ> finished_of (spec_of (cs_c cs))) ts"
proof -
  let ?s = "spec_of (cs_c cs)" and ?cut = "ck_start ck + second"
  have c: "co_ok (cs_c cs)" using assms(1) by (simp add: srv_ok_def)
  have x: "expired ?cut (sp_trigger_time ?s) = dom (sp_trigger_time ?s)"
    using co_ok_all_expired [OF c, of ?cut] assms(3) by (simp add: second_def)
  obtain fin c1 ts where r: "checkTriggerExpiration co ?cut (cs_c cs) = Inr (fin, c1)"
      "spec_of c1 = sp_drop_triggers (dom (sp_trigger_time ?s)) ?s" "distinct ts" "set ts = dom (sp_trigger_time ?s)"
      "fin = map (finished_of ?s) ts"
    using expire_triggers_ok [OF c assms(2) order_refl, of ?cut "[]"]
    unfolding checkTriggerExpiration_def x by (elim yieldsE) auto
  have e: "sp_trigger_time (spec_of c1) = Map.empty" by (rule ext) (auto simp: r(2) sp_drop_triggers_def restrict_map_def)
  have "try_send 1000 fin (Finished l) = Some (Finished l @ [fin])" using assms(5) by (simp add: try_send_def)
  then have t: "runCoordinator_turn co ck ShutDown cs = Some (Inr (cs\<lparr>cs_c := c1, logger := Some (l\<lparr>Finished := Finished l @ [fin]\<rparr>)\<rparr>))"
    using r(1) assms(4) by (simp add: log_finished_def)
  show ?thesis
    using t e r(3-5) log_drain_ok [of fmt_s clk "Finished l @ [fin]" f] by (auto simp: server_shutdown_def)
qed

text \<open>A server that has received a trigger from the agent A.\<close>

definition ex_busy :: CoordinatorServer where
  "ex_busy = (case processTriggersRequest ex_co (ex_clock 5) (ex_request ''A'' 7) ex_server of Inl _ \<Rightarrow> ex_server | Inr cs \<Rightarrow> cs)"

lemma ex_busy_ok: "srv_ok ex_busy" "c_now (cs_c ex_busy) \<le> ck_start (ex_clock 6)"
  "logger ex_busy = Some \<lparr>Finished = [], dropped_finished = 0\<rparr>" "length (c_triggers (cs_c ex_busy)) = 1"
proof -
  show "srv_ok ex_busy"
    using processTriggersRequest_ok [OF ex_server_ok ex_co_ok ex_server_clock, of "ex_request ''A'' 7"]
    by (elim yieldsE) (auto simp: ex_busy_def)
  have "c_now (cs_c ex_busy) = 5" by code_simp
  then show "c_now (cs_c ex_busy) \<le> ck_start (ex_clock 6)" by (simp add: ex_clock_def)
  show "logger ex_busy = Some \<lparr>Finished = [], dropped_finished = 0\<rparr>" "length (c_triggers (cs_c ex_busy)) = 1" by code_simp+
qed

theorem shutdown_logs_everything_witness:
  "\<exists>cs' f'. server_shutdown ex_co (ex_clock 6) (\<lambda>_. ''0'') (\<lambda>_. 7) (ex_busy, NewCsvLogger 0) = Some (Inr (cs', f')) \<and>
     log_closed f' \<and> sp_trigger_time (spec_of (cs_c cs')) = Map.empty \<and> length (logged f') = 2"
proof -
  obtain cs' f' ts where r: "server_shutdown ex_co (ex_clock 6) (\<lambda>_. ''0'') (\<lambda>_. 7) (ex_busy, NewCsvLogger 0) = Some (Inr (cs', f'))"
      "log_closed f'" "sp_trigger_time (spec_of (cs_c cs')) = Map.empty" "distinct ts"
      "set ts = dom (sp_trigger_time (spec_of (cs_c ex_busy)))"
      "logged f' = logged (NewCsvLogger 0) @ map (log_entry \<circ> finished_of (spec_of (cs_c ex_busy))) ts"
    using shutdown_logs_everything [OF ex_busy_ok(1) ex_co_ok ex_busy_ok(2,3), of "\<lambda>_. ''0''" "\<lambda>_. 7" "NewCsvLogger 0"] by auto
  have "dom (sp_trigger_time (spec_of (cs_c ex_busy))) = fst ` set (c_triggers (cs_c ex_busy))"
    by (simp add: spec_of_def stamps_def trig_of_def dom_map_option_comp [unfolded comp_def] dom_map_of_conv_image_fst)
  then have "card (set ts) = 1" using ex_busy_ok(4) r(5) by (cases "c_triggers (cs_c ex_busy)") auto
  then have "length ts = 1" using distinct_card [OF r(4)] by simp
  moreover have "length (logged (NewCsvLogger 0)) = 1" by (simp add: logged_def NewCsvLogger_def)
  ultimately have "length (logged f') = 2" by (simp add: r(6))
  then show ?thesis using r(1-3) by blast
qed

end
