(* ===== verification/Config.thy ===== *)
theory Config
  imports GoStrings
begin

text \<open>
  Configuration: the legacy configuration file (\<^verbatim>\<open>Conf_init\<close> of \<^verbatim>\<open>agent/pkg/util/util.go\<close>), the precedence
  of flags, file and defaults (\<^verbatim>\<open>resolveConfigValue\<close> of the three commands) and the flag for the rate
  limits of single triggers.

  The global variables are a record; a file is the list of its lines, \<open>None\<close> if it cannot be opened.
  Parsing a floating point number is a parameter.
\<close>

section \<open>The configuration file\<close>

record conf =
  Server_addr :: string
  Server_port :: string
  Coordinator_addr :: string
  Coordinator_port :: string
  Reporting_addr :: string
  Reporting_port :: string

definition zero_conf :: conf where
  "zero_conf = \<lparr>Server_addr = [], Server_port = [], Coordinator_addr = [], Coordinator_port = [],
     Reporting_addr = [], Reporting_port = []\<rparr>"

text \<open>\<^verbatim>\<open>strings.Split(line, " ")[1]\<close>\<close>

definition second_field :: "string \<Rightarrow> string res" where
  "second_field line = (case Split line CHR '' '' of _ # v # _ \<Rightarrow> Inr v | _ \<Rightarrow> Inl IndexOutOfRange)"

text \<open>One of the six tests of the loop: if the line passes, its second field is stored.\<close>

definition store_if :: "bool \<Rightarrow> string \<Rightarrow> (string \<Rightarrow> conf \<Rightarrow> conf) \<Rightarrow> conf \<Rightarrow> conf res" where
  "store_if b line put c = (if b then bind_res (second_field line) (\<lambda>v. Inr (put v c)) else Inr c)"

definition conf_line :: "string \<Rightarrow> conf \<Rightarrow> conf res" where
  "conf_line line c =
     (let has = Contains line; own = (\<not> has ''lc_'' \<and> \<not> has ''r_'') in
      bind_res (store_if (has ''addr'' \<and> own) line (\<lambda>v c. c\<lparr>Server_addr := v\<rparr>) c) (\<lambda>c1.
      bind_res (store_if (has ''port'' \<and> own) line (\<lambda>v c. c\<lparr>Server_port := v\<rparr>) c1) (\<lambda>c2.
      bind_res (store_if (has ''lc_addr'') line (\<lambda>v c. c\<lparr>Coordinator_addr := v\<rparr>) c2) (\<lambda>c3.
      bind_res (store_if (has ''lc_port'') line (\<lambda>v c. c\<lparr>Coordinator_port := v\<rparr>) c3) (\<lambda>c4.
      bind_res (store_if (has ''r_addr'') line (\<lambda>v c. c\<lparr>Reporting_addr := v\<rparr>) c4) (\<lambda>c5.
        store_if (has ''r_port'') line (\<lambda>v c. c\<lparr>Reporting_port := v\<rparr>) c5))))))"

text \<open>\<open>file name\<close>: the lines of \<^verbatim>\<open>/etc/hindsight_conf/<name>.conf\<close>. The result: whether a file was found.\<close>

definition Conf_init :: "(string \<Rightarrow> string list option) \<Rightarrow> string \<Rightarrow> conf \<Rightarrow> (bool \<times> conf) res" where
  "Conf_init file service_name c =
     (case (case file service_name of Some ls \<Rightarrow> Some ls | None \<Rightarrow> file ''default'') of
        None \<Rightarrow> Inr (False, c)
      | Some ls \<Rightarrow> bind_res (foreach conf_line ls c) (\<lambda>c1. Inr (True, c1)))"

section \<open>Flags\<close>

text \<open>\<^verbatim>\<open>resolveConfigValue\<close> of the agent, the coordinator and the collector, without what they print.\<close>

definition agent_resolveConfigValue :: "string \<Rightarrow> string \<Rightarrow> string \<Rightarrow> string" where
  "agent_resolveConfigValue value1 legacy default1 =
     (if value1 = [] then (if legacy = [] \<or> legacy = '':'' then default1 else legacy) else value1)"

definition coord_resolveConfigValue :: "string \<Rightarrow> string \<Rightarrow> string" where
  "coord_resolveConfigValue value1 legacy = (if value1 = [] then legacy else value1)"

definition collector_resolveConfigValue :: "string \<Rightarrow> string \<Rightarrow> string \<Rightarrow> string" where
  "collector_resolveConfigValue value1 legacy default1 =
     (if value1 = [] then (if legacy = [] then default1 else legacy) else value1)"

text \<open>\<^verbatim>\<open>triggerRateLimitFlags.Set\<close>; \<open>pf\<close> is \<^verbatim>\<open>strconv.ParseFloat\<close>.\<close>

datatype flag_error = InvalidRate string | BadTrigger num_error | BadRate

definition flags_Set :: "(string \<Rightarrow> 'f option) \<Rightarrow> string \<Rightarrow> (int \<times> 'f) list \<Rightarrow> flag_error + (int \<times> 'f) list" where
  "flags_Set pf value1 rates =
     (case Split value1 CHR '','' of
        [a, b] \<Rightarrow>
          (case ParseInt a of
             Inl e \<Rightarrow> Inl (BadTrigger e)
           | Inr trigger_id \<Rightarrow>
               (case pf b of None \<Rightarrow> Inl BadRate | Some rate \<Rightarrow> Inr (AList.update trigger_id rate rates)))
      | _ \<Rightarrow> Inl (InvalidRate value1))"

text \<open>The addresses \<^verbatim>\<open>main\<close> of the agent passes on: host, port, coordinator and collector.\<close>

definition agent_addresses :: "conf \<Rightarrow> string \<times> string \<times> string \<times> string \<Rightarrow> string \<times> string \<times> string \<times> string" where
  "agent_addresses c = (\<lambda>(host, port, lc, r).
     (agent_resolveConfigValue host (Server_addr c) ''127.0.0.1'',
      agent_resolveConfigValue port (Server_port c) ''5050'',
      agent_resolveConfigValue lc (Coordinator_addr c @ '':'' @ Coordinator_port c) ''127.0.0.1:5252'',
      agent_resolveConfigValue r (Reporting_addr c @ '':'' @ Reporting_port c) ''127.0.0.1:5253''))"

text \<open>The port of the coordinator, whose flag has the default 5252.\<close>

definition coordinator_port :: "conf \<Rightarrow> string option \<Rightarrow> string" where
  "coordinator_port c flag = coord_resolveConfigValue (case flag of None \<Rightarrow> ''5252'' | Some p \<Rightarrow> p) (Server_port c)"

text \<open>The command of the coordinator declares the same flag and does not use it.\<close>

definition coordinator_flags_Set :: "(string \<Rightarrow> 'f option) \<Rightarrow> string \<Rightarrow> (int \<times> 'f) list \<Rightarrow> flag_error + (int \<times> 'f) list" where
  "coordinator_flags_Set pf value1 rates = flags_Set pf value1 rates"

section \<open>Commands\<close>

text \<open>
  The flags of the agent as they are given, with the values of each \<^verbatim>\<open>-l\<close> in order, and what \<^verbatim>\<open>main\<close> passes
  to \<^verbatim>\<open>InitAgent2\<close>. A flag that cannot be parsed, or a missing configuration file, ends the process.
\<close>

record 'f agent_flags =
  af_serv :: string
  af_host :: string
  af_port :: string
  af_lc :: string
  af_r :: string
  af_delay :: int
  af_rate :: 'f
  af_triggerrate :: 'f
  af_limits :: "string list"
  af_output :: string
  af_verbose :: bool

record 'f agent_args =
  aa_serv :: string
  aa_addresses :: "string \<times> string \<times> string \<times> string"
  aa_delay :: "64 word"
  aa_rate :: 'f
  aa_triggerrate :: 'f
  aa_limits :: "(int \<times> 'f) list"
  aa_output :: string
  aa_verbose :: bool

datatype main_end = BadFlag flag_error | NoConfig | Panics go_error

fun parse_limits :: "(string \<Rightarrow> 'f option) \<Rightarrow> string list \<Rightarrow> (int \<times> 'f) list \<Rightarrow> flag_error + (int \<times> 'f) list" where
  "parse_limits pf [] rates = Inr rates"
| "parse_limits pf (v # vs) rates = (case flags_Set pf v rates of Inl e \<Rightarrow> Inl e | Inr rates1 \<Rightarrow> parse_limits pf vs rates1)"

definition agent_main ::
  "(string \<Rightarrow> 'f option) \<Rightarrow> (string \<Rightarrow> string list option) \<Rightarrow> 'f agent_flags \<Rightarrow> conf \<Rightarrow> main_end + 'f agent_args" where
  "agent_main pf file fl c =
     (case parse_limits pf (af_limits fl) [] of
        Inl e \<Rightarrow> Inl (BadFlag e)
      | Inr limits \<Rightarrow>
          (case Conf_init file (af_serv fl) c of
             Inl e \<Rightarrow> Inl (Panics e)
           | Inr (False, _) \<Rightarrow> Inl NoConfig
           | Inr (True, c1) \<Rightarrow>
               Inr \<lparr>aa_serv = af_serv fl, aa_addresses = agent_addresses c1 (af_host fl, af_port fl, af_lc fl, af_r fl),
                    aa_delay = word_of_int (af_delay fl), aa_rate = af_rate fl, aa_triggerrate = af_triggerrate fl,
                    aa_limits = limits, aa_output = af_output fl, aa_verbose = af_verbose fl\<rparr>))"

text \<open>The port and the file of the coordinator and of the collector; \<open>flag\<close> is \<open>None\<close> when \<^verbatim>\<open>-port\<close> is not given.\<close>

definition coordinator_main ::
  "(string \<Rightarrow> string list option) \<Rightarrow> string option \<Rightarrow> string \<Rightarrow> conf \<Rightarrow> main_end + (string \<times> string)" where
  "coordinator_main file flag outfile c =
     (case Conf_init file ''lc'' c of
        Inl e \<Rightarrow> Inl (Panics e)
      | Inr (False, _) \<Rightarrow> Inl NoConfig
      | Inr (True, c1) \<Rightarrow> Inr (coordinator_port c1 flag, outfile))"

definition collector_main ::
  "(string \<Rightarrow> string list option) \<Rightarrow> string option \<Rightarrow> string \<Rightarrow> conf \<Rightarrow> main_end + (string \<times> string)" where
  "collector_main file flag outfile c =
     (case Conf_init file ''lc'' c of
        Inl e \<Rightarrow> Inl (Panics e)
      | Inr (False, _) \<Rightarrow> Inl NoConfig
      | Inr (True, c1) \<Rightarrow>
          Inr (collector_resolveConfigValue (case flag of None \<Rightarrow> [] | Some p \<Rightarrow> p) (Reporting_port c1) ''5253'', outfile))"

section \<open>Lines\<close>

text \<open>The six keys and what they set.\<close>

definition conf_keys :: "(string \<times> (string \<Rightarrow> conf \<Rightarrow> conf)) list" where
  "conf_keys =
     [(''addr'', \<lambda>v c. c\<lparr>Server_addr := v\<rparr>), (''port'', \<lambda>v c. c\<lparr>Server_port := v\<rparr>),
      (''lc_addr'', \<lambda>v c. c\<lparr>Coordinator_addr := v\<rparr>), (''lc_port'', \<lambda>v c. c\<lparr>Coordinator_port := v\<rparr>),
      (''r_addr'', \<lambda>v c. c\<lparr>Reporting_addr := v\<rparr>), (''r_port'', \<lambda>v c. c\<lparr>Reporting_port := v\<rparr>)]"

section \<open>What a line sets\<close>

lemma sublist_around:
  assumes "c \<notin> set p"
  shows "sublist p (a @ c # b) \<longleftrightarrow> sublist p a \<or> sublist p b"
proof
  assume "sublist p (a @ c # b)"
  then consider "sublist p a" | "sublist p (c # b)" | x y where "p = x @ y" "suffix x a" "prefix y (c # b)"
    by (auto simp: sublist_append)
  then show "sublist p a \<or> sublist p b"
  proof cases
    case 2
    then show ?thesis using assms by (auto simp: sublist_Cons_right prefix_Cons)
  next
    case 3
    then have "y = []" using assms by (auto simp: prefix_Cons)
    then show ?thesis using 3 by (auto dest: suffix_imp_sublist)
  qed simp
qed (auto simp: sublist_append sublist_Cons_right)

lemma Contains_line: "CHR '' '' \<notin> set p \<Longrightarrow> Contains (key @ CHR '' '' # v) p \<longleftrightarrow> Contains key p \<or> Contains v p"
  by (simp add: Contains_def sublist_around)

lemma second_field_line: "CHR '' '' \<notin> set key \<Longrightarrow> CHR '' '' \<notin> set v \<Longrightarrow> second_field (key @ CHR '' '' # v) = Inr v"
  using Split_Join [of "[key, v]" "CHR '' ''"] by (simp add: second_field_def)

text \<open>A value without a space that looks like none of the keys.\<close>

definition plain :: "string \<Rightarrow> bool" where
  "plain v \<longleftrightarrow> CHR '' '' \<notin> set v \<and> \<not> Contains v ''addr'' \<and> \<not> Contains v ''port'' \<and> \<not> Contains v ''lc_'' \<and> \<not> Contains v ''r_''"

lemma Contains_mono: "Contains v q \<Longrightarrow> sublist p q \<Longrightarrow> Contains v p"
  unfolding Contains_def by (rule sublist_order.order_trans)

lemma plain_keys:
  assumes "plain v"
  shows "\<not> Contains v ''lc_addr''" "\<not> Contains v ''lc_port''" "\<not> Contains v ''r_addr''" "\<not> Contains v ''r_port''"
proof -
  have "sublist ''lc_'' ''lc_addr''" "sublist ''lc_'' ''lc_port''" "sublist ''r_'' ''r_addr''" "sublist ''r_'' ''r_port''"
    by code_simp+
  then show "\<not> Contains v ''lc_addr''" "\<not> Contains v ''lc_port''" "\<not> Contains v ''r_addr''" "\<not> Contains v ''r_port''"
    using assms Contains_mono unfolding plain_def by blast+
qed

definition key_has :: "string \<Rightarrow> bool list" where
  "key_has key = map (Contains key) [''addr'', ''port'', ''lc_'', ''r_'', ''lc_addr'', ''lc_port'', ''r_addr'', ''r_port'']"

lemma key_has_values:
  "key_has ''addr'' = [True, False, False, False, False, False, False, False]"
  "key_has ''port'' = [False, True, False, False, False, False, False, False]"
  "key_has ''lc_addr'' = [True, False, True, False, True, False, False, False]"
  "key_has ''lc_port'' = [False, True, True, False, False, True, False, False]"
  "key_has ''r_addr'' = [True, False, False, True, False, False, True, False]"
  "key_has ''r_port'' = [False, True, False, True, False, False, False, True]"
  by code_simp+

lemma conf_line_ok:
  assumes "(key, put) \<in> set conf_keys" and "plain v"
  shows "conf_line (key @ CHR '' '' # v) c = Inr (put v c)"
proof -
  have s: "CHR '' '' \<notin> set key" using assms(1) by (auto simp: conf_keys_def)
  have v: "CHR '' '' \<notin> set v" "\<not> Contains v ''addr''" "\<not> Contains v ''port''" "\<not> Contains v ''lc_''" "\<not> Contains v ''r_''"
    using assms(2) by (simp_all add: plain_def)
  have k: "Contains (key @ CHR '' '' # v) p = Contains key p"
    if "p \<in> {''addr'', ''port'', ''lc_'', ''r_'', ''lc_addr'', ''lc_port'', ''r_addr'', ''r_port''}" for p
    using that v plain_keys [OF assms(2)] by (auto simp: Contains_line)
  show ?thesis
    using assms(1) key_has_values second_field_line [OF s v(1)]
    by (auto simp: conf_line_def Let_def k store_if_def conf_keys_def key_has_def)
qed

text \<open>The lines of a configuration file.\<close>

definition conf_lines :: "conf \<Rightarrow> string list" where
  "conf_lines c = [''addr '' @ Server_addr c, ''port '' @ Server_port c, ''lc_addr '' @ Coordinator_addr c,
     ''lc_port '' @ Coordinator_port c, ''r_addr '' @ Reporting_addr c, ''r_port '' @ Reporting_port c]"

lemma Conf_init_lines:
  assumes "list_all plain [Server_addr c, Server_port c, Coordinator_addr c, Coordinator_port c, Reporting_addr c, Reporting_port c]"
    and "file name = Some (conf_lines c) \<or> file name = None \<and> file ''default'' = Some (conf_lines c)"
  shows "Conf_init file name c0 = Inr (True, c)"
proof -
  have l: "conf_line (key @ CHR '' '' # v) c1 = Inr (put v c1)" if "plain v" "(key, put) \<in> set conf_keys" for key v put c1
    by (rule conf_line_ok [OF that(2,1)])
  have "foreach conf_line (conf_lines c) c0 = Inr c"
    using assms(1) l [of _ "''addr''" "\<lambda>v c. c\<lparr>Server_addr := v\<rparr>"] l [of _ "''port''" "\<lambda>v c. c\<lparr>Server_port := v\<rparr>"]
      l [of _ "''lc_addr''" "\<lambda>v c. c\<lparr>Coordinator_addr := v\<rparr>"] l [of _ "''lc_port''" "\<lambda>v c. c\<lparr>Coordinator_port := v\<rparr>"]
      l [of _ "''r_addr''" "\<lambda>v c. c\<lparr>Reporting_addr := v\<rparr>"] l [of _ "''r_port''" "\<lambda>v c. c\<lparr>Reporting_port := v\<rparr>"]
    by (simp add: conf_lines_def conf_keys_def)
  then show ?thesis using assms(2) by (auto simp: Conf_init_def)
qed

text \<open>A rate limit given on the command line is stored under its trigger, in place of an earlier one.\<close>

lemma flags_Set_ok:
  assumes "- (2 ^ 63) \<le> k" and "k < 2 ^ 63" and "CHR '','' \<notin> set s" and "pf s = Some rate"
  shows "flags_Set pf (Itoa k @ '','' @ s) rates = Inr (AList.update k rate rates)"
proof -
  have "Split (Itoa k @ '','' @ s) CHR '','' = [Itoa k, s]"
    using Split_Join [of "[Itoa k, s]" "CHR '',''"] assms(3) Itoa_chars [of _ k] by auto
  then show ?thesis using ParseInt_Itoa [OF assms(1,2)] assms(4) by (simp add: flags_Set_def)
qed

lemma parse_limits_ok:
  assumes "\<forall>(k, s)\<in>set ls. - (2 ^ 63) \<le> k \<and> k < 2 ^ 63 \<and> CHR '','' \<notin> set s \<and> pf s = Some (g s)"
  shows "parse_limits pf (map (\<lambda>(k, s). Itoa k @ '','' @ s) ls) rates = Inr (fold (\<lambda>(k, s). AList.update k (g s)) ls rates)"
  using assms
proof (induction ls arbitrary: rates)
  case (Cons x ls)
  obtain k s where x: "x = (k, s)" by fastforce
  have "flags_Set pf (Itoa k @ '','' @ s) rates = Inr (AList.update k (g s) rates)"
    by (rule flags_Set_ok) (use Cons.prems x in auto)
  then show ?case using Cons x by simp
qed simp

section \<open>Properties\<close>


definition ex_conf :: conf where
  "ex_conf = \<lparr>Server_addr = ''10.0.0.1'', Server_port = ''50'', Coordinator_addr = ''c'', Coordinator_port = ''60'',
     Reporting_addr = [], Reporting_port = []\<rparr>"


text \<open>
  A line that is not of this form stops the program or is ignored: one with a key and no space is an
  index out of range, and an address of the server itself that contains the text \<open>r_\<close>, say the host
  name \<open>master_1\<close>, is not stored.
\<close>

lemma conf_line_misread:
  "conf_line ''addr'' c = Inl IndexOutOfRange \<and> conf_line ''addr master_1'' c = Inr c"
proof -
  have "map (Contains ''addr'') [''addr'', ''lc_'', ''r_''] = [True, False, False]" by code_simp
  moreover have "map (Contains ''addr master_1'') [''addr'', ''port'', ''lc_'', ''r_'', ''lc_addr'', ''lc_port'', ''r_addr'', ''r_port''] =
      [True, False, False, True, False, False, False, False]" by code_simp
  moreover have "second_field ''addr'' = Inl IndexOutOfRange" by code_simp
  ultimately show ?thesis by (simp add: conf_line_def Let_def store_if_def)
qed

text \<open>
  The agent starts with what its flags and its configuration file say: every \<^verbatim>\<open>-l\<close> flag sets the limit of
  its trigger, the last one for a trigger counts, and a negative delay wraps around. A flag that cannot
  be parsed stops it before the file is read, and so does a missing file.
\<close>

lemma agent_main_starts:
  assumes "list_all plain [Server_addr c, Server_port c, Coordinator_addr c, Coordinator_port c, Reporting_addr c, Reporting_port c]"
    and "file (af_serv fl) = Some (conf_lines c)" and "af_limits fl = map (\<lambda>(k, s). Itoa k @ '','' @ s) ls"
    and "\<forall>(k, s)\<in>set ls. - (2 ^ 63) \<le> k \<and> k < 2 ^ 63 \<and> CHR '','' \<notin> set s \<and> pf s = Some (g s)"
  shows "\<exists>args. agent_main pf file fl c0 = Inr args \<and> aa_limits args = fold (\<lambda>(k, s). AList.update k (g s)) ls [] \<and>
      aa_addresses args = agent_addresses c (af_host fl, af_port fl, af_lc fl, af_r fl) \<and> aa_delay args = word_of_int (af_delay fl)"
    and "parse_limits pf (af_limits fl1) [] = Inl e \<Longrightarrow> agent_main pf file fl1 c0 = Inl (BadFlag e)"
    and "file ''lc'' = None \<Longrightarrow> file ''default'' = None \<Longrightarrow>
      coordinator_main file flag out c0 = Inl NoConfig \<and> collector_main file flag out c0 = Inl NoConfig"
  using parse_limits_ok [OF assms(4)] Conf_init_lines [OF assms(1), of "file" "af_serv fl" c0] assms(2,3)
  by (simp_all add: agent_main_def coordinator_main_def collector_main_def Conf_init_def)

text \<open>Without a flag the coordinator listens on port 5252, whatever its configuration file says.\<close>

lemma coordinator_port_default: "coordinator_port c None = ''5252''"
  by (simp add: coordinator_port_def coord_resolveConfigValue_def)

end
