(* ===== verification/Lifecycle.thy ===== *)
theory Lifecycle
  imports Prelude
begin

text \<open>
  How the processes start their goroutines and end: the wait groups of \<^verbatim>\<open>Agent.Run\<close> (\<^verbatim>\<open>agent.go\<close>),
  \<^verbatim>\<open>Coordinator.Run\<close> (\<^verbatim>\<open>agent/pkg/agent/coordinator.go\<close>), \<^verbatim>\<open>GoAgentAPI.Run\<close> (\<^verbatim>\<open>memory.go\<close>) and
  \<^verbatim>\<open>CoordinatorServer.Run\<close> (\<^verbatim>\<open>server.go\<close>), the order in which the coordinator's server shuts down, and the
  signal handlers of the commands.
\<close>

section \<open>Wait groups\<close>

text \<open>
  A goroutine is a loop, which ends by itself, or a function that adds a number to a wait group, starts
  goroutines of which each calls \<^verbatim>\<open>Done\<close> at its end, and waits. \<open>n\<close> is the argument of \<^verbatim>\<open>Add\<close>.
\<close>

datatype job = Loop string | Jobs (job_add: int) (job_list: "job list")

text \<open>A running job: a loop that has ended or not, or a counter with the jobs it counts.\<close>

datatype proc = Leaf string bool | Node int "proc list"

fun start :: "job \<Rightarrow> proc" where
  "start (Loop g) = Leaf g False"
| "start (Jobs n js) = Node n (map start js)"

text \<open>\<^verbatim>\<open>Wait\<close> returns when the counter is zero.\<close>

fun ended :: "proc \<Rightarrow> bool" where
  "ended (Leaf g e) = e"
| "ended (Node n ps) = (n = 0)"

text \<open>
  The loop \<open>g\<close> ends. Each job that thereby ends calls \<^verbatim>\<open>Done\<close> on the counter above it, which panics when
  the counter becomes negative.
\<close>

fun traverse :: "('a \<Rightarrow> 'b res) \<Rightarrow> 'a list \<Rightarrow> 'b list res" where
  "traverse f [] = Inr []"
| "traverse f (x # xs) = bind_res (f x) (\<lambda>y. bind_res (traverse f xs) (\<lambda>ys. Inr (y # ys)))"

lemma traverse_cong [fundef_cong]:
  "xs = ys \<Longrightarrow> (\<And>x. x \<in> set ys \<Longrightarrow> f x = g x) \<Longrightarrow> traverse f xs = traverse g ys"
  by (induction ys arbitrary: xs) auto

definition wg_Done :: "nat \<Rightarrow> int \<Rightarrow> int res" where
  "wg_Done k n = (if n - int k < 0 then Inl (LogFatal ''sync: negative WaitGroup counter'') else Inr (n - int k))"

definition newly_ended :: "proc list \<Rightarrow> proc list \<Rightarrow> nat" where
  "newly_ended ps ps' = length (filter (\<lambda>(p, p'). \<not> ended p \<and> ended p') (zip ps ps'))"

fun loop_ends :: "string \<Rightarrow> proc \<Rightarrow> proc res" where
  "loop_ends g (Leaf h e) = Inr (Leaf h (e \<or> g = h))"
| "loop_ends g (Node n ps) =
     bind_res (traverse (loop_ends g) ps) (\<lambda>ps1.
     bind_res (wg_Done (newly_ended ps ps1) n) (\<lambda>n1. Inr (Node n1 ps1)))"

section \<open>The goroutines of the agent and of the coordinator\<close>

text \<open>
  The agent's \<^verbatim>\<open>Coordinator.Run\<close> returns at once, and cancels the context of the process, when it cannot
  listen for remote triggers: the first component says whether it cancels. The goroutine that serves the
  remote triggers is not waited for.
\<close>

definition coordinator_Run :: "bool \<Rightarrow> bool \<times> job" where
  "coordinator_Run listens =
     (if listens then (False, Jobs 2 [Loop ''BreadcrumbsLoop'', Loop ''TriggersLoop''])
      else (True, Loop ''Coordinator.Run''))"

definition memory_Run_jobs :: job where
  "memory_Run_jobs = Jobs 4 [Loop ''availableLoop'', Loop ''completeLoop'', Loop ''triggerLoop'', Loop ''breadcrumbsLoop'']"

definition agent_Run_jobs :: "bool \<Rightarrow> job" where
  "agent_Run_jobs listens = Jobs 5 [Loop ''RunProcessingLoop'', snd (coordinator_Run listens), Loop ''reporting.Run'', memory_Run_jobs, Loop ''reporter.Run'']"

definition server_Run_jobs :: job where
  "server_Run_jobs = Jobs 2 [Loop ''runServer'', Loop ''runCoordinator'']"

fun loops :: "job \<Rightarrow> string list" where
  "loops (Loop g) = [g]"
| "loops (Jobs n js) = concat (map loops js)"

section \<open>Waiting for all\<close>

text \<open>What a counter must be: the number of jobs below it that have not ended.\<close>

fun counted :: "proc \<Rightarrow> bool" where
  "counted (Leaf g e) \<longleftrightarrow> True"
| "counted (Node n ps) \<longleftrightarrow> n = int (length (filter (\<lambda>p. \<not> ended p) ps)) \<and> list_all counted ps"

text \<open>The loops of a running job that have not ended.\<close>

fun alive :: "proc \<Rightarrow> string set" where
  "alive (Leaf g e) = (if e then {} else {g})"
| "alive (Node n ps) = (\<Union>p\<in>set ps. alive p)"

lemma counted_ended: "counted p \<Longrightarrow> ended p \<longleftrightarrow> alive p = {}"
proof (induction p rule: alive.induct)
  case (2 n ps)
  have "(\<forall>p\<in>set ps. ended p) \<longleftrightarrow> (\<Union>p\<in>set ps. alive p) = {}" using 2 by (auto simp: list_all_iff)
  then show ?case using 2(2) by (auto simp: filter_empty_conv)
qed simp

lemma newly_ended_count:
  "list_all2 (\<lambda>p p'. ended p \<longrightarrow> ended p') ps ps' \<Longrightarrow>
     length (filter (\<lambda>p. \<not> ended p) ps) = newly_ended ps ps' + length (filter (\<lambda>p. \<not> ended p) ps')"
  by (induction rule: list_all2_induct) (auto simp: newly_ended_def)

lemma loop_ends_ok:
  "counted p \<Longrightarrow> yields (loop_ends g p) (\<lambda>p'. counted p' \<and> alive p' = alive p - {g} \<and> (ended p \<longrightarrow> ended p'))"
proof (induction g p rule: loop_ends.induct)
  case (2 g n ps)
  have each: "yields (traverse (loop_ends g) qs) (\<lambda>qs'. list_all counted qs' \<and> (\<Union>p\<in>set qs'. alive p) = (\<Union>p\<in>set qs. alive p) - {g} \<and>
      list_all2 (\<lambda>p p'. ended p \<longrightarrow> ended p') qs qs')" if "set qs \<subseteq> set ps" for qs
    using that
  proof (induction qs)
    case (Cons q qs)
    have "counted q" using Cons.prems 2(2) by (auto simp: list_all_iff)
    then show ?case using 2(1) [of q] Cons by (auto elim!: yieldsE)
  qed simp
  obtain ps' where ps': "traverse (loop_ends g) ps = Inr ps'" "list_all counted ps'" "(\<Union>p\<in>set ps'. alive p) = (\<Union>p\<in>set ps. alive p) - {g}"
      "list_all2 (\<lambda>p p'. ended p \<longrightarrow> ended p') ps ps'"
    using each [OF order_refl] by (elim yieldsE) auto
  have "n - int (newly_ended ps ps') = int (length (filter (\<lambda>p. \<not> ended p) ps'))"
    using newly_ended_count [OF ps'(4)] 2(2) by simp
  then show ?case using ps' 2(2) by (auto simp: wg_Done_def)
qed auto

text \<open>A job whose wait groups are told the right numbers.\<close>

fun adds_ok :: "job \<Rightarrow> bool" where
  "adds_ok (Loop g) \<longleftrightarrow> True"
| "adds_ok (Jobs n js) \<longleftrightarrow> n = int (length js) \<and> js \<noteq> [] \<and> list_all adds_ok js"

lemma start_ok: "adds_ok j \<Longrightarrow> counted (start j) \<and> alive (start j) = set (loops j) \<and> \<not> ended (start j)"
proof (induction j rule: adds_ok.induct)
  case (2 n js)
  then have "\<forall>j\<in>set js. counted (start j) \<and> alive (start j) = set (loops j) \<and> \<not> ended (start j)" by (auto simp: list_all_iff)
  then show ?case using 2(2) by (auto simp: list_all_iff filter_map comp_def cong: filter_cong)
qed simp

lemma job_ends:
  assumes "adds_ok j"
  shows "yields (foreach loop_ends gs (start j)) (\<lambda>p. ended p \<longleftrightarrow> set (loops j) \<subseteq> set gs)"
proof -
  have "counted p \<Longrightarrow> yields (foreach loop_ends gs p) (\<lambda>p'. counted p' \<and> alive p' = alive p - set gs)" for p
  proof (induction gs arbitrary: p)
    case (Cons g gs)
    from loop_ends_ok [OF Cons.prems, of g] obtain p1 where p1: "loop_ends g p = Inr p1" "counted p1" "alive p1 = alive p - {g}"
      by (elim yieldsE) auto
    have "yields (foreach loop_ends gs p1) (\<lambda>p'. counted p' \<and> alive p' = alive p - set (g # gs))"
      by (rule yields_mono [OF Cons.IH [OF p1(2)]]) (auto simp: p1(3))
    then show ?case using p1(1) by simp
  qed simp
  from this [of "start j"] start_ok [OF assms]
  have "yields (foreach loop_ends gs (start j)) (\<lambda>p'. counted p' \<and> alive p' = set (loops j) - set gs)" by simp
  then show ?thesis by (rule yields_mono) (auto simp: counted_ended)
qed

section \<open>The shutdown of the coordinator's server\<close>

text \<open>
  \<^verbatim>\<open>CoordinatorServer.Run\<close> and \<^verbatim>\<open>runServer\<close>: the context, whether \<^verbatim>\<open>GracefulStop\<close> has been called, the RPC handlers that wait for the main goroutine
  or for the deadline of their call, whether the main goroutine runs, whether the RPC server serves, and
  the logger, which is cancelled after both have ended and then drains its queue.
\<close>

datatype logger_phase = Logging | Draining | Drained

record server_life =
  sl_done :: bool
  sl_stopping :: bool
  sl_handlers :: nat
  sl_coordinator :: bool
  sl_serving :: bool
  sl_logger :: logger_phase

definition server_life_Init :: server_life where
  "server_life_Init = \<lparr>sl_done = False, sl_stopping = False, sl_handlers = 0, sl_coordinator = True, sl_serving = True, sl_logger = Logging\<rparr>"

datatype life_event = Cancel | GracefulStop | RpcArrives | RpcReplied | RpcExpires | CoordinatorStops | ServerStops | LoggerCancelled | LoggerStops

text \<open>
  A call is answered by the main goroutine while it runs, or ends with its own deadline. The server
  stops gracefully: it takes no new calls and waits for those it has.
\<close>

fun server_life_step :: "life_event \<Rightarrow> server_life \<Rightarrow> server_life option" where
  "server_life_step Cancel s = (if sl_done s then None else Some (s\<lparr>sl_done := True\<rparr>))"
| "server_life_step GracefulStop s = (if sl_done s \<and> \<not> sl_stopping s then Some (s\<lparr>sl_stopping := True\<rparr>) else None)"
| "server_life_step RpcArrives s = (if sl_stopping s then None else Some (s\<lparr>sl_handlers := sl_handlers s + 1\<rparr>))"
| "server_life_step RpcReplied s =
     (if sl_coordinator s \<and> 0 < sl_handlers s then Some (s\<lparr>sl_handlers := sl_handlers s - 1\<rparr>) else None)"
| "server_life_step RpcExpires s = (if 0 < sl_handlers s then Some (s\<lparr>sl_handlers := sl_handlers s - 1\<rparr>) else None)"
| "server_life_step CoordinatorStops s = (if sl_done s \<and> sl_coordinator s then Some (s\<lparr>sl_coordinator := False\<rparr>) else None)"
| "server_life_step ServerStops s =
     (if sl_stopping s \<and> sl_serving s \<and> sl_handlers s = 0 then Some (s\<lparr>sl_serving := False\<rparr>) else None)"
| "server_life_step LoggerCancelled s =
     (if \<not> sl_coordinator s \<and> \<not> sl_serving s \<and> sl_logger s = Logging then Some (s\<lparr>sl_logger := Draining\<rparr>) else None)"
| "server_life_step LoggerStops s = (if sl_logger s = Draining then Some (s\<lparr>sl_logger := Drained\<rparr>) else None)"

fun server_life_run :: "life_event list \<Rightarrow> server_life \<Rightarrow> server_life option" where
  "server_life_run [] s = Some s"
| "server_life_run (e # es) s = (case server_life_step e s of None \<Rightarrow> None | Some s1 \<Rightarrow> server_life_run es s1)"

text \<open>The logger is cancelled last; the steps left until \<^verbatim>\<open>Run\<close> returns.\<close>

definition life_ok :: "server_life \<Rightarrow> bool" where
  "life_ok s \<longleftrightarrow> (sl_logger s \<noteq> Logging \<longrightarrow> \<not> sl_coordinator s \<and> \<not> sl_serving s) \<and>
     (\<not> sl_coordinator s \<or> sl_stopping s \<longrightarrow> sl_done s) \<and> (\<not> sl_serving s \<longrightarrow> sl_stopping s) \<and> (\<not> sl_serving s \<longrightarrow> sl_handlers s = 0)"

definition steps_left :: "server_life \<Rightarrow> nat" where
  "steps_left s = sl_handlers s + (if sl_coordinator s then 1 else 0) + (if sl_serving s then 1 else 0) +
     (case sl_logger s of Logging \<Rightarrow> 2 | Draining \<Rightarrow> 1 | Drained \<Rightarrow> 0)"

lemma server_life_step_ok:
  assumes "server_life_step e s = Some s'" and "life_ok s"
  shows "life_ok s'" and "sl_stopping s \<Longrightarrow> sl_stopping s' \<and> steps_left s = steps_left s' + 1"
  using assms by (cases e; auto simp: life_ok_def steps_left_def split: if_splits)+

lemma server_life_run_ok:
  "server_life_run es s = Some s' \<Longrightarrow> life_ok s \<Longrightarrow>
     life_ok s' \<and> (sl_stopping s \<longrightarrow> sl_stopping s' \<and> steps_left s = steps_left s' + length es)"
proof (induction es arbitrary: s)
  case (Cons e es)
  obtain s1 where s1: "server_life_step e s = Some s1" "server_life_run es s1 = Some s'"
    using Cons.prems(1) by (auto split: option.splits)
  then show ?case using Cons.IH [OF s1(2)] server_life_step_ok [OF s1(1) Cons.prems(2)] by auto
qed simp

lemma server_life_progress:
  assumes "life_ok s" and "sl_done s" and "sl_logger s \<noteq> Drained"
  shows "\<exists>e s'. server_life_step e s = Some s'"
proof (cases "sl_handlers s")
  case 0
  have "server_life_step (if sl_coordinator s then CoordinatorStops else if sl_serving s then ServerStops
      else if sl_logger s = Logging then LoggerCancelled else LoggerStops) s \<noteq> None" if "sl_stopping s"
    using assms 0 that by (cases "sl_logger s") (auto simp: life_ok_def)
  moreover have "server_life_step GracefulStop s \<noteq> None" if "\<not> sl_stopping s" using assms(2) that by simp
  ultimately show ?thesis by blast
next
  case (Suc n)
  then have "server_life_step RpcExpires s \<noteq> None" by simp
  then show ?thesis by blast
qed

section \<open>Signals\<close>

text \<open>
  The handlers of \<^verbatim>\<open>main\<close>: the first signal cancels the context and starts a timer of five seconds; the
  process exits when \<^verbatim>\<open>Run\<close> returns, when the timer fires or at a second signal. The number is the exit
  status.
\<close>

datatype main_state = Serving | ShuttingDown | Exited nat
datatype main_event = SignalArrives | TimerFires5s | RunReturns

fun main_step :: "main_event \<Rightarrow> main_state \<Rightarrow> main_state option" where
  "main_step SignalArrives Serving = Some ShuttingDown"
| "main_step SignalArrives ShuttingDown = Some (Exited 0)"
| "main_step TimerFires5s ShuttingDown = Some (Exited 0)"
| "main_step RunReturns Serving = Some (Exited 0)"
| "main_step RunReturns ShuttingDown = Some (Exited 0)"
| "main_step _ _ = None"

section \<open>Properties\<close>




end
