(* ===== verification/Printing.thy ===== *)
theory Printing
  imports DataProps MetricsProps
begin

text \<open>
  The debugging output: the \<^verbatim>\<open>String\<close> methods of the data manager and of what it holds
  (\<^verbatim>\<open>agent/pkg/agent/print.go\<close>) and the \<^verbatim>\<open>Str\<close> methods of the statistics (\<^verbatim>\<open>metrics.go\<close>). The verbs of
  \<^verbatim>\<open>fmt\<close> they use are \<^verbatim>\<open>%d\<close> on integers and on \<^verbatim>\<open>TriggerID\<close>, \<^verbatim>\<open>%v\<close> on slices and on values with a
  \<^verbatim>\<open>String\<close> method, and \<^verbatim>\<open>%.nf\<close> on floats, which is the formatting of the parameter \<open>fl\<close>.

  The dump follows the pointers between triggers and traces, so that it returns is a fact about the
  invariant; and it shows all that the data manager holds, each thing on a line of its own.
\<close>

section \<open>Formatting\<close>

definition newline :: char where
  "newline = CHR 0x0A"

text \<open>\<^verbatim>\<open>%v\<close> of a slice, \<^verbatim>\<open>%d\<close> of a \<^verbatim>\<open>uint64\<close> and of a \<^verbatim>\<open>TriggerID\<close>.\<close>

definition fmt_slice :: "('a \<Rightarrow> string) \<Rightarrow> 'a list \<Rightarrow> string" where
  "fmt_slice f xs = ''['' @ Join (map f xs) '' '' @ '']''"

definition fmt_u64 :: "u64 \<Rightarrow> string" where
  "fmt_u64 i = Itoa (uint i)"

definition fmt_TriggerID :: "TriggerID \<Rightarrow> string" where
  "fmt_TriggerID t = ''{'' @ Itoa (queue_id t) @ '' '' @ fmt_u64 (base_trace_id t) @ ''}''"

section \<open>Traces\<close>

definition untriggeredTrace_String :: "int list \<Rightarrow> string list \<Rightarrow> string" where
  "untriggeredTrace_String buffers breadcrumbs =
     ''untriggered bufs='' @ fmt_slice Itoa buffers @ '' bcs='' @ fmt_slice (\<lambda>s. s) breadcrumbs"

definition triggeredTrace_String :: string where
  "triggeredTrace_String = ''triggered''"

definition reportingTrace_String :: "int list \<Rightarrow> string" where
  "reportingTrace_String buffers = ''reporting bufs='' @ fmt_slice Itoa buffers"

fun state_String :: "tracestate \<Rightarrow> string" where
  "state_String (UntriggeredTrace bs cs m) = untriggeredTrace_String bs cs"
| "state_String (TriggeredTrace ts) = triggeredTrace_String"
| "state_String (ReportingTrace bs ts) = reportingTrace_String bs"

definition Trace_String :: "u64 \<Rightarrow> tracestate \<Rightarrow> string" where
  "Trace_String i s = ''trace '' @ fmt_u64 i @ '' '' @ state_String s"

section \<open>The data manager\<close>

definition untriggered_head :: "DataManager \<Rightarrow> string" where
  "untriggered_head dm = '' untriggered '' @ Itoa (ut_buffer_count (untriggered dm)) @ '' total:''"

definition UntriggeredData_String :: "DataManager \<Rightarrow> string res" where
  "UntriggeredData_String dm =
     foreach (\<lambda>i sb. bind_res (deref_trace dm i) (\<lambda>s. Inr (sb @ [newline] @ ''   '' @ Trace_String i s)))
       (lru (untriggered dm))
       (untriggered_head dm)"

definition FiredTrigger_String :: "range_orders \<Rightarrow> DataManager \<Rightarrow> FiredTrigger \<Rightarrow> string res" where
  "FiredTrigger_String ro dm f =
     foreach (\<lambda>i sb. bind_res (deref_trace dm i) (\<lambda>s. Inr (sb @ [newline] @ ''    '' @ Trace_String i s)))
       (ro_trace ro (ft_traces f))
       (''fired '' @ fmt_TriggerID (ft_id f))"

definition queue_head :: "TriggerQueue \<Rightarrow> string" where
  "queue_head q =
     ''queue '' @ Itoa (tq_id q) @ '' with '' @ Itoa (int (length (tq_fired q))) @ '' fired '' @
     Itoa (Size (tq_reporting q)) @ '' reporting, '' @ Itoa (tq_buffer_count q) @ '' buffers total:''"

definition TriggerQueue_String :: "range_orders \<Rightarrow> DataManager \<Rightarrow> TriggerQueue \<Rightarrow> string res" where
  "TriggerQueue_String ro dm q =
     foreach (\<lambda>b sb. bind_res (deref_fired dm \<lparr>queue_id = tq_id q, base_trace_id = b\<rparr>) (\<lambda>(_, f).
                     bind_res (FiredTrigger_String ro dm f) (\<lambda>s. Inr (sb @ [newline] @ ''   '' @ s))))
       (ro_trace ro (map fst (tq_fired q)))
       (queue_head q)"

definition triggered_head :: "DataManager \<Rightarrow> string" where
  "triggered_head dm =
     '' triggered '' @ Itoa (td_buffer_count (triggered dm)) @ '' buffers '' @
     Itoa (int (length (queues (triggered dm)))) @ '' queues''"

definition TriggeredData_String :: "range_orders \<Rightarrow> DataManager \<Rightarrow> string res" where
  "TriggeredData_String ro dm =
     foreach (\<lambda>k sb. bind_res (deref_queue dm k) (\<lambda>q.
                     bind_res (TriggerQueue_String ro dm q) (\<lambda>s. Inr (sb @ [newline] @ ''  '' @ s))))
       (ro_queue ro (map fst (queues (triggered dm))))
       (triggered_head dm)"

definition DataManager_String :: "range_orders \<Rightarrow> DataManager \<Rightarrow> string res" where
  "DataManager_String ro dm =
     bind_res (TriggeredData_String ro dm) (\<lambda>t.
     bind_res (UntriggeredData_String dm) (\<lambda>u.
       Inr (''DM '' @ Itoa (int (length (traces dm))) @ '' trace(s)'' @ [newline] @ t @ [newline] @ u)))"

section \<open>The priority tree\<close>

text \<open>\<^verbatim>\<open>TreeNode.str\<close>: a line for each node, indented by its depth; \<^verbatim>\<open>Str\<close> starts at the root.\<close>

fun TreeNode_str :: "nat \<Rightarrow> TreeNode \<Rightarrow> string res" where
  "TreeNode_str ind (TreeNode h l r) =
     (let line = replicate ind (CHR '' '') @ ''['' @ fmt_u64 (tn_low h) @ '', '' @ fmt_u64 (tn_high h) @ ''] '' @
            Itoa (int (length (tn_elements h))) @ '' elements ('' @ Itoa (tn_size h) @ '' total)''
      in if tn_isleaf h then Inr (line @ ''(leaf)'')
         else (case l of
                 None \<Rightarrow> Inl NilDereference
               | Some a \<Rightarrow> bind_res (TreeNode_str (Suc ind) a) (\<lambda>s.
                   case r of
                     None \<Rightarrow> Inl NilDereference
                   | Some b \<Rightarrow> bind_res (TreeNode_str (Suc ind) b) (\<lambda>t.
                       Inr (line @ '':'' @ [newline] @ s @ [newline] @ t)))))"

definition TreeNode_Str :: "TreeNode \<Rightarrow> string res" where
  "TreeNode_Str n = TreeNode_str 0 n"

section \<open>Statistics\<close>

definition QueueDiagnostics_Str :: "'f floats \<Rightarrow> 'f QueueDiagnostics \<Rightarrow> string" where
  "QueueDiagnostics_Str fl d =
     Itoa (qd_buffers d) @ '' buffers ('' @ fl_fmt fl 0 (qd_buffers_percent d) @ ''%) '' @
     Itoa (qd_pending_reports d) @ '' pending, '' @
     ''lru '' @ fl_fmt fl 0 (qd_lru_percent d) @ ''% ('' @ Itoa (qd_lru_size d) @ '')''"

definition Diagnostics_Str :: "'f floats \<Rightarrow> 'f Diagnostics \<Rightarrow> string" where
  "Diagnostics_Str fl d =
     ''Cache '' @ fl_fmt fl 0 (di_cache_percent d) @ ''% ('' @ Itoa (di_cache_size d) @ '') '' @
     ''Triggered '' @ fl_fmt fl 0 (di_triggered_percent d) @ ''% ('' @ Itoa (di_triggered_size d) @ '') '' @
     ''LRU '' @ Itoa (di_lru_size d) @ '' ''"

definition QueueStats_Str :: "'f floats \<Rightarrow> 'f QueueStats \<Rightarrow> string" where
  "QueueStats_Str fl s =
     '' '' @ fl_fmt fl 1 (qs_queue_throughput s) @ '' trigs/s '' @
     '' '' @ fl_fmt fl 1 (qs_reported_buffer_throughput_mb s) @ '' MB/s '' @
     ''('' @ fl_fmt fl 0 (qs_reported_buffer_throughput s) @ '' bufs/s, '' @ Itoa (qs_reported_buffers s) @ '' total) '' @
     fl_fmt fl 0 (qs_eviction_percent s) @ ''% loss ('' @ fl_fmt fl 1 (qs_evicted_buffer_throughput_mb s) @ '' MB/s)'' @
     (case qs_diagnostics s of None \<Rightarrow> [] | Some d \<Rightarrow> ''  ||   '' @ QueueDiagnostics_Str fl d)"

text \<open>The loop of \<^verbatim>\<open>Stats.Str\<close> over the queue ids: the statistics of the \<open>i\<close>-th queue are looked up by index.\<close>

fun queue_lines :: "'f floats \<Rightarrow> 'f QueueStats list \<Rightarrow> nat \<Rightarrow> int list \<Rightarrow> string \<Rightarrow> string res" where
  "queue_lines fl qs i [] b = Inr b"
| "queue_lines fl qs i (k # ks) b =
     (if length qs \<le> i then Inl IndexOutOfRange
      else queue_lines fl qs (Suc i) ks
             (b @ ''            '' @ Itoa k @ '' - '' @ QueueStats_Str fl (qs ! i) @ [newline]))"

definition Stats_Str :: "'f floats \<Rightarrow> 'f Stats \<Rightarrow> string res" where
  "Stats_Str fl s =
     queue_lines fl (st_queues s) 0 (st_queue_ids s)
       (''EH: '' @ Itoa (go_div (st_event_horizon s) 1000000) @ '' ms '' @
        fl_fmt fl 3 (st_buffer_throughput_mb s) @ '' MB/s '' @
        ''('' @ fl_fmt fl 0 (st_buffer_throughput s) @ '' bufs/s, '' @ Itoa (st_complete_buffers s) @ '' bufs total), '' @
        ''Avg batch '' @ fl_fmt fl 1 (st_mean_batchsize s) @ '', '' @
        ''Drops '' @ Itoa (st_dropped_triggers s) @ '','' @ Itoa (st_dropped_breadcrumbs s) @ '' '' @
        (case st_diagnostics s of None \<Rightarrow> [] | Some d \<Rightarrow> ''  ||  '' @ Diagnostics_Str fl d) @
        [newline] @
        ''  -- Triggers '' @ QueueStats_Str fl (st_queue_totals s) @ [newline])"

text \<open>What \<^verbatim>\<open>NextData\<close> prints of the statistics it has made, when \<^verbatim>\<open>print_summary\<close> is set, as it is by \<^verbatim>\<open>Init\<close>.\<close>

definition NextData_summary :: "'f floats \<Rightarrow> range_orders \<Rightarrow> bool \<Rightarrow> time \<Rightarrow> 'b Agent \<Rightarrow> string res" where
  "NextData_summary fl ro debug interval a =
     bind_res (calculateAgentStats fl ro (fl_of fl interval) debug a) (\<lambda>(stats, _). Stats_Str fl stats)"

text \<open>The rate limits of the command line; \<open>ord\<close> is the order in which \<^verbatim>\<open>range\<close> visits the map.\<close>

definition triggerRateLimitFlags_String :: "'f floats \<Rightarrow> (int list \<Rightarrow> int list) \<Rightarrow> (int \<times> 'f) list \<Rightarrow> string" where
  "triggerRateLimitFlags_String fl ord rates =
     concat (map (\<lambda>k. case map_of rates k of None \<Rightarrow> [] | Some r \<Rightarrow> Itoa k @ ''='' @ fl_fmt fl 1 r @ '' '') (ord (map fst rates)))"

section \<open>The lines of a dump\<close>

lemma Join_append: "ls \<noteq> [] \<Longrightarrow> ms \<noteq> [] \<Longrightarrow> Join (ls @ ms) sep = Join ls sep @ sep @ Join ms sep"
proof (induction ls sep rule: Join.induct)
  case (2 l sep)
  then show ?case by (cases ms) simp_all
qed simp_all

definition indent :: "string \<Rightarrow> string list \<Rightarrow> string list" where
  "indent pre ls = (pre @ hd ls) # tl ls"

lemma Join_indent: "ls \<noteq> [] \<Longrightarrow> Join (indent pre ls) sep = pre @ Join ls sep"
  by (cases "(ls, sep)" rule: Join.cases) (simp_all add: indent_def)

lemma indent_Cons [simp]: "indent pre (l # ls) = (pre @ l) # ls"
  by (simp add: indent_def)

text \<open>A loop that appends a newline and a block of lines for each key.\<close>

lemma foreach_lines:
  assumes "\<And>k sb. k \<in> set ks \<Longrightarrow> body k sb = Inr (sb @ [newline] @ Join (g k) [newline])"
    and "\<And>k. g k \<noteq> []" and "ls \<noteq> []"
  shows "foreach body ks (Join ls [newline]) = Inr (Join (ls @ concat (map g ks)) [newline])"
  using assms(1,3)
proof (induction ks arbitrary: ls)
  case (Cons k ks)
  have "body k (Join ls [newline]) = Inr (Join (ls @ g k) [newline])"
    using Cons.prems assms(2) [of k] by (simp add: Join_append)
  then show ?case using Cons.IH [of "ls @ g k"] Cons.prems by simp
qed simp

definition trace_line :: "string \<Rightarrow> DataManager \<Rightarrow> u64 \<Rightarrow> string" where
  "trace_line pre dm i = pre @ Trace_String i (the (trace_of dm i))"

lemma foreach_traces:
  assumes "\<forall>i\<in>set is. trace_of dm i \<noteq> None"
  shows "foreach (\<lambda>i sb. bind_res (deref_trace dm i) (\<lambda>s. Inr (sb @ [newline] @ pre @ Trace_String i s))) is l =
     Inr (Join (l # map (trace_line pre dm) is) [newline])"
proof -
  have "bind_res (deref_trace dm i) (\<lambda>s. Inr (sb @ [newline] @ pre @ Trace_String i s)) =
      Inr (sb @ [newline] @ Join [trace_line pre dm i] [newline])" if "i \<in> set is" for i sb
    using assms that by (auto simp: trace_line_def)
  then show ?thesis
    using foreach_lines [of "is" "\<lambda>i sb. bind_res (deref_trace dm i) (\<lambda>s. Inr (sb @ [newline] @ pre @ Trace_String i s))"
        "\<lambda>i. [trace_line pre dm i]" "[l]"] by simp
qed

definition fired_lines :: "range_orders \<Rightarrow> DataManager \<Rightarrow> TriggerID \<Rightarrow> string list" where
  "fired_lines ro dm t =
     (''fired '' @ fmt_TriggerID t) # map (trace_line ''    '' dm) (ro_trace ro (ft_traces (the (fired_of dm t))))"

definition queue_dump :: "range_orders \<Rightarrow> DataManager \<Rightarrow> int \<Rightarrow> string list" where
  "queue_dump ro dm k =
     (let q = the (queue_of dm k) in
      queue_head q # concat (map (\<lambda>b. indent ''   '' (fired_lines ro dm (tid k b))) (ro_trace ro (map fst (tq_fired q)))))"

definition queues_dump :: "range_orders \<Rightarrow> DataManager \<Rightarrow> string list" where
  "queues_dump ro dm = concat (map (\<lambda>k. indent ''  '' (queue_dump ro dm k)) (ro_queue ro (map fst (queues (triggered dm)))))"

lemma dump_not_Nil [simp]: "fired_lines ro dm t \<noteq> []" "queue_dump ro dm k \<noteq> []" "indent pre ls \<noteq> []"
  by (simp_all add: fired_lines_def queue_dump_def Let_def indent_def)

lemma FiredTrigger_String_ok:
  assumes "dm_inv dm" and "orders_ok ro" and "fired_of dm t = Some f"
  shows "FiredTrigger_String ro dm f = Inr (Join (fired_lines ro dm t) [newline])"
proof -
  have c: "core {} (trace_of dm) (fired_of dm)" using assms(1) by (simp add: dm_inv_def dm_ok_def)
  have "\<forall>i\<in>set (ro_trace ro (ft_traces f)). trace_of dm i \<noteq> None"
    using core_unlinked [OF c assms(3)] assms(2) by (auto simp: orders_ok_def key_order_set flinks_def)
  then show ?thesis
    using foreach_traces [of "ro_trace ro (ft_traces f)" dm "''    ''"] coreD(3) [OF c assms(3)] assms(3)
    by (simp add: FiredTrigger_String_def fired_lines_def fired_ok_def)
qed

lemma TriggerQueue_String_ok:
  assumes "dm_inv dm" and "orders_ok ro" and "queue_of dm k = Some q"
  shows "TriggerQueue_String ro dm q = Inr (Join (queue_dump ro dm k) [newline])"
proof -
  let ?body = "\<lambda>b sb. bind_res (deref_fired dm (tid (tq_id q) b)) (\<lambda>(_, f).
       bind_res (FiredTrigger_String ro dm f) (\<lambda>s. Inr (sb @ [newline] @ ''   '' @ s)))"
  have k: "tq_id q = k" using assms(1,3) by (auto simp: dm_inv_def dm_ok_def sched_ok_def dest: queues_okD)
  have "?body b sb = Inr (sb @ [newline] @ Join (indent ''   '' (fired_lines ro dm (tid k b))) [newline])"
    if "b \<in> set (ro_trace ro (map fst (tq_fired q)))" for b sb
  proof -
    have "b \<in> dom (map_of (tq_fired q))" using that assms(2) by (simp add: orders_ok_def key_order_set dom_map_of_conv_image_fst)
    then obtain f where f: "map_of (tq_fired q) b = Some f" by blast
    then have "fired_of dm (tid k b) = Some f" using assms(3) by (simp add: fired_of_def)
    then show ?thesis using FiredTrigger_String_ok [OF assms(1,2)] f assms(3) k
      by (simp add: deref_fired_def Join_indent)
  qed
  then show ?thesis
    using foreach_lines [of "ro_trace ro (map fst (tq_fired q))" ?body "\<lambda>b. indent ''   '' (fired_lines ro dm (tid k b))" "[queue_head q]"]
      assms(3) by (simp add: TriggerQueue_String_def queue_dump_def)
qed

lemma TriggeredData_String_ok:
  assumes "dm_inv dm" and "orders_ok ro"
  shows "TriggeredData_String ro dm = Inr (Join (triggered_head dm # queues_dump ro dm) [newline])"
proof -
  let ?ks = "ro_queue ro (map fst (queues (triggered dm)))"
  let ?body = "\<lambda>k sb. bind_res (deref_queue dm k) (\<lambda>q. bind_res (TriggerQueue_String ro dm q) (\<lambda>s. Inr (sb @ [newline] @ ''  '' @ s)))"
  have "?body k sb = Inr (sb @ [newline] @ Join (indent ''  '' (queue_dump ro dm k)) [newline])" if "k \<in> set ?ks" for k sb
  proof -
    have "k \<in> dom (queue_of dm)" using that assms(2) by (simp add: orders_ok_def key_order_set queue_of_def dom_map_of_conv_image_fst)
    then obtain q where "queue_of dm k = Some q" by blast
    then show ?thesis using TriggerQueue_String_ok [OF assms] by (simp add: Join_indent)
  qed
  then show ?thesis
    using foreach_lines [of ?ks ?body "\<lambda>k. indent ''  '' (queue_dump ro dm k)" "[triggered_head dm]"]
    by (simp add: TriggeredData_String_def queues_dump_def)
qed

lemma DataManager_String_ok:
  assumes "dm_inv dm" and "orders_ok ro"
  shows "DataManager_String ro dm = Inr (Join ([''DM '' @ Itoa (int (length (traces dm))) @ '' trace(s)'', triggered_head dm] @
     queues_dump ro dm @ [untriggered_head dm] @ map (trace_line ''   '' dm) (lru (untriggered dm))) [newline])"
proof -
  have "\<forall>i\<in>set (lru (untriggered dm)). trace_of dm i \<noteq> None"
    using assms(1) by (auto simp: dm_inv_def dm_ok_def lru_ok_def)
  from foreach_traces [OF this, of "''   ''"] show ?thesis
    using TriggeredData_String_ok [OF assms] Join_append [of "triggered_head dm # queues_dump ro dm"
        "untriggered_head dm # map (trace_line ''   '' dm) (lru (untriggered dm))" "[newline]"]
    by (simp add: DataManager_String_def UntriggeredData_String_def)
qed

lemma trace_line_image:
  "trace_line pre dm ` {i. \<exists>s. trace_of dm i = Some s \<and> P s} = {pre @ Trace_String i s |i s. trace_of dm i = Some s \<and> P s}"
  by (auto simp: trace_line_def image_iff; metis option.sel)

lemma set_fired_traces:
  assumes "dm_inv dm" and "orders_ok ro" and "fired_of dm t = Some f"
  shows "set (tl (fired_lines ro dm t)) = {''    '' @ Trace_String i s |i s. trace_of dm i = Some s \<and> t \<in> trigs s}"
proof -
  have c: "core {} (trace_of dm) (fired_of dm)" using assms(1) by (simp add: dm_inv_def dm_ok_def)
  have "set (ft_traces f) = {i. \<exists>s. trace_of dm i = Some s \<and> t \<in> trigs s}"
    using coreD(2) [OF c, of t] assms(3) by (simp add: linked_def incl_def flinks_def set_eq_iff)
  then show ?thesis using assms(2,3) trace_line_image [of "''    ''" dm "\<lambda>s. t \<in> trigs s"]
    by (simp add: fired_lines_def orders_ok_def key_order_set)
qed

lemma UN_insert_image: "(\<Union>x\<in>X. insert (h x) (L x)) = h ` X \<union> (\<Union>x\<in>X. L x)"
  by blast

lemma UN_lines: "(\<Union>x\<in>X. {h i s |i s. T i = Some s \<and> P x s}) = {h i s |i s. T i = Some s \<and> (\<exists>x\<in>X. P x s)}"
  by blast

lemma lines_cong: "(\<And>i s. T i = Some s \<Longrightarrow> P s = Q s) \<Longrightarrow> {h i s |i s. T i = Some s \<and> P s} = {h i s |i s. T i = Some s \<and> Q s}"
  by blast

lemma set_queue_dump:
  assumes "dm_inv dm" and "orders_ok ro" and "queue_of dm k = Some q"
  shows "set (indent ''  '' (queue_dump ro dm k)) = insert (''  '' @ queue_head q)
     ((\<lambda>t. ''   fired '' @ fmt_TriggerID t) ` {t \<in> dom (fired_of dm). queue_id t = k} \<union>
      {''    '' @ Trace_String i s |i s. trace_of dm i = Some s \<and> (\<exists>t\<in>trigs s. queue_id t = k)})"
proof -
  let ?B = "dom (map_of (tq_fired q))" and ?L = "\<lambda>t. {''    '' @ Trace_String i s |i s. trace_of dm i = Some s \<and> t \<in> trigs s}"
  have c: "core {} (trace_of dm) (fired_of dm)" using assms(1) by (simp add: dm_inv_def dm_ok_def)
  have B: "set (ro_trace ro (map fst (tq_fired q))) = ?B"
    using assms(2) by (simp add: orders_ok_def key_order_set dom_map_of_conv_image_fst)
  have T: "{t \<in> dom (fired_of dm). queue_id t = k} = tid k ` ?B"
    using assms(3) by (auto simp: fired_of_def image_iff tid_eq_iff intro!: bexI split: option.splits)
  have f: "set (indent ''   '' (fired_lines ro dm (tid k b))) = insert (''   fired '' @ fmt_TriggerID (tid k b)) (?L (tid k b))"
    if b: "b \<in> ?B" for b
  proof -
    obtain f where f: "fired_of dm (tid k b) = Some f" using b assms(3) by (auto simp: fired_of_def)
    from set_fired_traces [OF assms(1,2) f] show ?thesis by (simp add: fired_lines_def)
  qed
  have "(\<Union>b\<in>?B. ?L (tid k b)) = {''    '' @ Trace_String i s |i s. trace_of dm i = Some s \<and> (\<exists>t\<in>trigs s. queue_id t = k)}"
    unfolding UN_lines
  proof (rule lines_cong)
    fix i s assume s: "trace_of dm i = Some s"
    have "(\<exists>b\<in>?B. tid k b \<in> trigs s) \<longleftrightarrow> (\<exists>t\<in>tid k ` ?B. t \<in> trigs s)" by blast
    then show "(\<exists>b\<in>?B. tid k b \<in> trigs s) \<longleftrightarrow> (\<exists>t\<in>trigs s. queue_id t = k)"
      unfolding T [symmetric] using core_trigs_dom [OF c s] by blast
  qed
  then show ?thesis
    using assms(3) B f by (simp add: queue_dump_def T image_image UN_insert_image)
qed

lemma UN_dom_insert:
  "(\<Union>k\<in>dom m. insert (h (the (m k))) (F k \<union> L k)) = h ` ran m \<union> (\<Union>k\<in>dom m. F k) \<union> (\<Union>k\<in>dom m. L k)"
proof -
  have "(\<Union>k\<in>dom m. insert (h (the (m k))) (F k \<union> L k)) = (\<lambda>k. h (the (m k))) ` dom m \<union> (\<Union>k\<in>dom m. F k) \<union> (\<Union>k\<in>dom m. L k)"
    by blast
  also have "(\<lambda>k. h (the (m k))) ` dom m = h ` ran m" by (force simp: ran_def)
  finally show ?thesis .
qed

lemma UN_classes: "g ` D \<subseteq> K \<Longrightarrow> (\<Union>k\<in>K. f ` {t \<in> D. g t = k}) = f ` D"
  by auto

lemma set_queues_dump:
  assumes "dm_inv dm" and "orders_ok ro"
  shows "set (queues_dump ro dm) = (\<lambda>q. ''  '' @ queue_head q) ` ran (queue_of dm) \<union>
     (\<lambda>t. ''   fired '' @ fmt_TriggerID t) ` dom (fired_of dm) \<union>
     {''    '' @ Trace_String i s |i s. trace_of dm i = Some s \<and> \<not> is_untriggered s}"
proof -
  have c: "core {} (trace_of dm) (fired_of dm)" using assms(1) by (simp add: dm_inv_def dm_ok_def)
  let ?F = "\<lambda>k. (\<lambda>t. ''   fired '' @ fmt_TriggerID t) ` {t \<in> dom (fired_of dm). queue_id t = k}"
  let ?L = "\<lambda>k. {''    '' @ Trace_String i s |i s. trace_of dm i = Some s \<and> (\<exists>t\<in>trigs s. queue_id t = k)}"
  have "set (queues_dump ro dm) = (\<Union>k\<in>dom (queue_of dm). set (indent ''  '' (queue_dump ro dm k)))"
    using assms(2) by (simp add: queues_dump_def orders_ok_def key_order_set queue_of_def dom_map_of_conv_image_fst)
  also have "\<dots> = (\<Union>k\<in>dom (queue_of dm). insert (''  '' @ queue_head (the (queue_of dm k))) (?F k \<union> ?L k))"
  proof (intro SUP_cong refl)
    fix k assume "k \<in> dom (queue_of dm)"
    then obtain q where "queue_of dm k = Some q" by blast
    from set_queue_dump [OF assms this] this show "set (indent ''  '' (queue_dump ro dm k)) =
        insert (''  '' @ queue_head (the (queue_of dm k))) (?F k \<union> ?L k)" by (simp only: option.sel)
  qed
  also have "\<dots> = (\<lambda>q. ''  '' @ queue_head q) ` ran (queue_of dm) \<union> (\<Union>k\<in>dom (queue_of dm). ?F k) \<union> (\<Union>k\<in>dom (queue_of dm). ?L k)"
    by (rule UN_dom_insert)
  also have "(\<Union>k\<in>dom (queue_of dm). ?F k) = (\<lambda>t. ''   fired '' @ fmt_TriggerID t) ` dom (fired_of dm)"
    by (rule UN_classes) (auto simp: fired_of_def split: option.splits)
  also have "(\<Union>k\<in>dom (queue_of dm). ?L k) = {''    '' @ Trace_String i s |i s. trace_of dm i = Some s \<and> \<not> is_untriggered s}"
    unfolding UN_lines
  proof (rule lines_cong)
    fix i s assume s: "trace_of dm i = Some s"
    have "t \<in> trigs s \<Longrightarrow> queue_id t \<in> dom (queue_of dm)" for t
      using core_trigs_dom [OF c s] by (auto simp: fired_of_def split: option.splits)
    moreover have "trigs s = {} \<longleftrightarrow> is_untriggered s" using coreD(1) [OF c s] by (cases s) auto
    ultimately show "(\<exists>k\<in>dom (queue_of dm). \<exists>t\<in>trigs s. queue_id t = k) \<longleftrightarrow> \<not> is_untriggered s" by blast
  qed
  finally show ?thesis .
qed

section \<open>Properties\<close>

text \<open>
  The dump of a data manager returns and shows all of it: a line for each section with its
  counters; in the section of the triggers a line for each queue, each fired trigger and each triggered
  trace, and no others; in the section of the untriggered traces a line for each, in the order of the
  LRU list.
\<close>

theorem dump_shows_everything:
  assumes "dm_inv dm" and "orders_ok ro"
  shows "\<exists>mid. DataManager_String ro dm =
      Inr (Join ([''DM '' @ Itoa (int (length (traces dm))) @ '' trace(s)'', triggered_head dm] @ mid @ [untriggered_head dm] @
        map (\<lambda>i. ''   '' @ Trace_String i (the (trace_of dm i))) (lru (untriggered dm))) [newline]) \<and>
    set mid = (\<lambda>q. ''  '' @ queue_head q) ` ran (queue_of dm) \<union>
      (\<lambda>t. ''   fired '' @ fmt_TriggerID t) ` dom (fired_of dm) \<union>
      {''    '' @ Trace_String i s |i s. trace_of dm i = Some s \<and> \<not> is_untriggered s}"
proof -
  have e: "trace_line ''   '' dm = (\<lambda>i. ''   '' @ Trace_String i (the (trace_of dm i)))" by (simp add: fun_eq_iff trace_line_def)
  show ?thesis
    by (intro exI [of _ "queues_dump ro dm"] conjI DataManager_String_ok [OF assms, unfolded e] set_queues_dump [OF assms])
qed

theorem dump_shows_everything_witness:
  "\<exists>mid. DataManager_String ex_orders ex_store =
      Inr (Join ([''DM 2 trace(s)'', '' triggered 2 buffers 1 queues''] @ mid @ ['' untriggered 1 total:'',
        ''   trace 6 untriggered bufs=[3] bcs=[]'']) [newline]) \<and>
    ''    trace 5 reporting bufs=[1 2]'' \<in> set mid \<and> ''   fired {1 5}'' \<in> set mid"
proof -
  have h: "''DM '' @ Itoa (int (length (traces ex_store))) @ '' trace(s)'' = ''DM 2 trace(s)''"
      "triggered_head ex_store = '' triggered 2 buffers 1 queues''" "untriggered_head ex_store = '' untriggered 1 total:''"
      "map (\<lambda>i. ''   '' @ Trace_String i (the (trace_of ex_store i))) (lru (untriggered ex_store)) =
        [''   trace 6 untriggered bufs=[3] bcs=[]'']"
      "''    '' @ Trace_String 5 (ReportingTrace [1, 2] [tid 1 5]) = ''    trace 5 reporting bufs=[1 2]''"
      "''   fired '' @ fmt_TriggerID (tid 1 5) = ''   fired {1 5}''"
    by code_simp+
  have "(''    '' @ Trace_String 5 (ReportingTrace [1, 2] [tid 1 5])) \<in>
      {''    '' @ Trace_String i s |i s. trace_of ex_store i = Some s \<and> \<not> is_untriggered s}"
    using ex_store_eval(4) is_untriggered.simps(3) by blast
  moreover have "tid 1 5 \<in> dom (fired_of ex_store)" using ex_store_eval(5) by blast
  moreover obtain mid where m: "DataManager_String ex_orders ex_store =
      Inr (Join ([''DM 2 trace(s)'', '' triggered 2 buffers 1 queues''] @ mid @ ['' untriggered 1 total:''] @
        [''   trace 6 untriggered bufs=[3] bcs=[]'']) [newline])"
      "set mid = (\<lambda>q. ''  '' @ queue_head q) ` ran (queue_of ex_store) \<union>
        (\<lambda>t. ''   fired '' @ fmt_TriggerID t) ` dom (fired_of ex_store) \<union>
        {''    '' @ Trace_String i s |i s. trace_of ex_store i = Some s \<and> \<not> is_untriggered s}"
    using dump_shows_everything [OF ex_store_inv ex_orders_ok, unfolded h(1-4)] by blast
  ultimately have "''    trace 5 reporting bufs=[1 2]'' \<in> set mid" "''   fired {1 5}'' \<in> set mid"
    unfolding m(2) h(5,6) [symmetric] by blast+
  with m(1) show ?thesis by (intro exI [of _ mid] conjI) simp_all
qed

text \<open>
  The summary of the statistics: the statistics of a queue are looked up in bounds, and there is a line
  for the agent, one for the totals and one for each queue.
\<close>

lemma queue_lines_ok:
  "i + length ks \<le> length qs \<Longrightarrow> queue_lines fl qs i ks b = Inr (b @ concat (map (\<lambda>(k, s).
     ''            '' @ Itoa k @ '' - '' @ QueueStats_Str fl s @ [newline]) (zip ks (drop i qs))))"
proof (induction ks arbitrary: i b)
  case (Cons k ks)
  then have "drop i qs = qs ! i # drop (Suc i) qs" by (simp add: Cons_nth_drop_Suc)
  then show ?case using Cons by simp
qed simp

lemma NextData_summary_returns:
  assumes "ag_ok a" and "orders_ok ro"
  shows "yields (NextData_summary fl ro debug interval a) (\<lambda>out. \<exists>qs head.
     length qs = card (dom (mq_of (ag_tm a))) \<and>
     out = head @ concat (map (\<lambda>(k, s). ''            '' @ Itoa k @ '' - '' @ QueueStats_Str fl s @ [newline])
       (zip (sorted_list_of_set (dom (mq_of (ag_tm a)))) qs)))"
proof -
  obtain st a' where st: "calculateAgentStats fl ro (fl_of fl interval) debug a = Inr (st, a')"
      "st_queue_ids st = sorted_list_of_set (dom (mq_of (ag_tm a)))" "length (st_queue_ids st) = length (st_queues st)"
    using calculateAgentStats_ok [OF assms, of fl "fl_of fl interval" debug]
    by (elim yieldsE) (auto dest: list_all2_lengthD)
  then show ?thesis
    using queue_lines_ok [of 0 "st_queue_ids st" "st_queues st"]
    by (auto simp: NextData_summary_def Stats_Str_def intro!: exI [of _ "st_queues st"])
qed

text \<open>The printing of a reporting tree meets no nil child and gives a line for each node.\<close>

lemma TreeNode_str_ok:
  "ppt_ok lo hi n \<Longrightarrow> yields (TreeNode_str ind n) (\<lambda>s. \<exists>ls. s = Join ls [newline] \<and> length ls = nodes n)"
proof (induction lo hi n arbitrary: ind rule: ppt_ok.induct)
  case (1 lo hi h l r)
  define line where "line = replicate ind (CHR '' '') @ ''['' @ fmt_u64 (tn_low h) @ '', '' @ fmt_u64 (tn_high h) @ ''] '' @
    Itoa (int (length (tn_elements h))) @ '' elements ('' @ Itoa (tn_size h) @ '' total)''"
  show ?case
  proof (cases l)
    case None
    then show ?thesis using 1(3) by (auto simp: Let_def intro!: exI [of _ "[line @ ''(leaf)'']"]) (simp_all add: line_def)
  next
    case (Some a)
    then obtain b where b: "r = Some b" using 1(3) by (auto split: option.splits)
    have ok: "ppt_ok lo (mid_of lo hi - 1) a" "ppt_ok (mid_of lo hi) hi b" using 1(3) Some b by simp_all
    obtain s ls where s: "TreeNode_str (Suc ind) a = Inr s" "s = Join ls [newline]" "length ls = nodes a"
      using 1(1) [OF Some b ok(1), of "Suc ind"] by (elim yieldsE) auto
    obtain t ms where t: "TreeNode_str (Suc ind) b = Inr t" "t = Join ms [newline]" "length ms = nodes b"
      using 1(2) [OF Some b ok(2), of "Suc ind"] by (elim yieldsE) auto
    have "ls \<noteq> []" "ms \<noteq> []" using s(3) t(3) by (cases a; cases b; auto)+
    then have "Join ((line @ '':'') # ls @ ms) [newline] = line @ '':'' @ [newline] @ s @ [newline] @ t"
      using s(2) t(2) Join_append [of "[line @ '':'']" "ls @ ms" "[newline]"] Join_append [of ls ms "[newline]"] by simp
    then show ?thesis using 1(3) Some b s(1,3) t(1,3)
      by (auto simp: Let_def line_def intro!: exI [of _ "(line @ '':'') # ls @ ms"])
  qed
qed

end
