(* ===== verification/Drains.thy ===== *)
theory Drains
  imports Complex_Main ShmApi
begin

text \<open>
  The programs of \<^verbatim>\<open>agent/cmd/jon\<close>, which measure the throughput of the shared queues: \<^verbatim>\<open>jon.go\<close> and
  \<^verbatim>\<open>jon2.go\<close> take completed buffers and give them back, through the C interface and through \<^verbatim>\<open>AgentAPI\<close>,
  \<^verbatim>\<open>jon3.go\<close> does so over the channels of \<^verbatim>\<open>GoAgentAPI\<close>, and \<^verbatim>\<open>jon4.go\<close> prints breadcrumbs. Each is an
  endless loop; a definition below is one turn of it.
\<close>

section \<open>Throughput\<close>

record meter =
  mt_last_print :: int
  mt_count :: int
  mt_sum :: int

text \<open>
  What a turn prints first, at most once a second: the throughput, an integer division of 64-bit
  numbers, and the mean size of a batch, \<open>None\<close> for a division by zero.
\<close>

definition meter_print :: "int \<Rightarrow> meter \<Rightarrow> (int \<times> rat option) list \<times> meter" where
  "meter_print t m =
     (if 1000000000 < t - mt_last_print m
      then ([(go_div (sint (word_of_int (mt_sum m * 1000000000) :: 64 word)) (t - mt_last_print m),
              if mt_count m = 0 then None else Some (of_int (mt_sum m) / of_int (mt_count m)))],
            \<lparr>mt_last_print = t, mt_count = 0, mt_sum = 0\<rparr>)
      else ([], m))"

definition meter_add :: "nat \<Rightarrow> meter \<Rightarrow> meter" where
  "meter_add n m = m\<lparr>mt_count := mt_count m + 1, mt_sum := mt_sum m + int n\<rparr>"

section \<open>Polling\<close>

text \<open>
  The inner loop of \<^verbatim>\<open>jon.go\<close> and \<^verbatim>\<open>jon2.go\<close>: the list holds what the queue contains at each poll. The
  loop sleeps after each empty poll and ends with the first batch; \<open>None\<close>: it has not ended yet.
\<close>

fun await_complete :: "int \<Rightarrow> (u64 \<times> int) list list \<Rightarrow> (int list \<times> (u64 \<times> int) list) option" where
  "await_complete backoff [] = None"
| "await_complete backoff (q # polls) =
     (let buffers = fst (GetComplete q)
      in if 0 < length buffers then Some ([], buffers)
         else map_option (\<lambda>(sleeps, bs). (backoff # sleeps, bs)) (await_complete (min (backoff * 2) 100000) polls))"

section \<open>Turns\<close>

text \<open>
  \<^verbatim>\<open>jon.go\<close> fills an array of zeros, from the index 1 on, and puts its first \<^verbatim>\<open>cb.count\<close> elements back.
\<close>

definition copy_ids :: "int list \<Rightarrow> int list" where
  "copy_ids ids = fold (\<lambda>i ab. ab[i := ids ! i]) [1..<length ids] (replicate (length ids) 0)"

definition jon_turn ::
  "int \<Rightarrow> (u64 \<times> int) list list \<Rightarrow> meter \<Rightarrow> ((int \<times> rat option) list \<times> int list \<times> meter) option" where
  "jon_turn t polls m =
     (let (out, m1) = meter_print t m
      in map_option (\<lambda>(sleeps, buffers). (out, copy_ids (map snd buffers), meter_add (length buffers) m1))
           (await_complete 10 polls))"

definition jon2_turn ::
  "int \<Rightarrow> (u64 \<times> int) list list \<Rightarrow> meter \<Rightarrow> ((int \<times> rat option) list \<times> int list list \<times> meter) option" where
  "jon2_turn t polls m =
     (let (out, m1) = meter_print t m
      in map_option (\<lambda>(sleeps, buffers). (out, PutAvailable (map snd buffers), meter_add (length buffers) m1))
           (await_complete 10 polls))"

text \<open>\<^verbatim>\<open>jon3.go\<close> waits for a batch; \<open>ord\<close> is the order in which \<^verbatim>\<open>range\<close> visits it. A send into a full channel would wait.\<close>

definition jon3_turn ::
  "((u64 \<times> int list) list \<Rightarrow> (u64 \<times> int list) list) \<Rightarrow> int \<Rightarrow> GoAgentAPI \<times> meter
     \<Rightarrow> ((int \<times> rat option) list \<times> GoAgentAPI \<times> meter) option" where
  "jon3_turn ord t = (\<lambda>(api, m).
     let (out, m1) = meter_print t m
     in case api_Complete api of
          [] \<Rightarrow> None
        | batch # ch \<Rightarrow>
            Some (out, api\<lparr>api_Complete := ch, api_Available := api_Available api @ map snd (ord batch)\<rparr>,
                  meter_add (length (concat (map snd (ord batch)))) m1))"

text \<open>\<^verbatim>\<open>jon4.go\<close> prints the breadcrumbs of a batch, each with its trace.\<close>

definition jon4_turn ::
  "(crumb_map \<Rightarrow> crumb_map) \<Rightarrow> int \<Rightarrow> GoAgentAPI \<times> meter
     \<Rightarrow> ((int \<times> rat option) list \<times> (u64 \<times> string) list \<times> GoAgentAPI \<times> meter) option" where
  "jon4_turn ord t = (\<lambda>(api, m).
     let (out, m1) = meter_print t m
     in case api_Breadcrumbs api of
          [] \<Rightarrow> None
        | batch # ch \<Rightarrow>
            let printed = concat (map (\<lambda>(i, bs). map (\<lambda>b. (i, b)) bs) (ord batch))
            in Some (out, printed, api\<lparr>api_Breadcrumbs := ch\<rparr>, meter_add (length printed) m1))"

section \<open>What comes back\<close>

lemma await_complete_ok:
  "0 \<le> b \<Longrightarrow> b \<le> 100000 \<Longrightarrow> await_complete b polls = Some (sleeps, bs) \<Longrightarrow>
     (\<forall>s\<in>set sleeps. 0 \<le> s \<and> s \<le> 100000) \<and>
     (\<exists>n. n < length polls \<and> length sleeps = n \<and> (\<forall>i<n. polls ! i = []) \<and> bs = fst (GetComplete (polls ! n)) \<and> bs \<noteq> [])"
proof (induction b polls arbitrary: sleeps rule: await_complete.induct)
  case (2 b q polls)
  show ?case
  proof (cases "fst (GetComplete q) = []")
    case True
    then obtain rest where r: "await_complete (min (b * 2) 100000) polls = Some (rest, bs)" "sleeps = b # rest"
      using 2(4) by (auto simp: Let_def)
    have "q = []" using True by (simp add: GetComplete_def BATCHSIZE_def)
    have "\<not> 0 < length (fst (GetComplete q))" "0 \<le> min (b * 2) 100000" "min (b * 2) 100000 \<le> (100000 :: int)" using True 2(2) by simp_all
    from 2(1) [OF refl this r(1)] obtain n where "n < length polls" "length rest = n" "\<forall>i<n. polls ! i = []"
        "bs = fst (GetComplete (polls ! n))" "bs \<noteq> []" and s: "\<forall>s\<in>set rest. 0 \<le> s \<and> s \<le> 100000"
      by blast
    moreover from this have "\<forall>i<Suc n. (q # polls) ! i = []" using \<open>q = []\<close> by (simp add: nth_Cons split: nat.splits)
    ultimately show ?thesis using r(2) 2(2,3) by (intro conjI exI [of _ "Suc n"]) auto
  next
    case False
    then show ?thesis using 2(4) by (auto simp: Let_def)
  qed
qed simp

lemma copy_ids_eq: "copy_ids ids = (if ids = [] then [] else 0 # tl ids)"
proof -
  have "length (fold (\<lambda>i ab. ab[i := ids ! i]) [1..<n] xs) = length xs \<and>
      (\<forall>j<length xs. fold (\<lambda>i ab. ab[i := ids ! i]) [1..<n] xs ! j = (if 1 \<le> j \<and> j < n then ids ! j else xs ! j))" for n xs
    by (induction n) (auto simp: nth_list_update less_Suc_eq)
  from this [of "length ids" "replicate (length ids) 0"]
  have c: "length (copy_ids ids) = length ids" "\<And>j. j < length ids \<Longrightarrow> copy_ids ids ! j = (if 1 \<le> j then ids ! j else 0)"
    by (simp_all add: copy_ids_def)
  show ?thesis
  proof (cases ids)
    case (Cons b bs)
    show ?thesis by (rule nth_equalityI) (use c Cons in \<open>auto simp: nth_Cons'\<close>)
  qed (use c(1) in simp)
qed

text \<open>
  \<^verbatim>\<open>jon2.go\<close> and \<^verbatim>\<open>jon3.go\<close> give back exactly the buffers they took; \<^verbatim>\<open>jon.go\<close> gives back the buffer 0 in the
  place of the first of every batch, so that this one is lost unless it is 0, and 0 is handed out twice.
\<close>

lemma drains_give_back:
  assumes "jon2_turn t polls m = Some (out2, back2, m2)" and "jon_turn t polls m = Some (out, back, m1)"
    and "\<forall>q\<in>set polls. \<forall>b\<in>snd ` set q. is_int32 b"
    and "jon3_turn ord t (api, m) = Some (out3, api', m3)" and "key_order ord"
  shows "\<exists>n buffers. n < length polls \<and> (\<forall>i<n. polls ! i = []) \<and> buffers = map snd (fst (GetComplete (polls ! n))) \<and> buffers \<noteq> [] \<and>
      concat back2 = buffers \<and> back = 0 # tl buffers \<and>
      mset (concat (api_Available api')) = mset (concat (api_Available api)) + mset (concat (map snd (hd (api_Complete api))))"
proof -
  obtain sleeps bs where a: "await_complete 10 polls = Some (sleeps, bs)" "back2 = PutAvailable (map snd bs)" "back = copy_ids (map snd bs)"
    using assms(1,2) by (auto simp: jon_turn_def jon2_turn_def split: prod.splits)
  obtain n where n: "n < length polls" "\<forall>i<n. polls ! i = []" "bs = fst (GetComplete (polls ! n))" "bs \<noteq> []"
    using await_complete_ok [OF _ _ a(1)] by auto
  have "set bs \<subseteq> set (polls ! n)" using n(3) by (auto simp: GetComplete_def dest: in_set_takeD)
  then have "\<forall>b\<in>set (map snd bs). is_int32 b" using assms(3) nth_mem [OF n(1)] by fastforce
  then have "concat back2 = map snd bs" using a(2) PutAvailable_ok(1) [of "map snd bs"] by (simp add: map_idI c_int_id)
  moreover have "mset (concat (map snd (ord batch))) = mset (concat (map snd batch))" for batch :: "(u64 \<times> int list) list"
    using assms(5) by (simp add: mset_concat key_order_def flip: sum_mset_sum_list)
  ultimately show ?thesis using n a(3) assms(4) by (auto simp: copy_ids_eq jon3_turn_def split: prod.splits list.splits)
qed

end
