(* ===== verification/Spec2Isabelle.thy ===== *)
theory Spec2Isabelle
  imports World CollectorRun TelemetryProps CoordLog Config Lifecycle Printing Drains
begin

text \<open>
  A model of the Go programs of Hindsight, a tracing system with retroactive sampling
  (\<^verbatim>\<open>src/agent\<close>), and what makes them correct.

  \<^bold>\<open>The program.\<close> Applications write trace data into buffers of a shared memory. An \<^emph>\<open>agent\<close> on each
  machine takes the completed buffers, indexes them by trace and throws the oldest away, unless a
  \<^emph>\<open>trigger\<close> fires for their trace: then it sends them to the \<^emph>\<open>collector\<close>. Traces cross machines:
  applications leave \<^emph>\<open>breadcrumbs\<close>, addresses of other agents that hold data of the same trace. Agents
  send triggers and breadcrumbs to the \<^emph>\<open>coordinator\<close>, which tells every agent that holds data of a
  triggered trace. The agent polls the shared memory and runs one processing loop with a connection to
  the coordinator and one to the collector; the coordinator runs RPC handlers that feed one main
  goroutine, and one connection to each agent; the collector runs a goroutine for each connection.

  \<^bold>\<open>Theories and sources\<close> (paths under \<^verbatim>\<open>src/agent\<close>).
  \<^item> \<^verbatim>\<open>Prelude\<close>: types, Go's run-time failures (\<open>go_error\<close>, \<open>res\<close>, \<open>yields\<close>), maps, LRU lists and loops;
    \<^verbatim>\<open>GoStrings\<close>: \<^verbatim>\<open>strings\<close> and \<^verbatim>\<open>strconv\<close>.
  \<^item> \<^verbatim>\<open>PriorityTree\<close>: \<^verbatim>\<open>pkg/util/partialprioritytree.go\<close>, with the contract \<open>unique_priority_queue\<close> as a locale.
  \<^item> \<^verbatim>\<open>DataManager\<close>: \<^verbatim>\<open>trace.go\<close>, \<^verbatim>\<open>firedtrigger.go\<close>, \<^verbatim>\<open>triggerqueue.go\<close>, \<^verbatim>\<open>datamanager.go\<close> of \<^verbatim>\<open>pkg/agent\<close>: the
    state machines of traces and triggers, the queues and all operations. \<^verbatim>\<open>DataInv\<close>, \<^verbatim>\<open>DataOps\<close>,
    \<^verbatim>\<open>DataTriggers\<close>, \<^verbatim>\<open>DataEvict\<close>, \<^verbatim>\<open>DataQueues\<close>, \<^verbatim>\<open>DataLimits\<close> hold the invariant \<open>dm_inv\<close> and, for each operation,
    that it returns, keeps the invariant and accounts for every buffer; \<^verbatim>\<open>DataProps\<close> the properties.
  \<^item> \<^verbatim>\<open>TriggerManager\<close>: \<^verbatim>\<open>triggermanager.go\<close>; \<^verbatim>\<open>AgentLoop\<close>: \<^verbatim>\<open>agent.go\<close>; \<^verbatim>\<open>AgentProps\<close>: their properties.
  \<^item> \<^verbatim>\<open>Metrics\<close>, \<^verbatim>\<open>MetricsProps\<close>: \<^verbatim>\<open>metrics.go\<close>; \<^verbatim>\<open>Telemetry\<close>, \<^verbatim>\<open>TelemetryProps\<close>: \<^verbatim>\<open>pkg/telemetry\<close>; \<^verbatim>\<open>Printing\<close>:
    \<^verbatim>\<open>print.go\<close> and the \<^verbatim>\<open>Str\<close> methods.
  \<^item> \<^verbatim>\<open>Coordination\<close>: \<^verbatim>\<open>pkg/coordinator/coordinator.go\<close>; \<^verbatim>\<open>CoordSpec\<close>: its specification by relations between
    triggers, traces and addresses, and the refinement; \<^verbatim>\<open>CoordProps\<close>: its properties.
  \<^item> \<^verbatim>\<open>Rpc\<close>: the messages of \<^verbatim>\<open>proto/datapb.proto\<close> and bounded channels. \<^verbatim>\<open>CoordServer\<close>: \<^verbatim>\<open>pkg/coordinator/server.go\<close>;
    \<^verbatim>\<open>ServerSpec\<close>: its invariant and how its handlers refine the specification; \<^verbatim>\<open>CoordLog\<close>: \<^verbatim>\<open>logger.go\<close>.
    \<^verbatim>\<open>AgentClient\<close>: \<^verbatim>\<open>pkg/agent/coordinator.go\<close>. \<^verbatim>\<open>ServerProps\<close>: the properties of both.
  \<^item> \<^verbatim>\<open>Framing\<close>: byte encodings and length-prefixed frames over connections that may break at any byte;
    \<^verbatim>\<open>Memory\<close>, \<^verbatim>\<open>ShmApi\<close>: \<^verbatim>\<open>pkg/memory/memory.go\<close>; \<^verbatim>\<open>Reporting\<close>: \<^verbatim>\<open>pkg/agent/reporting.go\<close>; \<^verbatim>\<open>Collector\<close>, \<^verbatim>\<open>CollectorRun\<close>:
    \<^verbatim>\<open>pkg/collector\<close>; \<^verbatim>\<open>Delayer\<close>: \<^verbatim>\<open>delayer.go\<close>; \<^verbatim>\<open>IOProps\<close>: the properties of these.
  \<^item> \<^verbatim>\<open>Connections\<close>, \<^verbatim>\<open>ConnProps\<close>: the four loops that keep a connection, as state machines over the events of
    the network, with the contract \<open>outbox\<close> as a locale; \<^verbatim>\<open>Reconnect\<close>: the breadcrumbs of an agent and the
    server together, through reconnections; \<^verbatim>\<open>System\<close>: the clients of any number of agents, the network and
    the server.
  \<^item> \<^verbatim>\<open>DataLinks\<close>: which triggers and buffers each operation may add to a trace, by the relation \<open>no_new\<close>;
    \<^verbatim>\<open>Process\<close>: an agent process, all goroutines of \<^verbatim>\<open>agent.Run\<close> with the channels between them and the
    applications around them, and its invariant \<open>proc_inv\<close>; \<^verbatim>\<open>World\<close>: any number of processes and the
    coordinator, which the network sees as a state of \<open>System\<close>, and what holds of all together.
  \<^item> \<^verbatim>\<open>Config\<close>: \<^verbatim>\<open>Conf_init\<close> of \<^verbatim>\<open>pkg/util/util.go\<close> and the commands \<^verbatim>\<open>cmd/agent2\<close>, \<^verbatim>\<open>cmd/coordinator\<close>,
    \<^verbatim>\<open>cmd/collector\<close>; \<^verbatim>\<open>Lifecycle\<close>: the goroutines of the \<^verbatim>\<open>Run\<close> functions, shutdown and signals; \<^verbatim>\<open>Drains\<close>:
    \<^verbatim>\<open>cmd/jon\<close>.

  \<^bold>\<open>How the code is modelled.\<close> A struct is a record, an interface with its implementations a datatype; a
  pointer is the key under which the object is registered, and following one that is not registered an
  error. A method is a function from the old to the new state in \<open>res\<close>, with every panic and fatal
  log as an error value. A goroutine with a \<^verbatim>\<open>select\<close> is a function of the event it takes next; \<open>None\<close>
  says that it does not wait for this event. A channel is the list of its messages, with its capacity.
  Identifiers of traces are 64-bit words, numbers on the wire words of their width; counters are
  integers, which is exact below \<open>2 ^ 63\<close>; that of the buffers never exceeds the pool
  (\<open>pool_is_conserved\<close>).

  \<^bold>\<open>What is shown.\<close> For the data: the invariant of the agent's store holds from its creation on, and no
  buffer is lost or duplicated, within an operation, over any run of the agent, through the shared
  memory, over broken connections and in the collector's files, where data can be read back. For the
  triggers: the coordinator refines its specification, server and clients exchange breadcrumbs
  faithfully even when connections are replaced, a reported trigger reaches the agents that hold its
  traces, and none is made up. For the whole system, over every interleaving of applications, agents,
  network and coordinator: only data of traces that were named in a trigger is reported, a trigger is
  known only because an application fired it, each buffer is in one place, and nothing panics. For the
  control: handlers return and do not panic, eviction respects
  capacities, reporting is fair, loops send in order and recover, and processes wait for their
  goroutines and shut down in order. Where the code does not do what it means to, a theorem says so:
  \<open>source_shortcut_skips_trigger\<close>, \<open>forwarded_trigger_lacks_traces\<close>, \<open>dropped_request_misroutes\<close>,
  \<open>GetNextBatch_spins\<close>, \<open>PopMin_equal_keys_diverges\<close>, \<open>reconnecting_leaks\<close>, \<open>drains_give_back\<close>.

  \<^bold>\<open>Bounds and fuel.\<close> \<^verbatim>\<open>PopMin\<close> may recurse without end and is a partial function; it returns on trees
  with distinct keys, which the queues guarantee. Loops over a queue that shrinks get the length of
  the queue as fuel, and the lemmas show that it is never used up. \<^verbatim>\<open>GetNextBatchToReport\<close> polls the
  rate limiters: its fuel is the number of passes, and \<open>GetNextBatch_returns\<close> says how many are enough.

  \<^bold>\<open>Parameters.\<close> The order in which \<^verbatim>\<open>range\<close> visits a map (any permutation); the clock; the token
  buckets of \<^verbatim>\<open>juju/ratelimit\<close>; floating point arithmetic and its formatting in the statistics; what
  connections and files do: how many bytes each call moves and when it fails; the schedules of
  goroutines.

  \<^bold>\<open>Not modelled.\<close> The C client library behind the shared queues and the attachment to it, of which the
  agent only sees the queues; gRPC and the code generated for it (\<^verbatim>\<open>pkg/datapb\<close>): messages are the values
  that are sent, and calls end in any way; the text of log messages. \<^verbatim>\<open>linkedpartialprioritytree.go\<close> is
  commented out as a whole. Memory is not exhausted, and goroutines that share no state but channels
  are interleaved at their channel operations.
\<close>

section \<open>From a trigger at one agent to the traces of another\<close>

lemma trigger_of_mem:
  "is_int32 (Queue_id t) \<Longrightarrow> trigger_of_pb (pb_of_mem t) =
     \<lparr>trigger_id = tid (Queue_id t) (Base_trace_id t), trace_ids = [Trace_id t]\<rparr>"
  by (simp add: trigger_of_pb_def pb_of_mem_def sint_int32_of)

lemma unpack_forwarded: "is_int32 (Queue_id t) \<Longrightarrow> unpack_trigger (pb_of_trigger (trigger_of_pb (pb_of_mem t))) = [t]"
  by (simp add: trigger_of_mem unpack_trigger_def pb_of_trigger_def sint_int32_of)

lemma sp_report_facts:
  "(i, b) \<in> sp_trace_at s \<Longrightarrow> (i, b) \<in> sp_trace_at (sp_report src u s)"
  "(x, i) \<in> sp_member (sp_report src u s) \<longleftrightarrow> (x, i) \<in> sp_member s \<or> x = trigger_id u \<and> i \<in> set (trace_ids u)"
  "(i, b) \<in> sp_trace_at s \<Longrightarrow> i \<in> set (trace_ids u) \<Longrightarrow> (trigger_id u, i) \<notin> sp_member s \<Longrightarrow>
     (trigger_id u, b) \<in> sp_trigger_at (sp_report src u s)"
  by (auto simp: sp_report_defs)

text \<open>A request with single traces: what is new of a trace goes to every agent the trace is known at.\<close>

lemma sp_forwards_reaches:
  assumes "(i, b) \<in> sp_trace_at s" and "b \<noteq> src" and "(x, i) \<notin> sp_member s"
    and "\<lparr>trigger_id = x, trace_ids = [i]\<rparr> \<in> set us" and "\<forall>u\<in>set us. \<exists>j. trace_ids u = [j]"
  shows "\<lparr>trigger_id = x, trace_ids = [i]\<rparr> \<in> set (sp_forwards src us s b)"
  using assms
proof (induction us arbitrary: s)
  case (Cons u us)
  show ?case
  proof (cases "u = \<lparr>trigger_id = x, trace_ids = [i]\<rparr>")
    case True
    then show ?thesis using Cons.prems(1-3) sp_report_facts(3) [of i b s u] by (simp add: is_sent_def)
  next
    case False
    obtain j where "trace_ids u = [j]" using Cons.prems(5) by auto
    then have "(x, i) \<notin> sp_member (sp_report src u s)"
      using False Cons.prems(3) sp_report_facts(2) [of x i src u s] by (cases u) auto
    then show ?thesis using Cons.IH [OF sp_report_facts(1) [OF Cons.prems(1)] Cons.prems(2)] Cons.prems(4,5) False by auto
  qed
qed simp

section \<open>Properties that span components\<close>

text \<open>
  C1. A trigger crosses the system. An agent reports local triggers to the coordinator; if the
  coordinator knows a trace of one of them at another agent and the trigger did not have that trace
  before, a message with the trigger is queued for that agent. Once the message is delivered, the
  trigger is in the agent's channel of remote triggers, if it has room, and handling it marks the trace
  as triggered there, without losing a buffer.
\<close>

theorem trigger_reaches_other_agents:
  assumes "srv_ok cs" and "coord_orders_ok co" and "c_now (cs_c cs) \<le> ck_start ck" and "ck_start ck \<le> ck_expire ck"
    and "sendTriggers ts r = Some req" and "t \<in> set ts" and "\<forall>u\<in>set ts. is_int32 (Queue_id u)"
    and "(Trace_id t, b) \<in> sp_trace_at (spec_of (cs_c cs))" and "b \<noteq> local_addr r"
    and "(tid (Queue_id t) (Base_trace_id t), Trace_id t) \<notin> sp_member (spec_of (cs_c cs))"
    and "length (pending (conn_of cs b)) < 10000" and "length (ac_remotetriggers rb) < 500" and "ag_ok a"
  shows "yields (processTriggersRequest co ck req cs) (\<lambda>cs'. \<exists>out.
     pending (conn_of cs' b) = pending (conn_of cs b) @ [out] \<and>
     (\<exists>batch. ac_remotetriggers (RemoteTrigger (doSend out) rb) = ac_remotetriggers rb @ [batch] \<and> t \<in> set batch \<and>
        yields (processRemoteTriggers bk batch a) (\<lambda>a'. ag_ok a' \<and> owned a' = owned a \<and>
          (\<exists>s. trace_of (ag_dm a') (Trace_id t) = Some s \<and> tid (Queue_id t) (Base_trace_id t) \<in> trigs s))))"
proof -
  let ?us = "map trigger_of_pb (tr_Triggers req)" and ?s = "(spec_of (cs_c cs))\<lparr>sp_now := ck_start ck\<rparr>"
  let ?u = "trigger_of_pb (pb_of_mem t)"
  have r: "tr_Src req = local_addr r" "?us = map (\<lambda>u. trigger_of_pb (pb_of_mem u)) ts"
    using assms(5) by (auto simp: sendTriggers_def split: if_splits)
  have u: "?u = \<lparr>trigger_id = tid (Queue_id t) (Base_trace_id t), trace_ids = [Trace_id t]\<rparr>"
    using assms(6,7) by (simp add: trigger_of_mem)
  have "?u \<in> set (sp_forwards (tr_Src req) ?us ?s b)"
    unfolding u by (rule sp_forwards_reaches) (use assms(6-10) r u in \<open>auto simp: trigger_of_mem\<close>)
  then obtain out where out: "out = sp_forwards (tr_Src req) ?us ?s b" "?u \<in> set out" "out \<noteq> []" by fastforce
  obtain cs' where cs': "processTriggersRequest co ck req cs = Inr cs'" "pending (conn_of cs' b) = pending (conn_of cs b) @ [out]"
    using processTriggersRequest_ok [OF assms(1-4), of req] out(1,3) assms(11)
    by (elim yieldsE) (auto simp: Let_def sent_def sent_pending_def dest!: spec [of _ b])
  let ?batch = "concat (map unpack_trigger (tr_Triggers (doSend out)))"
  have b: "t \<in> set ?batch"
    using out(2) unpack_forwarded [of t] assms(6,7) by (force simp: doSend_def)
  then have "?batch \<noteq> []" by (metis empty_iff list.set(1))
  then have "ac_remotetriggers (RemoteTrigger (doSend out) rb) = ac_remotetriggers rb @ [?batch]"
    using assms(12) unfolding RemoteTrigger_def Let_def by (simp add: try_send_def del: concat_eq_Nil_conv)
  moreover have "yields (processRemoteTriggers bk ?batch a) (\<lambda>a'. ag_ok a' \<and> owned a' = owned a \<and>
      (\<exists>s. trace_of (ag_dm a') (Trace_id t) = Some s \<and> tid (Queue_id t) (Base_trace_id t) \<in> trigs s))"
    using b by (intro yields_mono [OF processRemoteTriggers_ok [OF assms(13)]]) blast
  ultimately show ?thesis unfolding cs'(1) using cs'(2) b by (auto intro!: exI [of _ out] exI [of _ ?batch])
qed

text \<open>The trace 7 is known at the agent B, and the agent A fires a trigger for it.\<close>

definition ex_crumbed :: CoordinatorServer where
  "ex_crumbed = (case processBreadcrumbRequest ex_co (ex_clock 5)
       \<lparr>br_Src = ''C'', br_Addresses = [\<lparr>ba_Id = 0, ba_Addr = ''B''\<rparr>], br_Breadcrumbs = [\<lparr>bc_TraceId = 7, bc_Addrs = [0]\<rparr>]\<rparr> ex_server
     of Inl _ \<Rightarrow> ex_server | Inr (_, cs) \<Rightarrow> cs)"

lemma ex_crumbed_ok: "srv_ok ex_crumbed" "c_now (cs_c ex_crumbed) \<le> ck_start (ex_clock 6)" "ck_start (ex_clock 6) \<le> ck_expire (ex_clock 6)"
  "(7, ''B'') \<in> sp_trace_at (spec_of (cs_c ex_crumbed))" "sp_member (spec_of (cs_c ex_crumbed)) = {}"
  "length (pending (conn_of ex_crumbed ''B'')) < 10000"
proof -
  show "srv_ok ex_crumbed"
    using processBreadcrumbRequest_ok [OF ex_server_ok ex_co_ok ex_server_clock, of
        "\<lparr>br_Src = ''C'', br_Addresses = [\<lparr>ba_Id = 0, ba_Addr = ''B''\<rparr>], br_Breadcrumbs = [\<lparr>bc_TraceId = 7, bc_Addrs = [0]\<rparr>]\<rparr>"]
    by (elim yieldsE) (auto simp: ex_crumbed_def split: sum.splits)
  have "c_now (cs_c ex_crumbed) = 5" by code_simp
  then show "c_now (cs_c ex_crumbed) \<le> ck_start (ex_clock 6)" "ck_start (ex_clock 6) \<le> ck_expire (ex_clock 6)" by (simp_all add: ex_clock_def)
  have "map_option ct_known_at (ctrace_of (cs_c ex_crumbed) 7) = Some [''B'', ''C'']" by code_simp
  then show "(7, ''B'') \<in> sp_trace_at (spec_of (cs_c ex_crumbed))" by (auto simp: spec_of_def in_rel)
  have "c_triggers (cs_c ex_crumbed) = []" by code_simp
  then show "sp_member (spec_of (cs_c ex_crumbed)) = {}" by (auto simp: spec_of_def in_rel trig_of_def)
  have "length (pending (conn_of ex_crumbed ''B'')) = 0" by code_simp
  then show "length (pending (conn_of ex_crumbed ''B'')) < 10000" by simp
qed

theorem trigger_reaches_other_agents_witness:
  "yields (processTriggersRequest ex_co (ex_clock 6)
       \<lparr>tr_Src = ''A:1'', tr_Triggers = [pb_of_mem \<lparr>Queue_id = 3, Base_trace_id = 7, Trace_id = 7\<rparr>]\<rparr> ex_crumbed)
     (\<lambda>cs'. \<exists>out. pending (conn_of cs' ''B'') = pending (conn_of ex_crumbed ''B'') @ [out])"
proof -
  let ?t = "\<lparr>Queue_id = 3, Base_trace_id = 7, Trace_id = 7\<rparr>"
  let ?r = "InitCoordinator True ''A'' ''1'' ''C:2''" and ?b = "InitCoordinator True ''B'' ''1'' ''C:2''"
  have s: "sendTriggers [?t] ?r = Some \<lparr>tr_Src = ''A:1'', tr_Triggers = [pb_of_mem ?t]\<rparr>"
    by (simp add: sendTriggers_def InitCoordinator_def)
  have i: "\<forall>u\<in>set [?t]. is_int32 (Queue_id u)" by (simp add: is_int32_def)
  show ?thesis
    using trigger_reaches_other_agents [OF ex_crumbed_ok(1) ex_co_ok ex_crumbed_ok(2,3) s _ i, of ?t "''B''" ?b ex_agent ex_buckets]
      ex_crumbed_ok(4-6) ex_agent_ok
    by (auto simp: InitCoordinator_def elim!: yieldsE)
qed

text \<open>
  C7. Data arrives in the collector's file. However the connection splits reads and writes, as long as
  it does not fail, the buffers an agent has pending are what can be read back from the file, in order
  and under the agent's address, without those too short to hold a header; and every batch goes back
  to the pool.
\<close>

theorem data_reaches_file:
  assumes "w_good conn" and "w_out conn = []" and "rp_enabled r" and "length (agent_addr r) \<le> 1024 * 1024 * 100"
    and "list_all2 (\<lambda>b data. buffer_data p b = Inr data) (concat (rp_data r)) datas"
    and "\<forall>d\<in>set datas. length d \<le> 1024 * 1024 * 100" and "w_good f" and "w_out f = []"
  shows "\<exists>r' conn'. ReportData bk clk p r conn available = Inr (None, r', conn', available @ filter (\<lambda>b. b \<noteq> []) (rp_data r)) \<and>
     (\<forall>c. r_good c \<longrightarrow> r_in c = w_out conn' \<longrightarrow> (\<exists>bufs. handleConnection c [] = Inr (EndOfFile, bufs) \<and>
        (\<forall>g. f_good g \<longrightarrow> r_in g = w_out (snd (fileWriter bufs 0 f)) \<longrightarrow>
           read_all (length bufs) g = map (\<lambda>d. (agent_addr r, d)) (filter (\<lambda>d. 32 \<le> length d) datas))))"
proof -
  let ?bufs = "map (received (agent_addr r)) (filter (\<lambda>d. 32 \<le> length d) datas)"
  have "length (agent_addr r) < 2 ^ 32" using assms(4) by simp
  note a = ReportData_arrives [OF assms(1-3) this assms(5), of bk clk available "[]"]
  have "read_all (length ?bufs) g = map (\<lambda>d. (agent_addr r, d)) (filter (\<lambda>d. 32 \<le> length d) datas)"
    if "f_good g" "r_in g = w_out (snd (fileWriter ?bufs 0 f))" for g
  proof -
    have i: "r_in g = concat (map (\<lambda>b. frame (bytes_of (source_agent b)) @ frame (rb_buffer b)) ?bufs)"
      using fileWriter_good [OF assms(7), of ?bufs 0] assms(8) that(2) by simp
    have l: "\<forall>b\<in>set ?bufs. length (source_agent b) \<le> 1024 * 1024 * 100 \<and> length (rb_buffer b) \<le> 1024 * 1024 * 100"
      using assms(4,6) by (auto simp: received_def)
    show ?thesis using read_all_good [OF that(1) i l] by (simp add: received_def comp_def)
  qed
  then show ?thesis using a by auto
qed

theorem data_reaches_file_witness:
  "\<exists>r' conn'. ReportData \<lparr>bk_new = \<lambda>_ _. (), bk_available = \<lambda>_ _. 1, bk_take = \<lambda>_ _ _. ()\<rparr> (\<lambda>_. 0) ex_pool ex_reporting ex_wconn []
     = Inr (None, r', conn', [[0], [1]])"
proof -
  have "\<forall>d\<in>set ex_datas. length d \<le> 1024 * 1024 * 100" by (simp add: ex_datas_def ex_pool_def)
  moreover have "rp_enabled ex_reporting" "rp_data ex_reporting = [[0], [1]]" "length (agent_addr ex_reporting) \<le> 1024 * 1024 * 100"
    by (simp_all add: ex_reporting_def InitReporting_def Let_def)
  ultimately show ?thesis
    using data_reaches_file [OF ex_wconn_good, of ex_reporting ex_pool ex_datas ex_wconn
        "\<lparr>bk_new = \<lambda>_ _. (), bk_available = \<lambda>_ _. 1, bk_take = \<lambda>_ _ _. ()\<rparr>" "\<lambda>_. 0" "[]"] ex_pool_data ex_wconn_good
    by auto
qed

end
